(* ===== verification/Prelude.thy ===== *)
theory Prelude
  imports Main "HOL-Library.Word" "HOL-Library.Char_ord" "HOL-Library.List_Lexorder"
begin

text \<open>
  Shared vocabulary of the development.

  \<^item> \<open>'e + 'a\<close> stands for Rust's \<open>Result\<close>: \<open>Inl\<close> is \<open>Err\<close>, \<open>Inr\<close> is \<open>Ok\<close>. \<open>rbind\<close> is the
    \<open>?\<close> operator, \<open>rfold\<close> a \<open>for\<close> loop whose body may leave with \<open>?\<close>, \<open>rloop\<close> one whose body
    may also \<open>return\<close>, \<open>rmap\<close> is
    \<open>iter().map(f).collect::<Result<Vec<_>, _>>()\<close>.
  \<^item> \<open>bmap\<close> is \<open>BTreeMap\<close>: an association list in strictly increasing key order, so that
    iteration order is that of the code. \<open>HashMap\<close>s whose iteration order the code never
    observes are the same type.
  \<^item> A Rust \<open>String\<close>, \<open>&str\<close>, \<open>Vec<u8>\<close> or \<open>&[u8]\<close> is a list of bytes, Isabelle's \<open>string\<close>
    (a \<open>char\<close> is an 8-bit value); \<open>len\<close> is \<open>length\<close> and the order of strings is the
    lexicographic order of their bytes.
  \<^item> \<open>u64\<close> is a 64-bit word, \<open>usize\<close> a \<open>nat\<close>.
\<close>

section \<open>Collections of simplification rules\<close>

named_theorems result_simps \<open>equations and inversion rules of the result operations\<close>
named_theorems bmap_simps \<open>equations of the ordered maps\<close>

section \<open>Types\<close>

type_synonym u64 = "64 word"
type_synonym bytes = string
type_synonym ('k, 'v) bmap = "('k \<times> 'v) list"

section \<open>Results\<close>

fun rbind :: "'e + 'a \<Rightarrow> ('a \<Rightarrow> 'e + 'b) \<Rightarrow> 'e + 'b" where
  "rbind (Inl e) f = Inl e"
| "rbind (Inr x) f = f x"

definition require :: "bool \<Rightarrow> 'e \<Rightarrow> 'e + unit" where
  "require b e = (if b then Inr () else Inl e)"

fun rfold :: "('s \<Rightarrow> 'a \<Rightarrow> 'e + 's) \<Rightarrow> 's \<Rightarrow> 'a list \<Rightarrow> 'e + 's" where
  "rfold f s [] = Inr s"
| "rfold f s (x # xs) = rbind (f s x) (\<lambda>t. rfold f t xs)"

fun rmap :: "('a \<Rightarrow> 'e + 'b) \<Rightarrow> 'a list \<Rightarrow> 'e + 'b list" where
  "rmap f [] = Inr []"
| "rmap f (x # xs) = rbind (f x) (\<lambda>y. rbind (rmap f xs) (\<lambda>ys. Inr (y # ys)))"

fun option_ok :: "'e \<Rightarrow> 'a option \<Rightarrow> 'e + 'a" where
  "option_ok e None = Inl e"
| "option_ok e (Some x) = Inr x"

text \<open>
  A \<open>for\<close> loop whose body may leave with \<open>?\<close> (\<open>Inl\<close>), with \<open>return Ok(r)\<close> (\<open>Inr (Inl r)\<close>) or go on
  with a new state (\<open>Inr (Inr s)\<close>).
\<close>

fun rloop :: "('s \<Rightarrow> 'a \<Rightarrow> 'e + ('r + 's)) \<Rightarrow> 's \<Rightarrow> 'a list \<Rightarrow> 'e + ('r + 's)" where
  "rloop f s [] = Inr (Inr s)"
| "rloop f s (x # xs) = rbind (f s x) (\<lambda>o1. case o1 of Inl r \<Rightarrow> Inr (Inl r) | Inr t \<Rightarrow> rloop f t xs)"

text \<open>
  Besides \<open>Err\<close>, code may panic; a loop that is cut by a step budget may exhaust it. Where either
  is possible the error type is \<open>'e fault\<close>, and that neither happens is proved.
\<close>

datatype 'e fault = Raised 'e | Panicked | OutOfFuel

fun raise :: "'e + 'a \<Rightarrow> 'e fault + 'a" where
  "raise (Inl e) = Inl (Raised e)"
| "raise (Inr x) = Inr x"

lemma rbind_cong [fundef_cong]:
  "m = m' \<Longrightarrow> (\<And>x. m' = Inr x \<Longrightarrow> f x = f' x) \<Longrightarrow> rbind m f = rbind m' f'"
  by (cases m') auto

lemma rfold_cong [fundef_cong]:
  "s = s' \<Longrightarrow> xs = xs' \<Longrightarrow> (\<And>t x. x \<in> set xs' \<Longrightarrow> f t x = f' t x) \<Longrightarrow> rfold f s xs = rfold f' s' xs'"
proof (induction xs' arbitrary: xs s s')
  case (Cons x xs')
  then show ?case by (cases "f' s' x") auto
qed simp

lemma rmap_cong [fundef_cong]:
  "xs = xs' \<Longrightarrow> (\<And>x. x \<in> set xs' \<Longrightarrow> f x = f' x) \<Longrightarrow> rmap f xs = rmap f' xs'"
  by (induction xs' arbitrary: xs) auto

lemma rbind_Inr_iff [result_simps]: "rbind m f = Inr y \<longleftrightarrow> (\<exists>x. m = Inr x \<and> f x = Inr y)"
  by (cases m) auto

lemma rbind_Inl_iff [result_simps]:
  "rbind m f = Inl e \<longleftrightarrow> m = Inl e \<or> (\<exists>x. m = Inr x \<and> f x = Inl e)"
  by (cases m) auto

lemma if_Inl_Inr [result_simps]: "(if b then Inl x else m) = Inr y \<longleftrightarrow> \<not> b \<and> m = Inr y"
  by simp

lemma require_Inr [result_simps]: "require b e = Inr u \<longleftrightarrow> b"
  by (simp add: require_def)

lemma require_Inl [result_simps]: "require b e = Inl x \<longleftrightarrow> \<not> b \<and> x = e"
  by (auto simp: require_def)

lemma require_True [simp]: "require True e = Inr ()"
  by (simp add: require_def)

lemma require_False [simp]: "require False e = Inl e"
  by (simp add: require_def)

lemma option_ok_Inr [result_simps]: "option_ok e m = Inr x \<longleftrightarrow> m = Some x"
  by (cases m) auto

lemma option_ok_Inl [result_simps]: "option_ok e m = Inl x \<longleftrightarrow> m = None \<and> x = e"
  by (cases m) auto

lemma rfold_append: "rfold f s (xs @ ys) = rbind (rfold f s xs) (\<lambda>t. rfold f t ys)"
proof (induction xs arbitrary: s)
  case (Cons x xs)
  then show ?case by (cases "f s x") auto
qed simp

lemma rfold_invariant:
  assumes "rfold f s xs = Inr t" and "P s"
    and "\<And>s x s'. x \<in> set xs \<Longrightarrow> P s \<Longrightarrow> f s x = Inr s' \<Longrightarrow> P s'"
  shows "P t"
  using assms
proof (induction xs arbitrary: s)
  case (Cons x xs)
  from Cons.prems(1) obtain s1 where s1: "f s x = Inr s1" "rfold f s1 xs = Inr t"
    by (auto simp: result_simps)
  have "P s1"
    by (rule Cons.prems(3) [OF _ Cons.prems(2) s1(1)]) simp
  then show ?case
    by (rule Cons.IH [OF s1(2)]) (rule Cons.prems(3), auto)
qed simp

lemma rfold_reaches:
  assumes "rfold f s xs = Inr t" and "x \<in> set xs"
    and "\<And>s y s'. f s y = Inr s' \<Longrightarrow> Q s \<Longrightarrow> Q s'" and "\<And>s s'. f s x = Inr s' \<Longrightarrow> Q s'"
  shows "Q t"
proof -
  obtain ys zs where "xs = ys @ x # zs" using assms(2) by (auto simp: in_set_conv_decomp)
  then obtain s1 s2 where "f s1 x = Inr s2" "rfold f s2 zs = Inr t"
    using assms(1) by (auto simp: rfold_append result_simps)
  then show ?thesis using assms(3,4) by (metis rfold_invariant)
qed

lemma rfold_total:
  assumes "P s" and "\<And>s x. x \<in> set xs \<Longrightarrow> P s \<Longrightarrow> \<exists>t. f s x = Inr t \<and> P t"
  shows "\<exists>t. rfold f s xs = Inr t \<and> P t"
  using assms
proof (induction xs arbitrary: s)
  case (Cons x xs)
  obtain t where "f s x = Inr t" "P t"
    using Cons.prems(2) [of x s] Cons.prems(1) by auto
  with Cons.IH [of t] Cons.prems(2) show ?case by auto
qed simp

lemma rfold_progress:
  assumes "P {} s" and "\<And>X s x. x \<in> set xs \<Longrightarrow> P X s \<Longrightarrow> \<exists>t. f s x = Inr t \<and> P (insert x X) t"
  shows "\<exists>t. rfold f s xs = Inr t \<and> P (set xs) t"
proof -
  have "\<exists>t. rfold f s xs = Inr t \<and> P (X \<union> set xs) t" if "P X s" for X s
    using that assms(2)
  proof (induction xs arbitrary: X s)
    case (Cons x xs)
    obtain t where t: "f s x = Inr t" "P (insert x X) t" using Cons.prems by force
    with Cons.IH [of "insert x X" t] Cons.prems(2) show ?case by auto
  qed simp
  from this [OF assms(1)] show ?thesis by simp
qed

lemma rloop_Cons_continue:
  "rloop f s (x # xs) = Inr (Inr t) \<longleftrightarrow> (\<exists>u. f s x = Inr (Inr u) \<and> rloop f u xs = Inr (Inr t))"
  by (auto simp: result_simps split: sum.split_asm)

lemma rloop_Cons_return:
  "rloop f s (x # xs) = Inr (Inl r) \<longleftrightarrow>
     f s x = Inr (Inl r) \<or> (\<exists>u. f s x = Inr (Inr u) \<and> rloop f u xs = Inr (Inl r))"
  by (auto simp: result_simps split: sum.split_asm)

lemma rloop_continue:
  assumes "rloop f s xs = Inr (Inr t)" and "x \<in> set xs"
  shows "\<exists>u u'. f u x = Inr (Inr u')"
  using assms
proof (induction xs arbitrary: s)
  case (Cons y ys)
  then show ?case unfolding rloop_Cons_continue by auto
qed simp

lemma rloop_return:
  assumes "rloop f s xs = Inr (Inl r)"
  shows "\<exists>u x. x \<in> set xs \<and> f u x = Inr (Inl r)"
  using assms
proof (induction xs arbitrary: s)
  case (Cons y ys)
  then show ?case unfolding rloop_Cons_return by (metis list.set_intros)
qed simp

lemma rloop_pass:
  "(\<And>u x. x \<in> set xs \<Longrightarrow> f u x = Inr (Inr (h u))) \<Longrightarrow> rloop f s xs = Inr (Inr ((h ^^ length xs) s))"
  by (induction xs arbitrary: s) (auto simp: funpow_swap1)

lemma rloop_unit:
  assumes "\<And>x. x \<in> set xs \<Longrightarrow> f () x = (if P x then Inr (Inr ()) else Inr (Inl (r x)))"
  shows "rloop f () xs = (case find (\<lambda>x. \<not> P x) xs of None \<Rightarrow> Inr (Inr ()) | Some x \<Rightarrow> Inr (Inl (r x)))"
  using assms by (induction xs) auto

lemma rloop_counts:
  assumes "rloop f n xs = Inr (Inr m)" and "\<And>u x u'. x \<in> set xs \<Longrightarrow> f u x = Inr (Inr u') \<Longrightarrow> u' = Suc u"
  shows "m = n + length xs"
  using assms
proof (induction xs arbitrary: n)
  case (Cons x xs)
  from Cons.prems(1) obtain u where u: "f n x = Inr (Inr u)" "rloop f u xs = Inr (Inr m)"
    unfolding rloop_Cons_continue by blast
  have "m = u + length xs" by (rule Cons.IH [OF u(2)]) (rule Cons.prems(2), simp_all)
  moreover have "u = Suc n" using Cons.prems(2) [OF _ u(1)] by simp
  ultimately show ?case by simp
qed simp

lemma raise_Inr [result_simps]: "raise m = Inr x \<longleftrightarrow> m = Inr x"
  by (cases m) auto

lemma raise_Inl [result_simps]: "raise m = Inl f \<longleftrightarrow> (\<exists>e. m = Inl e \<and> f = Raised e)"
  by (cases m) auto

lemma rmap_Inr_iff: "rmap f xs = Inr ys \<longleftrightarrow> list_all2 (\<lambda>x y. f x = Inr y) xs ys"
proof (induction xs arbitrary: ys)
  case Nil
  show ?case by (cases ys) auto
next
  case (Cons x xs)
  then show ?case by (cases ys) (auto simp: result_simps)
qed

lemma rmap_length: "rmap f xs = Inr ys \<Longrightarrow> length ys = length xs"
  by (simp add: rmap_Inr_iff list_all2_lengthD)

lemma rfold_unit_Inr: "rfold (\<lambda>_. f) () xs = Inr u \<longleftrightarrow> (\<forall>x \<in> set xs. f x = Inr ())"
  by (induction xs) (auto simp: result_simps)

lemma rmap_map_eq:
  "rmap f xs = Inr ys \<Longrightarrow> (\<And>x y. f x = Inr y \<Longrightarrow> h y = g x) \<Longrightarrow> map h ys = map g xs"
  by (induction xs arbitrary: ys) (auto simp: result_simps)

lemma filter_length_full: "length (filter P xs) = length xs \<longleftrightarrow> (\<forall>x \<in> set xs. P x)"
  by (metis filter_id_conv length_filter_less order_less_irrefl)

lemma rmap_total: "(\<And>x. x \<in> set xs \<Longrightarrow> \<exists>y. f x = Inr y) \<Longrightarrow> \<exists>ys. rmap f xs = Inr ys"
proof (induction xs)
  case (Cons x xs)
  then obtain y ys where "f x = Inr y" "rmap f xs = Inr ys" by fastforce
  then show ?case by simp
qed simp

section \<open>Ordered maps\<close>

definition bm_wf :: "('k::linorder, 'v) bmap \<Rightarrow> bool" where
  "bm_wf m \<longleftrightarrow> sorted_wrt (<) (map fst m)"

definition bm_get :: "('k, 'v) bmap \<Rightarrow> 'k \<Rightarrow> 'v option" where
  "bm_get m k = map_of m k"

fun bm_insert :: "'k::linorder \<Rightarrow> 'v \<Rightarrow> ('k, 'v) bmap \<Rightarrow> ('k, 'v) bmap" where
  "bm_insert k v [] = [(k, v)]"
| "bm_insert k v (e # m) =
     (if fst e < k then e # bm_insert k v m
      else if fst e = k then (k, v) # m else (k, v) # e # m)"

definition bm_remove :: "'k \<Rightarrow> ('k, 'v) bmap \<Rightarrow> ('k, 'v) bmap" where
  "bm_remove k m = filter (\<lambda>e. fst e \<noteq> k) m"

definition bm_has :: "('k, 'v) bmap \<Rightarrow> 'k \<Rightarrow> bool" where
  "bm_has m k \<longleftrightarrow> k \<in> fst ` set m"

abbreviation bm_keys :: "('k, 'v) bmap \<Rightarrow> 'k list" where
  "bm_keys m \<equiv> map fst m"

abbreviation bm_values :: "('k, 'v) bmap \<Rightarrow> 'v list" where
  "bm_values m \<equiv> map snd m"

lemma bm_get_Nil [simp, bmap_simps]: "bm_get [] k = None"
  by (simp add: bm_get_def)

lemma bm_get_empty: "bm_get [] = Map.empty"
  by (simp add: fun_eq_iff)

lemma bm_get_Cons [bmap_simps]: "bm_get ((a, v) # m) k = (if k = a then Some v else bm_get m k)"
  by (simp add: bm_get_def)

lemma bm_has_get: "bm_has m k \<longleftrightarrow> bm_get m k \<noteq> None"
  by (simp add: bm_has_def bm_get_def map_of_eq_None_iff)

lemma set_keys_insert: "fst ` set (bm_insert k v m) = insert k (fst ` set m)"
  by (induction m) auto

lemma bm_wf_Nil [simp]: "bm_wf []"
  by (simp add: bm_wf_def)

lemma bm_wf_Cons: "bm_wf (e # m) \<longleftrightarrow> (\<forall>k \<in> fst ` set m. fst e < k) \<and> bm_wf m"
  by (auto simp: bm_wf_def)

lemma bm_wf_insert [simp, intro]: "bm_wf m \<Longrightarrow> bm_wf (bm_insert k v m)"
proof (induction m)
  case (Cons e m)
  then show ?case
    using set_keys_insert [of k v m] by (fastforce simp: bm_wf_Cons)
qed (simp add: bm_wf_def)

lemma bm_get_insert [simp, bmap_simps]:
  "bm_get (bm_insert k v m) = (bm_get m)(k \<mapsto> v)"
  by (induction m) (auto simp: bm_get_def fun_eq_iff)

lemma bm_has_insert [simp]: "bm_has (bm_insert k v m) a \<longleftrightarrow> a = k \<or> bm_has m a"
  by (simp add: bm_has_def set_keys_insert)

lemma bm_wf_distinct: "bm_wf m \<Longrightarrow> distinct (bm_keys m)"
  by (simp add: bm_wf_def strict_sorted_iff)

lemma bm_wf_filter: "bm_wf m \<Longrightarrow> bm_wf (filter P m)"
  unfolding bm_wf_def by (induction m) auto

lemma bm_wf_remove [simp, intro]: "bm_wf m \<Longrightarrow> bm_wf (bm_remove k m)"
  by (simp add: bm_remove_def bm_wf_filter)

lemma bm_get_remove [simp, bmap_simps]: "bm_get (bm_remove k m) = (bm_get m)(k := None)"
  by (induction m) (auto simp: bm_get_def bm_remove_def fun_eq_iff)

lemma bm_get_mem: "bm_wf m \<Longrightarrow> bm_get m k = Some v \<longleftrightarrow> (k, v) \<in> set m"
  by (simp add: bm_get_def bm_wf_distinct)

lemma set_bm_insert_subset: "set (bm_insert k v m) \<subseteq> insert (k, v) (set m)"
  by (induction m) auto

lemma bm_insert_snoc: "(\<And>a. a \<in> fst ` set m \<Longrightarrow> a < k) \<Longrightarrow> bm_insert k v m = m @ [(k, v)]"
  by (induction m) auto

text \<open>A well-formed map is determined by its lookups.\<close>

lemma bm_ext:
  assumes "bm_wf m" and "bm_wf m'" and "bm_get m = bm_get m'"
  shows "m = m'"
proof -
  have eq: "set m = set m'"
    using assms by (auto simp: bm_get_mem [symmetric])
  then have "map fst m = map fst m'"
    using assms(1,2) unfolding bm_wf_def by (intro strict_sorted_equal) auto
  with eq show ?thesis
    using bm_wf_distinct [OF assms(1)] by (metis distinct_map map_inj_on inf_sup_aci(5) sup.idem)
qed

section \<open>Strings\<close>

text \<open>
  \<open>s.trim().is_empty()\<close>: every character of \<open>s\<close> is Unicode white space, here over the UTF-8
  bytes: the ASCII spaces, U+0085 and U+00A0 (two bytes), U+1680, U+2000..U+200A, U+2028,
  U+2029, U+202F, U+205F and U+3000 (three bytes).
\<close>

abbreviation code_of :: "char \<Rightarrow> nat" where
  "code_of c \<equiv> of_char c"

definition ws1 :: "char \<Rightarrow> bool" where
  "ws1 a \<longleftrightarrow> 9 \<le> code_of a \<and> code_of a \<le> 13 \<or> code_of a = 32"

definition ws2 :: "char \<Rightarrow> char \<Rightarrow> bool" where
  "ws2 a b \<longleftrightarrow> code_of a = 0xC2 \<and> (code_of b = 0x85 \<or> code_of b = 0xA0)"

definition ws3 :: "char \<Rightarrow> char \<Rightarrow> char \<Rightarrow> bool" where
  "ws3 a b c \<longleftrightarrow>
     code_of a = 0xE1 \<and> code_of b = 0x9A \<and> code_of c = 0x80
     \<or> code_of a = 0xE2 \<and> code_of b = 0x80
         \<and> (0x80 \<le> code_of c \<and> code_of c \<le> 0x8A \<or> code_of c = 0xA8 \<or> code_of c = 0xA9
            \<or> code_of c = 0xAF)
     \<or> code_of a = 0xE2 \<and> code_of b = 0x81 \<and> code_of c = 0x9F
     \<or> code_of a = 0xE3 \<and> code_of b = 0x80 \<and> code_of c = 0x80"

fun is_blank :: "string \<Rightarrow> bool" where
  "is_blank [] = True"
| "is_blank [a] = ws1 a"
| "is_blank [a, b] = (ws1 a \<and> is_blank [b] \<or> ws2 a b)"
| "is_blank (a # b # c # s) =
     (ws1 a \<and> is_blank (b # c # s) \<or> ws2 a b \<and> is_blank (c # s) \<or> ws3 a b c \<and> is_blank s)"

text \<open>The bytes of a blank string are white space or belong to a multi-byte character.\<close>

lemma ws_chars:
  "ws1 a \<Longrightarrow> code_of a \<le> 32" "ws2 a b \<Longrightarrow> 128 \<le> code_of a \<and> 128 \<le> code_of b"
  "ws3 a b c \<Longrightarrow> 128 \<le> code_of a \<and> 128 \<le> code_of b \<and> 128 \<le> code_of c"
  unfolding ws1_def ws2_def ws3_def by linarith+

lemma blank_chars: "is_blank s \<Longrightarrow> c \<in> set s \<Longrightarrow> code_of c \<le> 32 \<or> 128 \<le> code_of c"
proof (induction s rule: is_blank.induct)
  case (2 a)
  then have "ws1 a" "c = a" by simp_all
  then show ?case using ws_chars(1) by blast
next
  case (3 a b)
  from 3(2) have "ws1 a \<and> is_blank [b] \<or> ws2 a b" by (simp only: is_blank.simps)
  then show ?case
    using 3(1,3) ws_chars(1) [of a] ws_chars(2) [of a b] by (metis set_ConsD list.set(1) empty_iff list.set_intros(1))
next
  case (4 a b d s)
  from 4(4) consider "ws1 a" "is_blank (b # d # s)" | "ws2 a b" "is_blank (d # s)" | "ws3 a b d" "is_blank s"
    unfolding is_blank.simps by blast
  then show ?case
  proof cases
    case 1
    then show ?thesis using 4(1,5) ws_chars(1) by (metis set_ConsD)
  next
    case 2
    then show ?thesis using 4(2,5) ws_chars(2) by (metis set_ConsD)
  next
    case 3
    then show ?thesis using 4(3,5) ws_chars(3) by (metis set_ConsD)
  qed
qed simp

definition starts_with :: "string \<Rightarrow> string \<Rightarrow> bool" where
  "starts_with s p \<longleftrightarrow> take (length p) s = p"

text \<open>\<open>format!("{n}")\<close> of an unsigned integer.\<close>

fun show_nat :: "nat \<Rightarrow> string" where
  "show_nat n = (if n < 10 then [char_of (n + 48)] else show_nat (n div 10) @ [char_of (n mod 10 + 48)])"

declare show_nat.simps [simp del]

definition read_digits :: "string \<Rightarrow> nat" where
  "read_digits s = foldl (\<lambda>n c. 10 * n + (code_of c - 48)) 0 s"

lemma read_show_nat: "read_digits (show_nat n) = n"
proof (induction n rule: show_nat.induct)
  case (1 n)
  show ?case
  proof (cases "n < 10")
    case True
    then show ?thesis by (simp add: show_nat.simps [of n] read_digits_def)
  next
    case False
    with 1 show ?thesis by (simp add: show_nat.simps [of n] read_digits_def)
  qed
qed

lemma show_nat_inj [simp]: "show_nat m = show_nat n \<longleftrightarrow> m = n"
  by (metis read_show_nat)

lemma show_nat_digits: "c \<in> set (show_nat n) \<Longrightarrow> 48 \<le> code_of c \<and> code_of c \<le> 57"
proof (induction n rule: show_nat.induct)
  case (1 n)
  then show ?case by (cases "n < 10") (auto simp: show_nat.simps [of n])
qed

text \<open>\<open>xs.join(sep)\<close>.\<close>

fun join :: "string \<Rightarrow> string list \<Rightarrow> string" where
  "join sep [] = []"
| "join sep [x] = x"
| "join sep (x # y # xs) = x @ sep @ join sep (y # xs)"

section \<open>A loop over a list, its invariant and its early exits\<close>

text \<open>
  A machine that consumes a list and may stop with an error: a step and a predicate that every
  successful step keeps. The lemmas carry the predicate over whole runs; the components
  interpret the locale on their own steps.
\<close>

locale checked_loop =
  fixes step :: "'s \<Rightarrow> 'a \<Rightarrow> 'e + 's" and inv :: "'s \<Rightarrow> bool"
  assumes step_inv: "inv s \<Longrightarrow> step s x = Inr t \<Longrightarrow> inv t"
begin

lemma run_inv: "rfold step s xs = Inr t \<Longrightarrow> inv s \<Longrightarrow> inv t"
  by (rule rfold_invariant) (auto intro: step_inv)

lemma run_prefix_inv: "rfold step s (xs @ ys) = Inr t \<Longrightarrow> inv s \<Longrightarrow> \<exists>u. rfold step s xs = Inr u \<and> inv u"
  by (auto simp: rfold_append result_simps intro: run_inv)

end

section \<open>Maps behind an interface\<close>

text \<open>
  What the components rely on of a map: lookups after an insertion and the invariant. The
  client lemmas are about the two loops the code runs over maps: one that merges a new value
  into the stored one, and one that overwrites.
\<close>

locale keyed_map =
  fixes empty :: "'m" and get :: "'m \<Rightarrow> 'k \<Rightarrow> 'v option" and put :: "'k \<Rightarrow> 'v \<Rightarrow> 'm \<Rightarrow> 'm"
    and wf :: "'m \<Rightarrow> bool"
  assumes get_empty: "get empty k = None"
    and get_put: "get (put k v m) = (get m)(k \<mapsto> v)"
    and wf_empty: "wf empty"
    and wf_put: "wf m \<Longrightarrow> wf (put k v m)"
begin

definition merge_in :: "('v \<Rightarrow> 'v \<Rightarrow> 'v) \<Rightarrow> 'm \<Rightarrow> 'k \<times> 'v \<Rightarrow> 'm" where
  "merge_in f m kv = put (fst kv) (case get m (fst kv) of None \<Rightarrow> snd kv | Some w \<Rightarrow> f w (snd kv)) m"

lemma wf_merge_fold: "wf m \<Longrightarrow> wf (foldl (merge_in f) m kvs)"
  by (induction kvs arbitrary: m) (auto simp: merge_in_def wf_put)

lemma get_merge_fold:
  "get (foldl (merge_in f) m kvs) k =
     (case get m k of
        Some w \<Rightarrow> Some (foldl f w (map snd (filter (\<lambda>kv. fst kv = k) kvs)))
      | None \<Rightarrow> (case map snd (filter (\<lambda>kv. fst kv = k) kvs) of
                  [] \<Rightarrow> None | v # vs \<Rightarrow> Some (foldl f v vs)))"
proof (induction kvs arbitrary: m)
  case (Cons kv kvs)
  then show ?case
    by (cases "get m (fst kv)") (auto simp: merge_in_def get_put split: option.splits list.splits)
qed (simp split: option.splits)

lemma wf_put_fold: "wf m \<Longrightarrow> wf (fold (\<lambda>kv. put (fst kv) (snd kv)) kvs m)"
  by (induction kvs arbitrary: m) (auto simp: wf_put)

lemma get_put_fold:
  "get (fold (\<lambda>kv. put (fst kv) (snd kv)) kvs m) k =
     (case map_of (rev kvs) k of Some v \<Rightarrow> Some v | None \<Rightarrow> get m k)"
  by (induction kvs arbitrary: m) (auto simp: get_put map_of_append split: option.splits)

end

interpretation bm: keyed_map "[]" bm_get bm_insert bm_wf
  by unfold_locales simp_all

end
