(* ===== verification/Executed_Composition.thy ===== *)
theory Executed_Composition
  imports Prelude
begin

text \<open>
  The finite executed-composition experiment, \<open>src/src/executed_composition/mod.rs\<close>: the
  generated transition table, the host \<open>execute\<close> that performs requests against two sinks,
  and the independent reader \<open>check\<close> that reconstructs the effects of a recorded run.
  A Rust panic (a failed \<open>assert!\<close>, an \<open>unwrap\<close> of \<open>None\<close>, an index out of range) is the
  value \<open>None\<close>; \<open>check\<close>'s early \<open>return report(..)\<close> is \<open>Inl\<close> inside its loop.
  The theorems show that the table is the intended closed form, that neither function can
  panic on a well-formed input, that the guard keeps every finite run safe, that the checker
  accepts every run the host executes, and that its verdict on an arbitrary record is sound
  with respect to the sinks.
\<close>

section \<open>Data\<close>

datatype channel = Public | Vault
datatype payload = Fragment | Summary
datatype ec_decision = EC_Permit | EC_Deny | EC_Review
datatype knowledge = Safe | Violated | Inconclusive | Invalid

record grant =
  g_principal :: string
  g_channel :: channel
  g_payload :: payload
  g_task :: string

record event =
  e_index :: nat
  e_principal :: "string option"
  e_channel :: "channel option"
  e_payload :: "payload option"
  e_authenticated :: "bool option"
  e_local :: ec_decision
  e_decision :: ec_decision
  e_effect :: "string option"

record run =
  r_format :: string
  r_id :: string
  r_policy :: string
  r_guarded :: bool
  r_complete :: bool
  r_principals :: "(string \<times> string) option"
  r_grants :: "grant list option"
  r_events :: "event list"
  r_public_sink :: "string list option"
  r_vault_sink :: "string list option"

record report =
  rp_id :: string
  rp_property :: string
  rp_capture_authenticated :: bool
  rp_knowledge :: knowledge
  rp_governance :: ec_decision
  rp_per_call_baseline :: ec_decision
  rp_full_context_baseline :: ec_decision
  rp_first_forbidden_event :: "nat option"
  rp_participating_events :: "nat list"
  rp_exposure :: "(bool \<times> bool) option"
  rp_reason :: string

type_synonym row = "nat \<times> nat \<times> nat \<times> nat \<times> nat"
type_synonym request = "nat \<times> channel \<times> payload \<times> bool"

section \<open>Constants\<close>

definition POLICY :: string where
  \<open>POLICY = ''{"identity":"legitimacy.controlled-release.v1","forbidden":"Legitimacy.boolJointForbiddenList","effect":"both distinct synthetic fragments delivered to public","scope":"principal,channel,payload,task","task":"synthetic-release","channels":["public","vault"],"principals":2,"order":"host-sequential","guard":"local authorization AND preserve original forbidden-property exclusion"}\<newline>''\<close>

definition PROPERTY :: string where
  "PROPERTY = ''Legitimacy.boolJointForbiddenList''"

definition RUN_FORMAT :: string where
  "RUN_FORMAT = ''legitimacy.executed-composition.run.v1''"

definition FRAGMENTS :: "string list" where
  "FRAGMENTS = [''SYNTHETIC-ALPHA'', ''SYNTHETIC-BETA'']"

definition TABLE_rows :: "row list" where
  "TABLE_rows =
    [
     (0, 0, 0, 0, 0), (1, 0, 0, 0, 0), (2, 0, 0, 0, 0), (3, 1, 1, 0, 0), (4, 0, 0, 0, 0), (5, 0, 0, 0, 0),
     (6, 0, 0, 0, 0), (7, 1, 1, 0, 0), (8, 0, 0, 0, 0), (9, 0, 0, 0, 0), (10, 0, 0, 0, 0), (11, 1, 1, 0, 0),
     (12, 0, 0, 0, 0), (13, 0, 0, 0, 0), (14, 0, 0, 0, 0), (15, 1, 1, 2, 2), (16, 0, 0, 0, 0), (17, 0, 0, 0, 0),
     (18, 0, 0, 0, 0), (19, 1, 1, 0, 0), (20, 0, 0, 0, 0), (21, 0, 0, 0, 0), (22, 0, 0, 0, 0), (23, 1, 1, 0, 0),
     (24, 0, 0, 0, 0), (25, 0, 0, 0, 0), (26, 0, 0, 0, 0), (27, 1, 1, 0, 0), (28, 0, 0, 0, 0), (29, 0, 0, 0, 0),
     (30, 0, 0, 0, 0), (31, 1, 1, 1, 1), (32, 0, 0, 1, 1), (33, 0, 0, 1, 1), (34, 0, 0, 1, 1), (35, 1, 1, 1, 1),
     (36, 0, 0, 1, 1), (37, 0, 0, 1, 1), (38, 0, 0, 1, 1), (39, 1, 1, 1, 1), (40, 0, 0, 1, 1), (41, 0, 0, 1, 1),
     (42, 0, 0, 1, 1), (43, 1, 1, 1, 1), (44, 0, 0, 1, 1), (45, 0, 0, 1, 1), (46, 0, 0, 1, 1), (47, 1, 0, 3, 1),
     (48, 0, 0, 1, 1), (49, 0, 0, 1, 1), (50, 0, 0, 1, 1), (51, 1, 1, 1, 1), (52, 0, 0, 1, 1), (53, 0, 0, 1, 1),
     (54, 0, 0, 1, 1), (55, 1, 1, 1, 1), (56, 0, 0, 1, 1), (57, 0, 0, 1, 1), (58, 0, 0, 1, 1), (59, 1, 1, 1, 1),
     (60, 0, 0, 1, 1), (61, 0, 0, 1, 1), (62, 0, 0, 1, 1), (63, 1, 1, 1, 1), (64, 0, 0, 2, 2), (65, 0, 0, 2, 2),
     (66, 0, 0, 2, 2), (67, 1, 1, 2, 2), (68, 0, 0, 2, 2), (69, 0, 0, 2, 2), (70, 0, 0, 2, 2), (71, 1, 1, 2, 2),
     (72, 0, 0, 2, 2), (73, 0, 0, 2, 2), (74, 0, 0, 2, 2), (75, 1, 1, 2, 2), (76, 0, 0, 2, 2), (77, 0, 0, 2, 2),
     (78, 0, 0, 2, 2), (79, 1, 1, 2, 2), (80, 0, 0, 2, 2), (81, 0, 0, 2, 2), (82, 0, 0, 2, 2), (83, 1, 1, 2, 2),
     (84, 0, 0, 2, 2), (85, 0, 0, 2, 2), (86, 0, 0, 2, 2), (87, 1, 1, 2, 2), (88, 0, 0, 2, 2), (89, 0, 0, 2, 2),
     (90, 0, 0, 2, 2), (91, 1, 1, 2, 2), (92, 0, 0, 2, 2), (93, 0, 0, 2, 2), (94, 0, 0, 2, 2), (95, 1, 0, 3, 2),
     (96, 0, 0, 3, 3), (97, 0, 0, 3, 3), (98, 0, 0, 3, 3), (99, 1, 0, 3, 3), (100, 0, 0, 3, 3), (101, 0, 0, 3, 3),
     (102, 0, 0, 3, 3), (103, 1, 0, 3, 3), (104, 0, 0, 3, 3), (105, 0, 0, 3, 3), (106, 0, 0, 3, 3), (107, 1, 0, 3, 3),
     (108, 0, 0, 3, 3), (109, 0, 0, 3, 3), (110, 0, 0, 3, 3), (111, 1, 0, 3, 3), (112, 0, 0, 3, 3), (113, 0, 0, 3, 3),
     (114, 0, 0, 3, 3), (115, 1, 0, 3, 3), (116, 0, 0, 3, 3), (117, 0, 0, 3, 3), (118, 0, 0, 3, 3), (119, 1, 0, 3, 3),
     (120, 0, 0, 3, 3), (121, 0, 0, 3, 3), (122, 0, 0, 3, 3), (123, 1, 0, 3, 3), (124, 0, 0, 3, 3), (125, 0, 0, 3, 3),
     (126, 0, 0, 3, 3), (127, 1, 0, 3, 3)]"

section \<open>The table transition and its helpers\<close>

text \<open>The asserts the lazily initialised static makes about the parsed table rows.\<close>

definition table_ok :: bool where
  "table_ok \<longleftrightarrow> length TABLE_rows = 128 \<and> list_all (\<lambda>i. fst (TABLE_rows ! i) = i) [0..<128]"

definition transition :: "nat \<Rightarrow> nat \<Rightarrow> payload \<Rightarrow> channel \<Rightarrow> bool \<Rightarrow> bool \<Rightarrow> row option" where
  "transition state actor pl ch authenticated delegated =
     (if \<not> table_ok \<or> \<not> (state < 4 \<and> actor < 2) then None
      else let i = state * 32 + actor * 16
                 + of_bool (pl = Fragment) * 8
                 + of_bool (ch = Public) * 4
                 + of_bool authenticated * 2
                 + of_bool delegated
           in if i < length TABLE_rows then Some (TABLE_rows ! i) else None)"

definition decision_of :: "nat \<Rightarrow> ec_decision" where
  "decision_of value = (if value = 1 then EC_Permit else EC_Deny)"

fun content :: "nat \<Rightarrow> payload \<Rightarrow> string option" where
  "content actor Fragment = (if actor < length FRAGMENTS then Some (FRAGMENTS ! actor) else None)"
| "content actor Summary = Some ''SUMMARY: one synthetic fragment processed''"

definition delegated :: "grant list \<Rightarrow> string \<Rightarrow> channel \<Rightarrow> payload \<Rightarrow> bool" where
  "delegated grants who ch pl =
     list_ex (\<lambda>g. g_principal g = who \<and> g_channel g = ch \<and> g_payload g = pl
                 \<and> g_task g = ''synthetic-release'') grants"

definition ec_report :: "run \<Rightarrow> knowledge \<Rightarrow> string \<Rightarrow> report" where
  "ec_report r k reason =
     \<lparr>rp_id = r_id r, rp_property = PROPERTY, rp_capture_authenticated = False,
      rp_knowledge = k, rp_governance = EC_Review, rp_per_call_baseline = EC_Review,
      rp_full_context_baseline = EC_Review, rp_first_forbidden_event = None,
      rp_participating_events = [], rp_exposure = None, rp_reason = reason\<rparr>"

section \<open>The checker\<close>

text \<open>The mutable locals of \<open>check\<close>'s event loop.\<close>

record check_state =
  c_state :: nat
  c_sinks :: "string list \<times> string list"
  c_exposed :: "nat option list"
  c_first :: "nat option"
  c_local_all :: bool
  c_permitted_all :: bool
  c_conventional_all :: bool

definition check_init :: check_state where
  "check_init = \<lparr>c_state = 0, c_sinks = ([], []), c_exposed = [None, None], c_first = None,
     c_local_all = True, c_permitted_all = True, c_conventional_all = True\<rparr>"

definition position2 :: "string \<times> string \<Rightarrow> string \<Rightarrow> nat option" where
  "position2 ps p = (if fst ps = p then Some 0 else if snd ps = p then Some 1 else None)"

definition push_sink :: "channel \<Rightarrow> string \<Rightarrow> string list \<times> string list \<Rightarrow> string list \<times> string list" where
  "push_sink ch s sinks =
     (if ch = Vault then (fst sinks, snd sinks @ [s]) else (fst sinks @ [s], snd sinks))"

text \<open>
  What the loop body does once the event's fields are unwrapped and the row is known:
  \<open>chosen\<close> is the dispatched decision of the row, \<open>check_update\<close> the assignments of an
  iteration that reaches its end. The mismatch tests are in the order of the code.
\<close>

definition row_chosen :: "bool \<Rightarrow> row \<Rightarrow> nat" where
  "row_chosen guarded row = (case row of (_, row1, row2, _, _) \<Rightarrow> if guarded then row2 else row1)"

definition row_state :: "bool \<Rightarrow> row \<Rightarrow> nat" where
  "row_state guarded row = (case row of (_, _, _, row3, row4) \<Rightarrow> if guarded then row4 else row3)"

definition row_local :: "row \<Rightarrow> nat" where
  "row_local row = fst (snd row)"

definition conventional :: "nat \<Rightarrow> nat \<Rightarrow> channel \<Rightarrow> payload \<Rightarrow> bool \<Rightarrow> bool \<Rightarrow> nat option list \<Rightarrow> bool" where
  "conventional i actor ch pl auth scope exposed =
     (let hypothetical = (if ch = Public \<and> pl = Fragment then exposed[actor := Some i] else exposed)
      in auth \<and> scope \<and> \<not> list_all (\<lambda>x. x \<noteq> None) hypothetical)"

definition next_exposed :: "nat \<Rightarrow> nat \<Rightarrow> channel \<Rightarrow> payload \<Rightarrow> nat \<Rightarrow> nat option list \<Rightarrow> nat option list" where
  "next_exposed i actor ch pl chosen exposed =
     (if chosen = 1 \<and> ch = Public \<and> pl = Fragment \<and> exposed ! actor = None
      then exposed[actor := Some i] else exposed)"

definition reconstructed :: "nat option list \<Rightarrow> nat" where
  "reconstructed exposed = of_bool (exposed ! 0 \<noteq> None) * 2 + of_bool (exposed ! 1 \<noteq> None)"

definition check_update ::
  "bool \<Rightarrow> nat \<Rightarrow> nat \<Rightarrow> channel \<Rightarrow> payload \<Rightarrow> bool \<Rightarrow> bool \<Rightarrow> row \<Rightarrow> string \<Rightarrow> check_state
     \<Rightarrow> check_state" where
  "check_update guarded i actor ch pl auth scope row bytes s =
     (let chosen = row_chosen guarded row; state = row_state guarded row in
      s\<lparr>c_state := state,
        c_sinks := (if chosen = 1 then push_sink ch bytes (c_sinks s) else c_sinks s),
        c_exposed := next_exposed i actor ch pl chosen (c_exposed s),
        c_first := (if state = 3 \<and> c_first s = None then Some i else c_first s),
        c_local_all := (c_local_all s \<and> row_local row = 1),
        c_permitted_all := (c_permitted_all s \<and> chosen = 1),
        c_conventional_all :=
          (c_conventional_all s \<and> conventional i actor ch pl auth scope (c_exposed s))\<rparr>)"

definition check_row ::
  "run \<Rightarrow> nat \<Rightarrow> event \<Rightarrow> nat \<Rightarrow> channel \<Rightarrow> payload \<Rightarrow> bool \<Rightarrow> bool \<Rightarrow> row \<Rightarrow> string
     \<Rightarrow> check_state \<Rightarrow> report + check_state" where
  "check_row r i e actor ch pl auth scope row bytes s =
     (let chosen = row_chosen (r_guarded r) row;
          expected_dispatch = (if r_guarded r
            then conventional i actor ch pl auth scope (c_exposed s) else auth \<and> scope)
      in if e_local e \<noteq> decision_of (row_local row) \<or> e_decision e \<noteq> decision_of chosen
            \<or> e_effect e \<noteq> Some (if chosen = 1 then bytes else [])
         then Inl (ec_report r Invalid
                ''decision/effect disagrees with scoped request and Lean transition'')
         else if expected_dispatch \<noteq> (chosen = 1)
         then Inl (ec_report r Invalid ''full-context baseline disagrees with generated policy'')
         else if row_state (r_guarded r) row
                 \<noteq> reconstructed (next_exposed i actor ch pl chosen (c_exposed s))
         then Inl (ec_report r Invalid ''effect abstraction/table mismatch'')
         else Inr (check_update (r_guarded r) i actor ch pl auth scope row bytes s))"

definition check_event ::
  "run \<Rightarrow> string \<times> string \<Rightarrow> grant list \<Rightarrow> nat \<Rightarrow> event \<Rightarrow> check_state
     \<Rightarrow> (report + check_state) option" where
  "check_event r ps grants i e s =
     (case e_principal e of None \<Rightarrow> None
      | Some who \<Rightarrow>
        (case position2 ps who of
           None \<Rightarrow> Some (Inl (ec_report r Invalid ''undeclared acting principal''))
         | Some actor \<Rightarrow>
           if e_index e \<noteq> i then Some (Inl (ec_report r Invalid ''host order is not contiguous''))
           else (case (e_channel e, e_payload e, e_authenticated e) of
                   (Some ch, Some pl, Some auth) \<Rightarrow>
                     (let scope = delegated grants who ch pl in
                      case (transition (c_state s) actor pl ch auth scope, content actor pl) of
                        (Some row, Some bytes) \<Rightarrow>
                          Some (check_row r i e actor ch pl auth scope row bytes s)
                      | _ \<Rightarrow> None)
                 | _ \<Rightarrow> None)))"

fun check_loop ::
  "run \<Rightarrow> string \<times> string \<Rightarrow> grant list \<Rightarrow> nat \<Rightarrow> event list \<Rightarrow> check_state
     \<Rightarrow> (report + check_state) option" where
  "check_loop r ps grants i [] s = Some (Inr s)"
| "check_loop r ps grants i (e # es) s =
     (case check_event r ps grants i e s of
        None \<Rightarrow> None
      | Some (Inl rep) \<Rightarrow> Some (Inl rep)
      | Some (Inr s') \<Rightarrow> check_loop r ps grants (Suc i) es s')"

definition flatten2 :: "nat option list \<Rightarrow> nat list" where
  "flatten2 xs = concat (map (\<lambda>x. case x of None \<Rightarrow> [] | Some i \<Rightarrow> [i]) xs)"

definition check_finish :: "run \<Rightarrow> string list \<Rightarrow> string list \<Rightarrow> check_state \<Rightarrow> report" where
  "check_finish r public_sink vault_sink s =
     (if fst (c_sinks s) \<noteq> public_sink \<or> snd (c_sinks s) \<noteq> vault_sink
      then ec_report r Invalid ''sink readback does not match executed deliveries''
      else let violated = (c_first s \<noteq> None) in
        \<lparr>rp_id = r_id r, rp_property = PROPERTY, rp_capture_authenticated = False,
         rp_knowledge = (if violated then Violated else Safe),
         rp_governance = (if violated \<or> \<not> c_permitted_all s then EC_Deny else EC_Permit),
         rp_per_call_baseline = (if c_local_all s then EC_Permit else EC_Deny),
         rp_full_context_baseline = (if c_conventional_all s then EC_Permit else EC_Deny),
         rp_first_forbidden_event = c_first s,
         rp_participating_events = (if violated then flatten2 (c_exposed s) else []),
         rp_exposure = Some (odd (c_state s div 2), odd (c_state s)),
         rp_reason =
           (if violated then ''locally authorized deliveries jointly expose both fragments''
            else if \<not> c_permitted_all s
            then ''executed effects safe; at least one requested action denied''
            else ''authorized work completed under the unchanged forbidden property'')\<rparr>)"

definition event_incomplete :: "event \<Rightarrow> bool" where
  "event_incomplete e \<longleftrightarrow> e_principal e = None \<or> e_channel e = None \<or> e_payload e = None
     \<or> e_authenticated e = None \<or> e_effect e = None"

definition check :: "run \<Rightarrow> report option" where
  "check r =
     (if r_format r \<noteq> RUN_FORMAT \<or> r_policy r \<noteq> POLICY
      then Some (ec_report r Invalid ''unsupported format or substituted policy/property'')
      else if 256 < length (r_events r) \<or> 512 < length (r_id r)
      then Some (ec_report r Invalid ''bounded experiment exceeded'')
      else (case (r_principals r, r_grants r, r_public_sink r, r_vault_sink r) of
        (Some ps, Some grants, Some public_sink, Some vault_sink) \<Rightarrow>
          if \<not> r_complete r \<or> r_events r = []
          then Some (ec_report r Inconclusive ''host completion or events unavailable'')
          else if fst ps = [] \<or> snd ps = [] \<or> fst ps = snd ps \<or> 32 < length grants
             \<or> list_ex (\<lambda>g. g_principal g \<noteq> fst ps \<and> g_principal g \<noteq> snd ps) grants
          then Some (ec_report r Invalid ''invalid declared principal set or grants'')
          else if list_ex event_incomplete (r_events r)
          then Some (ec_report r Inconclusive
                 ''missing identity/channel/action/authentication/effect'')
          else (case check_loop r ps grants 0 (r_events r) check_init of
                  None \<Rightarrow> None
                | Some (Inl rep) \<Rightarrow> Some rep
                | Some (Inr s) \<Rightarrow> Some (check_finish r public_sink vault_sink s))
      | _ \<Rightarrow> Some (ec_report r Inconclusive
               ''missing identity, scoped authority, or sink evidence'')))"

section \<open>The host\<close>

definition host_principals :: "string \<times> string" where
  "host_principals = (''principal-A'', ''principal-B'')"

definition host_grants :: "bool \<Rightarrow> grant list" where
  "host_grants revoke_b =
     concat (map (\<lambda>(actor, who).
        if revoke_b \<and> actor = 1 then []
        else concat (map (\<lambda>ch. map (\<lambda>pl.
               \<lparr>g_principal = who, g_channel = ch, g_payload = pl,
                g_task = ''synthetic-release''\<rparr>) [Fragment, Summary]) [Public, Vault]))
       [(0::nat, fst host_principals), (1, snd host_principals)])"

definition host_name :: "nat \<Rightarrow> string option" where
  "host_name actor = (if actor = 0 then Some (fst host_principals)
     else if actor = 1 then Some (snd host_principals) else None)"

record host_state =
  h_state :: nat
  h_events :: "event list"
  h_sinks :: "string list \<times> string list"

definition execute_request :: "bool \<Rightarrow> grant list \<Rightarrow> request \<Rightarrow> host_state \<Rightarrow> host_state option" where
  "execute_request guarded grants req h =
     (case req of (actor, ch, pl, auth) \<Rightarrow>
      case host_name actor of
        None \<Rightarrow> None
      | Some who \<Rightarrow>
        (let scope = delegated grants who ch pl in
         case (transition (h_state h) actor pl ch auth scope, content actor pl) of
           (Some (_, row1, row2, row3, row4), Some bytes) \<Rightarrow>
             (let chosen = (if guarded then row2 else row1);
                  effect = (if chosen = 1 then bytes else [])
              in Some \<lparr>h_state = (if guarded then row4 else row3),
                       h_events = h_events h @
                         [\<lparr>e_index = length (h_events h), e_principal = Some who,
                           e_channel = Some ch, e_payload = Some pl, e_authenticated = Some auth,
                           e_local = decision_of row1, e_decision = decision_of chosen,
                           e_effect = Some effect\<rparr>],
                       h_sinks = (if chosen = 1 then push_sink ch bytes (h_sinks h)
                                  else h_sinks h)\<rparr>)
         | _ \<Rightarrow> None))"

fun execute_loop :: "bool \<Rightarrow> grant list \<Rightarrow> request list \<Rightarrow> host_state \<Rightarrow> host_state option" where
  "execute_loop guarded grants [] h = Some h"
| "execute_loop guarded grants (q # qs) h =
     Option.bind (execute_request guarded grants q h) (execute_loop guarded grants qs)"

definition host_init :: host_state where
  "host_init = \<lparr>h_state = 0, h_events = [], h_sinks = ([], [])\<rparr>"

definition host_run :: "string \<Rightarrow> bool \<Rightarrow> grant list \<Rightarrow> host_state \<Rightarrow> run" where
  "host_run rid guarded grants h =
     \<lparr>r_format = RUN_FORMAT, r_id = rid, r_policy = POLICY, r_guarded = guarded,
      r_complete = True, r_principals = Some host_principals, r_grants = Some grants,
      r_events = h_events h, r_public_sink = Some (fst (h_sinks h)),
      r_vault_sink = Some (snd (h_sinks h))\<rparr>"

definition execute :: "string \<Rightarrow> bool \<Rightarrow> request list \<Rightarrow> bool \<Rightarrow> run option" where
  "execute rid guarded requests revoke_b =
     map_option (host_run rid guarded (host_grants revoke_b))
       (execute_loop guarded (host_grants revoke_b) requests host_init)"

definition suite :: "run option list" where
  "suite =
     (let harmful = [(0, Public, Fragment, True), (1, Public, Fragment, True)];
          useful = [(0, Public, Fragment, True), (1, Vault, Fragment, True)];
          summ = [(0, Public, Fragment, True), (1, Public, Summary, True)];
          missing = map_option (\<lambda>r. r\<lparr>r_grants := None\<rparr>)
                      (execute ''missing-authority-evidence'' True useful False)
      in [execute ''locally-approved-joint-release'' False harmful False,
          execute ''equal-length-action-control'' False useful False,
          execute ''guard-blocks-joint-release'' True harmful False,
          execute ''useful-vault-repair'' True useful False,
          execute ''useful-summary-repair'' True summ False,
          execute ''authenticated-without-delegation'' True useful True,
          missing])"

section \<open>Specification\<close>

text \<open>
  The abstract state is which of the two fragments is public; \<open>enc2\<close> is the code's encoding of
  it. \<open>expose\<close> is the exposure after a delivery, \<open>spec_row\<close> the intended row: a request is
  locally permitted when it is authenticated and delegated, and the guard permits it unless
  afterwards both fragments are public. \<open>check_inv\<close> relates the checker's locals, the sinks
  it has rebuilt included, to the abstract state; \<open>lockstep\<close> adds the host's state.
\<close>

definition enc2 :: "bool \<times> bool \<Rightarrow> nat" where
  "enc2 ab = of_bool (fst ab) * 2 + of_bool (snd ab)"

definition expose :: "nat \<Rightarrow> payload \<Rightarrow> channel \<Rightarrow> bool \<times> bool \<Rightarrow> bool \<times> bool" where
  "expose actor pl ch ab =
     (if ch = Public \<and> pl = Fragment then (fst ab \<or> actor = 0, snd ab \<or> actor = 1) else ab)"

definition spec_row :: "bool \<times> bool \<Rightarrow> nat \<Rightarrow> payload \<Rightarrow> channel \<Rightarrow> bool \<Rightarrow> bool \<Rightarrow> nat \<times> nat \<times> nat \<times> nat" where
  "spec_row ab actor pl ch auth scope =
     (let local = (auth \<and> scope); after = expose actor pl ch ab;
          guard = (local \<and> after \<noteq> (True, True))
      in (of_bool local, of_bool guard, enc2 (if local then after else ab),
          enc2 (if guard then after else ab)))"

definition spec_step :: "bool \<Rightarrow> nat \<Rightarrow> payload \<Rightarrow> channel \<Rightarrow> bool \<Rightarrow> bool \<Rightarrow> bool \<times> bool \<Rightarrow> bool \<times> bool" where
  "spec_step guarded actor pl ch auth scope ab =
     (let after = expose actor pl ch ab in
      if auth \<and> scope \<and> (guarded \<longrightarrow> after \<noteq> (True, True)) then after else ab)"

definition dispatched :: "bool \<Rightarrow> nat \<Rightarrow> payload \<Rightarrow> channel \<Rightarrow> bool \<Rightarrow> bool \<Rightarrow> bool \<times> bool \<Rightarrow> bool" where
  "dispatched guarded actor pl ch auth scope ab \<longleftrightarrow>
     auth \<and> scope \<and> (guarded \<longrightarrow> expose actor pl ch ab \<noteq> (True, True))"

definition check_inv :: "bool \<Rightarrow> bool \<times> bool \<Rightarrow> check_state \<Rightarrow> bool" where
  "check_inv guarded ab s \<longleftrightarrow>
     c_state s = enc2 ab
     \<and> length (c_exposed s) = 2
     \<and> (c_exposed s ! 0 \<noteq> None \<longleftrightarrow> fst ab) \<and> (c_exposed s ! 1 \<noteq> None \<longleftrightarrow> snd ab)
     \<and> (FRAGMENTS ! 0 \<in> set (fst (c_sinks s)) \<longleftrightarrow> fst ab)
     \<and> (FRAGMENTS ! 1 \<in> set (fst (c_sinks s)) \<longleftrightarrow> snd ab)
     \<and> (c_first s \<noteq> None \<longleftrightarrow> ab = (True, True))
     \<and> (guarded \<longrightarrow> ab \<noteq> (True, True))"

definition lockstep :: "bool \<Rightarrow> bool \<times> bool \<Rightarrow> host_state \<Rightarrow> check_state \<Rightarrow> bool" where
  "lockstep guarded ab h s \<longleftrightarrow> check_inv guarded ab s \<and> h_state h = c_state s \<and> h_sinks h = c_sinks s"

section \<open>Lemmas\<close>

lemma table_ok: table_ok
  by code_simp

lemma transition_code [code]:
  "transition state actor pl ch auth scope =
     (if state < 4 \<and> actor < 2 then Some (TABLE_rows ! (state * 32 + actor * 16
                 + of_bool (pl = Fragment) * 8 + of_bool (ch = Public) * 4
                 + of_bool auth * 2 + of_bool scope)) else None)"
  using table_ok by (auto simp: transition_def Let_def table_ok_def of_bool_def)

lemma table_rows_closed:
  "list_all (\<lambda>ab. list_all (\<lambda>actor. list_all (\<lambda>pl. list_all (\<lambda>ch. list_all (\<lambda>auth. list_all (\<lambda>scope.
     snd (TABLE_rows ! (enc2 ab * 32 + actor * 16 + of_bool (pl = Fragment) * 8
        + of_bool (ch = Public) * 4 + of_bool auth * 2 + of_bool scope))
      = spec_row ab actor pl ch auth scope)
     [False, True]) [False, True]) [Public, Vault]) [Fragment, Summary]) [0, 1])
     [(False, False), (False, True), (True, False), (True, True)]"
  by code_simp

lemma enc2_less: "enc2 ab < 4"
  by (cases ab) (auto simp: enc2_def)

lemma enc2_inj [simp]: "enc2 ab = enc2 cd \<longleftrightarrow> ab = cd"
  by (cases ab; cases cd) (auto simp: enc2_def split: if_splits)

lemma enc2_3 [simp]: "enc2 ab = 3 \<longleftrightarrow> ab = (True, True)"
  by (cases ab) (auto simp: enc2_def)

lemma less_two: "(actor::nat) < 2 \<longleftrightarrow> actor = 0 \<or> actor = 1"
  by auto

lemma transition_spec:
  assumes "actor < 2"
  shows "\<exists>i. transition (enc2 ab) actor pl ch auth scope = Some (i, spec_row ab actor pl ch auth scope)"
proof -
  let ?i = "enc2 ab * 32 + actor * 16 + of_bool (pl = Fragment) * 8 + of_bool (ch = Public) * 4
    + of_bool auth * 2 + of_bool scope"
  have mem: "ab \<in> set [(False, False), (False, True), (True, False), (True, True)]"
    "actor \<in> set [0, 1]" "pl \<in> set [Fragment, Summary]" "ch \<in> set [Public, Vault]"
    "auth \<in> set [False, True]" "scope \<in> set [False, True]"
    using assms by (cases ab, auto) (cases pl, auto, cases ch, auto)
  have "snd (TABLE_rows ! ?i) = spec_row ab actor pl ch auth scope"
    using mem by (rule table_rows_closed [unfolded list_all_iff, THEN bspec, THEN bspec,
        THEN bspec, THEN bspec, THEN bspec, THEN bspec])
  then obtain j where j: "TABLE_rows ! ?i = (j, spec_row ab actor pl ch auth scope)"
    by (metis surjective_pairing)
  have "?i < 128"
    using enc2_less [of ab] assms by (auto simp: of_bool_def)
  moreover have "length TABLE_rows = 128"
    using table_ok by (simp add: table_ok_def)
  ultimately show ?thesis
    using table_ok enc2_less [of ab] assms j by (simp add: transition_def Let_def)
qed

lemma check_inv_init: "check_inv guarded (False, False) check_init"
  by (simp add: check_inv_def check_init_def enc2_def)

lemma list2: "length xs = 2 \<longleftrightarrow> (\<exists>a b. xs = [a, b])"
  by (auto simp: length_Suc_conv numeral_2_eq_2)

lemma content_Some: "actor < 2 \<Longrightarrow> \<exists>b. content actor pl = Some b"
  by (cases pl) (auto simp: FRAGMENTS_def)

lemma spec_step_alt: "spec_step guarded actor pl ch auth scope ab =
   (if dispatched guarded actor pl ch auth scope ab then expose actor pl ch ab else ab)"
  by (simp add: spec_step_def dispatched_def Let_def)

lemma spec_row_sel:
  "row_chosen guarded (j, spec_row ab actor pl ch auth scope)
     = of_bool (dispatched guarded actor pl ch auth scope ab)"
  "row_state guarded (j, spec_row ab actor pl ch auth scope)
     = enc2 (spec_step guarded actor pl ch auth scope ab)"
  "row_local (j, spec_row ab actor pl ch auth scope) = of_bool (auth \<and> scope)"
  by (auto simp: row_chosen_def row_state_def row_local_def spec_row_def dispatched_def
      spec_step_def Let_def)

lemma check_update_sel:
  assumes "s' = check_update guarded i actor ch pl auth scope (j, spec_row ab actor pl ch auth scope) bytes s"
  shows "c_state s' = enc2 (spec_step guarded actor pl ch auth scope ab)"
    and "c_sinks s' = (if dispatched guarded actor pl ch auth scope ab
           then push_sink ch bytes (c_sinks s) else c_sinks s)"
    and "c_exposed s' = (if dispatched guarded actor pl ch auth scope ab \<and> ch = Public
             \<and> pl = Fragment \<and> c_exposed s ! actor = None
           then (c_exposed s)[actor := Some i] else c_exposed s)"
    and "c_first s' = (if spec_step guarded actor pl ch auth scope ab = (True, True)
             \<and> c_first s = None then Some i else c_first s)"
  unfolding assms check_update_def Let_def spec_row_sel
  by (auto simp add: next_exposed_def)

lemma fragment_in_push:
  assumes "content actor pl = Some bytes" and "actor < 2" and "a < 2"
  shows "FRAGMENTS ! a \<in> set (fst (push_sink ch bytes sinks)) \<longleftrightarrow>
    FRAGMENTS ! a \<in> set (fst sinks) \<or> (ch = Public \<and> pl = Fragment \<and> actor = a)"
  using assms by (cases pl; cases ch) (auto simp: push_sink_def FRAGMENTS_def less_two)

lemma expose_mono: "fst ab \<Longrightarrow> fst (expose actor pl ch ab)" "snd ab \<Longrightarrow> snd (expose actor pl ch ab)"
  by (auto simp: expose_def)

lemma check_update_inv:
  assumes inv: "check_inv guarded ab s" and actor: "actor < 2"
    and c: "content actor pl = Some bytes"
    and res: "s' = check_update guarded i actor ch pl auth scope (j, spec_row ab actor pl ch auth scope) bytes s"
  shows "check_inv guarded (spec_step guarded actor pl ch auth scope ab) s'"
proof -
  note s' = check_update_sel [OF res]
  let ?ab = "spec_step guarded actor pl ch auth scope ab"
  have exposed: "length (c_exposed s') = 2" "c_exposed s' ! 0 \<noteq> None \<longleftrightarrow> fst ?ab"
      "c_exposed s' ! 1 \<noteq> None \<longleftrightarrow> snd ?ab"
    using inv actor unfolding s'(3) spec_step_alt check_inv_def
    by (auto simp: expose_def less_two)
  have sinks: "FRAGMENTS ! 0 \<in> set (fst (c_sinks s')) \<longleftrightarrow> fst ?ab"
      "FRAGMENTS ! 1 \<in> set (fst (c_sinks s')) \<longleftrightarrow> snd ?ab"
    using inv fragment_in_push [OF c actor, of 0] fragment_in_push [OF c actor, of 1]
    unfolding s'(2) spec_step_alt check_inv_def by (auto simp: expose_def)
  have first: "c_first s' \<noteq> None \<longleftrightarrow> ?ab = (True, True)"
    using inv unfolding s'(4) check_inv_def spec_step_alt
    by (auto simp: expose_def split: if_splits)
  have guard: "guarded \<longrightarrow> ?ab \<noteq> (True, True)"
    using inv unfolding check_inv_def spec_step_alt dispatched_def by auto
  show ?thesis
    unfolding check_inv_def using s'(1) exposed sinks first guard by blast
qed

lemma check_inv_state: "check_inv guarded ab s \<Longrightarrow> c_state s = enc2 ab"
  by (simp add: check_inv_def)

lemma position2_less: "position2 ps p = Some a \<Longrightarrow> a < 2"
  by (auto simp: position2_def split: if_splits)

text \<open>One event: no panic, and either an \<open>Invalid\<close> report or the update of the closed form.\<close>

lemma check_event_cases [consumes 2, case_names stop go]:
  assumes inv: "check_inv (r_guarded r) ab s" and full: "\<not> event_incomplete e"
  obtains (stop) reason where "check_event r ps grants i e s = Some (Inl (ec_report r Invalid reason))"
  | (go) actor pl ch auth scope j bytes where "actor < 2" "content actor pl = Some bytes"
      "check_event r ps grants i e s = Some (Inr (check_update (r_guarded r) i actor ch pl auth scope
         (j, spec_row ab actor pl ch auth scope) bytes s))"
proof -
  obtain p ch pl auth where f: "e_principal e = Some p" "e_channel e = Some ch"
      "e_payload e = Some pl" "e_authenticated e = Some auth"
    using full by (auto simp: event_incomplete_def)
  show thesis
  proof (cases "position2 ps p")
    case None
    then show thesis using f by (intro stop) (simp add: check_event_def)
  next
    case (Some actor)
    then have actor: "actor < 2" by (rule position2_less)
    let ?scope = "delegated grants p ch pl"
    obtain bytes where b: "content actor pl = Some bytes"
      using content_Some [OF actor] by blast
    obtain j where j: "transition (c_state s) actor pl ch auth ?scope
        = Some (j, spec_row ab actor pl ch auth ?scope)"
      using transition_spec [OF actor, of ab pl ch auth ?scope] check_inv_state [OF inv] by auto
    have ev: "check_event r ps grants i e s =
        (if e_index e \<noteq> i then Some (Inl (ec_report r Invalid ''host order is not contiguous''))
         else Some (check_row r i e actor ch pl auth ?scope (j, spec_row ab actor pl ch auth ?scope) bytes s))"
      using Some f b j by (simp add: check_event_def Let_def)
    show thesis
    proof (cases "check_row r i e actor ch pl auth ?scope (j, spec_row ab actor pl ch auth ?scope) bytes s")
      case (Inl rep)
      then have "\<exists>reason. rep = ec_report r Invalid reason"
        by (auto simp: check_row_def Let_def split: if_splits)
      with Inl ev stop show thesis by (cases "e_index e = i") auto
    next
      case (Inr s')
      then have "s' = check_update (r_guarded r) i actor ch pl auth ?scope
         (j, spec_row ab actor pl ch auth ?scope) bytes s"
        by (simp add: check_row_def Let_def if_Inl_Inr)
      with Inr ev stop go [OF actor b] show thesis by (cases "e_index e = i") auto
    qed
  qed
qed

lemma check_loop_cases:
  assumes "check_inv (r_guarded r) ab s" and "\<not> list_ex event_incomplete es"
  shows "(\<exists>reason. check_loop r ps grants i es s = Some (Inl (ec_report r Invalid reason)))
       \<or> (\<exists>s' ab'. check_loop r ps grants i es s = Some (Inr s') \<and> check_inv (r_guarded r) ab' s')"
  using assms
proof (induction es arbitrary: i s ab)
  case (Cons e es)
  from Cons.prems have full: "\<not> event_incomplete e" and rest: "\<not> list_ex event_incomplete es" by auto
  from Cons.prems(1) full show ?case
  proof (cases rule: check_event_cases [where ps = ps and grants = grants and i = i])
    case (go actor pl ch auth scope j bytes)
    show ?thesis
      using Cons.IH [OF check_update_inv [OF Cons.prems(1) go(1,2) refl] rest, of "Suc i"] go(3)
      by simp
  qed auto
qed auto

lemma check_finish_knowledge:
  assumes "check_inv (r_guarded r) ab s"
  shows "rp_knowledge (check_finish r pub vault s) = Safe \<Longrightarrow>
           pub = fst (c_sinks s) \<and> ab \<noteq> (True, True)"
    and "rp_knowledge (check_finish r pub vault s) = Violated \<Longrightarrow>
           pub = fst (c_sinks s) \<and> ab = (True, True)"
  using assms by (auto simp: check_finish_def ec_report_def Let_def check_inv_def split: if_splits)

lemma check_cases [case_names early finish]:
  obtains (early) k reason where "k = Invalid \<or> k = Inconclusive" "check r = Some (ec_report r k reason)"
  | (finish) ps grants pub vault s ab where
      "r_principals r = Some ps" "r_grants r = Some grants" "r_public_sink r = Some pub"
      "r_vault_sink r = Some vault" "check_loop r ps grants 0 (r_events r) check_init = Some (Inr s)"
      "check_inv (r_guarded r) ab s" "check r = Some (check_finish r pub vault s)"
proof (cases "(\<exists>k reason. (k = Invalid \<or> k = Inconclusive) \<and> check r = Some (ec_report r k reason))")
  case True
  then show thesis using early by blast
next
  case False
  then obtain ps grants pub vault where f: "r_principals r = Some ps" "r_grants r = Some grants"
      "r_public_sink r = Some pub" "r_vault_sink r = Some vault"
    and full: "\<not> list_ex event_incomplete (r_events r)"
    and c: "check r = (case check_loop r ps grants 0 (r_events r) check_init of
                  None \<Rightarrow> None
                | Some (Inl rep) \<Rightarrow> Some rep
                | Some (Inr s) \<Rightarrow> Some (check_finish r pub vault s))"
    unfolding check_def by (auto split: option.splits if_splits)
  from check_loop_cases [OF check_inv_init full, of r ps grants 0] False c
  obtain s ab where "check_loop r ps grants 0 (r_events r) check_init = Some (Inr s)"
    "check_inv (r_guarded r) ab s"
    by fastforce
  with f c finish show thesis by simp
qed

subsection \<open>Host and checker in lockstep\<close>

lemma host_name_less: "actor < 2 \<Longrightarrow> \<exists>p. host_name actor = Some p \<and> position2 host_principals p = Some actor"
  by (auto simp: less_two host_name_def position2_def host_principals_def)

lemma conventional_dispatched:
  assumes "check_inv guarded ab s" and "actor < 2"
  shows "conventional i actor ch pl auth scope (c_exposed s) \<longleftrightarrow> dispatched True actor pl ch auth scope ab"
proof -
  obtain x y where xy: "c_exposed s = [x, y]"
    using assms by (auto simp: check_inv_def list2)
  with assms show ?thesis
    by (cases ab) (auto simp: check_inv_def conventional_def dispatched_def expose_def less_two Let_def)
qed

lemma reconstructed_next:
  assumes "check_inv guarded ab s" and "actor < 2" and "content actor pl = Some bytes"
  shows "reconstructed (next_exposed i actor ch pl (of_bool (dispatched guarded actor pl ch auth scope ab))
           (c_exposed s)) = enc2 (spec_step guarded actor pl ch auth scope ab)"
proof -
  let ?s = "check_update guarded i actor ch pl auth scope (0, spec_row ab actor pl ch auth scope) bytes s"
  have "check_inv guarded (spec_step guarded actor pl ch auth scope ab) ?s"
    by (rule check_update_inv [OF assms refl])
  moreover have "c_exposed ?s = next_exposed i actor ch pl
      (of_bool (dispatched guarded actor pl ch auth scope ab)) (c_exposed s)"
    by (simp add: check_update_def Let_def spec_row_sel)
  ultimately show ?thesis
    by (simp add: reconstructed_def check_inv_def enc2_def)
qed

lemma execute_request_checked:
  assumes lock: "lockstep (r_guarded r) ab h s" and actor: "actor < 2"
  shows "\<exists>h' e s' ab'. execute_request (r_guarded r) grants (actor, ch, pl, auth) h = Some h'
     \<and> h_events h' = h_events h @ [e] \<and> \<not> event_incomplete e
     \<and> check_event r host_principals grants (length (h_events h)) e s = Some (Inr s')
     \<and> lockstep (r_guarded r) ab' h' s'"
proof -
  obtain p where p: "host_name actor = Some p" "position2 host_principals p = Some actor"
    using host_name_less [OF actor] by blast
  obtain bytes where b: "content actor pl = Some bytes"
    using content_Some [OF actor] by blast
  let ?scope = "delegated grants p ch pl" and ?g = "r_guarded r"
  obtain j where j: "transition (enc2 ab) actor pl ch auth ?scope = Some (j, spec_row ab actor pl ch auth ?scope)"
    using transition_spec [OF actor] by blast
  have inv: "check_inv ?g ab s" and st: "c_state s = enc2 ab" "h_state h = enc2 ab" "h_sinks h = c_sinks s"
    using lock by (simp_all add: lockstep_def check_inv_def)
  let ?row = "(j, spec_row ab actor pl ch auth ?scope)"
  let ?e = "\<lparr>e_index = length (h_events h), e_principal = Some p, e_channel = Some ch,
     e_payload = Some pl, e_authenticated = Some auth, e_local = decision_of (row_local ?row),
     e_decision = decision_of (row_chosen ?g ?row),
     e_effect = Some (if row_chosen ?g ?row = 1 then bytes else [])\<rparr>"
  let ?h = "\<lparr>h_state = row_state ?g ?row, h_events = h_events h @ [?e],
     h_sinks = (if row_chosen ?g ?row = 1 then push_sink ch bytes (h_sinks h) else h_sinks h)\<rparr>"
  let ?s = "check_update ?g (length (h_events h)) actor ch pl auth ?scope ?row bytes s"
  have "execute_request ?g grants (actor, ch, pl, auth) h = Some ?h"
    using p b j st by (cases "spec_row ab actor pl ch auth ?scope")
      (simp add: execute_request_def Let_def row_chosen_def row_state_def row_local_def)
  moreover have "check_event r host_principals grants (length (h_events h)) ?e s = Some (Inr ?s)"
    using p b j st conventional_dispatched [OF inv actor] reconstructed_next [OF inv actor b]
    by (simp add: check_event_def Let_def check_row_def spec_row_sel) (auto simp: dispatched_def)
  moreover have "lockstep ?g (spec_step ?g actor pl ch auth ?scope ab) ?h ?s"
    using check_update_inv [OF inv actor b refl] st(3)
    by (simp add: lockstep_def check_update_def Let_def)
  moreover have "\<not> event_incomplete ?e"
    by (simp add: event_incomplete_def)
  ultimately show ?thesis by (intro exI conjI) (assumption | simp)+
qed

lemma execute_loop_checked:
  assumes "lockstep (r_guarded r) ab h s" and "\<forall>q \<in> set qs. fst q < 2"
  shows "\<exists>h' es s' ab'. execute_loop (r_guarded r) grants qs h = Some h'
     \<and> h_events h' = h_events h @ es \<and> length es = length qs \<and> \<not> list_ex event_incomplete es
     \<and> check_loop r host_principals grants (length (h_events h)) es s = Some (Inr s')
     \<and> lockstep (r_guarded r) ab' h' s'"
  using assms
proof (induction qs arbitrary: h s ab)
  case (Cons q qs)
  obtain actor ch pl auth where q: "q = (actor, ch, pl, auth)" by (cases q) auto
  from Cons.prems have "actor < 2" by (simp add: q)
  from execute_request_checked [OF Cons.prems(1) this, of grants ch pl auth]
  obtain h1 e s1 ab1 where 1: "execute_request (r_guarded r) grants q h = Some h1"
      "h_events h1 = h_events h @ [e]" "\<not> event_incomplete e"
      "check_event r host_principals grants (length (h_events h)) e s = Some (Inr s1)"
      "lockstep (r_guarded r) ab1 h1 s1"
    unfolding q by blast
  from Cons.IH [OF 1(5)] Cons.prems obtain h2 es s2 ab2 where 2:
      "execute_loop (r_guarded r) grants qs h1 = Some h2" "h_events h2 = h_events h1 @ es"
      "length es = length qs" "\<not> list_ex event_incomplete es"
      "check_loop r host_principals grants (length (h_events h1)) es s1 = Some (Inr s2)"
      "lockstep (r_guarded r) ab2 h2 s2"
    by auto
  show ?case
    by (rule exI [of _ h2], rule exI [of _ "e # es"], rule exI [of _ s2], rule exI [of _ ab2])
      (use 1 2 in simp)
qed (auto intro: exI)

lemma host_grants_ok: "length (host_grants rv) \<le> 32"
  "\<not> list_ex (\<lambda>g. g_principal g \<noteq> fst host_principals \<and> g_principal g \<noteq> snd host_principals) (host_grants rv)"
  by (cases rv; simp add: host_grants_def)+

lemma check_host_run:
  assumes "execute_loop guarded (host_grants rv) reqs host_init = Some h"
    and "r = host_run rid guarded (host_grants rv) h" and "h_events h \<noteq> []"
    and "length (h_events h) \<le> 256" and "length rid \<le> 512"
    and "\<not> list_ex event_incomplete (h_events h)"
    and "check_loop r host_principals (host_grants rv) 0 (h_events h) check_init = Some (Inr s)"
  shows "check r = Some (check_finish r (fst (h_sinks h)) (snd (h_sinks h)) s)"
  using assms host_grants_ok [of rv] by (simp add: check_def host_run_def host_principals_def)

lemma execute_runs:
  assumes "\<forall>q \<in> set reqs. fst q < 2"
  obtains h s ab where "execute_loop guarded (host_grants rv) reqs host_init = Some h"
    "length (h_events h) = length reqs" "\<not> list_ex event_incomplete (h_events h)"
    "check_loop (host_run rid guarded (host_grants rv) h) host_principals (host_grants rv) 0
       (h_events h) check_init = Some (Inr s)"
    "lockstep guarded ab h s"
proof -
  have lock: "lockstep guarded (False, False) host_init check_init"
    using check_inv_init by (simp add: lockstep_def host_init_def check_init_def)
  from execute_loop_checked [of "host_run rid guarded (host_grants rv) host_init", OF _ assms]
  obtain h where h: "execute_loop guarded (host_grants rv) reqs host_init = Some h"
    using lock by (fastforce simp: host_run_def)
  let ?r = "host_run rid guarded (host_grants rv) h"
  have g: "r_guarded ?r = guarded" by (simp add: host_run_def)
  from execute_loop_checked [of ?r, unfolded g, OF lock assms, of "host_grants rv"] h that show thesis
    by (auto simp: host_init_def)
qed

lemma lockstep_sinks:
  assumes "lockstep guarded ab h s"
  shows "set FRAGMENTS \<subseteq> set (fst (h_sinks h)) \<longleftrightarrow> ab = (True, True)"
    and "guarded \<Longrightarrow> ab \<noteq> (True, True)"
proof -
  have frag: "set FRAGMENTS = {FRAGMENTS ! 0, FRAGMENTS ! 1}"
    by (simp add: FRAGMENTS_def)
  show "set FRAGMENTS \<subseteq> set (fst (h_sinks h)) \<longleftrightarrow> ab = (True, True)"
    using assms unfolding frag by (simp add: lockstep_def check_inv_def prod_eq_iff)
  show "guarded \<Longrightarrow> ab \<noteq> (True, True)"
    using assms by (simp add: lockstep_def check_inv_def)
qed

section \<open>Properties\<close>

text \<open>The generated 128-row table is the intended policy: in every state, for either actor and
  every payload, channel, authentication and delegation, the row that \<open>transition\<close> returns
  permits locally exactly the authenticated and delegated requests, and the guard refuses in
  addition exactly those after which both fragments would be public.\<close>

lemma transition_closed_form:
  assumes "actor < 2"
  shows "\<exists>i. transition (enc2 ab) actor pl ch auth scope = Some (i, spec_row ab actor pl ch auth scope)"
  using transition_spec [OF assms] .

lemma transition_closed_form_witness:
  "(1::nat) < 2 \<and> (\<exists>i. transition (enc2 (True, False)) 1 Fragment Public True True
     = Some (i, 1, 0, 3, 2))"
proof -
  have "\<exists>i. transition (enc2 (True, False)) 1 Fragment Public True True
      = Some (i, spec_row (True, False) 1 Fragment Public True True)"
    by (rule transition_closed_form) simp
  then show ?thesis by (simp add: spec_row_def expose_def enc2_def Let_def)
qed

text \<open>C15: The checker is total: on every record whatsoever, well-formed or not, \<open>check\<close> returns a
  report; none of its unwraps, asserts and indexings can panic.\<close>

theorem check_never_panics: "\<exists>rep. check r = Some rep"
  by (cases r rule: check_cases) auto

text \<open>C3: The guard is safe for every finite sequence of requests by the two declared actors: the
  host executes them all without panicking and its public sink never holds both fragments.\<close>

theorem guarded_execution_safe:
  assumes "\<forall>q \<in> set reqs. fst q < 2"
  shows "\<exists>r pub. execute rid True reqs revoke_b = Some r \<and> r_public_sink r = Some pub
           \<and> \<not> set FRAGMENTS \<subseteq> set pub"
proof -
  obtain h s ab where h: "execute_loop True (host_grants revoke_b) reqs host_init = Some h"
    "lockstep True ab h s"
    by (rule execute_runs [OF assms])
  then show ?thesis
    using lockstep_sinks [OF h(2)] by (simp add: execute_def host_run_def)
qed

theorem guarded_execution_safe_witness:
  "\<exists>r pub. execute ''w'' True [(0, Public, Fragment, True), (1, Public, Fragment, True)] False = Some r
     \<and> r_public_sink r = Some pub \<and> \<not> set FRAGMENTS \<subseteq> set pub"
  by (rule guarded_execution_safe) simp

text \<open>C10: The independent reader accepts what the host executes: for every non-empty sequence of at
  most 256 requests by the two declared actors, guarded or not, and a run id of at most 512 characters, \<open>check\<close> re-derives every decision, effect and sink of the
  run \<open>execute\<close> records, and calls it violated exactly when both fragments reached the public
  sink.\<close>

theorem host_runs_accepted:
  assumes "\<forall>q \<in> set reqs. fst q < 2" and "reqs \<noteq> []" and "length reqs \<le> 256"
    and "length rid \<le> 512"
  shows "\<exists>r rep pub. execute rid guarded reqs revoke_b = Some r \<and> check r = Some rep
     \<and> r_public_sink r = Some pub
     \<and> rp_knowledge rep = (if set FRAGMENTS \<subseteq> set pub then Violated else Safe)"
proof -
  obtain h s ab where h: "execute_loop guarded (host_grants revoke_b) reqs host_init = Some h"
    "length (h_events h) = length reqs" "\<not> list_ex event_incomplete (h_events h)"
    "check_loop (host_run rid guarded (host_grants revoke_b) h) host_principals
       (host_grants revoke_b) 0 (h_events h) check_init = Some (Inr s)"
    "lockstep guarded ab h s"
    by (rule execute_runs [OF assms(1)])
  let ?r = "host_run rid guarded (host_grants revoke_b) h"
  have "check ?r = Some (check_finish ?r (fst (h_sinks h)) (snd (h_sinks h)) s)"
    by (rule check_host_run [OF h(1) refl _ _ assms(4) h(3,4)]) (use h(2) assms(2,3) in auto)
  moreover have "rp_knowledge (check_finish ?r (fst (h_sinks h)) (snd (h_sinks h)) s)
      = (if set FRAGMENTS \<subseteq> set (fst (h_sinks h)) then Violated else Safe)"
    using h(5) unfolding lockstep_sinks(1) [OF h(5)]
    by (auto simp: check_finish_def lockstep_def check_inv_def Let_def)
  ultimately show ?thesis
    using h(1) by (simp add: execute_def host_run_def)
qed

theorem host_runs_accepted_witness:
  "\<exists>r rep pub. execute ''w'' False [(0, Public, Fragment, True), (1, Public, Fragment, True)] False = Some r
     \<and> check r = Some rep \<and> r_public_sink r = Some pub
     \<and> rp_knowledge rep = (if set FRAGMENTS \<subseteq> set pub then Violated else Safe)"
  by (rule host_runs_accepted) simp_all

text \<open>C14: The verdict is sound on an arbitrary, possibly forged record: \<open>Safe\<close> is only reported
  when the supplied public sink lacks a fragment, \<open>Violated\<close> only when it holds both, and a
  guarded run is never reported as violated.\<close>

theorem check_verdict_sound:
  assumes "check r = Some rep"
  shows "(rp_knowledge rep = Safe \<longrightarrow> (\<exists>pub. r_public_sink r = Some pub \<and> \<not> set FRAGMENTS \<subseteq> set pub))
       \<and> (rp_knowledge rep = Violated \<longrightarrow>
            (\<exists>pub. r_public_sink r = Some pub \<and> set FRAGMENTS \<subseteq> set pub) \<and> \<not> r_guarded r)"
proof (cases r rule: check_cases)
  case (finish ps grants pub vault s ab)
  have lock: "lockstep (r_guarded r) ab \<lparr>h_state = c_state s, h_events = [], h_sinks = c_sinks s\<rparr> s"
    using finish(6) by (simp add: lockstep_def)
  show ?thesis
    using finish assms check_finish_knowledge [OF finish(6), of pub vault] lockstep_sinks [OF lock]
    by auto
qed (use assms in \<open>auto simp: ec_report_def\<close>)

theorem check_verdict_sound_witness:
  "\<exists>r rep. execute ''w'' False [(0, Public, Fragment, True), (1, Public, Fragment, True)] False = Some r
     \<and> check r = Some rep \<and> rp_knowledge rep = Violated \<and> \<not> r_guarded r"
proof -
  have "Option.bind (execute ''w'' False [(0, Public, Fragment, True), (1, Public, Fragment, True)] False)
      (\<lambda>r. map_option rp_knowledge (check r)) = Some Violated"
    by code_simp
  then obtain r rep where r: "execute ''w'' False [(0, Public, Fragment, True), (1, Public, Fragment, True)] False = Some r"
      "check r = Some rep" "rp_knowledge rep = Violated"
    by (auto simp: bind_eq_Some_conv)
  with check_verdict_sound [OF r(2)] show ?thesis by blast
qed

text \<open>The seven published experiments have the published outcomes, in the order of \<open>suite\<close>: the
  unguarded joint release is violated, the control, the guarded and the repaired runs and the
  run without delegation are safe, and the run whose grants are withheld is inconclusive.\<close>

lemma suite_outcomes:
  "map (\<lambda>m. Option.bind m (\<lambda>r. map_option rp_knowledge (check r))) suite =
     map Some [Violated, Safe, Safe, Safe, Safe, Safe, Inconclusive]"
  by code_simp

end
