(* ===== verification/F64.thy ===== *)
theory F64
  imports Prelude "HOL-Library.Log_Nat"
begin

text \<open>
  Rust's \<open>f64\<close>: IEEE 754 binary64 values with signed zeros, infinities and one NaN, and the
  operations the modelled code applies to them. A finite nonzero value is the rational number
  it denotes; arithmetic is the exact rational result rounded once, to the nearest
  representable number with ties to the even significand (\<open>round64\<close>), with overflow to the
  infinities and gradual underflow below \<open>2 ^ - 1022\<close>. Literals of the source such as \<open>1e-9\<close>
  are \<open>round64\<close> of the decimal value, as the compiler reads them. All operations compute.
  The lemmas show that rounding is monotone and exact on representable numbers and that the
  comparison is a preorder on the values that are not NaN.
\<close>

section \<open>Values and comparisons\<close>

datatype f64 = NaN | Infinite (f64_neg: bool) | Zero bool | Num rat

fun is_nan :: "f64 \<Rightarrow> bool" where
  "is_nan NaN = True"
| "is_nan _ = False"

fun is_finite :: "f64 \<Rightarrow> bool" where
  "is_finite NaN = False"
| "is_finite (Infinite _) = False"
| "is_finite _ = True"

fun f64_val :: "f64 \<Rightarrow> rat" where
  "f64_val (Num r) = r"
| "f64_val _ = 0"

fun f64_class :: "f64 \<Rightarrow> int" where
  "f64_class (Infinite neg) = (if neg then - 1 else 1)"
| "f64_class _ = 0"

definition f64_le :: "f64 \<Rightarrow> f64 \<Rightarrow> bool" where
  "f64_le a b \<longleftrightarrow> \<not> is_nan a \<and> \<not> is_nan b
     \<and> (f64_class a < f64_class b \<or> f64_class a = f64_class b \<and> f64_val a \<le> f64_val b)"

definition f64_lt :: "f64 \<Rightarrow> f64 \<Rightarrow> bool" where
  "f64_lt a b \<longleftrightarrow> f64_le a b \<and> \<not> f64_le b a"

definition f64_eq :: "f64 \<Rightarrow> f64 \<Rightarrow> bool" where
  "f64_eq a b \<longleftrightarrow> f64_le a b \<and> f64_le b a"

section \<open>Rounding\<close>

definition ilog2 :: "rat \<Rightarrow> int" where
  "ilog2 x = (case quotient_of x of (p, q) \<Rightarrow>
     let l = bitlen p - bitlen q in if 2 powi l \<le> x then l else l - 1)"

definition quantum :: "rat \<Rightarrow> int" where
  "quantum x = max (ilog2 x - 52) (- 1074)"

definition round_even :: "rat \<Rightarrow> int" where
  "round_even y = (let n = \<lfloor>y\<rfloor>; d = y - of_int n in
     if d < 1 / 2 then n else if 1 / 2 < d then n + 1 else if even n then n else n + 1)"

definition round_mag :: "rat \<Rightarrow> rat" where
  "round_mag x = of_int (round_even (x / 2 powi quantum x)) * 2 powi quantum x"

definition round64 :: "rat \<Rightarrow> f64" where
  "round64 x =
     (if x = 0 then Zero False
      else let v = round_mag \<bar>x\<bar> in
        if v = 0 then Zero (x < 0)
        else if 2 ^ 1024 \<le> v then Infinite (x < 0)
        else Num (if x < 0 then - v else v))"

section \<open>Arithmetic\<close>

fun f64_sign :: "f64 \<Rightarrow> bool" where
  "f64_sign NaN = False"
| "f64_sign (Infinite neg) = neg"
| "f64_sign (Zero neg) = neg"
| "f64_sign (Num r) = (r < 0)"

fun f64_uminus :: "f64 \<Rightarrow> f64" where
  "f64_uminus NaN = NaN"
| "f64_uminus (Infinite neg) = Infinite (\<not> neg)"
| "f64_uminus (Zero neg) = Zero (\<not> neg)"
| "f64_uminus (Num r) = Num (- r)"

fun f64_add :: "f64 \<Rightarrow> f64 \<Rightarrow> f64" where
  "f64_add NaN b = NaN"
| "f64_add a NaN = NaN"
| "f64_add (Infinite s) (Infinite t) = (if s = t then Infinite s else NaN)"
| "f64_add (Infinite s) b = Infinite s"
| "f64_add a (Infinite t) = Infinite t"
| "f64_add (Zero s) (Zero t) = Zero (s \<and> t)"
| "f64_add (Zero s) (Num r) = Num r"
| "f64_add (Num r) (Zero t) = Num r"
| "f64_add (Num r) (Num r') = round64 (r + r')"

definition f64_sub :: "f64 \<Rightarrow> f64 \<Rightarrow> f64" where
  "f64_sub a b = f64_add a (f64_uminus b)"

fun f64_abs :: "f64 \<Rightarrow> f64" where
  "f64_abs NaN = NaN"
| "f64_abs (Infinite _) = Infinite False"
| "f64_abs (Zero _) = Zero False"
| "f64_abs (Num r) = Num \<bar>r\<bar>"

fun f64_mul :: "f64 \<Rightarrow> f64 \<Rightarrow> f64" where
  "f64_mul NaN b = NaN"
| "f64_mul a NaN = NaN"
| "f64_mul (Infinite s) (Zero t) = NaN"
| "f64_mul (Zero s) (Infinite t) = NaN"
| "f64_mul (Num r) (Num r') = round64 (r * r')"
| "f64_mul (Infinite s) b = Infinite (s \<noteq> f64_sign b)"
| "f64_mul a (Infinite t) = Infinite (f64_sign a \<noteq> t)"
| "f64_mul (Zero s) b = Zero (s \<noteq> f64_sign b)"
| "f64_mul a (Zero t) = Zero (f64_sign a \<noteq> t)"

fun f64_div :: "f64 \<Rightarrow> f64 \<Rightarrow> f64" where
  "f64_div NaN b = NaN"
| "f64_div a NaN = NaN"
| "f64_div (Infinite s) (Infinite t) = NaN"
| "f64_div (Zero s) (Zero t) = NaN"
| "f64_div (Num r) (Num r') = round64 (r / r')"
| "f64_div (Infinite s) b = Infinite (s \<noteq> f64_sign b)"
| "f64_div (Zero s) b = Zero (s \<noteq> f64_sign b)"
| "f64_div a (Infinite t) = Zero (f64_sign a \<noteq> t)"
| "f64_div a (Zero t) = Infinite (f64_sign a \<noteq> t)"

text \<open>\<open>n as f64\<close> for an unsigned integer.\<close>

definition f64_of_nat :: "nat \<Rightarrow> f64" where
  "f64_of_nat n = round64 (of_nat n)"

section \<open>Lemmas\<close>

lemma f64_le_refl: "f64_le a a \<longleftrightarrow> \<not> is_nan a"
  by (simp add: f64_le_def)

lemma f64_le_trans: "f64_le a b \<Longrightarrow> f64_le b c \<Longrightarrow> f64_le a c"
  by (auto simp: f64_le_def)

lemma f64_le_total: "\<not> is_nan a \<Longrightarrow> \<not> is_nan b \<Longrightarrow> f64_le a b \<or> f64_le b a"
  by (auto simp: f64_le_def)

lemma between_finite: "f64_le (Num a) x \<Longrightarrow> f64_le x (Num b) \<Longrightarrow> is_finite x"
  by (cases x) (auto simp: f64_le_def split: if_splits)

lemma f64_eq_sym: "f64_eq a b \<longleftrightarrow> f64_eq b a"
  by (auto simp: f64_eq_def)

lemma f64_eq_refl: "f64_eq a a \<longleftrightarrow> \<not> is_nan a"
  by (simp add: f64_eq_def f64_le_refl)

lemma f64_eq_trans: "f64_eq a b \<Longrightarrow> f64_eq b c \<Longrightarrow> f64_eq a c"
  by (auto simp: f64_eq_def intro: f64_le_trans)

lemma is_finite_not_nan: "is_finite a \<Longrightarrow> \<not> is_nan a"
  by (cases a) auto

lemma powi_pos: "(0::rat) < 2 powi k"
  by simp

lemma powi_Suc: "(2::rat) powi (k + 1) = 2 * 2 powi k"
  by (simp add: power_int_add)

lemma powi_split: "(2::rat) powi (a + b) = 2 powi a * 2 powi b"
  by (simp add: power_int_add)

lemma powi_mono: "a \<le> b \<Longrightarrow> (2::rat) powi a \<le> 2 powi b"
  by (rule power_int_increasing) auto

lemma powi_less_iff: "(2::rat) powi a < 2 powi b \<longleftrightarrow> a < b"
proof
  assume "(2::rat) powi a < 2 powi b"
  then show "a < b" using powi_mono [of b a] by (meson not_le)
next
  assume "a < b"
  then show "(2::rat) powi a < 2 powi b" by (rule power_int_strict_increasing) simp
qed

lemma bitlen_powi:
  assumes "0 < p"
  shows "(2::rat) powi (bitlen p - 1) \<le> of_int p" and "(of_int p :: rat) < 2 powi bitlen p"
proof -
  have b: "1 \<le> bitlen p" and "2 ^ nat (bitlen p - 1) \<le> p \<and> p < 2 ^ nat (bitlen p)"
    using assms bitlen_bounds [of p] bitlen_ge_iff_power [of 1 p] by auto
  then have "(of_int (2 ^ nat (bitlen p - 1)) :: rat) \<le> of_int p \<and> (of_int p :: rat) < of_int (2 ^ nat (bitlen p))"
    unfolding of_int_le_iff of_int_less_iff by simp
  with b show "(2::rat) powi (bitlen p - 1) \<le> of_int p" "(of_int p :: rat) < 2 powi bitlen p"
    by (simp_all add: power_int_def)
qed

lemma ilog2_bounds:
  assumes "0 < x"
  shows "2 powi ilog2 x \<le> x" and "x < 2 powi (ilog2 x + 1)"
proof -
  obtain p q where pq: "quotient_of x = (p, q)" by (cases "quotient_of x")
  then have q: "0 < q" and x: "x = of_int p / of_int q"
    by (auto simp: quotient_of_denom_pos quotient_of_div)
  with assms have p: "0 < p" by (simp add: zero_less_divide_iff)
  let ?l = "bitlen p - bitlen q"
  have "(of_int p :: rat) < 2 powi bitlen p" "(2::rat) powi (bitlen q - 1) \<le> of_int q"
    using bitlen_powi p q by blast+
  then have "x < 2 powi bitlen p / 2 powi (bitlen q - 1)"
    unfolding x using q by (intro frac_less) (auto simp: p less_imp_le)
  also have "\<dots> = 2 powi (?l + 1)"
    by (simp add: power_int_diff power_int_add)
  finally have up: "x < 2 powi (?l + 1)" .
  have "(2::rat) powi (bitlen p - 1) \<le> of_int p" "(of_int q :: rat) < 2 powi bitlen q"
    using bitlen_powi p q by blast+
  then have "2 powi (bitlen p - 1) / 2 powi bitlen q \<le> x"
    unfolding x using q by (intro frac_le) (auto simp: p less_imp_le)
  moreover have "(2::rat) powi (bitlen p - 1) / 2 powi bitlen q = 2 powi (?l - 1)"
    by (simp add: power_int_diff)
  ultimately have lo: "2 powi (?l - 1) \<le> x" by simp
  show "2 powi ilog2 x \<le> x" "x < 2 powi (ilog2 x + 1)"
    using up lo by (auto simp: ilog2_def pq Let_def)
qed

lemma ilog2_mono:
  assumes "0 < x" and "x \<le> y"
  shows "ilog2 x \<le> ilog2 y"
proof -
  have "2 powi ilog2 x < (2::rat) powi (ilog2 y + 1)"
    using ilog2_bounds(1) [OF assms(1)] ilog2_bounds(2) [of y] assms by linarith
  then show ?thesis by (simp add: powi_less_iff)
qed

lemma round_even_mono: "x \<le> y \<Longrightarrow> round_even x \<le> round_even y"
proof -
  assume xy: "x \<le> y"
  then have "\<lfloor>x\<rfloor> \<le> \<lfloor>y\<rfloor>" by (rule floor_mono)
  then consider "\<lfloor>x\<rfloor> = \<lfloor>y\<rfloor>" | "\<lfloor>x\<rfloor> + 1 \<le> \<lfloor>y\<rfloor>" by linarith
  then show ?thesis
    using xy by cases (auto simp: round_even_def Let_def)
qed

lemma round_even_of_int [simp]: "round_even (of_int n) = n"
  by (simp add: round_even_def)

lemma quantum_mono: "0 < x \<Longrightarrow> x \<le> y \<Longrightarrow> quantum x \<le> quantum y"
  using ilog2_mono [of x y] by (simp add: quantum_def)

lemma powi_int: "0 \<le> k \<Longrightarrow> (2::rat) powi k = of_int (2 ^ nat k)"
  by (simp add: power_int_def)

lemma powi_shift: "k \<le> e \<Longrightarrow> (2::rat) powi e = of_int (2 ^ nat (e - k)) * 2 powi k"
  using powi_split [of "e - k" k] powi_int [of "e - k"] by simp

lemma round_mag_exact:
  assumes x: "x = of_int m * 2 powi e" and m: "0 < m" "m < 2 ^ 53" and e: "- 1074 \<le> e"
  shows "round_mag x = x"
proof -
  have pos: "0 < x" using m by (simp add: x)
  have "(of_int m :: rat) < of_int (2 ^ 53)"
    using m(2) unfolding of_int_less_iff .
  then have "(of_int m :: rat) < 2 powi 53"
    by (simp add: power_int_def)
  then have "x < 2 powi (53 + e)"
    unfolding x powi_split by simp
  then have "2 powi ilog2 x < (2::rat) powi (53 + e)"
    using ilog2_bounds(1) [OF pos] by linarith
  then have "quantum x \<le> e"
    using e by (simp add: powi_less_iff quantum_def)
  then have "x = of_int m * (of_int (2 ^ nat (e - quantum x)) * 2 powi quantum x)"
    using powi_shift [of "quantum x" e] x by simp
  then have "x / 2 powi quantum x = of_int (m * 2 ^ nat (e - quantum x))"
    using powi_pos [of "quantum x"] by (metis (no_types, lifting) mult.assoc nonzero_mult_div_cancel_right of_int_mult less_irrefl)
  then have "round_mag x = of_int (m * 2 ^ nat (e - quantum x)) * 2 powi quantum x"
    unfolding round_mag_def by (simp only: round_even_of_int)
  also have "\<dots> = x"
    using \<open>x / 2 powi quantum x = of_int (m * 2 ^ nat (e - quantum x))\<close> by (simp add: field_simps)
  finally show ?thesis .
qed

lemma round_mag_mono:
  assumes "0 < x" and "x \<le> y"
  shows "round_mag x \<le> round_mag y"
proof (cases "quantum x = quantum y")
  case True
  have "round_even (x / 2 powi quantum y) \<le> round_even (y / 2 powi quantum y)"
    using assms by (intro round_even_mono divide_right_mono) auto
  then show ?thesis
    by (simp add: round_mag_def True)
next
  case False
  have y: "0 < y" using assms by simp
  have "quantum x < quantum y" using False quantum_mono [OF assms] by simp
  then have q: "quantum y = ilog2 y - 52" and l: "ilog2 x < ilog2 y" and k: "quantum x \<le> ilog2 y"
    by (auto simp: quantum_def)
  define N where "N = (2::int) ^ nat (ilog2 y - quantum x)"
  have N: "(2::rat) powi ilog2 y = of_int N * 2 powi quantum x"
    unfolding N_def by (rule powi_shift [OF k])
  have "(2::rat) powi (ilog2 x + 1) \<le> 2 powi ilog2 y"
    using l by (intro powi_mono) simp
  then have "x \<le> 2 powi ilog2 y"
    using ilog2_bounds(2) [OF assms(1)] by linarith
  then have "x / 2 powi quantum x \<le> of_int N"
    unfolding N by (simp add: field_simps)
  then have "round_even (x / 2 powi quantum x) \<le> N"
    using round_even_mono by fastforce
  then have up: "round_mag x \<le> 2 powi ilog2 y"
    unfolding round_mag_def N by simp
  have "(2::rat) powi ilog2 y = of_int (2 ^ 52) * 2 powi quantum y"
    unfolding q by (simp add: power_int_diff)
  moreover from this ilog2_bounds(1) [OF y] have "of_int (2 ^ 52) \<le> y / 2 powi quantum y"
    by (simp add: field_simps)
  then have "2 ^ 52 \<le> round_even (y / 2 powi quantum y)"
    using round_even_mono by (metis round_even_of_int)
  then have "(of_int (2 ^ 52) :: rat) \<le> of_int (round_even (y / 2 powi quantum y))"
    unfolding of_int_le_iff .
  ultimately have "2 powi ilog2 y \<le> round_mag y"
    unfolding round_mag_def by simp
  with up show ?thesis by linarith
qed


lemma round_mag_nonneg: "0 < x \<Longrightarrow> 0 \<le> round_mag x"
proof -
  assume "0 < x"
  then have "0 \<le> x / 2 powi quantum x" by simp
  then have "0 \<le> round_even (x / 2 powi quantum x)"
    using round_even_mono [of 0 "x / 2 powi quantum x"] round_even_of_int [of 0] by simp
  then show ?thesis by (simp add: round_mag_def)
qed

lemma is_nan_round64 [simp]: "\<not> is_nan (round64 x)"
  by (simp add: round64_def Let_def)

lemma round64_mono_pos:
  assumes "0 < x" and "x \<le> y"
  shows "f64_le (round64 x) (round64 y)"
  using round_mag_mono [OF assms] round_mag_nonneg [OF assms(1)] assms
  by (auto simp: round64_def f64_le_def Let_def)

lemma round64_exact:
  assumes "x = of_int m * 2 powi e" and "0 < m" and "m < 2 ^ 53" and "- 1074 \<le> e" and "x < 2 ^ 1024"
  shows "round64 x = Num x"
proof -
  have "0 < x" using assms(1,2) by simp
  with round_mag_exact [OF assms(1-4)] assms(5) show ?thesis
    by (simp add: round64_def Let_def)
qed

lemma round64_between:
  assumes "0 < a" and "a \<le> x" and "x \<le> b" and "round64 a = Num a" and "round64 b = Num b"
  shows "\<exists>r. round64 x = Num r \<and> a \<le> r \<and> r \<le> b"
proof -
  have "f64_le (Num a) (round64 x)" "f64_le (round64 x) (Num b)"
    using round64_mono_pos [of a x] round64_mono_pos [of x b] assms by simp_all
  then show ?thesis
    using assms(1) by (cases "round64 x") (auto simp: f64_le_def split: if_splits)
qed

lemma round64_pow2: "n \<le> 1000 \<Longrightarrow> round64 (2 ^ n) = Num (2 ^ n)"
proof (rule round64_exact [of _ 1 "int n"])
  show "n \<le> 1000 \<Longrightarrow> (2 :: rat) ^ n < 2 ^ 1024" by (rule power_strict_increasing) auto
qed (simp_all add: power_int_def)

lemma f64_of_nat_exact: "0 < n \<Longrightarrow> n < 2 ^ 53 \<Longrightarrow> f64_of_nat n = Num (of_nat n)"
proof -
  assume n: "0 < n" "n < 2 ^ 53"
  have "(of_nat n :: rat) < of_nat (2 ^ 53)"
    using n(2) unfolding of_nat_less_iff .
  also have "\<dots> \<le> (2 :: rat) ^ 1024" by (simp add: power_increasing)
  finally have small: "(of_nat n :: rat) < 2 ^ 1024" .
  have "round64 (of_nat n) = Num (of_nat n)"
    by (rule round64_exact [of _ "int n" 0]) (use n small in \<open>auto simp: zless_nat_eq_int_zless\<close>)
  then show ?thesis by (simp add: f64_of_nat_def)
qed

text \<open>A proper fraction whose denominator fits the significand stays below one when rounded.\<close>

lemma round64_below_one: "round64 (1 - 1 / 2 ^ 53) = Num (1 - 1 / 2 ^ 53)"
  by (rule round64_exact [of _ "2 ^ 53 - 1" "- 53"]) (simp_all add: power_int_def power_one_over)

lemma round64_one: "round64 1 = Num 1"
  by (rule round64_exact [of _ 1 0]) simp_all

lemma proper_fraction_below_one:
  assumes "0 < r" and "r < t" and "t < 2 ^ 53"
  shows "\<not> f64_le (Num 1) (f64_div (f64_of_nat r) (f64_of_nat t))"
proof -
  have "(of_nat t :: rat) < of_nat (2 ^ 53)" using assms(3) unfolding of_nat_less_iff .
  then have t: "(of_nat t :: rat) < 2 ^ 53" by simp
  have "of_nat r + 1 \<le> (of_nat t :: rat)" using assms(2) by (metis Suc_leI of_nat_Suc of_nat_le_iff add.commute)
  then have "of_nat r / of_nat t \<le> (1 :: rat) - 1 / of_nat t"
    using assms by (simp add: field_simps)
  also have "\<dots> \<le> 1 - 1 / 2 ^ 53"
    using t assms(1,2) by (simp add: frac_le)
  finally have "f64_le (round64 (of_nat r / of_nat t)) (round64 (1 - 1 / 2 ^ 53))"
    using assms by (intro round64_mono_pos) auto
  then have "f64_le (round64 (of_nat r / of_nat t)) (Num (1 - 1 / 2 ^ 53))"
    unfolding round64_below_one .
  then have "f64_le (f64_div (f64_of_nat r) (f64_of_nat t)) (Num (1 - 1 / 2 ^ 53))"
    using assms by (simp add: f64_of_nat_exact)
  then show ?thesis by (auto dest: f64_le_trans simp: f64_le_def)
qed

end
