(* ===== verification/Legitimacy_Core.thy ===== *)
theory Legitimacy_Core
  imports F64
begin

text \<open>
  The crate root's data and checks, \<open>src/src/lib.rs\<close> and \<open>src/src/error.rs\<close>: errors, claims,
  estates, allocations and verdicts. A formatted message is its template with the list of its
  arguments (\<open>message\<close>); rendering it as text is not modelled. The foreign \<open>source\<close> fields of
  error variants are left out.
\<close>

section \<open>Errors\<close>

datatype fmt_arg = AStr string | AF64 f64 | ANat nat | AList "string list"
datatype message = Message string "fmt_arg list"

datatype legitimacy_error =
    InvalidPositiveStrength f64
  | InvalidEstateTotal f64
  | InvalidClaimStrength string f64
  | InvalidClaimantId string
  | DuplicateClaimantId string
  | AllocationMissingClaimant string
  | InvalidAllocationValue string f64
  | AllocationUnknownClaimant string
  | AllocationExceedsEstate f64 f64
  | MissingAllocationShare string string
  | RuleNotAdmissible string string
  | CertificationRuleMismatch string string string string
  | CertifiedOutcomeMismatch string string string f64 f64
  | PolicyRead string
  | PolicyToml string
  | InvalidPolicy string message
  | InvalidNodeId string
  | DuplicateNodeId string
  | InvalidEdgeReference string
  | UnsupportedNodeType string string
  | InvalidGovernanceStrength string f64
  | InvalidGate string message
  | InvalidRegex string
  | ConflictingClaimFeed string string
  | NoEntryNodes
  | CycleError "string list"
  | IoError string
  | JsonError string
  | SerializeError string
  | SqliteError string
  | SystemClock
  | InvalidInput message

definition invalid_input :: "string \<Rightarrow> fmt_arg list \<Rightarrow> legitimacy_error" where
  "invalid_input template args = InvalidInput (Message template args)"

section \<open>Claims and estates\<close>

definition EPSILON :: f64 where
  "EPSILON = round64 (1 / 10 ^ 9)"

definition positive_strength_new :: "f64 \<Rightarrow> legitimacy_error + f64" where
  "positive_strength_new value =
     (if \<not> is_finite value \<or> f64_le value (Zero False)
      then Inl (InvalidPositiveStrength value) else Inr value)"

record estate =
  total :: f64
  unit_name :: string

definition estate_total_new :: "f64 \<Rightarrow> legitimacy_error + f64" where
  "estate_total_new value =
     (if \<not> is_finite value \<or> f64_le value (Zero False)
      then Inl (InvalidEstateTotal value) else Inr value)"

definition estate_total_scale :: "f64 \<Rightarrow> f64 \<Rightarrow> legitimacy_error + f64" where
  "estate_total_scale t scale = estate_total_new (f64_mul t scale)"

definition estate_new :: "f64 \<Rightarrow> string \<Rightarrow> legitimacy_error + estate" where
  "estate_new t u = rbind (estate_total_new t) (\<lambda>t. Inr \<lparr>total = t, unit_name = u\<rparr>)"

record claim =
  clm_id :: string
  clm_strength :: f64
  clm_metrics :: "(string, f64) bmap"

definition validate_claimant_id :: "string \<Rightarrow> legitimacy_error + unit" where
  "validate_claimant_id cid = require (\<not> is_blank cid) (InvalidClaimantId cid)"

definition validate_claim_strength :: "string \<Rightarrow> f64 \<Rightarrow> legitimacy_error + unit" where
  "validate_claim_strength cid st =
     require (is_finite st \<and> \<not> f64_le st (Zero False)) (InvalidClaimStrength cid st)"

definition claim_try_new :: "string \<Rightarrow> f64 \<Rightarrow> legitimacy_error + claim" where
  "claim_try_new cid st =
     rbind (validate_claimant_id cid) (\<lambda>_.
     rbind (validate_claim_strength cid st) (\<lambda>_.
     rbind (positive_strength_new st) (\<lambda>ps.
     Inr \<lparr>clm_id = cid, clm_strength = ps, clm_metrics = []\<rparr>)))"

definition claim_validate :: "claim \<Rightarrow> legitimacy_error + unit" where
  "claim_validate c =
     rbind (validate_claimant_id (clm_id c)) (\<lambda>_. validate_claim_strength (clm_id c) (clm_strength c))"

fun validate_all_from :: "string set \<Rightarrow> claim list \<Rightarrow> legitimacy_error + unit" where
  "validate_all_from seen [] = Inr ()"
| "validate_all_from seen (c # cs) =
     rbind (claim_validate c) (\<lambda>_.
       if clm_id c \<in> seen then Inl (DuplicateClaimantId (clm_id c))
       else validate_all_from (insert (clm_id c) seen) cs)"

definition validate_all :: "claim list \<Rightarrow> legitimacy_error + unit" where
  "validate_all cs = validate_all_from {} cs"

definition with_metric :: "string \<Rightarrow> f64 \<Rightarrow> claim \<Rightarrow> claim" where
  "with_metric name value c = c\<lparr>clm_metrics := bm_insert name value (clm_metrics c)\<rparr>"

definition metric :: "claim \<Rightarrow> string \<Rightarrow> f64" where
  "metric c name = (case bm_get (clm_metrics c) name of Some v \<Rightarrow> v | None \<Rightarrow> Zero False)"

section \<open>Allocations\<close>

type_synonym allocation = "(string, f64) bmap"

text \<open>The claimant identifiers as a sorted set, in the order the code visits them.\<close>

definition expected_ids :: "claim list \<Rightarrow> string list" where
  "expected_ids cs = sorted_list_of_set (set (map clm_id cs))"

fun allocation_missing :: "allocation \<Rightarrow> string list \<Rightarrow> legitimacy_error + unit" where
  "allocation_missing a [] = Inr ()"
| "allocation_missing a (k # ks) =
     (if bm_has a k then allocation_missing a ks else Inl (AllocationMissingClaimant k))"

fun allocation_entries :: "string list \<Rightarrow> allocation \<Rightarrow> legitimacy_error + unit" where
  "allocation_entries ids [] = Inr ()"
| "allocation_entries ids ((k, v) # a) =
     (if \<not> is_finite v \<or> f64_lt v (Zero False) then Inl (InvalidAllocationValue k v)
      else if k \<notin> set ids then Inl (AllocationUnknownClaimant k)
      else allocation_entries ids a)"

definition allocation_validate :: "allocation \<Rightarrow> claim list \<Rightarrow> legitimacy_error + unit" where
  "allocation_validate a cs =
     rbind (allocation_missing a (expected_ids cs)) (\<lambda>_. allocation_entries (expected_ids cs) a)"

definition share_for :: "allocation \<Rightarrow> string \<Rightarrow> string \<Rightarrow> legitimacy_error + f64" where
  "share_for a cid context = option_ok (MissingAllocationShare cid context) (bm_get a cid)"

text \<open>\<open>Iterator::sum\<close> on floats starts from negative zero, the neutral element of addition.\<close>

definition f64_sum :: "f64 list \<Rightarrow> f64" where
  "f64_sum xs = foldl f64_add (Zero True) xs"

definition validate_feasible :: "allocation \<Rightarrow> estate \<Rightarrow> legitimacy_error + unit" where
  "validate_feasible a est =
     (let total_allocated = f64_sum (bm_values a);
          estate_total = total est;
          tolerance = f64_add (f64_add EPSILON (f64_mul EPSILON (f64_abs total_allocated)))
                        (f64_mul EPSILON (f64_abs estate_total))
      in if is_finite total_allocated \<and> f64_le (f64_sub total_allocated estate_total) tolerance
         then Inr () else Inl (AllocationExceedsEstate total_allocated estate_total))"

text \<open>A \<open>ValidAllocation\<close> is an allocation that passed validation; the newtype is transparent.\<close>

definition valid_allocation_new :: "allocation \<Rightarrow> claim list \<Rightarrow> legitimacy_error + allocation" where
  "valid_allocation_new a cs = rbind (allocation_validate a cs) (\<lambda>_. Inr a)"

section \<open>Rule kinds and verdicts\<close>

datatype declarative_rule_kind = ProportionalRule | Custom string

definition rule_kind_parse :: "string \<Rightarrow> declarative_rule_kind" where
  "rule_kind_parse kind = (if kind = ''proportional'' then ProportionalRule else Custom kind)"

fun rule_kind_as_str :: "declarative_rule_kind \<Rightarrow> string" where
  "rule_kind_as_str ProportionalRule = ''proportional''"
| "rule_kind_as_str (Custom name) = name"

record counterexample =
  description :: message
  original_claims :: "claim list"
  original_estate :: estate
  original_allocation :: allocation
  perturbed_claims :: "claim list"
  perturbed_estate :: estate
  perturbed_allocation :: allocation
  violation :: message

datatype verdict =
    Admissible (verdict_axiom: string) (perturbations_tested: nat)
  | Rejected (verdict_axiom: string) (verdict_counterexample: counterexample)

section \<open>Lemmas\<close>

lemma validate_all_from_Inr:
  "validate_all_from seen cs = Inr () \<longleftrightarrow>
     (\<forall>c \<in> set cs. claim_validate c = Inr ()) \<and> distinct (map clm_id cs)
     \<and> set (map clm_id cs) \<inter> seen = {}"
  by (induction cs arbitrary: seen) (auto simp: result_simps)

lemma allocation_missing_Inr: "allocation_missing a ks = Inr () \<longleftrightarrow> (\<forall>k \<in> set ks. bm_has a k)"
  by (induction ks) auto

lemma allocation_entries_Inr:
  "allocation_entries ids a = Inr () \<longleftrightarrow>
     (\<forall>(k, v) \<in> set a. is_finite v \<and> \<not> f64_lt v (Zero False) \<and> k \<in> set ids)"
  by (induction ids a rule: allocation_entries.induct) (auto simp: if_Inl_Inr)

lemma ball_pairs: "(\<forall>(k, v) \<in> A. P v \<and> Q v \<and> k \<in> S) \<longleftrightarrow> (\<forall>v \<in> snd ` A. P v \<and> Q v) \<and> fst ` A \<subseteq> S"
  by (simp add: split_beta image_subset_iff ball_conj_distrib conj_assoc)

lemma set_expected_ids [simp]: "set (expected_ids cs) = clm_id ` set cs"
  by (simp add: expected_ids_def)

lemma allocation_validate_Inr:
  "allocation_validate a cs = Inr () \<longleftrightarrow>
     fst ` set a = clm_id ` set cs
     \<and> (\<forall>v \<in> snd ` set a. is_finite v \<and> \<not> f64_lt v (Zero False))"
proof -
  have "allocation_validate a cs = Inr () \<longleftrightarrow>
      clm_id ` set cs \<subseteq> fst ` set a
      \<and> (\<forall>(k, v) \<in> set a. is_finite v \<and> \<not> f64_lt v (Zero False) \<and> k \<in> clm_id ` set cs)"
    unfolding allocation_validate_def rbind_Inr_iff
    by (auto simp: allocation_missing_Inr allocation_entries_Inr bm_has_def)
  also have "\<dots> \<longleftrightarrow> clm_id ` set cs \<subseteq> fst ` set a \<and> fst ` set a \<subseteq> clm_id ` set cs
      \<and> (\<forall>v \<in> snd ` set a. is_finite v \<and> \<not> f64_lt v (Zero False))"
    unfolding ball_pairs by blast
  finally show ?thesis by blast
qed

section \<open>Properties\<close>

text \<open>An allocation is accepted for a set of claims exactly when it has an entry for every
  claimant, none for anybody else, and only finite entries that are not negative.\<close>

lemma allocation_validate_iff:
  "allocation_validate a cs = Inr () \<longleftrightarrow>
     fst ` set a = clm_id ` set cs
     \<and> (\<forall>v \<in> snd ` set a. is_finite v \<and> \<not> f64_lt v (Zero False))"
  by (rule allocation_validate_Inr)

lemma allocation_validate_iff_witness:
  "allocation_validate [(''a'', Num 1)] [\<lparr>clm_id = ''a'', clm_strength = Num 1, clm_metrics = []\<rparr>] = Inr ()"
  by (subst allocation_validate_iff) (auto simp: f64_lt_def f64_le_def)

end
