(* ===== verification/Governance_Graph.thy ===== *)
theory Governance_Graph
  imports Legitimacy_Core "HOL-Library.Multiset"
begin

text \<open>
  Governance graphs, \<open>src/src/graph/node.rs\<close>, \<open>edge.rs\<close> and \<open>builder.rs\<close>: gates, nodes, claims,
  edges, the builder, validation and the evaluation of one node on a batch of claims.
  The regular-expression engine is a third-party crate; it is the parameter \<open>rx\<close> of the
  definitions that use it: \<open>rx pattern\<close> is \<open>None\<close> when the pattern does not compile and the
  compiled matcher otherwise.
\<close>

section \<open>Data\<close>

type_synonym node_id = string

datatype decision = Permit | Deny | Escalate

datatype gate =
    PrefixMatch string decision
  | ExactMatch string decision
  | ContentMatch string decision
  | ThresholdGate string f64 decision
  | PeerRelative string f64 decision

datatype gate_logic = AllMustPass | AnyMustPass | FirstMatch

record governance_claim =
  claimant_id :: string
  strength :: f64
  priority_class :: "string option"
  path :: "string option"
  action :: "string option"
  content :: "string option"
  metrics :: "(string, f64) bmap"

record claim_decision =
  cd_claimant_id :: string
  cd_decision :: decision

datatype governance_node =
    Binary node_id string "gate list" decision gate_logic
  | Proportional node_id string declarative_rule_kind "string list"
  | Threshold node_id string f64 string

datatype edge_transform = PassThrough | ClaimModification f64

record governance_edge =
  edge_from :: node_id
  edge_to :: node_id
  edge_transform :: edge_transform

record governance_graph =
  nodes :: "(node_id, governance_node) bmap"
  edges :: "governance_edge list"

type_synonym regex_engine = "string \<Rightarrow> (string \<Rightarrow> bool) option"

text \<open>The derived \<open>PartialEq\<close> of claims compares floats with the IEEE equality.\<close>

definition metrics_eq :: "(string, f64) bmap \<Rightarrow> (string, f64) bmap \<Rightarrow> bool" where
  "metrics_eq m m' \<longleftrightarrow> list_all2 (\<lambda>e e'. fst e = fst e' \<and> f64_eq (snd e) (snd e')) m m'"

definition claim_eq :: "governance_claim \<Rightarrow> governance_claim \<Rightarrow> bool" where
  "claim_eq a b \<longleftrightarrow> claimant_id a = claimant_id b \<and> f64_eq (strength a) (strength b)
     \<and> priority_class a = priority_class b \<and> path a = path b \<and> action a = action b
     \<and> content a = content b \<and> metrics_eq (metrics a) (metrics b)"

section \<open>Identifiers and validation\<close>

definition node_id_new :: "string \<Rightarrow> legitimacy_error + node_id" where
  "node_id_new value = (if is_blank value then Inl (InvalidNodeId value) else Inr value)"

definition validate_metric :: "governance_claim \<Rightarrow> string \<times> f64 \<Rightarrow> legitimacy_error + unit" where
  "validate_metric c fv =
     require (is_finite (snd fv)) (InvalidGate (fst fv)
       (Message ''claim '{}' has non-finite metric value {}'' [AStr (claimant_id c), AF64 (snd fv)]))"

definition validate_governance_claim :: "governance_claim \<Rightarrow> legitimacy_error + unit" where
  "validate_governance_claim c =
     (if is_blank (claimant_id c) then Inl (InvalidClaimantId (claimant_id c))
      else if \<not> is_finite (strength c) \<or> f64_le (strength c) (Zero False)
      then Inl (InvalidGovernanceStrength (claimant_id c) (strength c))
      else if (case priority_class c of None \<Rightarrow> False | Some class \<Rightarrow> is_blank class)
      then Inl (invalid_input ''claim '{}' priority_class must be non-empty when provided''
                  [AStr (claimant_id c)])
      else rfold (\<lambda>_. validate_metric c) () (metrics c))"

fun validate_governance_claims_from ::
  "string set \<Rightarrow> governance_claim list \<Rightarrow> legitimacy_error + unit" where
  "validate_governance_claims_from seen [] = Inr ()"
| "validate_governance_claims_from seen (c # cs) =
     rbind (validate_governance_claim c) (\<lambda>_.
       if claimant_id c \<in> seen then Inl (DuplicateClaimantId (claimant_id c))
       else validate_governance_claims_from (insert (claimant_id c) seen) cs)"

definition validate_governance_claims :: "governance_claim list \<Rightarrow> legitimacy_error + unit" where
  "validate_governance_claims cs = validate_governance_claims_from {} cs"

definition compile_regex :: "regex_engine \<Rightarrow> string \<Rightarrow> legitimacy_error + (string \<Rightarrow> bool)" where
  "compile_regex rx pattern = option_ok (InvalidRegex pattern) (rx pattern)"

definition validate_gate_string :: "string \<Rightarrow> string \<Rightarrow> legitimacy_error + unit" where
  "validate_gate_string g value =
     require (\<not> is_blank value) (InvalidGate g (Message ''value must be non-empty'' []))"

fun validate_gate :: "regex_engine \<Rightarrow> gate \<Rightarrow> legitimacy_error + unit" where
  "validate_gate rx (PrefixMatch pattern d) = validate_gate_string ''PrefixMatch'' pattern"
| "validate_gate rx (ExactMatch value d) = validate_gate_string ''ExactMatch'' value"
| "validate_gate rx (ContentMatch regex d) =
     rbind (validate_gate_string ''ContentMatch'' regex) (\<lambda>_.
     rbind (compile_regex rx regex) (\<lambda>_. Inr ()))"
| "validate_gate rx (ThresholdGate field mn d) =
     rbind (validate_gate_string ''ThresholdGate'' field) (\<lambda>_.
     require (is_finite mn) (InvalidGate ''ThresholdGate'' (Message ''min must be finite'' [])))"
| "validate_gate rx (PeerRelative field percentile d) =
     rbind (validate_gate_string ''PeerRelative'' field) (\<lambda>_.
     require (is_finite percentile \<and> f64_le (Zero False) percentile \<and> f64_le percentile (Num 1))
       (InvalidGate ''PeerRelative''
          (Message ''percentile must be within [0, 1], got {}'' [AF64 percentile])))"

fun validate_governance_node :: "regex_engine \<Rightarrow> governance_node \<Rightarrow> legitimacy_error + unit" where
  "validate_governance_node rx (Binary i n gates d l) = rfold (\<lambda>_. validate_gate rx) () gates"
| "validate_governance_node rx (Proportional i n r classes) =
     (if list_ex is_blank classes then Inl (invalid_input ''priority classes must be non-empty'' [])
      else Inr ())"
| "validate_governance_node rx (Threshold i n threshold field) =
     (if \<not> is_finite threshold then Inl (invalid_input ''threshold values must be finite'' [])
      else if is_blank field then Inl (invalid_input ''threshold field must be non-empty'' [])
      else Inr ())"

fun node_id_for_node :: "governance_node \<Rightarrow> node_id" where
  "node_id_for_node (Binary i n gates d l) = i"
| "node_id_for_node (Proportional i n r classes) = i"
| "node_id_for_node (Threshold i n threshold field) = i"

fun node_kind :: "governance_node \<Rightarrow> string" where
  "node_kind (Binary i n gates d l) = ''Binary''"
| "node_kind (Proportional i n r classes) = ''Proportional''"
| "node_kind (Threshold i n threshold field) = ''Threshold''"

definition validate_graph_node :: "regex_engine \<Rightarrow> node_id \<times> governance_node \<Rightarrow> legitimacy_error + unit" where
  "validate_graph_node rx e =
     (if fst e \<noteq> node_id_for_node (snd e)
      then Inl (invalid_input (''graph node map key '{}' does not match embedded node id '{}'' @ [CHR 0x27])
                  [AStr (fst e), AStr (node_id_for_node (snd e))])
      else validate_governance_node rx (snd e))"

definition edge_delta_error :: "f64 \<Rightarrow> legitimacy_error" where
  "edge_delta_error delta =
     invalid_input ''claim-modification delta must be finite, got {}'' [AF64 delta]"

definition validate_graph_edge :: "governance_graph \<Rightarrow> governance_edge \<Rightarrow> legitimacy_error + unit" where
  "validate_graph_edge g e =
     (if \<not> bm_has (nodes g) (edge_from e) then Inl (InvalidEdgeReference (edge_from e))
      else if \<not> bm_has (nodes g) (edge_to e) then Inl (InvalidEdgeReference (edge_to e))
      else (case edge_transform e of
              PassThrough \<Rightarrow> Inr ()
            | ClaimModification delta \<Rightarrow> require (is_finite delta) (edge_delta_error delta)))"

definition validate_governance_graph :: "regex_engine \<Rightarrow> governance_graph \<Rightarrow> legitimacy_error + unit" where
  "validate_governance_graph rx g =
     rbind (rfold (\<lambda>_. validate_graph_node rx) () (nodes g)) (\<lambda>_.
     rfold (\<lambda>_. validate_graph_edge g) () (edges g))"

section \<open>The builder\<close>

definition edge_new :: "node_id \<Rightarrow> node_id \<Rightarrow> edge_transform \<Rightarrow> legitimacy_error + governance_edge" where
  "edge_new f t tr =
     (case tr of
        ClaimModification delta \<Rightarrow>
          if \<not> is_finite delta then Inl (edge_delta_error delta)
          else Inr \<lparr>edge_from = f, edge_to = t, edge_transform = ClaimModification delta\<rparr>
      | PassThrough \<Rightarrow> Inr \<lparr>edge_from = f, edge_to = t, edge_transform = tr\<rparr>)"

record graph_builder =
  b_nodes :: "(node_id, governance_node) bmap"
  b_edges :: "governance_edge list"

definition builder_new :: graph_builder where
  "builder_new = \<lparr>b_nodes = [], b_edges = []\<rparr>"

definition add_node :: "regex_engine \<Rightarrow> governance_node \<Rightarrow> graph_builder \<Rightarrow> legitimacy_error + graph_builder" where
  "add_node rx n b =
     rbind (validate_governance_node rx n) (\<lambda>_.
       if bm_has (b_nodes b) (node_id_for_node n) then Inl (DuplicateNodeId (node_id_for_node n))
       else Inr (b\<lparr>b_nodes := bm_insert (node_id_for_node n) n (b_nodes b)\<rparr>))"

definition add_edge ::
  "node_id \<Rightarrow> node_id \<Rightarrow> edge_transform \<Rightarrow> graph_builder \<Rightarrow> legitimacy_error + graph_builder" where
  "add_edge f t tr b = rbind (edge_new f t tr) (\<lambda>e. Inr (b\<lparr>b_edges := b_edges b @ [e]\<rparr>))"

definition build_edge :: "graph_builder \<Rightarrow> governance_edge \<Rightarrow> legitimacy_error + unit" where
  "build_edge b e =
     (if \<not> bm_has (b_nodes b) (edge_from e) then Inl (InvalidEdgeReference (edge_from e))
      else if \<not> bm_has (b_nodes b) (edge_to e) then Inl (InvalidEdgeReference (edge_to e))
      else Inr ())"

definition build :: "graph_builder \<Rightarrow> legitimacy_error + governance_graph" where
  "build b = rbind (rfold (\<lambda>_. build_edge b) () (b_edges b)) (\<lambda>_.
     Inr \<lparr>nodes = b_nodes b, edges = b_edges b\<rparr>)"

text \<open>A chain of builder calls.\<close>

datatype builder_call = AddNode governance_node | AddEdge node_id node_id edge_transform

fun builder_step :: "regex_engine \<Rightarrow> graph_builder \<Rightarrow> builder_call \<Rightarrow> legitimacy_error + graph_builder" where
  "builder_step rx b (AddNode n) = add_node rx n b"
| "builder_step rx b (AddEdge f t tr) = add_edge f t tr b"

section \<open>Evaluating a node\<close>

fun gate_decision :: "gate \<Rightarrow> decision" where
  "gate_decision (PrefixMatch _ d) = d"
| "gate_decision (ExactMatch _ d) = d"
| "gate_decision (ContentMatch _ d) = d"
| "gate_decision (ThresholdGate _ _ d) = d"
| "gate_decision (PeerRelative _ _ d) = d"

definition numeric_field :: "governance_claim \<Rightarrow> string \<Rightarrow> legitimacy_error + f64" where
  "numeric_field c field =
     (if field = ''strength'' then Inr (strength c)
      else option_ok (InvalidGate field (Message (''claim '{}' does not provide metric '{}'' @ [CHR 0x27])
                        [AStr (claimant_id c), AStr field]))
             (bm_get (metrics c) field))"

text \<open>\<open>f64::total_cmp\<close> and the stable sort by it.\<close>

fun f64_total_key :: "f64 \<Rightarrow> int \<times> rat \<times> int" where
  "f64_total_key NaN = (2, 0, 0)"
| "f64_total_key (Infinite neg) = (if neg then - 1 else 1, 0, 0)"
| "f64_total_key (Zero neg) = (0, 0, if neg then 0 else 1)"
| "f64_total_key (Num r) = (0, r, 0)"

definition f64_total_le :: "f64 \<Rightarrow> f64 \<Rightarrow> bool" where
  "f64_total_le a b \<longleftrightarrow> (case (f64_total_key a, f64_total_key b) of
     ((c, x, z), (c', x', z')) \<Rightarrow> c < c' \<or> c = c' \<and> (x < x' \<or> x = x' \<and> z \<le> z'))"

fun f64_insort :: "f64 \<Rightarrow> f64 list \<Rightarrow> f64 list" where
  "f64_insort x [] = [x]"
| "f64_insort x (y # ys) = (if f64_total_le x y then x # y # ys else y # f64_insort x ys)"

definition f64_sort :: "f64 list \<Rightarrow> f64 list" where
  "f64_sort xs = foldr f64_insort xs []"

definition peer_relative_rank_at_least_percentile :: "nat \<Rightarrow> nat \<Rightarrow> f64 \<Rightarrow> bool" where
  "peer_relative_rank_at_least_percentile rank tot percentile =
     f64_le percentile (f64_div (f64_of_nat rank) (f64_of_nat tot))"

definition evaluate_peer_relative ::
  "governance_claim \<Rightarrow> governance_claim list \<Rightarrow> string \<Rightarrow> f64 \<Rightarrow> legitimacy_error + bool" where
  "evaluate_peer_relative current cs field percentile =
     rbind (numeric_field current field) (\<lambda>current_value.
     rbind (rmap (\<lambda>c. numeric_field c field) cs) (\<lambda>vals.
       let sorted_values = f64_sort vals;
           less_or_equal = length (filter (\<lambda>v. f64_le v current_value) sorted_values)
       in Inr (peer_relative_rank_at_least_percentile less_or_equal (length sorted_values) percentile)))"

fun gate_matches ::
  "regex_engine \<Rightarrow> gate \<Rightarrow> governance_claim \<Rightarrow> governance_claim list \<Rightarrow> legitimacy_error + bool" where
  "gate_matches rx (PrefixMatch pattern d) c cs =
     Inr (case path c of None \<Rightarrow> False | Some p \<Rightarrow> starts_with p pattern)"
| "gate_matches rx (ExactMatch value d) c cs = Inr (action c = Some value)"
| "gate_matches rx (ContentMatch regex d) c cs =
     rbind (compile_regex rx regex) (\<lambda>is_match.
       Inr (case content c of None \<Rightarrow> False | Some s \<Rightarrow> is_match s))"
| "gate_matches rx (ThresholdGate field mn d) c cs =
     rbind (numeric_field c field) (\<lambda>v. Inr (f64_le mn v))"
| "gate_matches rx (PeerRelative field percentile d) c cs = evaluate_peer_relative c cs field percentile"

fun evaluate_first_match ::
  "regex_engine \<Rightarrow> gate list \<Rightarrow> governance_claim \<Rightarrow> governance_claim list \<Rightarrow> decision
     \<Rightarrow> legitimacy_error + decision" where
  "evaluate_first_match rx [] c cs dflt = Inr dflt"
| "evaluate_first_match rx (g # gates) c cs dflt =
     rbind (gate_matches rx g c cs) (\<lambda>m.
       if m then Inr (gate_decision g) else evaluate_first_match rx gates c cs dflt)"

fun matched_decisions ::
  "regex_engine \<Rightarrow> gate list \<Rightarrow> governance_claim \<Rightarrow> governance_claim list
     \<Rightarrow> legitimacy_error + decision list" where
  "matched_decisions rx [] c cs = Inr []"
| "matched_decisions rx (g # gates) c cs =
     rbind (gate_matches rx g c cs) (\<lambda>m.
     rbind (matched_decisions rx gates c cs) (\<lambda>ds.
       Inr (if m then gate_decision g # ds else ds)))"

definition evaluate_any_must_pass ::
  "regex_engine \<Rightarrow> gate list \<Rightarrow> governance_claim \<Rightarrow> governance_claim list \<Rightarrow> decision
     \<Rightarrow> legitimacy_error + decision" where
  "evaluate_any_must_pass rx gates c cs dflt =
     rbind (matched_decisions rx gates c cs) (\<lambda>matched.
       if Permit \<in> set matched then Inr Permit
       else if Escalate \<in> set matched then Inr Escalate
       else if Deny \<in> set matched then Inr Deny
       else Inr dflt)"

text \<open>The loop of \<open>evaluate_all_must_pass\<close>: \<open>Inl\<close> an error; a \<open>Deny\<close> leaves at once.\<close>

fun all_must_pass_loop ::
  "regex_engine \<Rightarrow> governance_claim \<Rightarrow> governance_claim list \<Rightarrow> gate list \<Rightarrow> nat \<Rightarrow> bool
     \<Rightarrow> legitimacy_error + (nat \<times> bool) option" where
  "all_must_pass_loop rx c cs [] matched_count saw_escalate = Inr (Some (matched_count, saw_escalate))"
| "all_must_pass_loop rx c cs (g # gates) matched_count saw_escalate =
     rbind (gate_matches rx g c cs) (\<lambda>m.
       if m then
         (case gate_decision g of
            Deny \<Rightarrow> Inr None
          | Escalate \<Rightarrow> all_must_pass_loop rx c cs gates (matched_count + 1) True
          | Permit \<Rightarrow> all_must_pass_loop rx c cs gates (matched_count + 1) saw_escalate)
       else all_must_pass_loop rx c cs gates matched_count saw_escalate)"

definition evaluate_all_must_pass ::
  "regex_engine \<Rightarrow> gate list \<Rightarrow> governance_claim \<Rightarrow> governance_claim list \<Rightarrow> decision
     \<Rightarrow> legitimacy_error + decision" where
  "evaluate_all_must_pass rx gates c cs dflt =
     rbind (all_must_pass_loop rx c cs gates 0 False) (\<lambda>r.
       case r of
         None \<Rightarrow> Inr Deny
       | Some (matched_count, saw_escalate) \<Rightarrow>
           if matched_count = length gates \<and> gates \<noteq> []
           then (if saw_escalate then Inr Escalate else Inr Permit)
           else if saw_escalate then Inr Escalate else Inr dflt)"

definition evaluate_combination ::
  "regex_engine \<Rightarrow> gate_logic \<Rightarrow> gate list \<Rightarrow> governance_claim \<Rightarrow> governance_claim list \<Rightarrow> decision
     \<Rightarrow> legitimacy_error + decision" where
  "evaluate_combination rx combination =
     (case combination of
        FirstMatch \<Rightarrow> evaluate_first_match rx
      | AnyMustPass \<Rightarrow> evaluate_any_must_pass rx
      | AllMustPass \<Rightarrow> evaluate_all_must_pass rx)"

definition decide :: "governance_claim \<Rightarrow> decision \<Rightarrow> claim_decision" where
  "decide c d = \<lparr>cd_claimant_id = claimant_id c, cd_decision = d\<rparr>"

definition evaluate_binary_node ::
  "regex_engine \<Rightarrow> gate list \<Rightarrow> decision \<Rightarrow> gate_logic \<Rightarrow> governance_claim list
     \<Rightarrow> legitimacy_error + claim_decision list" where
  "evaluate_binary_node rx gates dflt combination cs =
     rmap (\<lambda>c. rbind (evaluate_combination rx combination gates c cs dflt) (\<lambda>d. Inr (decide c d))) cs"

definition evaluate_threshold_node ::
  "f64 \<Rightarrow> string \<Rightarrow> governance_claim list \<Rightarrow> legitimacy_error + claim_decision list" where
  "evaluate_threshold_node threshold field cs =
     rmap (\<lambda>c. rbind (numeric_field c field) (\<lambda>v.
             Inr (decide c (if f64_le threshold v then Permit else Deny)))) cs"

fun evaluate_node_validated ::
  "regex_engine \<Rightarrow> governance_node \<Rightarrow> governance_claim list \<Rightarrow> legitimacy_error + claim_decision list" where
  "evaluate_node_validated rx (Proportional i n r classes) cs =
     Inl (UnsupportedNodeType i (node_kind (Proportional i n r classes)))"
| "evaluate_node_validated rx (Binary i n gates dflt combination) cs =
     evaluate_binary_node rx gates dflt combination cs"
| "evaluate_node_validated rx (Threshold i n threshold field) cs =
     evaluate_threshold_node threshold field cs"

definition evaluate_node ::
  "regex_engine \<Rightarrow> governance_node \<Rightarrow> governance_claim list \<Rightarrow> legitimacy_error + claim_decision list" where
  "evaluate_node rx n cs = rbind (validate_governance_claims cs) (\<lambda>_. evaluate_node_validated rx n cs)"

section \<open>Merging claim batches\<close>

definition merge_claim ::
  "node_id \<Rightarrow> (string, governance_claim) bmap \<Rightarrow> governance_claim
     \<Rightarrow> legitimacy_error + (string, governance_claim) bmap" where
  "merge_claim nid merged c =
     (case bm_get merged (claimant_id c) of
        Some existing \<Rightarrow>
          if \<not> claim_eq existing c then Inl (ConflictingClaimFeed nid (claimant_id c)) else Inr merged
      | None \<Rightarrow> Inr (bm_insert (claimant_id c) c merged))"

definition merge_claim_batches ::
  "node_id \<Rightarrow> governance_claim list \<Rightarrow> governance_claim list
     \<Rightarrow> legitimacy_error + governance_claim list" where
  "merge_claim_batches nid incoming additional =
     rbind (rfold (merge_claim nid) [] (incoming @ additional)) (\<lambda>merged. Inr (bm_values merged))"

fun decision_rank :: "decision \<Rightarrow> nat" where
  "decision_rank Deny = 0"
| "decision_rank Escalate = 1"
| "decision_rank Permit = 2"

section \<open>Decisions, ordered by strictness\<close>

instantiation decision :: linorder
begin

definition less_eq_decision :: "decision \<Rightarrow> decision \<Rightarrow> bool" where
  "less_eq_decision a b \<longleftrightarrow> decision_rank a \<le> decision_rank b"

definition less_decision :: "decision \<Rightarrow> decision \<Rightarrow> bool" where
  "less_decision a b \<longleftrightarrow> decision_rank a < decision_rank b"

instance
proof
  fix a b :: decision
  show "a \<le> b \<Longrightarrow> b \<le> a \<Longrightarrow> a = b"
    by (cases a; cases b) (simp_all add: less_eq_decision_def)
qed (auto simp: less_eq_decision_def less_decision_def)

end

section \<open>The regex cache\<close>

text \<open>
  \<open>cached_content_regex\<close> with its process-wide cache made explicit: the cache is passed in and
  returned. (A poisoned lock, the only other outcome, needs a panic of another thread inside
  the locked section, and the sections contain none.)
\<close>

type_synonym regex_cache = "(string, string \<Rightarrow> bool) bmap"

definition cached_content_regex ::
  "regex_engine \<Rightarrow> string \<Rightarrow> regex_cache \<Rightarrow> (legitimacy_error + (string \<Rightarrow> bool)) \<times> regex_cache" where
  "cached_content_regex rx pattern cache =
     (case bm_get cache pattern of
        Some compiled \<Rightarrow> (Inr compiled, cache)
      | None \<Rightarrow>
          (case rx pattern of
             None \<Rightarrow> (Inl (InvalidRegex pattern), cache)
           | Some compiled \<Rightarrow>
               (case bm_get cache pattern of
                  Some old \<Rightarrow> (Inr old, cache)
                | None \<Rightarrow> (Inr compiled, bm_insert pattern compiled cache))))"

section \<open>Lemmas: validation\<close>

lemma validate_governance_claims_from_Inr:
  "validate_governance_claims_from seen cs = Inr () \<longleftrightarrow>
     (\<forall>c \<in> set cs. validate_governance_claim c = Inr ()) \<and> distinct (map claimant_id cs)
     \<and> claimant_id ` set cs \<inter> seen = {}"
  by (induction cs arbitrary: seen) (auto simp: result_simps)

lemma validate_governance_claims_Inr:
  "validate_governance_claims cs = Inr () \<longleftrightarrow>
     (\<forall>c \<in> set cs. validate_governance_claim c = Inr ()) \<and> distinct (map claimant_id cs)"
  by (simp add: validate_governance_claims_def validate_governance_claims_from_Inr)

lemma validate_governance_graph_Inr:
  "validate_governance_graph rx g = Inr () \<longleftrightarrow>
     (\<forall>e \<in> set (nodes g). validate_graph_node rx e = Inr ())
     \<and> (\<forall>e \<in> set (edges g). validate_graph_edge g e = Inr ())"
  by (auto simp: validate_governance_graph_def result_simps rfold_unit_Inr)

section \<open>Lemmas: the gates\<close>

text \<open>The gates of a node that match a claim, and that no gate fails on it.\<close>

definition gate_holds :: "regex_engine \<Rightarrow> governance_claim \<Rightarrow> governance_claim list \<Rightarrow> gate \<Rightarrow> bool" where
  "gate_holds rx c cs g \<longleftrightarrow> gate_matches rx g c cs = Inr True"

definition gates_total :: "regex_engine \<Rightarrow> governance_claim \<Rightarrow> governance_claim list \<Rightarrow> gate list \<Rightarrow> bool" where
  "gates_total rx c cs gates \<longleftrightarrow> list_all (\<lambda>g. \<not> isl (gate_matches rx g c cs)) gates"

lemma gates_total_simps [simp]:
  "gates_total rx c cs []"
  "gates_total rx c cs (g # gates) \<longleftrightarrow>
     gate_matches rx g c cs = Inr (gate_holds rx c cs g) \<and> gates_total rx c cs gates"
  by (cases "gate_matches rx g c cs"; auto simp: gates_total_def gate_holds_def)+

definition passed :: "regex_engine \<Rightarrow> governance_claim \<Rightarrow> governance_claim list \<Rightarrow> gate list \<Rightarrow> decision list" where
  "passed rx c cs gates = map gate_decision (filter (gate_holds rx c cs) gates)"

text \<open>What a combination promises, from the decisions of the gates that match.\<close>

fun combination_spec :: "gate_logic \<Rightarrow> nat \<Rightarrow> decision list \<Rightarrow> decision \<Rightarrow> decision" where
  "combination_spec FirstMatch n ds dflt = (case ds of [] \<Rightarrow> dflt | d # _ \<Rightarrow> d)"
| "combination_spec AnyMustPass n ds dflt =
     (if Permit \<in> set ds then Permit else if Escalate \<in> set ds then Escalate
      else if Deny \<in> set ds then Deny else dflt)"
| "combination_spec AllMustPass n ds dflt =
     (if Deny \<in> set ds then Deny else if Escalate \<in> set ds then Escalate
      else if length ds = n \<and> 0 < n then Permit else dflt)"

lemma evaluate_first_match_spec:
  "gates_total rx c cs gates \<Longrightarrow>
     evaluate_first_match rx gates c cs dflt
       = Inr (combination_spec FirstMatch (length gates) (passed rx c cs gates) dflt)"
  by (induction gates) (auto simp: passed_def)

lemma matched_decisions_spec:
  "gates_total rx c cs gates \<Longrightarrow> matched_decisions rx gates c cs = Inr (passed rx c cs gates)"
  by (induction gates) (auto simp: passed_def)

lemma all_must_pass_loop_spec:
  "gates_total rx c cs gates \<Longrightarrow>
     all_must_pass_loop rx c cs gates k esc =
       Inr (if Deny \<in> set (passed rx c cs gates) then None
            else Some (k + length (passed rx c cs gates), esc \<or> Escalate \<in> set (passed rx c cs gates)))"
  by (induction gates arbitrary: k esc) (auto simp: passed_def split: decision.splits)

lemma evaluate_combination_spec:
  "gates_total rx c cs gates \<Longrightarrow>
     evaluate_combination rx logic gates c cs dflt
       = Inr (combination_spec logic (length gates) (passed rx c cs gates) dflt)"
  by (cases logic)
    (auto simp: evaluate_combination_def evaluate_first_match_spec evaluate_any_must_pass_def
       matched_decisions_spec evaluate_all_must_pass_def all_must_pass_loop_spec
       simp del: combination_spec.simps(1))

lemma combination_spec_mset:
  "mset ds = mset ds' \<Longrightarrow> logic \<noteq> FirstMatch \<Longrightarrow>
     combination_spec logic n ds dflt = combination_spec logic n ds' dflt"
  by (cases logic) (auto dest: mset_eq_setD mset_eq_length)

lemma passed_mset: "mset gates = mset gates' \<Longrightarrow> mset (passed rx c cs gates) = mset (passed rx c cs gates')"
  by (metis passed_def mset_filter mset_map)

lemma gates_total_mset: "mset gates = mset gates' \<Longrightarrow> gates_total rx c cs gates = gates_total rx c cs gates'"
  unfolding gates_total_def list_all_iff by (metis mset_eq_setD)

section \<open>Lemmas: progress\<close>

text \<open>The numeric fields that a gate or a node reads of every claim of the batch.\<close>

fun gate_field :: "gate \<Rightarrow> string option" where
  "gate_field (ThresholdGate field _ _) = Some field"
| "gate_field (PeerRelative field _ _) = Some field"
| "gate_field _ = None"

fun node_fields :: "governance_node \<Rightarrow> string set" where
  "node_fields (Binary _ _ gates _ _) = (\<Union>g \<in> set gates. set_option (gate_field g))"
| "node_fields (Threshold _ _ _ field) = {field}"
| "node_fields (Proportional _ _ _ _) = {}"

definition provides :: "governance_claim \<Rightarrow> string \<Rightarrow> bool" where
  "provides c field \<longleftrightarrow> field = ''strength'' \<or> bm_has (metrics c) field"

lemma numeric_field_provides: "provides c field \<Longrightarrow> \<exists>v. numeric_field c field = Inr v"
  by (auto simp: numeric_field_def provides_def bm_has_get option_ok_Inr)

lemma gate_matches_total:
  assumes "validate_gate rx g = Inr ()" and "c \<in> set cs"
    and "\<And>field c. gate_field g = Some field \<Longrightarrow> c \<in> set cs \<Longrightarrow> provides c field"
  shows "\<not> isl (gate_matches rx g c cs)"
proof (cases g)
  case (ContentMatch regex d)
  with assms(1) show ?thesis by (auto simp: result_simps compile_regex_def)
next
  case (ThresholdGate field mn d)
  with assms(2,3) numeric_field_provides [of c field] show ?thesis by auto
next
  case (PeerRelative field q d)
  with assms(2,3) obtain v vs
    where "numeric_field c field = Inr v" "rmap (\<lambda>c. numeric_field c field) cs = Inr vs"
    using numeric_field_provides rmap_total [of cs "\<lambda>c. numeric_field c field"] by fastforce
  with PeerRelative show ?thesis by (simp add: evaluate_peer_relative_def Let_def)
qed simp_all

lemma binary_gates_total:
  assumes "validate_governance_node rx (Binary i n gates d l) = Inr ()" and "c \<in> set cs"
    and "\<forall>c \<in> set cs. \<forall>field \<in> node_fields (Binary i n gates d l). provides c field"
  shows "gates_total rx c cs gates"
  unfolding gates_total_def list_all_iff
proof
  fix g assume "g \<in> set gates"
  then show "\<not> isl (gate_matches rx g c cs)"
    using assms by (intro gate_matches_total) (auto simp: rfold_unit_Inr)
qed

lemma binary_node_spec:
  assumes "validate_governance_node rx (Binary i n gates d l) = Inr ()"
    and "\<forall>c \<in> set cs. \<forall>field \<in> node_fields (Binary i n gates d l). provides c field"
  shows "evaluate_binary_node rx gates d l cs =
    Inr (map (\<lambda>c. decide c (combination_spec l (length gates) (passed rx c cs gates) d)) cs)"
  unfolding evaluate_binary_node_def rmap_Inr_iff list_all2_map2
  using binary_gates_total [OF assms(1) _ assms(2)]
  by (simp add: list_all2_same evaluate_combination_spec)

lemma node_evaluates:
  assumes "validate_governance_node rx n = Inr ()" and "node_kind n \<noteq> ''Proportional''"
    and "\<forall>c \<in> set cs. \<forall>field \<in> node_fields n. provides c field"
  shows "\<exists>ds. evaluate_node_validated rx n cs = Inr ds"
proof (cases n)
  case (Binary i nm gates d l)
  with assms binary_node_spec [of rx i nm gates d l cs] show ?thesis by simp
next
  case (Threshold i nm t field)
  with assms(3) have "\<exists>v. numeric_field c field = Inr v" if "c \<in> set cs" for c
    using that numeric_field_provides by simp
  then have "\<exists>ds. evaluate_threshold_node t field cs = Inr ds"
    unfolding evaluate_threshold_node_def by (intro rmap_total) fastforce
  with Threshold show ?thesis by simp
qed (use assms in simp)

section \<open>Lemmas: the builder\<close>

definition edge_ok :: "governance_edge \<Rightarrow> bool" where
  "edge_ok e \<longleftrightarrow> (case edge_transform e of PassThrough \<Rightarrow> True | ClaimModification delta \<Rightarrow> is_finite delta)"

definition builder_inv :: "regex_engine \<Rightarrow> graph_builder \<Rightarrow> bool" where
  "builder_inv rx b \<longleftrightarrow> bm_wf (b_nodes b)
     \<and> (\<forall>e \<in> set (b_nodes b). validate_graph_node rx e = Inr ()) \<and> (\<forall>e \<in> set (b_edges b). edge_ok e)"

lemma edge_new_Inr:
  "edge_new f t tr = Inr e \<longleftrightarrow> e = \<lparr>edge_from = f, edge_to = t, edge_transform = tr\<rparr> \<and> edge_ok e"
  by (cases tr) (auto simp: edge_new_def edge_ok_def)

lemma builder_step_inv: "builder_inv rx b \<Longrightarrow> builder_step rx b call = Inr b' \<Longrightarrow> builder_inv rx b'"
proof (cases call)
  case (AddNode n)
  assume "builder_inv rx b" "builder_step rx b call = Inr b'"
  with AddNode show ?thesis
    using set_bm_insert_subset [of "node_id_for_node n" n "b_nodes b"]
    by (auto simp: builder_inv_def add_node_def result_simps validate_graph_node_def)
next
  case (AddEdge f t tr)
  assume "builder_inv rx b" "builder_step rx b call = Inr b'"
  with AddEdge show ?thesis
    by (auto simp: builder_inv_def add_edge_def result_simps edge_new_Inr)
qed

interpretation builder: checked_loop "builder_step rx" "builder_inv rx" for rx
  by unfold_locales (rule builder_step_inv)

lemma builder_inv_new: "builder_inv rx builder_new"
  by (simp add: builder_inv_def builder_new_def)

lemma build_Inr:
  "build b = Inr g \<longleftrightarrow> g = \<lparr>nodes = b_nodes b, edges = b_edges b\<rparr>
     \<and> (\<forall>e \<in> set (b_edges b). bm_has (b_nodes b) (edge_from e) \<and> bm_has (b_nodes b) (edge_to e))"
  by (auto simp: build_def result_simps rfold_unit_Inr build_edge_def)

lemma validate_graph_edge_Inr:
  "validate_graph_edge g e = Inr () \<longleftrightarrow>
     bm_has (nodes g) (edge_from e) \<and> bm_has (nodes g) (edge_to e) \<and> edge_ok e"
  by (auto simp: validate_graph_edge_def edge_ok_def result_simps split: edge_transform.splits)

text \<open>The calls that rebuild a graph: its nodes in key order, then its edges.\<close>

definition edge_call :: "governance_edge \<Rightarrow> builder_call" where
  "edge_call e = AddEdge (edge_from e) (edge_to e) (edge_transform e)"

definition calls_of :: "governance_graph \<Rightarrow> builder_call list" where
  "calls_of g = map (AddNode \<circ> snd) (nodes g) @ map edge_call (edges g)"

lemma rebuild_nodes:
  "bm_wf (ns0 @ ns) \<Longrightarrow> \<forall>e \<in> set ns. validate_graph_node rx e = Inr () \<Longrightarrow>
     rfold (builder_step rx) \<lparr>b_nodes = ns0, b_edges = []\<rparr> (map (AddNode \<circ> snd) ns)
       = Inr \<lparr>b_nodes = ns0 @ ns, b_edges = []\<rparr>"
proof (induction ns arbitrary: ns0)
  case (Cons e ns)
  obtain k n where e: "e = (k, n)" by (cases e)
  have less: "\<And>a. a \<in> fst ` set ns0 \<Longrightarrow> a < k"
    using Cons.prems(1) e by (fastforce simp: bm_wf_def sorted_wrt_append)
  then have "\<not> bm_has ns0 k" by (auto simp: bm_has_def)
  then have "builder_step rx \<lparr>b_nodes = ns0, b_edges = []\<rparr> (AddNode n)
      = Inr \<lparr>b_nodes = ns0 @ [(k, n)], b_edges = []\<rparr>"
    using Cons.prems(2) e bm_insert_snoc [OF less]
    by (auto simp: add_node_def validate_graph_node_def result_simps split: if_splits)
  with Cons.IH [of "ns0 @ [e]"] Cons.prems e show ?case by simp
qed simp

lemma rebuild_edges:
  "\<forall>e \<in> set es. edge_ok e \<Longrightarrow>
     rfold (builder_step rx) \<lparr>b_nodes = ns, b_edges = es0\<rparr> (map edge_call es)
       = Inr \<lparr>b_nodes = ns, b_edges = es0 @ es\<rparr>"
proof (induction es arbitrary: es0)
  case (Cons e es)
  then have "edge_new (edge_from e) (edge_to e) (edge_transform e) = Inr e"
    by (simp add: edge_new_Inr)
  with Cons show ?case by (simp add: edge_call_def add_edge_def)
qed simp

section \<open>Lemmas: merging\<close>

lemma claim_eq_sym: "claim_eq a b \<Longrightarrow> claim_eq b a"
  by (auto simp: claim_eq_def metrics_eq_def f64_eq_sym list_all2_conv_all_nth)

lemma metrics_eq_trans: "metrics_eq a b \<Longrightarrow> metrics_eq b c \<Longrightarrow> metrics_eq a c"
  unfolding metrics_eq_def
  by (rule list_all2_trans [where as = a and bs = b and cs = c]) (auto elim: f64_eq_trans)

lemma claim_eq_trans: "claim_eq a b \<Longrightarrow> claim_eq b c \<Longrightarrow> claim_eq a c"
  unfolding claim_eq_def by (auto intro: metrics_eq_trans f64_eq_trans)

definition first_claim :: "governance_claim list \<Rightarrow> string \<Rightarrow> governance_claim option" where
  "first_claim cs k = find (\<lambda>c. claimant_id c = k) cs"

definition keyed_by_id :: "(string, governance_claim) bmap \<Rightarrow> bool" where
  "keyed_by_id m \<longleftrightarrow> bm_wf m \<and> (\<forall>e \<in> set m. claimant_id (snd e) = fst e)"

lemma keyed_by_id_insert: "keyed_by_id m \<Longrightarrow> keyed_by_id (bm_insert (claimant_id c) c m)"
  using set_bm_insert_subset [of "claimant_id c" c m] by (auto simp: keyed_by_id_def)

interpretation merging: checked_loop "merge_claim nid" keyed_by_id for nid
  by unfold_locales
    (auto simp: merge_claim_def keyed_by_id_insert split: option.splits if_splits)

text \<open>No two claims of the batch share an identifier and differ.\<close>

definition consistent_feed :: "governance_claim list \<Rightarrow> bool" where
  "consistent_feed cs \<longleftrightarrow> sorted_wrt (\<lambda>a b. claimant_id a = claimant_id b \<longrightarrow> claim_eq a b) cs"

lemma consistent_feed_snoc:
  assumes "consistent_feed cs"
  shows "consistent_feed (cs @ [c]) \<longleftrightarrow>
    (case first_claim cs (claimant_id c) of None \<Rightarrow> True | Some a \<Rightarrow> claim_eq a c)"
proof (cases "first_claim cs (claimant_id c)")
  case None
  then have "\<forall>a \<in> set cs. claimant_id a \<noteq> claimant_id c"
    by (auto simp: first_claim_def find_None_iff)
  with None assms show ?thesis by (simp add: consistent_feed_def sorted_wrt_append)
next
  case (Some a)
  then obtain i where i: "i < length cs" "claimant_id (cs ! i) = claimant_id c" "a = cs ! i"
      "\<forall>j<i. claimant_id (cs ! j) \<noteq> claimant_id c"
    by (auto simp: first_claim_def find_Some_iff)
  have "claim_eq (cs ! i) c \<Longrightarrow> j < length cs \<Longrightarrow> claimant_id (cs ! j) = claimant_id c \<Longrightarrow> claim_eq (cs ! j) c" for j
  proof -
    assume eq: "claim_eq (cs ! i) c" and j: "j < length cs" "claimant_id (cs ! j) = claimant_id c"
    consider "j < i" | "j = i" | "i < j" by linarith
    then show "claim_eq (cs ! j) c"
    proof cases
      case 3
      with assms i(2) j have "claim_eq (cs ! i) (cs ! j)"
        by (simp add: consistent_feed_def sorted_wrt_iff_nth_less)
      with eq show ?thesis by (blast intro: claim_eq_sym claim_eq_trans)
    qed (use i eq j in auto)
  qed
  then have "claim_eq (cs ! i) c \<longleftrightarrow> (\<forall>a \<in> set cs. claimant_id a = claimant_id c \<longrightarrow> claim_eq a c)"
    using i by (metis in_set_conv_nth)
  with i(3) assms Some show ?thesis
    by (simp add: consistent_feed_def sorted_wrt_append)
qed

lemma first_claim_snoc:
  "first_claim (cs @ [c]) k = (case first_claim cs k of Some a \<Rightarrow> Some a
     | None \<Rightarrow> if claimant_id c = k then Some c else None)"
  by (induction cs) (auto simp: first_claim_def)

lemma merge_claim_step:
  assumes "bm_get m = first_claim cs"
  shows "merge_claim nid m c = Inr m' \<Longrightarrow>
      (case first_claim cs (claimant_id c) of None \<Rightarrow> True | Some a \<Rightarrow> claim_eq a c)
      \<and> bm_get m' = first_claim (cs @ [c])"
    and "(case first_claim cs (claimant_id c) of None \<Rightarrow> True | Some a \<Rightarrow> claim_eq a c) \<Longrightarrow>
      \<exists>m'. merge_claim nid m c = Inr m' \<and> bm_get m' = first_claim (cs @ [c])"
  using assms
  by (auto simp: merge_claim_def first_claim_snoc fun_eq_iff split: option.splits if_splits)

lemma merge_fold:
  "rfold (merge_claim nid) [] cs = Inr m \<Longrightarrow> consistent_feed cs \<and> bm_get m = first_claim cs"
  "consistent_feed cs \<Longrightarrow> \<exists>m. rfold (merge_claim nid) [] cs = Inr m \<and> bm_get m = first_claim cs"
proof (induction cs arbitrary: m rule: rev_induct)
  case Nil
  { case 1 then show ?case by (auto simp: consistent_feed_def first_claim_def) next
    case 2 then show ?case by (auto simp: first_claim_def) }
next
  case (snoc c cs)
  { case 1
    then obtain m0 where m0: "rfold (merge_claim nid) [] cs = Inr m0" "merge_claim nid m0 c = Inr m"
      by (auto simp: rfold_append result_simps)
    from snoc(1) [OF m0(1)] m0(2) show ?case
      using merge_claim_step(1) [of m0 cs nid c m] by (simp add: consistent_feed_snoc)
  next
    case 2
    then have feed: "consistent_feed cs" by (simp add: consistent_feed_def sorted_wrt_append)
    with snoc(2) obtain m0 where "rfold (merge_claim nid) [] cs = Inr m0" "bm_get m0 = first_claim cs"
      by auto
    with 2 consistent_feed_snoc [OF feed, of c] merge_claim_step(2) [of m0 cs c nid] show ?case
      by (auto simp: rfold_append) }
qed

section \<open>Lemmas: peer-relative ranks\<close>

lemma length_f64_sort [simp]: "length (f64_sort xs) = length xs"
proof -
  have "length (f64_insort x ys) = Suc (length ys)" for x ys by (induction ys) auto
  then show ?thesis by (induction xs) (auto simp: f64_sort_def)
qed

lemma mset_f64_sort [simp]: "mset (f64_sort xs) = mset xs"
proof -
  have "mset (f64_insort x ys) = add_mset x (mset ys)" for x ys by (induction ys) auto
  then show ?thesis by (induction xs) (auto simp: f64_sort_def)
qed

lemma filter_f64_sort: "length (filter P (f64_sort xs)) = length (filter P xs)"
  by (metis mset_f64_sort mset_filter size_mset)

lemma full_rank_iff:
  assumes "r \<le> t" and "0 < t" and "t < 2 ^ 53"
  shows "peer_relative_rank_at_least_percentile r t (Num 1) \<longleftrightarrow> r = t"
proof -
  have "r = 0 \<Longrightarrow> \<not> f64_le (Num 1) (f64_div (f64_of_nat r) (f64_of_nat t))"
    using assms by (simp add: f64_of_nat_exact) (simp add: f64_of_nat_def round64_def f64_le_def)
  moreover have "f64_div (f64_of_nat t) (f64_of_nat t) = Num 1"
    using assms by (simp add: f64_of_nat_exact round64_one)
  ultimately show ?thesis
    using proper_fraction_below_one [of r t] assms
    by (cases "r = 0"; cases "r = t") (auto simp: peer_relative_rank_at_least_percentile_def f64_le_refl)
qed

section \<open>Lemmas: the regex cache\<close>

fun cached_lookups ::
  "regex_engine \<Rightarrow> string list \<Rightarrow> regex_cache \<Rightarrow> (legitimacy_error + (string \<Rightarrow> bool)) list \<times> regex_cache" where
  "cached_lookups rx [] cache = ([], cache)"
| "cached_lookups rx (p # ps) cache =
     (case cached_content_regex rx p cache of (r, cache') \<Rightarrow>
        (case cached_lookups rx ps cache' of (rs, cache'') \<Rightarrow> (r # rs, cache'')))"

definition cache_inv :: "regex_engine \<Rightarrow> regex_cache \<Rightarrow> bool" where
  "cache_inv rx cache \<longleftrightarrow> (\<forall>e \<in> set cache. rx (fst e) = Some (snd e))"

lemma cache_inv_get: "cache_inv rx cache \<Longrightarrow> bm_get cache p = Some f \<Longrightarrow> rx p = Some f"
  by (fastforce simp: cache_inv_def bm_get_def dest: map_of_SomeD)

lemma cached_content_regex_spec:
  assumes "cache_inv rx cache"
  shows "fst (cached_content_regex rx p cache) = compile_regex rx p
    \<and> cache_inv rx (snd (cached_content_regex rx p cache))"
  using cache_inv_get [OF assms] assms set_bm_insert_subset [of p _ cache]
  by (fastforce simp: cached_content_regex_def compile_regex_def cache_inv_def split: option.splits)

lemma cached_lookups_spec:
  "cache_inv rx cache \<Longrightarrow> fst (cached_lookups rx ps cache) = map (compile_regex rx) ps"
proof (induction ps arbitrary: cache)
  case (Cons p ps)
  then show ?case
    using cached_content_regex_spec [OF Cons.prems, of p]
    by (cases "cached_content_regex rx p cache") (auto simp: case_prod_beta)
qed simp

section \<open>Properties\<close>

definition sample_claim :: "string \<Rightarrow> governance_claim" where
  "sample_claim cid = \<lparr>claimant_id = cid, strength = Num 1, priority_class = None, path = Some ''/tmp/file'',
     action = Some ''Write'', content = None, metrics = [(''risk'', Num 1)]\<rparr>"

definition sample_node :: governance_node where
  "sample_node = Binary ''review'' ''review''
     [ExactMatch ''Write'' Permit, ThresholdGate ''risk'' (Num 1) Escalate] Deny AllMustPass"

lemmas sample_simps = sample_claim_def sample_node_def validate_gate_string_def
  validate_governance_claims_def validate_governance_claim_def validate_metric_def ws1_def ws2_def ws3_def
  provides_def bm_has_def f64_le_def

text \<open>A node that evaluates without error returns exactly one decision per claim, in the
  order of the claims and under the claims' identifiers, and the batch was well-formed: every
  claim valid and no identifier twice.\<close>

lemma evaluate_node_aligned:
  assumes "evaluate_node rx n cs = Inr ds"
  shows "map cd_claimant_id ds = map claimant_id cs \<and> distinct (map claimant_id cs)
    \<and> (\<forall>c \<in> set cs. validate_governance_claim c = Inr ())"
proof -
  have "map cd_claimant_id ds = map claimant_id cs"
    using assms
    by (cases n)
      (auto simp: evaluate_node_def evaluate_binary_node_def evaluate_threshold_node_def
         result_simps decide_def elim!: rmap_map_eq)
  with assms show ?thesis
    by (auto simp: evaluate_node_def result_simps validate_governance_claims_Inr)
qed

lemma evaluate_node_aligned_witness:
  "evaluate_node (\<lambda>_. None) sample_node [sample_claim ''a'', sample_claim ''b'']
     = Inr [\<lparr>cd_claimant_id = ''a'', cd_decision = Escalate\<rparr>, \<lparr>cd_claimant_id = ''b'', cd_decision = Escalate\<rparr>]
   \<and> map claimant_id [sample_claim ''a'', sample_claim ''b''] = [''a'', ''b'']"
proof -
  have "evaluate_node (\<lambda>_. None) sample_node [sample_claim ''a'', sample_claim ''b'']
     = Inr [\<lparr>cd_claimant_id = ''a'', cd_decision = Escalate\<rparr>, \<lparr>cd_claimant_id = ''b'', cd_decision = Escalate\<rparr>]"
    by code_simp
  from this evaluate_node_aligned [OF this] show ?thesis by simp
qed

text \<open>Progress of a node: on a batch of valid claims with distinct identifiers that
  provide every metric the node reads, a validated binary or threshold node never fails.\<close>

lemma evaluate_node_progress:
  assumes "validate_governance_node rx n = Inr ()" and "node_kind n \<noteq> ''Proportional''"
    and "validate_governance_claims cs = Inr ()"
    and "\<forall>c \<in> set cs. \<forall>field \<in> node_fields n. provides c field"
  shows "\<exists>ds. evaluate_node rx n cs = Inr ds"
  using node_evaluates [OF assms(1,2,4)] assms(3) by (simp add: evaluate_node_def)

lemma evaluate_node_progress_witness:
  "\<exists>ds. evaluate_node (\<lambda>_. None) sample_node [sample_claim ''a''] = Inr ds"
  by (rule evaluate_node_progress) (auto simp: sample_simps)

text \<open>Gate combination. On such a batch a binary node decides every claim from the gates
  that match it: the first of them; or permit over escalate over deny; or deny over escalate
  over (all gates matched) permit; and the node's default otherwise.\<close>

lemma binary_node_decisions:
  assumes "validate_governance_node rx (Binary i n gates d l) = Inr ()"
    and "validate_governance_claims cs = Inr ()"
    and "\<forall>c \<in> set cs. \<forall>field \<in> node_fields (Binary i n gates d l). provides c field"
  shows "evaluate_node rx (Binary i n gates d l) cs =
    Inr (map (\<lambda>c. decide c (combination_spec l (length gates) (passed rx c cs gates) d)) cs)"
  using assms binary_node_spec [OF assms(1,3)] by (simp add: evaluate_node_def)

lemma binary_node_decisions_witness:
  "evaluate_node (\<lambda>_. None) sample_node [sample_claim ''a''] =
     Inr [decide (sample_claim ''a'') Escalate]"
  unfolding sample_node_def
  by (subst binary_node_decisions)
    (auto simp: sample_simps passed_def gate_holds_def numeric_field_def bm_get_def)

text \<open>The order of the gates matters only under first-match: permuting the gates of an
  any-must-pass or all-must-pass node leaves every decision as it was.\<close>

lemma gate_order_irrelevant:
  assumes "mset gates = mset gates'" and "l \<noteq> FirstMatch" and "gates_total rx c cs gates"
  shows "evaluate_combination rx l gates c cs d = evaluate_combination rx l gates' c cs d"
proof -
  have "gates_total rx c cs gates'" using assms(1,3) gates_total_mset by blast
  then show ?thesis
    using assms combination_spec_mset [OF passed_mset [OF assms(1)] assms(2)]
    by (simp add: evaluate_combination_spec mset_eq_length [OF assms(1)])
qed

lemma gate_order_irrelevant_witness:
  "evaluate_combination (\<lambda>_. None) AllMustPass [ExactMatch ''Write'' Permit, ExactMatch ''Write'' Deny]
       (sample_claim ''a'') [] Permit
   = evaluate_combination (\<lambda>_. None) AllMustPass [ExactMatch ''Write'' Deny, ExactMatch ''Write'' Permit]
       (sample_claim ''a'') [] Permit"
  by (rule gate_order_irrelevant) (auto simp: gate_holds_def)

text \<open>A peer-relative gate at percentile one holds of a claim exactly when no claim of the
  batch has a larger value, in the float arithmetic of the code, for batches below \<open>2^53\<close>.\<close>

lemma peer_relative_maximum:
  assumes "length cs < 2 ^ 53" and "cs \<noteq> []"
    and "numeric_field c field = Inr v" and "rmap (\<lambda>c. numeric_field c field) cs = Inr vs"
  shows "evaluate_peer_relative c cs field (Num 1) = Inr (\<forall>w \<in> set vs. f64_le w v)"
proof -
  have "length vs = length cs" using assms(4) by (rule rmap_length)
  then have "length vs < 2 ^ 53" "0 < length vs" using assms(1,2) by auto
  then show ?thesis
    using full_rank_iff [of "length (filter (\<lambda>w. f64_le w v) vs)" "length vs"]
    by (simp add: evaluate_peer_relative_def assms(3,4) Let_def filter_f64_sort filter_length_full)
qed

lemma peer_relative_maximum_witness:
  "evaluate_peer_relative (sample_claim ''a'') [sample_claim ''a'', sample_claim ''b''] ''risk'' (Num 1) = Inr True"
  by (subst peer_relative_maximum [where v = "Num 1" and vs = "[Num 1, Num 1]"])
    (auto simp: sample_simps numeric_field_def bm_get_def)

text \<open>Whatever a chain of builder calls produces, a successful \<open>build\<close> is a graph that
  passes \<open>validate_governance_graph\<close>.\<close>

lemma build_validates:
  assumes "rfold (builder_step rx) builder_new calls = Inr b" and "build b = Inr g"
  shows "validate_governance_graph rx g = Inr () \<and> bm_wf (nodes g)"
proof -
  have "builder_inv rx b" using builder.run_inv [OF assms(1) builder_inv_new] .
  with assms(2) show ?thesis
    by (auto simp: build_Inr builder_inv_def validate_governance_graph_Inr validate_graph_edge_Inr)
qed

lemma build_validates_witness:
  "validate_governance_graph (\<lambda>_. None) \<lparr>nodes = [(''review'', sample_node)],
     edges = [\<lparr>edge_from = ''review'', edge_to = ''review'', edge_transform = PassThrough\<rparr>]\<rparr> = Inr ()"
proof -
  let ?es = "[\<lparr>edge_from = ''review'', edge_to = ''review'', edge_transform = PassThrough\<rparr>]"
  have "rfold (builder_step (\<lambda>_. None)) builder_new [AddNode sample_node, AddEdge ''review'' ''review'' PassThrough]
      = Inr \<lparr>b_nodes = [(''review'', sample_node)], b_edges = ?es\<rparr>"
    by (simp add: sample_simps builder_new_def add_node_def add_edge_def edge_new_def)
  moreover have "build \<lparr>b_nodes = [(''review'', sample_node)], b_edges = ?es\<rparr>
      = Inr \<lparr>nodes = [(''review'', sample_node)], edges = ?es\<rparr>"
    by (simp add: build_Inr bm_has_def)
  ultimately show ?thesis using build_validates by blast
qed

text \<open>C17: completeness of the builder: every validated graph is rebuilt, as it is, by adding its
  nodes and then its edges.\<close>

theorem build_complete:
  assumes "validate_governance_graph rx g = Inr ()" and "bm_wf (nodes g)"
  shows "rbind (rfold (builder_step rx) builder_new (calls_of g)) build = Inr (g :: governance_graph)"
proof -
  have "rfold (builder_step rx) builder_new (calls_of g) = Inr \<lparr>b_nodes = nodes g, b_edges = edges g\<rparr>"
    unfolding calls_of_def rfold_append builder_new_def
    using rebuild_nodes [of "[]" "nodes g" rx] rebuild_edges [of "edges g" rx "nodes g" "[]"] assms
    by (auto simp: validate_governance_graph_Inr validate_graph_edge_Inr)
  then show ?thesis
    using assms by (auto simp: build_Inr validate_governance_graph_Inr validate_graph_edge_Inr)
qed

theorem build_complete_witness:
  "rbind (rfold (builder_step (\<lambda>_. None)) builder_new (calls_of \<lparr>nodes = [(''review'', sample_node)], edges = []\<rparr>)) build
     = Inr \<lparr>nodes = [(''review'', sample_node)], edges = []\<rparr>"
  by (rule build_complete)
    (auto simp: validate_governance_graph_Inr validate_graph_node_def sample_simps bm_wf_Cons)

text \<open>Merging two claim feeds succeeds exactly when no two claims with one identifier differ,
  and then keeps, in strictly increasing order of identifiers, the first claim of each.\<close>

lemma merge_claim_batches_spec:
  "(case merge_claim_batches nid incoming additional of
      Inl e \<Rightarrow> \<not> consistent_feed (incoming @ additional)
    | Inr ms \<Rightarrow> consistent_feed (incoming @ additional)
        \<and> sorted_wrt (<) (map claimant_id ms) \<and> first_claim ms = first_claim (incoming @ additional))"
proof (cases "rfold (merge_claim nid) [] (incoming @ additional)")
  case (Inl e)
  then have "\<not> consistent_feed (incoming @ additional)"
    using merge_fold(2) [of "incoming @ additional" nid] by auto
  with Inl show ?thesis by (simp add: merge_claim_batches_def)
next
  case (Inr m)
  then have keyed: "keyed_by_id m"
    using merging.run_inv by (fastforce simp: keyed_by_id_def)
  then have ids: "map (claimant_id \<circ> snd) m = bm_keys m"
    by (auto simp: keyed_by_id_def)
  have "first_claim (bm_values m) k = bm_get m k" for k
    using keyed unfolding keyed_by_id_def
    by (induction m) (auto simp: first_claim_def bm_get_def bm_wf_Cons)
  moreover have "sorted_wrt (<) (map (claimant_id \<circ> snd) m)"
    using keyed unfolding ids by (simp add: keyed_by_id_def bm_wf_def)
  ultimately show ?thesis
    using Inr merge_fold(1) [OF Inr] by (auto simp: merge_claim_batches_def)
qed

text \<open>The regex cache is transparent: whatever patterns were looked up before, a lookup
  returns what compiling the pattern afresh would return, errors included.\<close>

lemma regex_cache_transparent:
  "fst (cached_lookups rx patterns []) = map (compile_regex rx) patterns"
  by (simp add: cached_lookups_spec cache_inv_def)

end
