(* ===== verification/Governance_Cycle.thy ===== *)
theory Governance_Cycle
  imports Governance_Graph
begin

text \<open>
  Cycle detection, \<open>detect_cycles\<close>, \<open>strong_connect\<close> and \<open>has_self_loop\<close> of
  \<open>src/src/graph/cycle.rs\<close>: Tarjan's algorithm. The recursion of \<open>strong_connect\<close> carries a step
  budget; \<open>detect_cycles\<close> starts it with the number of identifiers that occur in the graph, and
  the budget is proved to suffice, as are the look-ups that the code guards with an error.
\<close>

section \<open>Tarjan's algorithm\<close>

record tarjan_state =
  t_index :: nat
  t_stack :: "node_id list"
  on_stack :: "(node_id, bool) bmap"
  indices :: "(node_id, nat) bmap"
  lowlinks :: "(node_id, nat) bmap"
  t_cycles :: "node_id list list"

definition tarjan_default :: tarjan_state where
  "tarjan_default = \<lparr>t_index = 0, t_stack = [], on_stack = [], indices = [], lowlinks = [], t_cycles = []\<rparr>"

definition tarjan_lookup :: "(node_id, nat) bmap \<Rightarrow> node_id \<Rightarrow> legitimacy_error fault + nat" where
  "tarjan_lookup m k = option_ok (Raised (InvalidEdgeReference k)) (bm_get m k)"

definition tarjan_enter :: "node_id \<Rightarrow> tarjan_state \<Rightarrow> tarjan_state" where
  "tarjan_enter v st =
     st\<lparr>indices := bm_insert v (t_index st) (indices st),
        lowlinks := bm_insert v (t_index st) (lowlinks st),
        t_index := t_index st + 1,
        t_stack := v # t_stack st,
        on_stack := bm_insert v True (on_stack st)\<rparr>"

definition successors :: "governance_graph \<Rightarrow> node_id \<Rightarrow> node_id list" where
  "successors g v = sort (map edge_to (filter (\<lambda>e. edge_from e = v) (edges g)))"

text \<open>The body of the loop over the successors of \<open>v\<close>; \<open>connect\<close> is the recursive call.\<close>

definition tarjan_visit ::
  "(node_id \<Rightarrow> tarjan_state \<Rightarrow> legitimacy_error fault + tarjan_state)
     \<Rightarrow> node_id \<Rightarrow> tarjan_state \<Rightarrow> node_id \<Rightarrow> legitimacy_error fault + tarjan_state" where
  "tarjan_visit connect v st w =
     (if \<not> bm_has (indices st) w then
        rbind (connect w st) (\<lambda>st.
        rbind (tarjan_lookup (lowlinks st) w) (\<lambda>successor_lowlink.
        rbind (tarjan_lookup (lowlinks st) v) (\<lambda>node_lowlink.
          Inr (st\<lparr>lowlinks := bm_insert v (min node_lowlink successor_lowlink) (lowlinks st)\<rparr>))))
      else if bm_get (on_stack st) w = Some True then
        rbind (tarjan_lookup (indices st) w) (\<lambda>successor_index.
        rbind (tarjan_lookup (lowlinks st) v) (\<lambda>node_lowlink.
          Inr (st\<lparr>lowlinks := bm_insert v (min node_lowlink successor_index) (lowlinks st)\<rparr>)))
      else Inr st)"

text \<open>The loop that pops a component: the stack's top is the head of the list.\<close>

fun pop_component ::
  "node_id \<Rightarrow> node_id list \<Rightarrow> (node_id, bool) bmap \<Rightarrow> node_id list
     \<Rightarrow> node_id list \<times> (node_id, bool) bmap \<times> node_id list" where
  "pop_component v [] on component = ([], on, component)"
| "pop_component v (stack_node # stack) on component =
     (let on = bm_insert stack_node False on; component = component @ [stack_node]
      in if stack_node = v then (stack, on, component) else pop_component v stack on component)"

definition has_self_loop :: "node_id \<Rightarrow> governance_graph \<Rightarrow> bool" where
  "has_self_loop v g = list_ex (\<lambda>e. edge_from e = v \<and> edge_to e = v) (edges g)"

definition tarjan_close :: "governance_graph \<Rightarrow> node_id \<Rightarrow> tarjan_state \<Rightarrow> tarjan_state" where
  "tarjan_close g v st =
     (if bm_get (lowlinks st) v = bm_get (indices st) v then
        (case pop_component v (t_stack st) (on_stack st) [] of (stack, on, component) \<Rightarrow>
           let st = st\<lparr>t_stack := stack, on_stack := on\<rparr>
           in if 1 < length component \<or> has_self_loop v g
              then st\<lparr>t_cycles := t_cycles st @ [sort component]\<rparr> else st)
      else st)"

fun strong_connect ::
  "nat \<Rightarrow> governance_graph \<Rightarrow> node_id \<Rightarrow> tarjan_state \<Rightarrow> legitimacy_error fault + tarjan_state" where
  "strong_connect 0 g v st = Inl OutOfFuel"
| "strong_connect (Suc fuel) g v st =
     rbind (rfold (tarjan_visit (strong_connect fuel g) v) (tarjan_enter v st) (successors g v))
       (\<lambda>st. Inr (tarjan_close g v st))"

definition tarjan_fuel :: "governance_graph \<Rightarrow> nat" where
  "tarjan_fuel g = length (nodes g) + length (edges g)"

definition detect_step :: "governance_graph \<Rightarrow> tarjan_state \<Rightarrow> node_id \<Rightarrow> legitimacy_error fault + tarjan_state" where
  "detect_step g st v =
     (if bm_has (indices st) v then Inr st else strong_connect (tarjan_fuel g) g v st)"

definition detect_cycles :: "governance_graph \<Rightarrow> legitimacy_error fault + node_id list list" where
  "detect_cycles g =
     rbind (rfold (detect_step g) tarjan_default (sort (bm_keys (nodes g)))) (\<lambda>st.
       Inr (sort (t_cycles st)))"

section \<open>The specification: strongly connected classes\<close>

definition edge_rel :: "governance_graph \<Rightarrow> (node_id \<times> node_id) set" where
  "edge_rel g = (\<lambda>e. (edge_from e, edge_to e)) ` set (edges g)"

definition scc_of :: "governance_graph \<Rightarrow> node_id \<Rightarrow> node_id set" where
  "scc_of g x = {y. (x, y) \<in> (edge_rel g)\<^sup>* \<and> (y, x) \<in> (edge_rel g)\<^sup>*}"

definition cyclic_classes :: "governance_graph \<Rightarrow> node_id set \<Rightarrow> node_id set set" where
  "cyclic_classes g X = scc_of g ` {x \<in> X. (x, x) \<in> (edge_rel g)\<^sup>+}"

section \<open>The invariant\<close>

definition visited :: "tarjan_state \<Rightarrow> node_id set" where
  "visited st = dom (bm_get (indices st))"

abbreviation t_num :: "tarjan_state \<Rightarrow> node_id \<Rightarrow> nat" where
  "t_num st x \<equiv> the (bm_get (indices st) x)"

abbreviation t_low :: "tarjan_state \<Rightarrow> node_id \<Rightarrow> nat" where
  "t_low st x \<equiv> the (bm_get (lowlinks st) x)"

abbreviation stacked :: "tarjan_state \<Rightarrow> node_id set" where
  "stacked st \<equiv> set (t_stack st)"

text \<open>
  \<open>G\<close> is the set of identifiers whose \<open>strong_connect\<close> has begun and not ended.
\<close>

definition stack_inv :: "tarjan_state \<Rightarrow> bool" where
  "stack_inv st \<longleftrightarrow> stacked st = {x. bm_get (on_stack st) x = Some True}
     \<and> sorted_wrt (\<lambda>x y. t_num st y < t_num st x) (t_stack st)
     \<and> stacked st \<subseteq> visited st \<and> (\<forall>x \<in> visited st. t_num st x < t_index st)
     \<and> dom (bm_get (lowlinks st)) = visited st"

definition reach_inv :: "governance_graph \<Rightarrow> node_id set \<Rightarrow> tarjan_state \<Rightarrow> bool" where
  "reach_inv g G st \<longleftrightarrow> G \<subseteq> stacked st
     \<and> edge_rel g `` (visited st - G) \<subseteq> visited st
     \<and> edge_rel g `` (visited st - stacked st) \<subseteq> visited st - stacked st
     \<and> (\<forall>x \<in> stacked st. \<exists>y \<in> G. t_num st y \<le> t_num st x \<and> (x, y) \<in> (edge_rel g)\<^sup>*)
     \<and> (\<forall>y \<in> G. \<forall>x \<in> stacked st. t_num st y \<le> t_num st x \<longrightarrow> (y, x) \<in> (edge_rel g)\<^sup>*)"

definition cycles_inv :: "governance_graph \<Rightarrow> tarjan_state \<Rightarrow> bool" where
  "cycles_inv g st \<longleftrightarrow> set ` set (t_cycles st) = cyclic_classes g (visited st - stacked st)
     \<and> distinct (t_cycles st) \<and> (\<forall>c \<in> set (t_cycles st). sorted c \<and> distinct c)"

text \<open>What happens to the part of the state that a call of \<open>strong_connect\<close> finds.\<close>

definition extends :: "tarjan_state \<Rightarrow> tarjan_state \<Rightarrow> bool" where
  "extends st st' \<longleftrightarrow> visited st \<subseteq> visited st'
     \<and> (\<forall>x \<in> visited st. bm_get (indices st') x = bm_get (indices st) x
          \<and> bm_get (lowlinks st') x = bm_get (lowlinks st) x)
     \<and> (\<forall>x \<in> visited st' - visited st. t_index st \<le> t_num st' x) \<and> t_index st \<le> t_index st'"

text \<open>The low link of \<open>v\<close>, relative to the state before the call.\<close>

definition low_inv :: "governance_graph \<Rightarrow> tarjan_state \<Rightarrow> node_id \<Rightarrow> nat \<Rightarrow> bool" where
  "low_inv g st v l \<longleftrightarrow> l = t_index st \<or> (\<exists>x \<in> stacked st. t_num st x = l \<and> (v, x) \<in> (edge_rel g)\<^sup>*)"

definition low_covers :: "governance_graph \<Rightarrow> tarjan_state \<Rightarrow> node_id set \<Rightarrow> nat \<Rightarrow> bool" where
  "low_covers g st X l \<longleftrightarrow> (\<forall>x \<in> X. \<forall>y \<in> stacked st. (x, y) \<in> edge_rel g \<longrightarrow> l \<le> t_num st y)"

definition connected ::
  "governance_graph \<Rightarrow> node_id set \<Rightarrow> node_id \<Rightarrow> tarjan_state \<Rightarrow> tarjan_state \<Rightarrow> bool" where
  "connected g G v st st' \<longleftrightarrow> stack_inv st' \<and> reach_inv g G st' \<and> cycles_inv g st' \<and> extends st st'
     \<and> v \<in> visited st' \<and> (\<exists>S. t_stack st' = S @ t_stack st)
     \<and> low_inv g st v (t_low st' v) \<and> low_covers g st (visited st' - visited st) (t_low st' v)"

text \<open>The loop over the successors of \<open>v\<close>, after those of \<open>P\<close>.\<close>

definition loop_inv ::
  "governance_graph \<Rightarrow> node_id set \<Rightarrow> node_id \<Rightarrow> tarjan_state \<Rightarrow> node_id set \<Rightarrow> tarjan_state \<Rightarrow> bool" where
  "loop_inv g G v st P sti \<longleftrightarrow> stack_inv sti \<and> reach_inv g (insert v G) sti \<and> cycles_inv g sti
     \<and> extends st sti \<and> bm_get (indices sti) v = Some (t_index st)
     \<and> (\<exists>S. t_stack sti = S @ v # t_stack st)
     \<and> low_inv g st v (t_low sti v) \<and> low_covers g st (visited sti - visited st - {v}) (t_low sti v)
     \<and> P \<subseteq> visited sti \<and> (\<forall>w \<in> P \<inter> stacked st. t_low sti v \<le> t_num st w)"

section \<open>The steps keep the invariant\<close>

lemma visited_has: "x \<in> visited st \<longleftrightarrow> bm_has (indices st) x"
  by (auto simp: visited_def bm_has_get)

lemma visited_num: "x \<in> visited st \<Longrightarrow> bm_get (indices st) x = Some (t_num st x)"
  by (auto simp: visited_def)

lemma visited_cong: "indices st = indices st' \<Longrightarrow> visited st = visited st'"
  by (simp add: visited_def)

lemma enter_simps [simp]:
  "bm_get (indices (tarjan_enter v st)) = (bm_get (indices st))(v \<mapsto> t_index st)"
  "bm_get (lowlinks (tarjan_enter v st)) = (bm_get (lowlinks st))(v \<mapsto> t_index st)"
  "bm_get (on_stack (tarjan_enter v st)) = (bm_get (on_stack st))(v \<mapsto> True)"
  "t_index (tarjan_enter v st) = Suc (t_index st)" "t_stack (tarjan_enter v st) = v # t_stack st"
  "t_cycles (tarjan_enter v st) = t_cycles st"
  by (simp_all add: tarjan_enter_def)

lemma visited_enter [simp]: "visited (tarjan_enter v st) = insert v (visited st)"
  by (simp add: visited_def tarjan_enter_def)

lemma set_successors: "set (successors g v) = edge_rel g `` {v}"
  by (auto simp: successors_def edge_rel_def)

lemma rtrancl_closed: "(x, y) \<in> r\<^sup>* \<Longrightarrow> x \<in> R \<Longrightarrow> r `` R \<subseteq> R \<Longrightarrow> y \<in> R"
  by (induction rule: rtrancl_induct) auto

lemma stacked_old: "stack_inv st \<Longrightarrow> x \<in> stacked st \<Longrightarrow> x \<in> visited st \<and> t_num st x < t_index st"
  unfolding stack_inv_def by blast

lemma low_le: "stack_inv st \<Longrightarrow> low_inv g st v l \<Longrightarrow> l \<le> t_index st"
  by (auto simp: low_inv_def less_imp_le dest: stacked_old)

lemma stack_num_above:
  assumes "stack_inv sti" and "t_stack sti = S @ v # T" and "x \<in> set S"
  shows "t_num sti v < t_num sti x"
  using assms by (auto simp: stack_inv_def sorted_wrt_append)

lemma enter_stack:
  assumes "stack_inv st" and "v \<notin> visited st"
  shows "stack_inv (tarjan_enter v st)"
proof -
  let ?st = "tarjan_enter v st"
  have old: "t_num ?st x = t_num st x \<and> t_num st x < t_index st" if "x \<in> stacked st" for x
    using stacked_old [OF assms(1) that] assms(2) by auto
  have "sorted_wrt (\<lambda>x y. t_num ?st y < t_num ?st x) (t_stack st)"
    by (rule sorted_wrt_mono_rel [of _ "\<lambda>x y. t_num st y < t_num st x"])
      (use assms old in \<open>auto simp: stack_inv_def\<close>)
  with old have "sorted_wrt (\<lambda>x y. t_num ?st y < t_num ?st x) (t_stack ?st)"
    by simp
  then show ?thesis
    using assms unfolding stack_inv_def
    by (auto simp: less_Suc_eq)
qed

lemma enter_loop_inv:
  assumes inv: "stack_inv st" "reach_inv g G st" "cycles_inv g st" and v: "v \<notin> visited st"
    and G: "\<forall>y \<in> G. (y, v) \<in> (edge_rel g)\<^sup>*"
  shows "loop_inv g G v st {} (tarjan_enter v st)"
proof -
  let ?st = "tarjan_enter v st"
  have vis: "visited ?st = insert v (visited st)" and stk: "stacked ?st = insert v (stacked st)"
    and nv: "t_num ?st v = t_index st" and no: "\<And>x. x \<noteq> v \<Longrightarrow> t_num ?st x = t_num st x"
    by auto
  have old: "x \<noteq> v" "t_num st x < t_index st" if "x \<in> stacked st" for x
    using stacked_old [OF inv(1) that] v by auto
  have Gs: "G \<subseteq> stacked st" using inv(2) by (simp add: reach_inv_def)
  then have vG: "v \<notin> G" using old(1) by blast
  have "reach_inv g (insert v G) ?st"
    unfolding reach_inv_def
  proof (intro conjI ballI impI)
    show "insert v G \<subseteq> stacked ?st" using Gs stk by auto
    show "edge_rel g `` (visited ?st - insert v G) \<subseteq> visited ?st"
      using inv(2) v unfolding vis reach_inv_def by blast
    show "edge_rel g `` (visited ?st - stacked ?st) \<subseteq> visited ?st - stacked ?st"
      using inv(2) v unfolding vis stk reach_inv_def by blast
  next
    fix x assume "x \<in> stacked ?st"
    then show "\<exists>y \<in> insert v G. t_num ?st y \<le> t_num ?st x \<and> (x, y) \<in> (edge_rel g)\<^sup>*"
      using inv(2) old(1) vG no unfolding stk reach_inv_def by (cases "x = v") fastforce+
  next
    fix x y assume x: "x \<in> stacked ?st" and y: "y \<in> insert v G" and le: "t_num ?st y \<le> t_num ?st x"
    show "(y, x) \<in> (edge_rel g)\<^sup>*"
    proof (cases "x = v")
      case True
      with y G show ?thesis by auto
    next
      case False
      with x have xs: "x \<in> stacked st" using stk by auto
      with le old(2) nv no False have "y \<noteq> v" by fastforce
      with inv(2) xs y le no False show ?thesis unfolding reach_inv_def by auto
    qed
  qed
  moreover have "cycles_inv g ?st"
  proof -
    have "visited ?st - stacked ?st = visited st - stacked st" using vis stk v by auto
    with inv(3) show ?thesis by (simp add: cycles_inv_def)
  qed
  moreover have "extends st ?st"
    using v by (auto simp: extends_def)
  moreover have "low_inv g st v (t_low ?st v)" "low_covers g st (visited ?st - visited st - {v}) (t_low ?st v)"
    by (auto simp: low_inv_def low_covers_def)
  ultimately show ?thesis
    using enter_stack [OF inv(1) v] by (auto simp: loop_inv_def)
qed

definition set_low :: "node_id \<Rightarrow> nat \<Rightarrow> tarjan_state \<Rightarrow> tarjan_state" where
  "set_low v l st = st\<lparr>lowlinks := bm_insert v l (lowlinks st)\<rparr>"

lemma set_low_simps [simp]:
  "indices (set_low v l st) = indices st" "t_stack (set_low v l st) = t_stack st"
  "on_stack (set_low v l st) = on_stack st" "t_index (set_low v l st) = t_index st"
  "t_cycles (set_low v l st) = t_cycles st"
  "bm_get (lowlinks (set_low v l st)) = (bm_get (lowlinks st))(v \<mapsto> l)"
  by (simp_all add: set_low_def)

lemma visited_set_low [simp]: "visited (set_low v l st) = visited st"
  by (simp add: visited_def)

lemma set_low_inv [simp]:
  "reach_inv g G (set_low v l st) = reach_inv g G st"
  "cycles_inv g (set_low v l st) = cycles_inv g st"
  by (auto simp: reach_inv_def cycles_inv_def)

lemma stack_inv_set_low: "stack_inv st \<Longrightarrow> v \<in> visited st \<Longrightarrow> stack_inv (set_low v l st)"
  unfolding stack_inv_def by (auto simp: insert_absorb)

lemma extends_set_low: "extends st sti \<Longrightarrow> v \<notin> visited st \<Longrightarrow> extends st (set_low v l sti)"
  by (auto simp: extends_def)

lemma extends_trans:
  assumes "extends a b" and "extends b c"
  shows "extends a c"
proof -
  have "t_index a \<le> t_num c x" if "x \<in> visited c - visited a" for x
    using assms that unfolding extends_def by (cases "x \<in> visited b") (auto dest: order_trans)
  moreover have "\<forall>x \<in> visited a. x \<in> visited b" using assms(1) unfolding extends_def by blast
  ultimately show ?thesis
    using assms unfolding extends_def by (auto dest: subset_trans)
qed

lemma extends_num: "extends st sti \<Longrightarrow> x \<in> visited st \<Longrightarrow> t_num sti x = t_num st x"
  by (simp add: extends_def)

lemma low_inv_min:
  assumes "stack_inv st" and "low_inv g st v l" and "t_index st \<le> k \<or> low_inv g st v k"
  shows "low_inv g st v (min l k)"
  using low_le [OF assms(1,2)] assms(2,3) by (auto simp: min_def)

lemma low_covers_mono: "low_covers g st X l \<Longrightarrow> k \<le> l \<Longrightarrow> low_covers g st X k"
  by (fastforce simp: low_covers_def)

text \<open>A successor that was visited before: on the stack, or finished.\<close>

lemma loop_visited:
  assumes inv: "loop_inv g G v st P sti" and st: "stack_inv st" "v \<notin> visited st"
    and w: "w \<in> visited sti" "(v, w) \<in> edge_rel g"
  shows "w \<in> stacked sti \<Longrightarrow> loop_inv g G v st (insert w P) (set_low v (min (t_low sti v) (t_num sti w)) sti)"
    and "w \<notin> stacked sti \<Longrightarrow> loop_inv g G v st (insert w P) sti"
proof -
  have ext: "extends st sti" and t_low: "low_inv g st v (t_low sti v)" and v: "v \<in> visited sti"
    using inv by (auto simp: loop_inv_def visited_def)
  have old: "t_num sti w = t_num st w" if "w \<in> stacked st"
    using stacked_old [OF st(1) that] extends_num [OF ext] by blast
  show "loop_inv g G v st (insert w P) (set_low v (min (t_low sti v) (t_num sti w)) sti)" if w': "w \<in> stacked sti"
  proof -
    have "t_index st \<le> t_num sti w \<or> low_inv g st v (t_num sti w)"
    proof (cases "w \<in> stacked st")
      case True
      with old w(2) show ?thesis by (auto simp: low_inv_def)
    next
      case False
      obtain S where S: "t_stack sti = S @ v # t_stack st" using inv by (auto simp: loop_inv_def)
      have "t_num sti v = t_index st" using inv by (simp add: loop_inv_def)
      with S False w' show ?thesis
        using stack_num_above [OF _ S, of w] inv by (auto simp: loop_inv_def)
    qed
    from low_inv_min [OF st(1) t_low this] show ?thesis
      using inv w old v extends_set_low [OF ext st(2)] stack_inv_set_low [of sti v]
      by (auto simp: loop_inv_def intro: low_covers_mono min.coboundedI1 min.coboundedI2)
  qed
  show "loop_inv g G v st (insert w P) sti" if w': "w \<notin> stacked sti"
    using inv w w' by (auto simp: loop_inv_def)
qed

text \<open>A successor that the recursive call visited.\<close>

lemma loop_connected:
  assumes inv: "loop_inv g G v st P sti" and st: "stack_inv st" "v \<notin> visited st"
    and w: "w \<notin> visited sti" "(v, w) \<in> edge_rel g" and con: "connected g (insert v G) w sti st'"
  shows "loop_inv g G v st (insert w P) (set_low v (min (t_low st' v) (t_low st' w)) st')"
proof -
  obtain S where S: "t_stack sti = S @ v # t_stack st" using inv by (auto simp: loop_inv_def)
  have ext: "extends st sti" "extends sti st'" and v: "v \<in> visited sti" "t_num sti v = t_index st"
    using inv con by (auto simp: loop_inv_def connected_def visited_def)
  have lowv: "t_low st' v = t_low sti v" and numv: "bm_get (indices st') v = Some (t_index st)"
    using ext(2) v inv by (auto simp: extends_def loop_inv_def)
  have sub: "stacked st \<subseteq> stacked sti" using S by auto
  have t_num: "t_num sti x = t_num st x" if "x \<in> stacked st" for x
    using stacked_old [OF st(1) that] extends_num [OF ext(1)] by blast
  have "t_index st \<le> t_low st' w \<or> low_inv g st v (t_low st' w)"
  proof -
    have "low_inv g sti w (t_low st' w)" using con by (simp add: connected_def)
    then consider "t_low st' w = t_index sti"
      | x where "x \<in> stacked sti" "t_num sti x = t_low st' w" "(w, x) \<in> (edge_rel g)\<^sup>*"
      by (auto simp: low_inv_def)
    then show ?thesis
    proof cases
      case 1
      with ext(1) show ?thesis by (simp add: extends_def)
    next
      case 2
      show ?thesis
      proof (cases "x \<in> stacked st")
        case True
        with 2 t_num w(2) show ?thesis by (auto simp: low_inv_def intro: converse_rtrancl_into_rtrancl)
      next
        case False
        with 2 S v show ?thesis
          using stack_num_above [OF _ S, of x] inv by (auto simp: loop_inv_def)
      qed
    qed
  qed
  from low_inv_min [OF st(1) _ this, of "t_low sti v"]
  have t_low: "low_inv g st v (min (t_low st' v) (t_low st' w))"
    using inv by (simp add: loop_inv_def lowv)
  have "low_covers g st (visited sti - visited st - {v}) (t_low sti v)"
    "low_covers g sti (visited st' - visited sti) (t_low st' w)"
    using inv con by (auto simp: loop_inv_def connected_def)
  then have cov: "low_covers g st (visited st' - visited st - {v}) (min (t_low st' v) (t_low st' w))"
    using t_num sub unfolding low_covers_def lowv by (fastforce simp: min_le_iff_disj)
  have "w \<notin> stacked st" using w(1) ext(1) stacked_old [OF st(1), of w] by (auto simp: extends_def)
  moreover have "insert w P \<subseteq> visited st'" "stack_inv (set_low v (min (t_low st' v) (t_low st' w)) st')"
    using inv con ext(2) v(1) stack_inv_set_low [of st' v]
    unfolding loop_inv_def connected_def extends_def by blast+
  moreover have "\<exists>S. t_stack st' = S @ v # t_stack st" using con S by (auto simp: connected_def)
  ultimately show ?thesis
    using inv con t_low cov numv extends_set_low [OF extends_trans [OF ext] st(2)]
    by (simp add: loop_inv_def connected_def lowv min_le_iff_disj)
qed

lemma visit_step:
  assumes inv: "loop_inv g G v st P sti" and st: "stack_inv st" "v \<notin> visited st"
    and w: "(v, w) \<in> edge_rel g" and V: "visited sti \<subseteq> V"
    and rec: "w \<notin> visited sti \<Longrightarrow>
      \<exists>st'. connect w sti = Inr st' \<and> connected g (insert v G) w sti st' \<and> visited st' \<subseteq> V"
  shows "\<exists>st'. tarjan_visit connect v sti w = Inr st' \<and> loop_inv g G v st (insert w P) st'
    \<and> visited sti \<subseteq> visited st' \<and> visited st' \<subseteq> V"
proof -
  have v: "v \<in> visited sti" and dom: "dom (bm_get (lowlinks sti)) = visited sti"
    using inv by (auto simp: loop_inv_def visited_def stack_inv_def)
  show ?thesis
  proof (cases "w \<in> visited sti")
    case True
    obtain l n where ln: "bm_get (lowlinks sti) v = Some l" "bm_get (indices sti) w = Some n"
      using v visited_num [OF True] unfolding dom [symmetric] by blast
    have on: "bm_get (on_stack sti) w = Some True \<longleftrightarrow> w \<in> stacked sti"
      using inv by (simp add: loop_inv_def stack_inv_def)
    have "tarjan_visit connect v sti w =
        Inr (if w \<in> stacked sti then set_low v (min (t_low sti v) (t_num sti w)) sti else sti)"
      using True ln by (simp add: tarjan_visit_def visited_has [symmetric] on tarjan_lookup_def set_low_def)
    with loop_visited [OF inv st True w] V show ?thesis by auto
  next
    case False
    from rec [OF this] obtain st' where
      st': "connect w sti = Inr st'" "connected g (insert v G) w sti st'" "visited st' \<subseteq> V"
      by blast
    then have "dom (bm_get (lowlinks st')) = visited st'" "v \<in> visited st'" "w \<in> visited st'"
      using v by (auto simp: connected_def stack_inv_def extends_def)
    then obtain l n where "bm_get (lowlinks st') v = Some l" "bm_get (lowlinks st') w = Some n"
      by (metis domD)
    then have "tarjan_visit connect v sti w = Inr (set_low v (min (t_low st' v) (t_low st' w)) st')"
      using False st'(1) by (simp add: tarjan_visit_def visited_has [symmetric] tarjan_lookup_def set_low_def)
    with loop_connected [OF inv st False w st'(2)] st'(2,3) show ?thesis
      by (auto simp: connected_def extends_def)
  qed
qed

section \<open>Closing a component\<close>

lemma pop_component_spec:
  "v \<notin> set S \<Longrightarrow> pop_component v (S @ v # T) on component =
     (T, fold (\<lambda>x. bm_insert x False) (S @ [v]) on, component @ S @ [v])"
  by (induction S arbitrary: on component) (auto simp: Let_def)

lemma get_fold_False:
  "bm_get (fold (\<lambda>x. bm_insert x False) xs on) k = (if k \<in> set xs then Some False else bm_get on k)"
  by (induction xs arbitrary: on) auto

text \<open>What is known when the loop over all successors of \<open>v\<close> has ended.\<close>

definition loop_end ::
  "governance_graph \<Rightarrow> node_id set \<Rightarrow> node_id \<Rightarrow> tarjan_state \<Rightarrow> tarjan_state \<Rightarrow> node_id list \<Rightarrow> bool" where
  "loop_end g G v st sti S \<longleftrightarrow> stack_inv st \<and> reach_inv g G st \<and> v \<notin> visited st
     \<and> loop_inv g G v st (edge_rel g `` {v}) sti \<and> t_stack sti = S @ v # t_stack st"

definition done_part :: "tarjan_state \<Rightarrow> tarjan_state \<Rightarrow> node_id set" where
  "done_part st sti = visited sti - stacked st"

lemma loop_end_facts:
  assumes "loop_end g G v st sti S"
  shows "stack_inv st" "reach_inv g G st" "v \<notin> visited st" "t_stack sti = S @ v # t_stack st"
    "stack_inv sti" "reach_inv g (insert v G) sti" "cycles_inv g sti" "extends st sti"
    "t_num sti v = t_index st" "v \<in> visited sti" "low_inv g st v (t_low sti v)"
    "edge_rel g `` {v} \<subseteq> visited sti" "low_covers g st (visited sti - visited st) (t_low sti v)"
    "bm_get (indices sti) v = Some (t_index st)"
  using assms unfolding loop_end_def loop_inv_def low_covers_def visited_def by auto

lemma num_old: "loop_end g G v st sti S \<Longrightarrow> x \<in> visited st \<Longrightarrow> t_num sti x = t_num st x"
  by (rule extends_num [OF loop_end_facts(8)])

lemma S_new:
  assumes e: "loop_end g G v st sti S" and x: "x \<in> set S"
  shows "x \<in> visited sti - visited st \<and> t_index st < t_num sti x"
proof -
  note F = loop_end_facts [OF e]
  have above: "t_index st < t_num sti x"
    using stack_num_above [OF F(5) F(4) x] F(9) by simp
  moreover have "x \<notin> visited st"
    using above num_old [OF e] F(1) unfolding stack_inv_def by (metis less_asym)
  moreover have "x \<in> visited sti" using stacked_old [OF F(5), of x] x F(4) by auto
  ultimately show ?thesis by blast
qed

lemma visited_closed: "loop_end g G v st sti S \<Longrightarrow> edge_rel g `` (visited sti - G) \<subseteq> visited sti"
  using loop_end_facts(6,12) [of g G v st sti S] unfolding reach_inv_def by blast

text \<open>Not a root: the component stays on the stack.\<close>

lemma open_reach:
  assumes e: "loop_end g G v st sti S" and "t_low sti v \<noteq> t_index st"
  shows "reach_inv g G sti"
proof -
  note F = loop_end_facts [OF e]
  obtain x0 where x0: "x0 \<in> stacked st" "(v, x0) \<in> (edge_rel g)\<^sup>*"
    using F(11) assms by (auto simp: low_inv_def)
  obtain y0 where y0: "y0 \<in> G" "t_num st y0 \<le> t_num st x0" "(x0, y0) \<in> (edge_rel g)\<^sup>*"
    using F(2) x0(1) by (auto simp: reach_inv_def)
  have "t_num sti y0 < t_num sti v"
    using y0(1) F(2) stacked_old [OF F(1)] num_old [OF e] F(9) by (auto simp: reach_inv_def)
  moreover have "(v, y0) \<in> (edge_rel g)\<^sup>*" using x0(2) y0(3) by simp
  ultimately have v: "\<exists>y \<in> G. t_num sti y \<le> t_num sti x \<and> (x, y) \<in> (edge_rel g)\<^sup>*"
    if "t_num sti v \<le> t_num sti x" "(x, v) \<in> (edge_rel g)\<^sup>*" for x
    using that y0(1) by (meson less_imp_le order_trans rtrancl_trans)
  have "\<exists>y \<in> G. t_num sti y \<le> t_num sti x \<and> (x, y) \<in> (edge_rel g)\<^sup>*" if "x \<in> stacked sti" for x
    using F(6) that v unfolding reach_inv_def by blast
  then show ?thesis
    using F(6) visited_closed [OF e] unfolding reach_inv_def by blast
qed

text \<open>A root: the part of the stack from \<open>v\<close> on is the strongly connected class of \<open>v\<close>.\<close>

lemma done_closed:
  assumes e: "loop_end g G v st sti S" and root: "t_low sti v = t_index st"
  shows "edge_rel g `` done_part st sti \<subseteq> done_part st sti"
proof
  note F = loop_end_facts [OF e]
  fix y assume "y \<in> edge_rel g `` done_part st sti"
  then obtain x where x: "(x, y) \<in> edge_rel g" "x \<in> visited sti" "x \<notin> stacked st"
    by (auto simp: done_part_def)
  show "y \<in> done_part st sti"
  proof (cases "x \<in> visited st")
    case True
    then have "y \<in> visited st - stacked st" using x F(2) unfolding reach_inv_def by blast
    then show ?thesis using F(8) by (auto simp: done_part_def extends_def)
  next
    case False
    then have "x \<notin> G" using F(2) stacked_old [OF F(1)] by (auto simp: reach_inv_def)
    then have "y \<in> visited sti" using visited_closed [OF e] x by blast
    moreover have "y \<notin> stacked st"
    proof
      assume y: "y \<in> stacked st"
      then have "t_low sti v \<le> t_num st y" using F(13) x False by (auto simp: low_covers_def)
      with root stacked_old [OF F(1) y] show False by simp
    qed
    ultimately show ?thesis by (simp add: done_part_def)
  qed
qed

lemma component_scc:
  assumes e: "loop_end g G v st sti S" and root: "t_low sti v = t_index st" and x: "x \<in> set (S @ [v])"
  shows "scc_of g x = set (S @ [v])"
proof -
  note F = loop_end_facts [OF e]
  have stk: "x \<in> stacked sti" if "x \<in> set (S @ [v])" for x using that F(4) by auto
  have dn: "x \<in> done_part st sti" if "x \<in> set (S @ [v])" for x
    using that S_new [OF e, of x] F(10) F(3) stacked_old [OF F(1), of x] by (auto simp: done_part_def)
  have from_v: "(v, x) \<in> (edge_rel g)\<^sup>*" if "x \<in> set (S @ [v])" for x
    using F(6,9) S_new [OF e, of x] that stk [OF that] by (auto simp: reach_inv_def)
  have to_v: "(x, v) \<in> (edge_rel g)\<^sup>*" if c: "x \<in> set (S @ [v])" for x
  proof -
    obtain y where y: "y \<in> insert v G" "(x, y) \<in> (edge_rel g)\<^sup>*"
      using F(6) stk [OF c] unfolding reach_inv_def by blast
    have "y \<in> done_part st sti" using rtrancl_closed [OF y(2) dn [OF c] done_closed [OF e root]] .
    then show ?thesis using y F(2) by (auto simp: done_part_def reach_inv_def)
  qed
  have "y \<in> set (S @ [v])" if y: "(v, y) \<in> (edge_rel g)\<^sup>*" "(y, v) \<in> (edge_rel g)\<^sup>*" for y
  proof -
    have "y \<in> done_part st sti" using rtrancl_closed [OF y(1) dn done_closed [OF e root]] by simp
    moreover have "y \<in> stacked sti"
    proof (rule ccontr)
      assume "y \<notin> stacked sti"
      then have "v \<in> visited sti - stacked sti"
        using rtrancl_closed [OF y(2), of "visited sti - stacked sti"] calculation F(6)
        by (auto simp: done_part_def reach_inv_def)
      with F(4) show False by simp
    qed
    ultimately show ?thesis using F(4) by (auto simp: done_part_def)
  qed
  then show ?thesis
    unfolding scc_of_def using from_v to_v x by (blast intro: rtrancl_trans)
qed

lemma stack_distinct: "stack_inv st \<Longrightarrow> distinct (t_stack st)"
  unfolding stack_inv_def distinct_conv_nth sorted_wrt_iff_nth_less
  by (metis linorder_neqE_nat order_less_irrefl)

lemma component_cyclic:
  assumes e: "loop_end g G v st sti S" and root: "t_low sti v = t_index st"
  shows "(\<exists>x \<in> set (S @ [v]). (x, x) \<in> (edge_rel g)\<^sup>+) \<longleftrightarrow> 1 < length (S @ [v]) \<or> has_self_loop v g"
proof -
  note scc = component_scc [OF e root]
  have self: "has_self_loop v g \<longleftrightarrow> (v, v) \<in> edge_rel g"
    by (auto simp: has_self_loop_def edge_rel_def list_ex_iff)
  have "has_self_loop v g" if "(v, v) \<in> (edge_rel g)\<^sup>+" "S = []"
  proof -
    from that(1) obtain y where y: "(v, y) \<in> edge_rel g" "(y, v) \<in> (edge_rel g)\<^sup>*"
      by (auto dest: tranclD)
    then have "y \<in> scc_of g v" by (auto simp: scc_of_def)
    with scc [of v] that(2) y self show ?thesis by auto
  qed
  moreover have "(v, v) \<in> (edge_rel g)\<^sup>+" if "S \<noteq> []"
  proof -
    have hd: "hd S \<in> scc_of g v" "hd S \<noteq> v"
      using scc [of v] that stack_distinct [OF loop_end_facts(5) [OF e]] loop_end_facts(4) [OF e] by auto
    then show ?thesis
      by (auto simp: scc_of_def dest!: rtranclD)
  qed
  ultimately show ?thesis by (auto simp: self)
qed

lemma cyclic_classes_component:
  assumes e: "loop_end g G v st sti S" and root: "t_low sti v = t_index st"
  shows "cyclic_classes g (set (S @ [v])) =
    (if 1 < length (S @ [v]) \<or> has_self_loop v g then {set (S @ [v])} else {})"
proof -
  have "cyclic_classes g (set (S @ [v])) =
      (\<lambda>_. set (S @ [v])) ` {x \<in> set (S @ [v]). (x, x) \<in> (edge_rel g)\<^sup>+}"
    unfolding cyclic_classes_def using component_scc [OF e root] by (intro image_cong) auto
  then show ?thesis
    unfolding component_cyclic [OF e root, symmetric] by auto
qed

lemma cyclic_classes_Un: "cyclic_classes g (A \<union> B) = cyclic_classes g A \<union> cyclic_classes g B"
  unfolding cyclic_classes_def by blast

lemma cyclic_class_sub:
  assumes "c \<in> cyclic_classes g X"
  shows "c \<inter> X \<noteq> {}"
  using assms by (auto simp: cyclic_classes_def scc_of_def)

text \<open>The state that closing a root leaves.\<close>

definition closed_state :: "tarjan_state \<Rightarrow> tarjan_state \<Rightarrow> node_id list \<Rightarrow> node_id list list \<Rightarrow> tarjan_state" where
  "closed_state st sti popped new =
     sti\<lparr>t_stack := t_stack st, on_stack := fold (\<lambda>x. bm_insert x False) popped (on_stack sti),
         t_cycles := t_cycles sti @ new\<rparr>"

lemma closed_simps [simp]:
  "indices (closed_state st sti popped new) = indices sti"
  "lowlinks (closed_state st sti popped new) = lowlinks sti"
  "t_index (closed_state st sti popped new) = t_index sti"
  "t_stack (closed_state st sti popped new) = t_stack st"
  "t_cycles (closed_state st sti popped new) = t_cycles sti @ new"
  "visited (closed_state st sti popped new) = visited sti"
  by (simp_all add: closed_state_def visited_def)

lemma tarjan_close_root:
  assumes e: "loop_end g G v st sti S" and root: "t_low sti v = t_index st"
  shows "tarjan_close g v sti = closed_state st sti (S @ [v])
    (if 1 < length (S @ [v]) \<or> has_self_loop v g then [sort (S @ [v])] else [])"
proof -
  note F = loop_end_facts [OF e]
  have "v \<notin> set S" using stack_distinct [OF F(5)] F(4) by auto
  moreover have "bm_get (lowlinks sti) v = bm_get (indices sti) v"
    using F(5,10,14) root unfolding stack_inv_def by (metis domD option.sel)
  ultimately show ?thesis
    by (simp add: tarjan_close_def F(4) pop_component_spec closed_state_def Let_def)
qed

lemma closed_stack:
  assumes e: "loop_end g G v st sti S"
  shows "stack_inv (closed_state st sti (S @ [v]) new)"
proof -
  note F = loop_end_facts [OF e]
  have "bm_get (on_stack (closed_state st sti (S @ [v]) new)) x = Some True \<longleftrightarrow> x \<in> stacked st" for x
    using F(5,4) stack_distinct [OF F(5)] by (auto simp: closed_state_def get_fold_False stack_inv_def)
  moreover have "sorted_wrt (\<lambda>x y. t_num sti y < t_num sti x) (t_stack st)"
    using F(5,4) by (simp add: stack_inv_def sorted_wrt_append)
  moreover have "stacked st \<subseteq> visited sti"
    using stacked_old [OF F(1)] F(8) by (auto simp: extends_def)
  ultimately show ?thesis
    using F(5) unfolding stack_inv_def by auto
qed

lemma closed_reach:
  assumes e: "loop_end g G v st sti S" and root: "t_low sti v = t_index st"
  shows "reach_inv g G (closed_state st sti (S @ [v]) new)"
proof -
  note F = loop_end_facts [OF e]
  have t_num: "t_num sti x = t_num st x" if "x \<in> stacked st" for x
    using num_old [OF e] stacked_old [OF F(1) that] by blast
  have "G \<subseteq> stacked st" using F(2) by (simp add: reach_inv_def)
  then show ?thesis
    using F(2) t_num visited_closed [OF e] done_closed [OF e root]
    unfolding reach_inv_def done_part_def by (auto simp: subset_iff) 
qed

lemma closed_cycles:
  assumes e: "loop_end g G v st sti S" and root: "t_low sti v = t_index st"
  shows "cycles_inv g (closed_state st sti (S @ [v])
    (if 1 < length (S @ [v]) \<or> has_self_loop v g then [sort (S @ [v])] else []))"
    (is "cycles_inv g (closed_state st sti _ ?new)")
proof -
  note F = loop_end_facts [OF e]
  have dist: "distinct (S @ [v])" "set (S @ [v]) \<inter> stacked st = {}" "set (S @ [v]) \<subseteq> stacked sti"
    using stack_distinct [OF F(5)] F(4) by auto
  have split: "visited sti - stacked st = (visited sti - stacked sti) \<union> set (S @ [v])"
    using dist F(4) stacked_old [OF F(5)] by auto
  have sets: "set ` set ?new = cyclic_classes g (set (S @ [v]))"
    unfolding cyclic_classes_component [OF e root] by simp
  have "sort (S @ [v]) \<notin> set (t_cycles sti)"
  proof
    assume "sort (S @ [v]) \<in> set (t_cycles sti)"
    then have "set (S @ [v]) \<in> cyclic_classes g (visited sti - stacked sti)"
      using F(7) unfolding cycles_inv_def by (metis image_eqI set_sort)
    then show False using cyclic_class_sub dist(3) by blast
  qed
  then have "distinct (t_cycles sti @ ?new)" using F(7) by (simp add: cycles_inv_def)
  moreover have "\<forall>c \<in> set (t_cycles sti @ ?new). sorted c \<and> distinct c"
    using F(7) dist(1) by (auto simp: cycles_inv_def)
  ultimately show ?thesis
    using F(7) sets unfolding cycles_inv_def closed_simps split cyclic_classes_Un
    by (simp only: set_append image_Un)
qed

lemma close_connected:
  assumes e: "loop_end g G v st sti S"
  shows "connected g G v st (tarjan_close g v sti)"
proof (cases "t_low sti v = t_index st")
  case True
  note F = loop_end_facts [OF e]
  show ?thesis
    unfolding connected_def tarjan_close_root [OF e True]
    using closed_stack [OF e] closed_reach [OF e True] closed_cycles [OF e True] F
    by (auto simp: extends_def)
next
  case False
  note F = loop_end_facts [OF e]
  have "bm_get (lowlinks sti) v \<noteq> bm_get (indices sti) v"
    using F(5,10,14) False unfolding stack_inv_def by (metis option.sel)
  then have "tarjan_close g v sti = sti" by (simp add: tarjan_close_def)
  then show ?thesis
    using open_reach [OF e False] F by (auto simp: connected_def)
qed

section \<open>Correctness of the search\<close>

definition graph_ids :: "governance_graph \<Rightarrow> node_id set" where
  "graph_ids g = set (bm_keys (nodes g)) \<union> edge_to ` set (edges g)"

lemma card_graph_ids: "card (graph_ids g) \<le> tarjan_fuel g"
proof -
  have "card (graph_ids g) \<le> card (set (bm_keys (nodes g))) + card (edge_to ` set (edges g))"
    unfolding graph_ids_def by (rule card_Un_le)
  also have "\<dots> \<le> tarjan_fuel g"
    unfolding tarjan_fuel_def
    by (metis add_mono card_length length_map set_map)
  finally show ?thesis .
qed

lemma strong_connect_spec:
  assumes "stack_inv st" "reach_inv g G st" "cycles_inv g st" "v \<notin> visited st"
    and "\<forall>y \<in> G. (y, v) \<in> (edge_rel g)\<^sup>*"
    and "v \<in> graph_ids g" "visited st \<subseteq> graph_ids g" "card (graph_ids g - visited st) \<le> fuel"
  shows "\<exists>st'. strong_connect fuel g v st = Inr st' \<and> connected g G v st st' \<and> visited st' \<subseteq> graph_ids g"
  using assms
proof (induction fuel arbitrary: v st G)
  case 0
  have "finite (graph_ids g)" by (simp add: graph_ids_def)
  with 0 show ?case by auto
next
  case (Suc fuel)
  note st = Suc.prems(1,4)
  let ?P = "\<lambda>X sti. loop_inv g G v st X sti \<and> visited sti \<subseteq> graph_ids g \<and> insert v (visited st) \<subseteq> visited sti"
  have "\<exists>sti. rfold (tarjan_visit (strong_connect fuel g) v) (tarjan_enter v st) (successors g v) = Inr sti
      \<and> ?P (set (successors g v)) sti"
  proof (rule rfold_progress)
    show "?P {} (tarjan_enter v st)"
      using enter_loop_inv [OF Suc.prems(1-5)] Suc.prems(6,7) by auto
  next
    fix X sti w assume w: "w \<in> set (successors g v)" and P: "?P X sti"
    then have e: "(v, w) \<in> edge_rel g" by (simp add: set_successors)
    then have wid: "w \<in> graph_ids g" by (auto simp: edge_rel_def graph_ids_def)
    have "\<exists>st'. strong_connect fuel g w sti = Inr st' \<and> connected g (insert v G) w sti st' \<and> visited st' \<subseteq> graph_ids g"
      if "w \<notin> visited sti"
    proof (rule Suc.IH)
      have "graph_ids g - visited sti \<subset> graph_ids g - visited st"
        using P Suc.prems(4,6) by auto
      then have "card (graph_ids g - visited sti) < card (graph_ids g - visited st)"
        by (intro psubset_card_mono) (auto simp: graph_ids_def)
      with Suc.prems(8) show "card (graph_ids g - visited sti) \<le> fuel" by simp
      show "\<forall>y \<in> insert v G. (y, w) \<in> (edge_rel g)\<^sup>*"
        using Suc.prems(5) e by (auto intro: rtrancl_into_rtrancl)
    qed (use P that wid in \<open>auto simp: loop_inv_def\<close>)
    then have "\<exists>st'. tarjan_visit (strong_connect fuel g) v sti w = Inr st' \<and> loop_inv g G v st (insert w X) st'
        \<and> visited sti \<subseteq> visited st' \<and> visited st' \<subseteq> graph_ids g"
      using P by (intro visit_step [OF _ st e]) auto
    then obtain st' where "tarjan_visit (strong_connect fuel g) v sti w = Inr st'"
        "loop_inv g G v st (insert w X) st'" "visited sti \<subseteq> visited st'" "visited st' \<subseteq> graph_ids g"
      by (elim exE conjE)
    with P show "\<exists>st'. tarjan_visit (strong_connect fuel g) v sti w = Inr st' \<and> ?P (insert w X) st'"
      by (intro exI [of _ st']) auto
  qed
  then obtain sti where sti: "rfold (tarjan_visit (strong_connect fuel g) v) (tarjan_enter v st) (successors g v) = Inr sti"
      "loop_inv g G v st (edge_rel g `` {v}) sti" "visited sti \<subseteq> graph_ids g"
    by (auto simp: set_successors)
  then obtain S where "t_stack sti = S @ v # t_stack st" by (auto simp: loop_inv_def)
  with sti(2) Suc.prems have "loop_end g G v st sti S" by (simp add: loop_end_def)
  moreover have "visited (tarjan_close g v sti) = visited sti"
    by (simp add: tarjan_close_def visited_def Let_def split: prod.splits)
  ultimately show ?case
    using close_connected sti(1,3) by simp
qed

lemma connected_root: "connected g {} v st st' \<Longrightarrow> t_stack st' = []"
  by (auto simp: connected_def reach_inv_def)

definition search_inv :: "governance_graph \<Rightarrow> node_id set \<Rightarrow> tarjan_state \<Rightarrow> bool" where
  "search_inv g X st \<longleftrightarrow> stack_inv st \<and> reach_inv g {} st \<and> cycles_inv g st \<and> visited st \<subseteq> graph_ids g \<and> X \<subseteq> visited st"

lemma detect_loop:
  "\<exists>st. rfold (detect_step g) tarjan_default (sort (bm_keys (nodes g))) = Inr st
     \<and> search_inv g (set (sort (bm_keys (nodes g)))) st"
proof (rule rfold_progress)
  show "search_inv g {} tarjan_default"
    by (simp add: search_inv_def tarjan_default_def stack_inv_def reach_inv_def cycles_inv_def
        cyclic_classes_def visited_def bm_get_empty)
next
  fix X st v assume v: "v \<in> set (sort (bm_keys (nodes g)))" and inv: "search_inv g X st"
  show "\<exists>t. detect_step g st v = Inr t \<and> search_inv g (insert v X) t"
  proof (cases "v \<in> visited st")
    case True
    with inv show ?thesis by (simp add: detect_step_def visited_has [symmetric] search_inv_def)
  next
    case False
    have "card (graph_ids g - visited st) \<le> tarjan_fuel g"
      using card_graph_ids [of g] card_mono [of "graph_ids g" "graph_ids g - visited st"]
      by (simp add: graph_ids_def)
    then obtain st' where "strong_connect (tarjan_fuel g) g v st = Inr st'" "connected g {} v st st'"
        "visited st' \<subseteq> graph_ids g"
      using strong_connect_spec [of st g "{}" v "tarjan_fuel g"] inv v False
      by (auto simp: search_inv_def graph_ids_def)
    then show ?thesis
      using False inv
      by (auto simp: detect_step_def visited_has [symmetric] search_inv_def connected_def extends_def)
  qed
qed

lemma closed_visited: "search_inv g X st \<Longrightarrow> visited st - stacked st = visited st"
  by (auto simp: search_inv_def reach_inv_def)

lemma sorted_cycles_eq:
  assumes "\<forall>c \<in> C. sorted c \<and> distinct c" and "set ` C = D"
  shows "C = sorted_list_of_set ` D"
proof -
  have "sorted_list_of_set (set c) = c" if "c \<in> C" for c
    using assms(1) that by (simp add: sorted_list_of_set.idem_if_sorted_distinct)
  then show ?thesis unfolding assms(2) [symmetric] by (force simp: image_image)
qed

lemma detect_cycles_scc:
  assumes "\<forall>e \<in> set (edges g). bm_has (nodes g) (edge_from e)"
  shows "detect_cycles g = Inr (sorted_list_of_set (sorted_list_of_set ` cyclic_classes g UNIV))"
proof -
  obtain st where st: "rfold (detect_step g) tarjan_default (sort (bm_keys (nodes g))) = Inr st"
      "search_inv g (set (bm_keys (nodes g))) st"
    using detect_loop [of g] by auto
  have "x \<in> visited st" if x: "(x, x) \<in> (edge_rel g)\<^sup>+" for x
  proof -
    from x obtain y where "(x, y) \<in> edge_rel g" by (auto dest: tranclD)
    then have "x \<in> set (bm_keys (nodes g))" using assms by (auto simp: edge_rel_def bm_has_def)
    then show ?thesis using st(2) unfolding search_inv_def by blast
  qed
  then have "cyclic_classes g UNIV = cyclic_classes g (visited st)"
    by (auto simp: cyclic_classes_def)
  then have "set (t_cycles st) = sorted_list_of_set ` cyclic_classes g UNIV"
    using st(2) closed_visited [OF st(2)]
    by (intro sorted_cycles_eq) (auto simp: search_inv_def cycles_inv_def)
  moreover have "sorted_list_of_set (set (t_cycles st)) = sort (t_cycles st)"
    using st(2) unfolding sorted_list_of_set_sort_remdups
    by (simp add: search_inv_def cycles_inv_def distinct_remdups_id)
  ultimately show ?thesis
    using st(1) by (simp add: detect_cycles_def)
qed

lemma finite_cyclic_classes: "finite (cyclic_classes g UNIV)"
proof -
  have "finite (edge_rel g)" by (simp add: edge_rel_def)
  then have "finite (Domain (edge_rel g))" by (rule finite_Domain)
  moreover have "{x. (x, x) \<in> (edge_rel g)\<^sup>+} \<subseteq> Domain (edge_rel g)"
    by (auto dest: tranclD)
  ultimately show ?thesis
    unfolding cyclic_classes_def by (auto intro: finite_subset)
qed

section \<open>Properties\<close>

definition sample_cycle :: governance_graph where
  "sample_cycle = \<lparr>nodes = map (\<lambda>k. (k, Threshold k k (Num 1) ''strength'')) [''a'', ''b'', ''c''],
     edges = map (\<lambda>(a, b). \<lparr>edge_from = a, edge_to = b, edge_transform = PassThrough\<rparr>)
               [(''a'', ''b''), (''b'', ''a''), (''b'', ''c'')]\<rparr>"

text \<open>C1: Tarjan's search is correct. On a graph whose edges start at its nodes, \<open>detect_cycles\<close>
  never fails, panics or runs out of its step budget, and returns, sorted, exactly the strongly
  connected classes that contain a cycle, each as a sorted list without repetition.\<close>

theorem detect_cycles_correct:
  assumes "\<forall>e \<in> set (edges g). bm_has (nodes g) (edge_from e)"
  shows "detect_cycles g = Inr (sorted_list_of_set (sorted_list_of_set ` cyclic_classes g UNIV))"
  using assms by (rule detect_cycles_scc)

theorem detect_cycles_correct_witness:
  "detect_cycles sample_cycle = Inr [[''a'', ''b'']]
   \<and> sorted_list_of_set (sorted_list_of_set ` cyclic_classes sample_cycle UNIV) = [[''a'', ''b'']]"
proof -
  have run: "detect_cycles sample_cycle = Inr [[''a'', ''b'']]" by code_simp
  have "\<forall>e \<in> set (edges sample_cycle). bm_has (nodes sample_cycle) (edge_from e)"
    by (simp add: sample_cycle_def bm_has_def)
  from detect_cycles_correct [OF this] run show ?thesis by simp
qed

text \<open>No cycle is reported exactly when the edge relation is acyclic.\<close>

lemma detect_cycles_acyclic:
  assumes "\<forall>e \<in> set (edges g). bm_has (nodes g) (edge_from e)"
  shows "detect_cycles g = Inr [] \<longleftrightarrow> acyclic (edge_rel g)"
proof -
  have "detect_cycles g = Inr [] \<longleftrightarrow> cyclic_classes g UNIV = {}"
    using detect_cycles_scc [OF assms] finite_cyclic_classes [of g] by simp
  also have "\<dots> \<longleftrightarrow> acyclic (edge_rel g)" by (auto simp: cyclic_classes_def acyclic_def)
  finally show ?thesis .
qed

lemma detect_cycles_acyclic_witness: "\<not> acyclic (edge_rel sample_cycle)"
proof -
  have run: "detect_cycles sample_cycle = Inr [[''a'', ''b'']]" by code_simp
  have "\<forall>e \<in> set (edges sample_cycle). bm_has (nodes sample_cycle) (edge_from e)"
    by (simp add: sample_cycle_def bm_has_def)
  from detect_cycles_acyclic [OF this] run show ?thesis by simp
qed

end
