(* ===== verification/Governance_Order.thy ===== *)
theory Governance_Order
  imports Governance_Cycle
begin

text \<open>
  The order of a traversal: \<open>incoming_counts\<close>, \<open>outgoing_edges\<close> and \<open>topological_order\<close> of
  \<open>src/src/graph/traverse.rs\<close>. The worklist loop carries a step budget (the number of
  identifiers in the graph), proved to suffice; a decrement below zero is \<open>Panicked\<close>, proved
  not to happen. \<open>BTreeSet\<close> is a sorted list, \<open>pop_first\<close> takes its head.
\<close>

section \<open>Counting and ordering\<close>

definition or_default :: "'v \<Rightarrow> ('k, 'v) bmap \<Rightarrow> 'k \<Rightarrow> 'v" where
  "or_default d m k = (case bm_get m k of None \<Rightarrow> d | Some v \<Rightarrow> v)"

definition incoming_counts :: "governance_graph \<Rightarrow> (node_id, nat) bmap" where
  "incoming_counts g =
     fold (\<lambda>e m. bm_insert (edge_to e) (or_default 0 m (edge_to e) + 1) m) (edges g)
       (fold (\<lambda>k. bm_insert k 0) (bm_keys (nodes g)) [])"

definition outgoing_edges :: "governance_graph \<Rightarrow> (node_id, governance_edge list) bmap" where
  "outgoing_edges g =
     fold (\<lambda>e m. bm_insert (edge_from e) (or_default [] m (edge_from e) @ [e]) m) (edges g) []"

text \<open>One edge of the node just taken from the worklist: the counters and the sorted worklist.\<close>

definition order_edge ::
  "(node_id, nat) bmap \<times> node_id list \<Rightarrow> governance_edge
     \<Rightarrow> legitimacy_error fault + (node_id, nat) bmap \<times> node_id list" where
  "order_edge cq e =
     (case cq of (counts, queue) \<Rightarrow>
       (case bm_get counts (edge_to e) of
          None \<Rightarrow> Inl (Raised (InvalidEdgeReference (edge_to e)))
        | Some 0 \<Rightarrow> Inl Panicked
        | Some (Suc n) \<Rightarrow>
            Inr (bm_insert (edge_to e) n counts,
                 if n = 0 then insort_insert (edge_to e) queue else queue)))"

fun order_loop ::
  "nat \<Rightarrow> governance_graph \<Rightarrow> (node_id, nat) bmap \<Rightarrow> node_id list \<Rightarrow> node_id list
     \<Rightarrow> legitimacy_error fault + node_id list" where
  "order_loop fuel g counts [] order = Inr order"
| "order_loop 0 g counts (v # queue) order = Inl OutOfFuel"
| "order_loop (Suc fuel) g counts (v # queue) order =
     rbind (rfold order_edge (counts, queue) (filter (\<lambda>e. edge_from e = v) (edges g)))
       (\<lambda>(counts, queue). order_loop fuel g counts queue (order @ [v]))"

definition first_cycle_error :: "governance_graph \<Rightarrow> 'a \<Rightarrow> legitimacy_error fault + 'a" where
  "first_cycle_error g x =
     rbind (detect_cycles g) (\<lambda>cycles.
       case cycles of [] \<Rightarrow> Inr x | c # _ \<Rightarrow> Inl (Raised (CycleError c)))"

definition zero_count :: "(node_id, nat) bmap \<Rightarrow> node_id \<Rightarrow> bool" where
  "zero_count counts k \<longleftrightarrow> or_default 0 counts k = 0"

definition topological_order ::
  "governance_graph \<Rightarrow> (node_id, nat) bmap \<Rightarrow> legitimacy_error fault + node_id list" where
  "topological_order g counts =
     rbind (order_loop (tarjan_fuel g) g counts
              (fold insort_insert (filter (zero_count counts) (bm_keys (nodes g))) []) [])
       (\<lambda>order. if length order \<noteq> length (nodes g) then first_cycle_error g order else Inr order)"

section \<open>Lemmas: topological order\<close>

definition indeg :: "node_id \<Rightarrow> governance_edge list \<Rightarrow> nat" where
  "indeg x es = length (filter (\<lambda>e. edge_to e = x) es)"

lemma indeg_simps [simp]:
  "indeg x [] = 0" "indeg x (e # es) = (if edge_to e = x then Suc (indeg x es) else indeg x es)"
  "indeg x (es @ es') = indeg x es + indeg x es'"
  by (simp_all add: indeg_def)

lemma indeg_0: "indeg x es = 0 \<longleftrightarrow> (\<forall>e \<in> set es. edge_to e \<noteq> x)"
  by (simp add: indeg_def filter_empty_conv)

lemma set_insort_insert [simp]: "set (insort_insert x xs) = insert x (set xs)"
  by (simp add: insort_insert_key_def set_insort_key insert_absorb)

lemma distinct_insort_insert [simp]: "distinct xs \<Longrightarrow> distinct (insort_insert x xs)"
  by (simp add: insort_insert_key_def distinct_insort)

lemma or_default_get: "bm_get m k = Some v \<Longrightarrow> or_default d m k = v"
  by (simp add: or_default_def)

lemma get_fold_const:
  "bm_get (fold (\<lambda>k. bm_insert k v) ks m) k = (if k \<in> set ks then Some v else bm_get m k)"
  by (induction ks arbitrary: m) auto

lemma incoming_counts_get:
  "bm_get (incoming_counts g) x = (if x \<in> graph_ids g then Some (indeg x (edges g)) else None)"
proof -
  have "bm_get (fold (\<lambda>e m. bm_insert (edge_to e) (or_default 0 m (edge_to e) + 1) m) es m) x =
      (if x \<in> edge_to ` set es then Some (or_default 0 m x + indeg x es) else bm_get m x)" for es m
    by (induction es arbitrary: m) (auto simp: or_default_def indeg_0 image_iff)
  then show ?thesis
    by (auto simp: incoming_counts_def get_fold_const graph_ids_def or_default_def indeg_0)
qed

text \<open>
  The state of the worklist loop: \<open>pend\<close> are the edges not yet counted down, \<open>order\<close> the output.
\<close>

definition order_inv ::
  "governance_graph \<Rightarrow> governance_edge list \<Rightarrow> node_id list \<Rightarrow> (node_id, nat) bmap \<times> node_id list \<Rightarrow> bool" where
  "order_inv g pend order cq \<longleftrightarrow> set pend \<subseteq> set (edges g)
     \<and> bm_get (fst cq) = (\<lambda>x. if x \<in> graph_ids g then Some (indeg x pend) else None)
     \<and> {x \<in> graph_ids g. indeg x pend = 0} = set order \<union> set (snd cq)
     \<and> distinct (order @ snd cq)"

lemma order_edge_inv:
  assumes "order_inv g (e # pend) order cq"
  shows "\<exists>cq'. order_edge cq e = Inr cq' \<and> order_inv g pend order cq'"
proof -
  obtain counts queue where cq: "cq = (counts, queue)" by (cases cq)
  have "edge_to e \<in> graph_ids g" using assms by (auto simp: order_inv_def graph_ids_def)
  then have get: "bm_get counts (edge_to e) = Some (Suc (indeg (edge_to e) pend))"
    using assms by (simp add: order_inv_def cq)
  have "edge_to e \<notin> {x \<in> graph_ids g. indeg x (e # pend) = 0}" by simp
  moreover have "{x \<in> graph_ids g. indeg x (e # pend) = 0} = set order \<union> set queue"
    using assms unfolding order_inv_def cq snd_conv by (elim conjE)
  ultimately have "edge_to e \<notin> set order \<union> set queue" by blast
  moreover have "{x \<in> graph_ids g. indeg x pend = 0} =
      {x \<in> graph_ids g. indeg x (e # pend) = 0} \<union> (if indeg (edge_to e) pend = 0 then {edge_to e} else {})"
    using \<open>edge_to e \<in> graph_ids g\<close> by auto
  moreover have "bm_get (bm_insert (edge_to e) (indeg (edge_to e) pend) counts) =
      (\<lambda>x. if x \<in> graph_ids g then Some (indeg x pend) else None)"
    using assms \<open>edge_to e \<in> graph_ids g\<close> by (auto simp: order_inv_def cq fun_eq_iff)
  ultimately show ?thesis
    using assms get unfolding order_inv_def cq order_edge_def by auto
qed

lemma order_edges_inv:
  "order_inv g (es @ pend) order cq \<Longrightarrow> \<exists>cq'. rfold order_edge cq es = Inr cq' \<and> order_inv g pend order cq'"
proof (induction es arbitrary: cq)
  case (Cons e es)
  then obtain cq' where "order_edge cq e = Inr cq'" "order_inv g (es @ pend) order cq'"
    using order_edge_inv [of g e "es @ pend" order cq] by auto
  with Cons.IH show ?case by auto
qed simp

definition pending :: "governance_graph \<Rightarrow> node_id list \<Rightarrow> governance_edge list" where
  "pending g order = filter (\<lambda>e. edge_from e \<notin> set order) (edges g)"

definition respects_edges :: "governance_graph \<Rightarrow> node_id list \<Rightarrow> bool" where
  "respects_edges g order \<longleftrightarrow>
     (\<forall>i < length order. \<forall>e \<in> set (edges g). edge_to e = order ! i \<longrightarrow> edge_from e \<in> set (take i order))"

lemma indeg_pending:
  assumes "v \<notin> set order"
  shows "indeg x (pending g order) =
    indeg x (filter (\<lambda>e. edge_from e = v) (edges g) @ pending g (order @ [v]))"
proof -
  have "indeg x (filter (\<lambda>e. edge_from e \<notin> set order) es) =
      indeg x (filter (\<lambda>e. edge_from e = v) es @ filter (\<lambda>e. edge_from e \<notin> set (order @ [v])) es)" for es
    using assms by (induction es) auto
  then show ?thesis by (simp add: pending_def)
qed

lemma order_inv_pop:
  assumes "order_inv g (pending g order) order (counts, v # queue)"
  shows "order_inv g (filter (\<lambda>e. edge_from e = v) (edges g) @ pending g (order @ [v])) (order @ [v]) (counts, queue)"
proof -
  have "v \<notin> set order" using assms by (auto simp: order_inv_def)
  from indeg_pending [OF this] show ?thesis
    using assms by (auto simp: order_inv_def pending_def)
qed

lemma respects_snoc:
  assumes "respects_edges g order" and "indeg v (pending g order) = 0"
  shows "respects_edges g (order @ [v])"
  using assms by (auto simp: respects_edges_def indeg_0 pending_def nth_append less_Suc_eq)

lemma order_loop_spec:
  assumes "order_inv g (pending g order) order (counts, queue)" and "respects_edges g order"
    and "card (graph_ids g - set order) \<le> fuel"
  shows "\<exists>res counts'. order_loop fuel g counts queue order = Inr res
    \<and> order_inv g (pending g res) res (counts', []) \<and> respects_edges g res"
  using assms
proof (induction fuel arbitrary: counts queue order)
  case 0
  have "finite (graph_ids g)" by (simp add: graph_ids_def)
  with 0 have "queue = []"
    by (cases queue) (auto simp: order_inv_def)
  with 0 show ?case by auto
next
  case (Suc fuel)
  show ?case
  proof (cases queue)
    case (Cons v rest)
    note inv = Suc.prems(1) [unfolded Cons]
    obtain counts' queue' where run:
      "rfold order_edge (counts, rest) (filter (\<lambda>e. edge_from e = v) (edges g)) = Inr (counts', queue')"
      "order_inv g (pending g (order @ [v])) (order @ [v]) (counts', queue')"
      using order_edges_inv [OF order_inv_pop [OF inv]] by force
    have v: "v \<in> graph_ids g" "indeg v (pending g order) = 0" "v \<notin> set order"
      using inv by (auto simp: order_inv_def)
    have "graph_ids g - set (order @ [v]) \<subset> graph_ids g - set order" using v by auto
    then have "card (graph_ids g - set (order @ [v])) < card (graph_ids g - set order)"
      by (intro psubset_card_mono) (auto simp: graph_ids_def)
    with Suc.prems(3) have "card (graph_ids g - set (order @ [v])) \<le> fuel" by simp
    from Suc.IH [OF run(2) respects_snoc [OF Suc.prems(2) v(2)] this] run(1) Cons show ?thesis by simp
  qed (use Suc.prems in auto)
qed

lemma initial_queue:
  "set (fold insort_insert xs ys) = set xs \<union> set ys" "distinct ys \<Longrightarrow> distinct (fold insort_insert xs ys)"
  by (induction xs arbitrary: ys) auto

definition well_linked :: "governance_graph \<Rightarrow> bool" where
  "well_linked g \<longleftrightarrow> bm_wf (nodes g)
     \<and> (\<forall>e \<in> set (edges g). bm_has (nodes g) (edge_from e) \<and> bm_has (nodes g) (edge_to e))"

lemma well_linked_ids: "well_linked g \<Longrightarrow> graph_ids g = set (bm_keys (nodes g))"
  by (auto simp: well_linked_def graph_ids_def bm_has_def)

lemma order_run:
  assumes "well_linked g"
  shows "\<exists>res. order_loop (tarjan_fuel g) g (incoming_counts g)
      (fold insort_insert (filter (zero_count (incoming_counts g)) (bm_keys (nodes g))) []) [] = Inr res
    \<and> respects_edges g res \<and> distinct res
    \<and> set res = {x \<in> set (bm_keys (nodes g)). indeg x (pending g res) = 0}"
proof -
  let ?q = "fold insort_insert (filter (zero_count (incoming_counts g)) (bm_keys (nodes g))) []"
  have ids: "graph_ids g = set (bm_keys (nodes g))" using assms by (rule well_linked_ids)
  have "order_inv g (pending g []) [] (incoming_counts g, ?q)"
    by (auto simp: order_inv_def pending_def initial_queue incoming_counts_get ids zero_count_def or_default_def)
  moreover have "respects_edges g []" by (simp add: respects_edges_def)
  moreover have "card (graph_ids g - set []) \<le> tarjan_fuel g" using card_graph_ids by simp
  ultimately obtain res counts' where "order_loop (tarjan_fuel g) g (incoming_counts g) ?q [] = Inr res"
      "order_inv g (pending g res) res (counts', [])" "respects_edges g res"
    using order_loop_spec by blast
  then show ?thesis using ids by (auto simp: order_inv_def)
qed

lemma acyclic_order_complete:
  assumes "well_linked g" and "acyclic (edge_rel g)"
    and res: "set res = {x \<in> set (bm_keys (nodes g)). indeg x (pending g res) = 0}"
  shows "set res = set (bm_keys (nodes g))"
proof (rule ccontr)
  assume "set res \<noteq> set (bm_keys (nodes g))"
  then obtain x where x: "x \<in> set (bm_keys (nodes g)) - set res" using res by blast
  have wf: "wf (edge_rel g)" using assms(2) by (rule finite_acyclic_wf [rotated]) (simp add: edge_rel_def)
  obtain m where m: "m \<in> set (bm_keys (nodes g)) - set res"
      "\<And>y. (y, m) \<in> edge_rel g \<Longrightarrow> y \<notin> set (bm_keys (nodes g)) - set res"
    by (rule wfE_min [OF wf x]) (rule that)
  have "m \<in> set res \<longleftrightarrow> m \<in> set (bm_keys (nodes g)) \<and> indeg m (pending g res) = 0"
    by (subst res) simp
  with m(1) have "indeg m (pending g res) \<noteq> 0" by simp
  then obtain e where e: "e \<in> set (edges g)" "edge_to e = m" "edge_from e \<notin> set res"
    by (auto simp: indeg_0 pending_def)
  then have "(edge_from e, m) \<in> edge_rel g" by (auto simp: edge_rel_def)
  with m(2) e assms(1) show False by (auto simp: well_linked_def bm_has_def)
qed

lemma first_cycle_error_spec:
  assumes "well_linked g"
  shows "acyclic (edge_rel g) \<Longrightarrow> first_cycle_error g x = Inr x"
    and "\<not> acyclic (edge_rel g) \<Longrightarrow>
      \<exists>c cs. detect_cycles g = Inr (c # cs) \<and> first_cycle_error g x = Inl (Raised (CycleError c))"
proof -
  have from_nodes: "\<forall>e \<in> set (edges g). bm_has (nodes g) (edge_from e)"
    using assms by (simp add: well_linked_def)
  have empty: "sorted_list_of_set (sorted_list_of_set ` cyclic_classes g UNIV) = [] \<longleftrightarrow> acyclic (edge_rel g)"
    using finite_cyclic_classes [of g] by (auto simp: cyclic_classes_def acyclic_def)
  show "acyclic (edge_rel g) \<Longrightarrow> first_cycle_error g x = Inr x"
    using empty by (simp add: first_cycle_error_def detect_cycles_scc [OF from_nodes])
  show "\<exists>c cs. detect_cycles g = Inr (c # cs) \<and> first_cycle_error g x = Inl (Raised (CycleError c))"
    if "\<not> acyclic (edge_rel g)"
    using empty that
    by (cases "sorted_list_of_set (sorted_list_of_set ` cyclic_classes g UNIV)")
      (auto simp: first_cycle_error_def detect_cycles_scc [OF from_nodes])
qed

lemma topological_order_acyclic:
  assumes "well_linked g" and "acyclic (edge_rel g)"
  shows "\<exists>order. topological_order g (incoming_counts g) = Inr order
    \<and> distinct order \<and> set order = set (bm_keys (nodes g)) \<and> respects_edges g order"
proof -
  obtain res where run: "order_loop (tarjan_fuel g) g (incoming_counts g)
      (fold insort_insert (filter (zero_count (incoming_counts g)) (bm_keys (nodes g))) []) [] = Inr res"
      "respects_edges g res" "distinct res"
      "set res = {x \<in> set (bm_keys (nodes g)). indeg x (pending g res) = 0}"
    using order_run [OF assms(1)] by blast
  then have all: "set res = set (bm_keys (nodes g))" using acyclic_order_complete [OF assms] by blast
  have "length res = length (nodes g)"
    using distinct_card [OF run(3)] distinct_card [of "bm_keys (nodes g)"] all assms(1)
    by (simp add: well_linked_def bm_wf_distinct)
  with run all show ?thesis by (auto simp: topological_order_def)
qed

text \<open>A list that respects the edges and holds every node exists only for acyclic graphs.\<close>

lemma respects_acyclic:
  assumes link: "well_linked g" and resp: "respects_edges g res" and dist: "distinct res"
    and all: "set res = set (bm_keys (nodes g))"
  shows "acyclic (edge_rel g)"
proof -
  define pos where "pos x = (LEAST i. i < length res \<and> res ! i = x)" for x
  have pos: "pos x < length res \<and> res ! pos x = x" if "x \<in> set res" for x
    unfolding pos_def by (rule LeastI_ex) (use that in \<open>auto simp: in_set_conv_nth\<close>)
  have "pos a < pos b" if ab: "(a, b) \<in> edge_rel g" for a b
  proof -
    obtain e where e: "e \<in> set (edges g)" "edge_from e = a" "edge_to e = b"
      using ab by (auto simp: edge_rel_def)
    then have b: "b \<in> set res" using link all by (auto simp: well_linked_def bm_has_def)
    then have "a \<in> set (take (pos b) res)"
      using resp e pos [OF b] unfolding respects_edges_def by force
    then obtain i where i: "i < pos b" "i < length res" "res ! i = a" by (auto simp: in_set_conv_nth)
    then have "pos a = i" using pos [of a] dist by (metis nth_eq_iff_index_eq nth_mem)
    with i show ?thesis by simp
  qed
  then have "edge_rel g \<subseteq> measure pos" by auto
  then show ?thesis using wf_acyclic [OF wf_subset [OF wf_measure]] by blast
qed

section \<open>Properties\<close>

text \<open>C9: the topological order. On a graph whose edges connect its nodes the worklist loop ends
  within its budget and never counts below zero; if the graph is acyclic the result lists every
  node once, each after all the nodes that have an edge to it; otherwise it is the error that
  names the first cycle.\<close>

theorem topological_order_correct:
  assumes "well_linked g"
  shows "if acyclic (edge_rel g)
    then (\<exists>order. topological_order g (incoming_counts g) = Inr order
            \<and> mset order = mset (bm_keys (nodes g)) \<and> respects_edges g order)
    else (\<exists>c cs. detect_cycles g = Inr (c # cs)
            \<and> topological_order g (incoming_counts g) = Inl (Raised (CycleError c)))"
proof (cases "acyclic (edge_rel g)")
  case True
  obtain order where order: "topological_order g (incoming_counts g) = Inr order" "distinct order"
      "set order = set (bm_keys (nodes g))" "respects_edges g order"
    using topological_order_acyclic [OF assms True] by blast
  have "distinct (bm_keys (nodes g))" using assms by (simp add: well_linked_def bm_wf_distinct)
  then have "mset order = mset (bm_keys (nodes g))"
    using order(2,3) set_eq_iff_mset_eq_distinct by blast
  with order True show ?thesis by auto
next
  case False
  obtain res where run: "order_loop (tarjan_fuel g) g (incoming_counts g)
      (fold insort_insert (filter (zero_count (incoming_counts g)) (bm_keys (nodes g))) []) [] = Inr res"
      "respects_edges g res" "distinct res" "set res \<subseteq> set (bm_keys (nodes g))"
    using order_run [OF assms] by blast
  have "length res \<noteq> length (nodes g)"
  proof
    assume "length res = length (nodes g)"
    moreover have "card (set (bm_keys (nodes g))) = length (nodes g)"
      using assms by (metis bm_wf_distinct distinct_card length_map well_linked_def)
    ultimately have "set res = set (bm_keys (nodes g))"
      using run(3,4) by (intro card_subset_eq) (auto simp: distinct_card)
    with respects_acyclic [OF assms run(2,3)] False show False by simp
  qed
  with run(1) first_cycle_error_spec(2) [OF assms False, of res] False show ?thesis
    by (auto simp: topological_order_def)
qed

theorem topological_order_correct_witness:
  "\<exists>c cs. detect_cycles sample_cycle = Inr (c # cs)
     \<and> topological_order sample_cycle (incoming_counts sample_cycle) = Inl (Raised (CycleError c))"
proof -
  have link: "well_linked sample_cycle"
    by (simp add: well_linked_def sample_cycle_def bm_has_def bm_wf_def)
  have "(''a'', ''b'') \<in> edge_rel sample_cycle" "(''b'', ''a'') \<in> edge_rel sample_cycle"
    by (simp_all add: edge_rel_def sample_cycle_def)
  then have "\<not> acyclic (edge_rel sample_cycle)"
    by (meson acyclic_def r_into_trancl trancl_into_trancl)
  with topological_order_correct [OF link] show ?thesis by simp
qed

end
