(* ===== verification/Governance_Traverse.thy ===== *)
theory Governance_Traverse
  imports Governance_Order
begin

text \<open>
  Traversal, \<open>src/src/graph/traverse.rs\<close>: claims enter at the nodes without incoming edges and
  flow along the edges in topological order; escalated claims are forwarded, the others are
  decided; the decisions of several nodes on one claimant are merged, the strictest winning.
  \<open>Arc\<close> is transparent, so a \<open>SharedClaim\<close> is a claim. An index out of range is \<open>Panicked\<close>,
  proved not to happen.
\<close>

section \<open>Claims along an edge\<close>

definition modified_claim :: "f64 \<Rightarrow> governance_claim \<Rightarrow> legitimacy_error + governance_claim" where
  "modified_claim delta c =
     (let transformed = c\<lparr>strength := f64_add (strength c) delta\<rparr>
      in rbind (validate_governance_claim transformed) (\<lambda>_. Inr transformed))"

fun apply_transform_shared ::
  "edge_transform \<Rightarrow> governance_claim list \<Rightarrow> claim_decision list \<Rightarrow> legitimacy_error + governance_claim list" where
  "apply_transform_shared PassThrough cs ds = Inr cs"
| "apply_transform_shared (ClaimModification delta) cs ds =
     rmap (\<lambda>(c, d). if cd_claimant_id d = claimant_id c \<and> cd_decision d = Permit
                    then modified_claim delta c else Inr c)
       (zip cs ds)"

fun apply_transform ::
  "edge_transform \<Rightarrow> governance_claim list \<Rightarrow> claim_decision list \<Rightarrow> legitimacy_error + governance_claim list" where
  "apply_transform PassThrough cs ds = Inr cs"
| "apply_transform (ClaimModification delta) cs ds =
     rmap (\<lambda>(c, d). if cd_claimant_id d = claimant_id c \<and> cd_decision d = Permit
                    then modified_claim delta c else Inr c)
       (zip cs ds)"

definition forwarded_shared_claims :: "governance_claim list \<Rightarrow> claim_decision list \<Rightarrow> governance_claim list" where
  "forwarded_shared_claims cs ds =
     map fst (filter (\<lambda>(c, d). cd_claimant_id d = claimant_id c \<and> cd_decision d = Escalate) (zip cs ds))"

definition forwarded_claims :: "governance_claim list \<Rightarrow> claim_decision list \<Rightarrow> governance_claim list" where
  "forwarded_claims cs ds =
     map fst (filter (\<lambda>(c, d). cd_claimant_id d = claimant_id c \<and> cd_decision d = Escalate) (zip cs ds))"

text \<open>The loop of \<open>merge_shared_claim_batches\<close>; the index map of the claims already queued.\<close>

definition merge_index :: "governance_claim list \<Rightarrow> (string, nat) bmap" where
  "merge_index incoming =
     fold (\<lambda>(index, c). bm_insert (claimant_id c) index) (enumerate 0 incoming) []"

definition merge_shared_claim ::
  "node_id \<Rightarrow> (string, nat) bmap \<times> governance_claim list \<Rightarrow> governance_claim
     \<Rightarrow> legitimacy_error fault + (string, nat) bmap \<times> governance_claim list" where
  "merge_shared_claim nid mi c =
     (case mi of (merged, incoming) \<Rightarrow>
       (case bm_get merged (claimant_id c) of
          Some index \<Rightarrow>
            if length incoming \<le> index then Inl Panicked
            else if \<not> claim_eq (incoming ! index) c
            then Inl (Raised (ConflictingClaimFeed nid (claimant_id c)))
            else Inr (merged, incoming)
        | None \<Rightarrow> Inr (bm_insert (claimant_id c) (length incoming) merged, incoming @ [c])))"

definition merge_shared_claim_batches ::
  "node_id \<Rightarrow> governance_claim list \<Rightarrow> governance_claim list \<Rightarrow> legitimacy_error fault + governance_claim list" where
  "merge_shared_claim_batches nid incoming additional =
     rbind (rfold (merge_shared_claim nid) (merge_index incoming, incoming) additional) (\<lambda>mi. Inr (snd mi))"

section \<open>The traversal\<close>

definition merge_final_decision :: "decision \<Rightarrow> decision \<Rightarrow> decision" where
  "merge_final_decision left right = (if decision_rank left \<le> decision_rank right then left else right)"

definition record_final_decision ::
  "bool \<Rightarrow> (string, decision) bmap \<Rightarrow> claim_decision \<Rightarrow> (string, decision) bmap" where
  "record_final_decision has_outgoing final d =
     (if cd_decision d = Escalate \<and> has_outgoing then final
      else bm_insert (cd_claimant_id d)
             (case bm_get final (cd_claimant_id d) of
                None \<Rightarrow> cd_decision d
              | Some existing \<Rightarrow> merge_final_decision existing (cd_decision d)) final)"

definition record_final_decisions ::
  "(string, decision) bmap \<Rightarrow> claim_decision list \<Rightarrow> bool \<Rightarrow> (string, decision) bmap" where
  "record_final_decisions final ds has_outgoing = foldl (record_final_decision has_outgoing) final ds"

record traversal_state =
  queued_claims :: "(node_id, governance_claim list) bmap"
  ts_final :: "(string, decision) bmap"
  ts_nodes :: "(node_id, claim_decision list) bmap option"

definition forward_edge ::
  "governance_claim list \<Rightarrow> claim_decision list \<Rightarrow> (node_id, governance_claim list) bmap \<Rightarrow> governance_edge
     \<Rightarrow> legitimacy_error fault + (node_id, governance_claim list) bmap" where
  "forward_edge forwarded ds queued e =
     rbind (raise (apply_transform_shared (edge_transform e) forwarded ds)) (\<lambda>transformed.
     rbind (merge_shared_claim_batches (edge_to e) (or_default [] queued (edge_to e)) transformed) (\<lambda>merged.
       Inr (bm_insert (edge_to e) merged queued)))"

definition traverse_node ::
  "regex_engine \<Rightarrow> governance_graph \<Rightarrow> traversal_state \<Rightarrow> node_id \<Rightarrow> legitimacy_error fault + traversal_state" where
  "traverse_node rx g st v =
     rbind (option_ok (Raised (InvalidEdgeReference v)) (bm_get (nodes g) v)) (\<lambda>node.
       let current_claims = or_default [] (queued_claims st) v;
           queued = bm_remove v (queued_claims st)
       in rbind (raise (evaluate_node_validated rx node current_claims)) (\<lambda>ds.
            let outgoing = or_default [] (outgoing_edges g) v;
                final = record_final_decisions (ts_final st) ds (outgoing \<noteq> []);
                forwarded = forwarded_shared_claims current_claims ds;
                captured = map_option (bm_insert v ds) (ts_nodes st)
            in rbind (rfold (forward_edge forwarded ds) queued outgoing) (\<lambda>queued.
                 Inr \<lparr>queued_claims = queued, ts_final = final, ts_nodes = captured\<rparr>)))"

definition entry_node_list :: "governance_graph \<Rightarrow> node_id list" where
  "entry_node_list g = sort (filter (zero_count (incoming_counts g)) (bm_keys (nodes g)))"

definition traverse_claims ::
  "regex_engine \<Rightarrow> governance_graph \<Rightarrow> governance_claim list \<Rightarrow> bool
     \<Rightarrow> legitimacy_error fault + (node_id list \<times> (string, decision) bmap \<times> (node_id, claim_decision list) bmap option)" where
  "traverse_claims rx g cs capture =
     rbind (raise (validate_governance_claims cs)) (\<lambda>_.
     rbind (first_cycle_error g ()) (\<lambda>_.
       let entry = entry_node_list g
       in if nodes g = [] \<or> entry = [] then Inl (Raised NoEntryNodes)
          else rbind (topological_order g (incoming_counts g)) (\<lambda>order.
               rbind (rfold (traverse_node rx g)
                        \<lparr>queued_claims = fold (\<lambda>k. bm_insert k cs) entry [], ts_final = [],
                         ts_nodes = (if capture then Some [] else None)\<rparr> order) (\<lambda>st.
                 Inr (entry, ts_final st, ts_nodes st)))))"

record traversal_result =
  entry_nodes :: "node_id list"
  node_decisions :: "(node_id, claim_decision list) bmap"
  final_decisions :: "(string, decision) bmap"
  tr_cycles :: "node_id list list"

definition traverse_final_decisions ::
  "regex_engine \<Rightarrow> governance_graph \<Rightarrow> governance_claim list \<Rightarrow> legitimacy_error fault + (string, decision) bmap" where
  "traverse_final_decisions rx g cs =
     rbind (traverse_claims rx g cs False) (\<lambda>(_, final, _). Inr final)"

definition traverse ::
  "regex_engine \<Rightarrow> governance_graph \<Rightarrow> governance_claim list \<Rightarrow> legitimacy_error fault + traversal_result" where
  "traverse rx g cs =
     rbind (traverse_claims rx g cs True) (\<lambda>(entry, final, captured).
       Inr \<lparr>entry_nodes = entry, node_decisions = (case captured of None \<Rightarrow> [] | Some m \<Rightarrow> m),
            final_decisions = final, tr_cycles = []\<rparr>)"

section \<open>Lemmas: merging decisions\<close>

lemma merge_final_decision_min: "merge_final_decision a b = min a b"
  by (simp add: merge_final_decision_def min_def less_eq_decision_def)

section \<open>Lemmas: claims along an edge\<close>

definition aligned :: "governance_claim list \<Rightarrow> claim_decision list \<Rightarrow> bool" where
  "aligned cs ds \<longleftrightarrow> map cd_claimant_id ds = map claimant_id cs"

lemma evaluate_validated_aligned: "evaluate_node_validated rx n cs = Inr ds \<Longrightarrow> aligned cs ds"
  by (cases n)
    (auto simp: aligned_def evaluate_binary_node_def evaluate_threshold_node_def result_simps decide_def
       elim!: rmap_map_eq)

lemma transforms_agree: "apply_transform tr cs ds = apply_transform_shared tr cs ds"
  by (cases tr) simp_all

lemma forwarded_agree: "forwarded_claims cs ds = forwarded_shared_claims cs ds"
  by (simp add: forwarded_claims_def forwarded_shared_claims_def)

lemma rmap_Inr_fst: "(\<And>c d. (c, d) \<in> set ps \<Longrightarrow> f (c, d) = Inr c) \<Longrightarrow> rmap f ps = Inr (map fst ps)"
  by (induction ps) auto

lemma mem_forwarded:
  assumes "aligned cs ds"
  shows "c \<in> set (forwarded_shared_claims cs ds) \<longleftrightarrow> (\<exists>d. (c, d) \<in> set (zip cs ds) \<and> cd_decision d = Escalate)"
proof -
  have "cd_claimant_id d = claimant_id c" if "(c, d) \<in> set (zip cs ds)" for c d
    using assms that by (auto simp: aligned_def in_set_zip dest: arg_cong [where f = "\<lambda>xs. xs ! _"])
      (metis nth_map length_map)
  then show ?thesis by (force simp: forwarded_shared_claims_def)
qed

lemma escalated_once:
  assumes "aligned cs ds" and "distinct (map claimant_id cs)"
    and "c \<in> set (forwarded_shared_claims cs ds)" and "d \<in> set ds" and "cd_claimant_id d = claimant_id c"
  shows "cd_decision d = Escalate"
proof -
  obtain d' where d': "(c, d') \<in> set (zip cs ds)" "cd_decision d' = Escalate" "cd_claimant_id d' = claimant_id c"
    using assms(3) by (auto simp: forwarded_shared_claims_def)
  have "distinct (map cd_claimant_id ds)" using assms(1,2) by (simp add: aligned_def)
  moreover have "d' \<in> set ds" using d'(1) by (rule set_zip_rightD)
  ultimately have "d = d'" using assms(4,5) d'(3) by (auto simp: distinct_map inj_on_def)
  with d' show ?thesis by simp
qed

lemma forwarded_length: "length (forwarded_shared_claims cs ds) \<le> length ds"
  unfolding forwarded_shared_claims_def
  by (metis (no_types, lifting) length_filter_le length_map length_zip min.bounded_iff)

lemma transform_inert:
  assumes "aligned cs ds" and "distinct (map claimant_id cs)"
  shows "apply_transform_shared tr (forwarded_shared_claims cs ds) ds = Inr (forwarded_shared_claims cs ds)"
proof (cases tr)
  case (ClaimModification delta)
  let ?f = "forwarded_shared_claims cs ds"
  have "rmap (\<lambda>(c, d). if cd_claimant_id d = claimant_id c \<and> cd_decision d = Permit
      then modified_claim delta c else Inr c) (zip ?f ds) = Inr (map fst (zip ?f ds))"
  proof (rule rmap_Inr_fst)
    fix c d assume "(c, d) \<in> set (zip ?f ds)"
    then have "c \<in> set ?f" "d \<in> set ds" by (auto dest: set_zip_leftD set_zip_rightD)
    with escalated_once [OF assms, of c d]
    show "(case (c, d) of (c, d) \<Rightarrow> if cd_claimant_id d = claimant_id c \<and> cd_decision d = Permit
        then modified_claim delta c else Inr c) = Inr c" by auto
  qed
  with ClaimModification forwarded_length [of cs ds] show ?thesis by (simp add: map_fst_zip_take)
qed simp

section \<open>Lemmas: the in-place merge\<close>

definition index_ok :: "(string, nat) bmap \<Rightarrow> governance_claim list \<Rightarrow> bool" where
  "index_ok m cs \<longleftrightarrow> (\<forall>k. case bm_get m k of
     None \<Rightarrow> k \<notin> claimant_id ` set cs
   | Some i \<Rightarrow> i < length cs \<and> claimant_id (cs ! i) = k)"

lemma index_ok_get:
  "index_ok m cs \<Longrightarrow> bm_get m k = None \<Longrightarrow> k \<notin> claimant_id ` set cs"
  "index_ok m cs \<Longrightarrow> bm_get m k = Some i \<Longrightarrow> i < length cs \<and> claimant_id (cs ! i) = k"
  unfolding index_ok_def by (drule spec [of _ k], simp)+

lemma index_ok_snoc: "index_ok m cs \<Longrightarrow> index_ok (bm_insert (claimant_id c) (length cs) m) (cs @ [c])"
  unfolding index_ok_def by (fastforce simp: nth_append split: option.splits)

lemma index_ok_merge_index: "index_ok (merge_index cs) cs"
proof (induction cs rule: rev_induct)
  case Nil
  show ?case by (simp add: index_ok_def merge_index_def)
next
  case (snoc c cs)
  from index_ok_snoc [OF this, of c] show ?case by (simp add: merge_index_def enumerate_append_eq)
qed

lemma first_claim_index:
  assumes "distinct (map claimant_id cs)" and "i < length cs"
  shows "first_claim cs (claimant_id (cs ! i)) = Some (cs ! i)"
  using assms
proof (induction cs arbitrary: i)
  case (Cons a cs)
  show ?case
  proof (cases i)
    case (Suc j)
    with Cons.prems have "claimant_id (cs ! j) \<in> claimant_id ` set cs" by simp
    with Cons.prems(1) have "claimant_id (cs ! j) \<noteq> claimant_id a" by auto
    with Suc Cons show ?thesis by (simp add: first_claim_def)
  qed (simp add: first_claim_def)
qed simp

lemma first_claim_None: "first_claim cs k = None \<longleftrightarrow> k \<notin> claimant_id ` set cs"
  by (auto simp: first_claim_def find_None_iff)

text \<open>The in-place merge and the ordered-map merge of \<open>node.rs\<close> run in step.\<close>

definition merge_related ::
  "(string, nat) bmap \<times> governance_claim list \<Rightarrow> (string, governance_claim) bmap \<Rightarrow> bool" where
  "merge_related mi m \<longleftrightarrow> index_ok (fst mi) (snd mi) \<and> distinct (map claimant_id (snd mi))
     \<and> keyed_by_id m \<and> bm_get m = first_claim (snd mi)"

lemma merge_related_step:
  assumes "merge_related mi m"
  shows "(\<exists>mi' m'. merge_shared_claim nid mi c = Inr mi' \<and> merge_claim nid m c = Inr m' \<and> merge_related mi' m')
    \<or> (\<exists>e. merge_shared_claim nid mi c = Inl (Raised e) \<and> merge_claim nid m c = Inl e)"
proof -
  obtain idx cs where mi: "mi = (idx, cs)" by (cases mi)
  have ok: "index_ok idx cs" "distinct (map claimant_id cs)" "keyed_by_id m" "bm_get m = first_claim cs"
    using assms by (auto simp: merge_related_def mi)
  show ?thesis
  proof (cases "bm_get idx (claimant_id c)")
    case None
    then have new: "claimant_id c \<notin> claimant_id ` set cs" using index_ok_get(1) [OF ok(1)] by simp
    then have "first_claim cs (claimant_id c) = None" by (simp add: first_claim_None)
    moreover from this have "bm_get (bm_insert (claimant_id c) c m) = first_claim (cs @ [c])"
      using ok(4) by (auto simp: first_claim_snoc fun_eq_iff split: option.splits)
    ultimately show ?thesis
      using None ok index_ok_snoc [OF ok(1), of c] keyed_by_id_insert [OF ok(3), of c] new
      by (simp add: merge_shared_claim_def mi merge_claim_def merge_related_def)
  next
    case (Some i)
    then have i: "i < length cs" "claimant_id (cs ! i) = claimant_id c"
      using index_ok_get(2) [OF ok(1)] by simp_all
    with first_claim_index [OF ok(2) i(1)] Some ok assms show ?thesis
      by (simp add: merge_shared_claim_def mi merge_claim_def)
  qed
qed

lemma merge_related_run:
  assumes "merge_related mi m"
  shows "(\<exists>mi' m'. rfold (merge_shared_claim nid) mi cs = Inr mi' \<and> rfold (merge_claim nid) m cs = Inr m'
       \<and> merge_related mi' m')
    \<or> (\<exists>e. rfold (merge_shared_claim nid) mi cs = Inl (Raised e) \<and> rfold (merge_claim nid) m cs = Inl e)"
  using assms
proof (induction cs arbitrary: mi m)
  case (Cons c cs)
  from merge_related_step [OF Cons.prems, of nid c] show ?case
  proof (elim disjE exE conjE)
    fix mi' m'
    assume step: "merge_shared_claim nid mi c = Inr mi'" "merge_claim nid m c = Inr m'" "merge_related mi' m'"
    from Cons.IH [OF step(3)] step(1,2) show ?case by simp
  qed simp
qed simp

lemma keyed_values:
  assumes "keyed_by_id m" and "bm_get m = first_claim cs" and "distinct (map claimant_id cs)"
  shows "bm_values m = sort_key claimant_id cs"
proof -
  let ?s = "sort_key claimant_id cs"
  have "sorted (map claimant_id ?s)" by simp
  moreover have "distinct (map claimant_id ?s)"
    using assms(3) by (metis mset_map mset_sort mset_eq_imp_distinct_iff)
  ultimately have wf: "bm_wf (map (\<lambda>c. (claimant_id c, c)) ?s)"
    by (simp add: bm_wf_def comp_def strict_sorted_iff)
  have "bm_get (map (\<lambda>c. (claimant_id c, c)) ?s) k = first_claim cs k" for k
  proof (cases "first_claim cs k")
    case None
    then have "k \<notin> claimant_id ` set cs" by (simp add: first_claim_None)
    then have "map_of (map (\<lambda>c. (claimant_id c, c)) ?s) k = None" by (auto simp: map_of_eq_None_iff)
    with None show ?thesis by (simp add: bm_get_def)
  next
    case (Some c)
    then have "c \<in> set cs" "claimant_id c = k" by (auto simp: first_claim_def find_Some_iff)
    with wf Some show ?thesis by (auto simp: bm_get_mem)
  qed
  then have "m = map (\<lambda>c. (claimant_id c, c)) ?s"
    using assms(1,2) wf by (intro bm_ext) (auto simp: keyed_by_id_def fun_eq_iff)
  then show ?thesis by (simp add: comp_def)
qed

lemma merge_start:
  assumes "distinct (map claimant_id cs)"
  shows "\<exists>m. rfold (merge_claim nid) [] cs = Inr m \<and> merge_related (merge_index cs, cs) m"
proof -
  have "consistent_feed cs"
    using assms unfolding consistent_feed_def sorted_wrt_iff_nth_less
    by (metis (no_types, lifting) distinct_conv_nth length_map nth_map order.strict_trans order_less_irrefl)
  then obtain m where m: "rfold (merge_claim nid) [] cs = Inr m" "bm_get m = first_claim cs"
    using merge_fold(2) by blast
  moreover have "keyed_by_id m" using merging.run_inv [OF m(1)] by (simp add: keyed_by_id_def)
  ultimately show ?thesis using assms index_ok_merge_index by (auto simp: merge_related_def)
qed

lemma merge_shared_reference:
  assumes "distinct (map claimant_id incoming)"
  shows "(\<exists>m. merge_shared_claim_batches nid incoming additional = Inr m \<and> distinct (map claimant_id m)
        \<and> merge_claim_batches nid incoming additional = Inr (sort_key claimant_id m))
    \<or> (\<exists>e. merge_shared_claim_batches nid incoming additional = Inl (Raised e)
        \<and> merge_claim_batches nid incoming additional = Inl e)"
proof -
  obtain m where m: "rfold (merge_claim nid) [] incoming = Inr m" "merge_related (merge_index incoming, incoming) m"
    using merge_start [OF assms] by blast
  from merge_related_run [OF m(2), of nid additional] m(1) show ?thesis
    by (auto simp: merge_shared_claim_batches_def merge_claim_batches_def rfold_append merge_related_def
        intro!: keyed_values)
qed

section \<open>Lemmas: one node of the traversal\<close>

text \<open>Batches that hold claims of the input, none twice.\<close>

definition batch_ok :: "governance_claim list \<Rightarrow> governance_claim list \<Rightarrow> bool" where
  "batch_ok cs b \<longleftrightarrow> set b \<subseteq> set cs \<and> distinct (map claimant_id b)"

lemma claim_eq_refl: "validate_governance_claim c = Inr () \<Longrightarrow> claim_eq c c"
proof -
  assume valid: "validate_governance_claim c = Inr ()"
  then have "is_finite (strength c)" "rfold (\<lambda>_. validate_metric c) () (metrics c) = Inr ()"
    by (auto simp: validate_governance_claim_def split: if_splits)
  moreover from this have "\<forall>e \<in> set (metrics c). is_finite (snd e)"
    by (simp add: rfold_unit_Inr validate_metric_def require_Inr)
  ultimately show ?thesis
    by (simp add: claim_eq_def metrics_eq_def f64_eq_refl is_finite_not_nan list_all2_same)
qed

lemma distinct_ids_inj:
  "distinct (map claimant_id cs) \<Longrightarrow> a \<in> set cs \<Longrightarrow> b \<in> set cs \<Longrightarrow> claimant_id a = claimant_id b \<Longrightarrow> a = b"
  by (auto simp: distinct_map inj_on_def)

lemma merge_shared_batches:
  assumes cs: "validate_governance_claims cs = Inr ()" and b: "batch_ok cs b" and add: "set add \<subseteq> set cs"
  shows "\<exists>m. merge_shared_claim_batches nid b add = Inr m \<and> batch_ok cs m \<and> set m = set b \<union> set add"
proof -
  have dist: "distinct (map claimant_id cs)" and refl: "c \<in> set cs \<Longrightarrow> claim_eq c c" for c
    using cs claim_eq_refl by (auto simp: validate_governance_claims_Inr)
  let ?P = "\<lambda>X mi. index_ok (fst mi) (snd mi) \<and> batch_ok cs (snd mi) \<and> set (snd mi) = set b \<union> X"
  have "\<exists>mi. rfold (merge_shared_claim nid) (merge_index b, b) add = Inr mi \<and> ?P (set add) mi"
  proof (rule rfold_progress)
    show "?P {} (merge_index b, b)" using b index_ok_merge_index by simp
  next
    fix X mi c assume c: "c \<in> set add" and P: "?P X mi"
    obtain idx inc where mi: "mi = (idx, inc)" by (cases mi)
    show "\<exists>t. merge_shared_claim nid mi c = Inr t \<and> ?P (insert c X) t"
    proof (cases "bm_get idx (claimant_id c)")
      case None
      then show ?thesis
        using P mi index_ok_get(1) [of idx inc] index_ok_snoc [of idx inc c] c add
        by (auto simp: merge_shared_claim_def batch_ok_def)
    next
      case (Some i)
      then have i: "i < length inc" "claimant_id (inc ! i) = claimant_id c"
        using P mi index_ok_get(2) [of idx inc] by auto
      moreover have "inc ! i \<in> set cs" "c \<in> set cs"
        using P mi c add nth_mem [OF i(1)] unfolding batch_ok_def by auto
      ultimately have "inc ! i = c" using distinct_ids_inj [OF dist] by blast
      with i P mi c add refl [of c] Some show ?thesis
        by (auto simp: merge_shared_claim_def)
    qed
  qed
  then show ?thesis by (auto simp: merge_shared_claim_batches_def)
qed

abbreviation queue_at :: "(node_id, governance_claim list) bmap \<Rightarrow> node_id \<Rightarrow> governance_claim list" where
  "queue_at q w \<equiv> or_default [] q w"

definition batches_ok :: "governance_claim list \<Rightarrow> (node_id, governance_claim list) bmap \<Rightarrow> bool" where
  "batches_ok cs q \<longleftrightarrow> (\<forall>w. batch_ok cs (queue_at q w))"

lemma queue_at_simps [simp]:
  "queue_at (bm_insert k b q) w = (if w = k then b else queue_at q w)"
  "queue_at (bm_remove k q) w = (if w = k then [] else queue_at q w)"
  by (simp_all add: or_default_def)

lemma forward_edges:
  assumes cs: "validate_governance_claims cs = Inr ()" and q: "batches_ok cs q" and f: "set f \<subseteq> set cs"
    and inert: "\<And>tr. apply_transform_shared tr f ds = Inr f"
  shows "\<exists>q'. rfold (forward_edge f ds) q es = Inr q' \<and> batches_ok cs q'
    \<and> (\<forall>w. set (queue_at q' w) = set (queue_at q w) \<union> (if w \<in> edge_to ` set es then set f else {}))"
proof -
  let ?P = "\<lambda>X q'. batches_ok cs q'
    \<and> (\<forall>w. set (queue_at q' w) = set (queue_at q w) \<union> (if w \<in> edge_to ` X then set f else {}))"
  have "\<exists>q'. rfold (forward_edge f ds) q es = Inr q' \<and> ?P (set es) q'"
  proof (rule rfold_progress)
    show "?P {} q" using q by simp
  next
    fix X :: "governance_edge set" and q' and e :: governance_edge assume P: "?P X q'"
    then have "batch_ok cs (queue_at q' (edge_to e))" by (simp add: batches_ok_def)
    from merge_shared_batches [OF cs this f] obtain m where
      m: "merge_shared_claim_batches (edge_to e) (queue_at q' (edge_to e)) f = Inr m"
         "batch_ok cs m" "set m = set (queue_at q' (edge_to e)) \<union> set f" by blast
    then have "forward_edge f ds q' e = Inr (bm_insert (edge_to e) m q')"
      by (simp add: forward_edge_def inert)
    with P m show "\<exists>t. forward_edge f ds q' e = Inr t \<and> ?P (insert e X) t"
      by (auto simp: batches_ok_def)
  qed
  then show ?thesis .
qed

lemma outgoing_edges_get: "or_default [] (outgoing_edges g) v = filter (\<lambda>e. edge_from e = v) (edges g)"
proof -
  have "or_default [] (fold (\<lambda>e m. bm_insert (edge_from e) (or_default [] m (edge_from e) @ [e]) m) es m) v
      = or_default [] m v @ filter (\<lambda>e. edge_from e = v) es" for es m
    by (induction es arbitrary: m) (auto simp: or_default_def)
  from this [of "edges g" "[]"] show ?thesis by (simp add: outgoing_edges_def or_default_def)
qed

text \<open>Whether a decision is final at a node with or without outgoing edges, and the merge.\<close>

definition terminal :: "bool \<Rightarrow> claim_decision \<Rightarrow> bool" where
  "terminal has_outgoing d \<longleftrightarrow> \<not> (cd_decision d = Escalate \<and> has_outgoing)"

definition strictest :: "decision set \<Rightarrow> decision option" where
  "strictest R = (if R = {} then None else Some (Min R))"

lemma finite_decisions [simp]: "finite (R :: decision set)"
proof (rule finite_subset)
  show "R \<subseteq> {Permit, Deny, Escalate}" by (auto intro: decision.exhaust)
qed simp

lemma record_final_strictest:
  assumes "\<And>k. bm_get final k = strictest (R k)"
  shows "bm_get (record_final_decisions final ds out) k
    = strictest (R k \<union> cd_decision ` {d \<in> set ds. cd_claimant_id d = k \<and> terminal out d})"
  using assms
proof (induction ds arbitrary: final R)
  case (Cons d ds)
  define R' where "R' = (\<lambda>k. if cd_claimant_id d = k \<and> terminal out d then insert (cd_decision d) (R k) else R k)"
  have "bm_get (record_final_decision out final d) k = strictest (R' k)" for k
    using Cons.prems
    by (auto simp: record_final_decision_def terminal_def R'_def strictest_def merge_final_decision_min min.commute)
  from Cons.IH [OF this] have "bm_get (record_final_decisions final (d # ds) out) k
      = strictest (R' k \<union> cd_decision ` {d \<in> set ds. cd_claimant_id d = k \<and> terminal out d})"
    by (simp add: record_final_decisions_def)
  also have "R' k \<union> cd_decision ` {d \<in> set ds. cd_claimant_id d = k \<and> terminal out d}
      = R k \<union> cd_decision ` {d' \<in> set (d # ds). cd_claimant_id d' = k \<and> terminal out d'}"
    by (auto simp: R'_def)
  finally show ?case .
qed (simp add: record_final_decisions_def)

section \<open>Lemmas: the whole traversal\<close>

definition has_out :: "governance_graph \<Rightarrow> node_id \<Rightarrow> bool" where
  "has_out g v = list_ex (\<lambda>e. edge_from e = v) (edges g)"

text \<open>The decisions that the nodes of \<open>nd\<close> make final for the claimant \<open>k\<close>.\<close>

definition recorded :: "governance_graph \<Rightarrow> (node_id, claim_decision list) bmap \<Rightarrow> string \<Rightarrow> decision set" where
  "recorded g nd k = (\<Union>(v, ds) \<in> set nd. cd_decision ` {d \<in> set ds. cd_claimant_id d = k \<and> terminal (has_out g v) d})"

definition awaited :: "governance_graph \<Rightarrow> node_id list \<Rightarrow> traversal_state \<Rightarrow> governance_claim \<Rightarrow> bool" where
  "awaited g pre st c \<longleftrightarrow> (\<exists>w \<in> set (bm_keys (nodes g)) - set pre. c \<in> set (queue_at (queued_claims st) w))"

definition trav_inv :: "governance_graph \<Rightarrow> governance_claim list \<Rightarrow> node_id list \<Rightarrow> traversal_state \<Rightarrow> bool" where
  "trav_inv g cs pre st \<longleftrightarrow> batches_ok cs (queued_claims st)
     \<and> (\<forall>c \<in> set cs. bm_get (ts_final st) (claimant_id c) \<noteq> None \<or> awaited g pre st c)
     \<and> (\<forall>k. bm_get (ts_final st) k \<noteq> None \<longrightarrow> k \<in> claimant_id ` set cs)
     \<and> bm_wf (ts_final st)
     \<and> (\<forall>nd. ts_nodes st = Some nd \<longrightarrow> bm_wf nd \<and> set (bm_keys nd) = set pre
          \<and> (\<forall>k. bm_get (ts_final st) k = strictest (recorded g nd k)))"

lemma outgoing_nonempty: "filter (\<lambda>e. edge_from e = v) (edges g) \<noteq> [] \<longleftrightarrow> has_out g v"
  by (auto simp: has_out_def list_ex_iff filter_empty_conv)

lemma record_final_dom:
  "bm_get (record_final_decisions final ds out) k \<noteq> None \<longleftrightarrow>
     bm_get final k \<noteq> None \<or> (\<exists>d \<in> set ds. cd_claimant_id d = k \<and> terminal out d)"
  by (induction ds arbitrary: final)
    (auto simp: record_final_decisions_def record_final_decision_def terminal_def)

lemma record_final_wf: "bm_wf final \<Longrightarrow> bm_wf (record_final_decisions final ds out)"
  by (induction ds arbitrary: final) (auto simp: record_final_decisions_def record_final_decision_def)

lemma set_bm_insert_fresh: "k \<notin> set (bm_keys m) \<Longrightarrow> set (bm_insert k v m) = insert (k, v) (set m)"
  by (induction m) auto

lemma aligned_decision:
  assumes "aligned cs ds" and "c \<in> set cs"
  shows "\<exists>d \<in> set ds. (c, d) \<in> set (zip cs ds) \<and> cd_claimant_id d = claimant_id c"
proof -
  obtain i where i: "i < length cs" "c = cs ! i" using assms(2) by (auto simp: in_set_conv_nth)
  have "length ds = length cs" using assms(1) unfolding aligned_def by (metis length_map)
  moreover from this i assms(1) have "cd_claimant_id (ds ! i) = claimant_id c"
    unfolding aligned_def by (metis nth_map)
  ultimately show ?thesis using i by (auto simp: in_set_zip intro!: bexI [of _ "ds ! i"])
qed

lemma traverse_node_Inl:
  assumes "bm_get (nodes g) v = Some node"
    and "evaluate_node_validated rx node (queue_at (queued_claims st) v) = Inl e"
  shows "traverse_node rx g st v = Inl (Raised e)"
  using assms by (simp add: traverse_node_def Let_def)

lemma traverse_node_Inr:
  assumes cs: "validate_governance_claims cs = Inr ()" and q: "batches_ok cs (queued_claims st)"
    and node: "bm_get (nodes g) v = Some node"
    and ev: "evaluate_node_validated rx node (queue_at (queued_claims st) v) = Inr ds"
  defines "b \<equiv> queue_at (queued_claims st) v" and "out \<equiv> has_out g v"
  shows "\<exists>q. traverse_node rx g st v =
      Inr \<lparr>queued_claims = q, ts_final = record_final_decisions (ts_final st) ds out,
           ts_nodes = map_option (bm_insert v ds) (ts_nodes st)\<rparr>
    \<and> batches_ok cs q
    \<and> (\<forall>w. set (queue_at q w) = (if w = v then {} else set (queue_at (queued_claims st) w))
         \<union> (if \<exists>e \<in> set (edges g). edge_from e = v \<and> edge_to e = w then set (forwarded_shared_claims b ds) else {}))"
proof -
  let ?es = "filter (\<lambda>e. edge_from e = v) (edges g)" and ?f = "forwarded_shared_claims b ds"
  have b: "batch_ok cs b" using q by (simp add: batches_ok_def b_def)
  have al: "aligned b ds" using evaluate_validated_aligned ev by (simp add: b_def)
  have inert: "apply_transform_shared tr ?f ds = Inr ?f" for tr
    using transform_inert [OF al] b by (simp add: batch_ok_def)
  have "set ?f \<subseteq> set b" by (auto simp: forwarded_shared_claims_def dest: set_zip_leftD)
  then have "set ?f \<subseteq> set cs" using b by (auto simp: batch_ok_def)
  moreover have "batches_ok cs (bm_remove v (queued_claims st))"
    using q by (auto simp: batches_ok_def batch_ok_def)
  ultimately obtain q' where q': "rfold (forward_edge ?f ds) (bm_remove v (queued_claims st)) ?es = Inr q'"
      "batches_ok cs q'"
      "\<forall>w. set (queue_at q' w) = set (queue_at (bm_remove v (queued_claims st)) w)
         \<union> (if w \<in> edge_to ` set ?es then set ?f else {})"
    using forward_edges [OF cs _ _ inert] by blast
  then show ?thesis
    using node ev outgoing_nonempty [of v g]
    by (auto simp: traverse_node_def Let_def outgoing_edges_get b_def [symmetric] out_def image_iff
        intro!: exI [of _ q'])
qed

lemma awaited_step:
  assumes link: "well_linked g" and al: "aligned (queue_at (queued_claims st) v) ds"
    and tgt: "\<forall>e \<in> set (edges g). edge_from e = v \<longrightarrow> edge_to e \<notin> set (pre @ [v])"
    and q: "\<forall>w. set (queue_at q w) = (if w = v then {} else set (queue_at (queued_claims st) w))
         \<union> (if \<exists>e \<in> set (edges g). edge_from e = v \<and> edge_to e = w
            then set (forwarded_shared_claims (queue_at (queued_claims st) v) ds) else {})"
    and c: "awaited g pre st c"
  shows "(\<exists>d \<in> set ds. cd_claimant_id d = claimant_id c \<and> terminal (has_out g v) d)
    \<or> awaited g (pre @ [v]) (st'\<lparr>queued_claims := q\<rparr>) c"
proof -
  obtain w where w: "w \<in> set (bm_keys (nodes g)) - set pre" "c \<in> set (queue_at (queued_claims st) w)"
    using c by (auto simp: awaited_def)
  show ?thesis
  proof (cases "w = v")
    case False
    with w q have "awaited g (pre @ [v]) (st'\<lparr>queued_claims := q\<rparr>) c"
      unfolding awaited_def by (intro bexI [of _ w]) auto
    then show ?thesis ..
  next
    case True
    with w(2) aligned_decision [OF al, of c] obtain d where
      d: "d \<in> set ds" "(c, d) \<in> set (zip (queue_at (queued_claims st) v) ds)" "cd_claimant_id d = claimant_id c"
      by auto
    show ?thesis
    proof (cases "terminal (has_out g v) d")
      case False
      then have esc: "cd_decision d = Escalate" "has_out g v" by (auto simp: terminal_def)
      then obtain e where e: "e \<in> set (edges g)" "edge_from e = v" by (auto simp: has_out_def list_ex_iff)
      have "c \<in> set (forwarded_shared_claims (queue_at (queued_claims st) v) ds)"
        using mem_forwarded [OF al] d(2) esc(1) by blast
      then have "c \<in> set (queue_at q (edge_to e))" using q e by auto
      moreover have "edge_to e \<in> set (bm_keys (nodes g)) - set (pre @ [v])"
        using e tgt link by (auto simp: well_linked_def bm_has_def)
      ultimately show ?thesis by (auto simp: awaited_def)
    qed (use d in blast)
  qed
qed

lemma recorded_insert:
  "v \<notin> set (bm_keys nd) \<Longrightarrow> recorded g (bm_insert v ds nd) k =
     recorded g nd k \<union> cd_decision ` {d \<in> set ds. cd_claimant_id d = k \<and> terminal (has_out g v) d}"
  by (auto simp: recorded_def set_bm_insert_fresh)

lemma traverse_step:
  assumes cs: "validate_governance_claims cs = Inr ()" and link: "well_linked g"
    and inv: "trav_inv g cs pre st" and v: "v \<notin> set pre" "bm_get (nodes g) v = Some node"
    and tgt: "\<forall>e \<in> set (edges g). edge_from e = v \<longrightarrow> edge_to e \<notin> set (pre @ [v])"
    and ev: "evaluate_node_validated rx node (queue_at (queued_claims st) v) = Inr ds"
  shows "\<exists>st'. traverse_node rx g st v = Inr st' \<and> trav_inv g cs (pre @ [v]) st'"
proof -
  let ?final = "record_final_decisions (ts_final st) ds (has_out g v)"
  have al: "aligned (queue_at (queued_claims st) v) ds" using evaluate_validated_aligned [OF ev] .
  have q: "batches_ok cs (queued_claims st)" using inv by (simp add: trav_inv_def)
  from traverse_node_Inr [OF cs q v(2) ev] obtain q where run:
    "traverse_node rx g st v = Inr \<lparr>queued_claims = q, ts_final = ?final, ts_nodes = map_option (bm_insert v ds) (ts_nodes st)\<rparr>"
    "batches_ok cs q"
    and qs: "\<forall>w. set (queue_at q w) = (if w = v then {} else set (queue_at (queued_claims st) w))
         \<union> (if \<exists>e \<in> set (edges g). edge_from e = v \<and> edge_to e = w
            then set (forwarded_shared_claims (queue_at (queued_claims st) v) ds) else {})"
    by blast
  let ?st = "\<lparr>queued_claims = q, ts_final = ?final, ts_nodes = map_option (bm_insert v ds) (ts_nodes st)\<rparr>"
  have A: "bm_get ?final (claimant_id c) \<noteq> None \<or> awaited g (pre @ [v]) ?st c" if "c \<in> set cs" for c
    using inv that awaited_step [OF link al tgt qs, of c ?st]
    unfolding record_final_dom trav_inv_def by auto
  have B: "k \<in> claimant_id ` set cs" if "bm_get ?final k \<noteq> None" for k
  proof -
    have "cd_claimant_id ` set ds = claimant_id ` set (queue_at (queued_claims st) v)"
      using al unfolding aligned_def by (metis list.set_map)
    moreover have "set (queue_at (queued_claims st) v) \<subseteq> set cs"
      using inv by (simp add: trav_inv_def batches_ok_def batch_ok_def)
    ultimately show ?thesis using that inv unfolding record_final_dom trav_inv_def by blast
  qed
  have C: "bm_wf (bm_insert v ds nd) \<and> set (bm_keys (bm_insert v ds nd)) = set (pre @ [v])
      \<and> (\<forall>k. bm_get ?final k = strictest (recorded g (bm_insert v ds nd) k))"
    if "ts_nodes st = Some nd" for nd
  proof -
    have nd: "bm_wf nd" "set (bm_keys nd) = set pre" "\<And>k. bm_get (ts_final st) k = strictest (recorded g nd k)"
      using inv that by (auto simp: trav_inv_def)
    then show ?thesis
      using v(1) record_final_strictest [OF nd(3)] recorded_insert [of v nd]
      by (auto simp: set_keys_insert)
  qed
  have D: "bm_wf ?final" using inv by (simp add: trav_inv_def record_final_wf)
  have "trav_inv g cs (pre @ [v]) ?st"
    unfolding trav_inv_def
  proof (intro conjI ballI allI impI)
    fix nd assume "ts_nodes ?st = Some nd"
    then obtain nd0 where nd: "ts_nodes st = Some nd0" "nd = bm_insert v ds nd0" by auto
    from C [OF nd(1)] nd(2)
    show "bm_wf nd" "set (bm_keys nd) = set (pre @ [v])"
      and "\<And>k. bm_get (ts_final ?st) k = strictest (recorded g nd k)" by simp_all
  qed (use A B D run(2) in simp_all)
  with run(1) show ?thesis by blast
qed

definition node_fails :: "regex_engine \<Rightarrow> governance_graph \<Rightarrow> governance_claim list \<Rightarrow> legitimacy_error \<Rightarrow> bool" where
  "node_fails rx g cs e \<longleftrightarrow> (\<exists>(v, n) \<in> set (nodes g). \<exists>b. batch_ok cs b \<and> evaluate_node_validated rx n b = Inl e)"

lemma respects_target:
  assumes "respects_edges g (pre @ v # suf)" and "distinct (pre @ v # suf)"
    and "e \<in> set (edges g)" and "edge_from e = v"
  shows "edge_to e \<notin> set (pre @ [v])"
proof
  assume "edge_to e \<in> set (pre @ [v])"
  then obtain i where "i < length (pre @ [v])" "(pre @ [v]) ! i = edge_to e"
    by (metis in_set_conv_nth)
  then have i: "i \<le> length pre" "(pre @ v # suf) ! i = edge_to e"
    by (auto simp: nth_append less_Suc_eq_le split: if_splits)
  then have "v \<in> set (take i (pre @ v # suf))"
    using assms(1) [unfolded respects_edges_def, rule_format, of i e] assms(3,4) by simp
  with i(1) have "v \<in> set pre" by (auto dest: in_set_takeD)
  with assms(2) show False by simp
qed

lemma traverse_run:
  assumes cs: "validate_governance_claims cs = Inr ()" and link: "well_linked g"
    and order: "respects_edges g (pre @ suf)" "distinct (pre @ suf)" "set suf \<subseteq> set (bm_keys (nodes g))"
    and inv: "trav_inv g cs pre st"
  shows "(\<exists>st'. rfold (traverse_node rx g) st suf = Inr st' \<and> trav_inv g cs (pre @ suf) st')
    \<or> (\<exists>e. rfold (traverse_node rx g) st suf = Inl (Raised e) \<and> node_fails rx g cs e)"
  using order inv
proof (induction suf arbitrary: pre st)
  case (Cons v suf)
  have "v \<in> set (bm_keys (nodes g))" using Cons.prems(3) by simp
  then obtain node where node: "(v, node) \<in> set (nodes g)" "bm_get (nodes g) v = Some node"
    using link by (fastforce simp: well_linked_def bm_get_mem)
  have b: "batch_ok cs (queue_at (queued_claims st) v)"
    using Cons.prems(4) by (simp add: trav_inv_def batches_ok_def)
  show ?case
  proof (cases "evaluate_node_validated rx node (queue_at (queued_claims st) v)")
    case (Inl e)
    then have "node_fails rx g cs e" using node(1) b unfolding node_fails_def by blast
    with traverse_node_Inl [OF node(2) Inl] show ?thesis by simp
  next
    case (Inr ds)
    have "v \<notin> set pre" using Cons.prems(2) by simp
    moreover have "\<forall>e \<in> set (edges g). edge_from e = v \<longrightarrow> edge_to e \<notin> set (pre @ [v])"
      using respects_target [OF Cons.prems(1,2)] by blast
    ultimately obtain st' where st': "traverse_node rx g st v = Inr st'" "trav_inv g cs (pre @ [v]) st'"
      using traverse_step [OF cs link Cons.prems(4) _ node(2) _ Inr] by blast
    have rest: "respects_edges g ((pre @ [v]) @ suf)" "distinct ((pre @ [v]) @ suf)" "set suf \<subseteq> set (bm_keys (nodes g))"
      using Cons.prems(1-3) by simp_all
    from Cons.IH [OF rest st'(2)] st'(1) show ?thesis by simp
  qed
qed simp

lemma entry_exists:
  assumes "well_linked g" and "acyclic (edge_rel g)" and "nodes g \<noteq> []"
  shows "entry_node_list g \<noteq> []"
proof -
  obtain order where order: "distinct order" "set order = set (bm_keys (nodes g))" "respects_edges g order"
    using topological_order_acyclic [OF assms(1,2)] by blast
  then obtain x rest where x: "order = x # rest" using assms(3) by (cases order) auto
  then have "\<forall>e \<in> set (edges g). edge_to e \<noteq> x"
    using order(3) unfolding respects_edges_def by force
  then have "indeg x (edges g) = 0" by (simp add: indeg_0)
  moreover have "x \<in> set (bm_keys (nodes g))" using order(2) x by (metis list.set_intros(1))
  ultimately have "x \<in> set (entry_node_list g)"
    by (auto simp: entry_node_list_def zero_count_def or_default_def incoming_counts_get)
  then show ?thesis by auto
qed

lemma traverse_acyclic:
  assumes link: "well_linked g" and acyc: "acyclic (edge_rel g)" and cs: "validate_governance_claims cs = Inr ()"
    and ne: "nodes g \<noteq> []"
  shows "(\<exists>st order. traverse_claims rx g cs capture = Inr (entry_node_list g, ts_final st, ts_nodes st)
      \<and> trav_inv g cs order st \<and> set order = set (bm_keys (nodes g)) \<and> (ts_nodes st \<noteq> None) = capture)
    \<or> (\<exists>e. traverse_claims rx g cs capture = Inl (Raised e) \<and> node_fails rx g cs e)"
proof -
  let ?st = "\<lparr>queued_claims = fold (\<lambda>k. bm_insert k cs) (entry_node_list g) [], ts_final = [],
               ts_nodes = (if capture then Some [] else None)\<rparr> :: traversal_state"
  obtain order where order: "topological_order g (incoming_counts g) = Inr order"
      "distinct order" "set order = set (bm_keys (nodes g))" "respects_edges g order"
    using topological_order_acyclic [OF link acyc] by blast
  have entry: "entry_node_list g \<noteq> []" using entry_exists [OF link acyc ne] .
  then obtain w where w: "w \<in> set (entry_node_list g)" by (cases "entry_node_list g") auto
  then have wk: "w \<in> set (bm_keys (nodes g))" by (auto simp: entry_node_list_def)
  have at: "queue_at (queued_claims ?st) k = (if k \<in> set (entry_node_list g) then cs else [])" for k
    by (simp add: or_default_def get_fold_const)
  have "awaited g [] ?st c" if "c \<in> set cs" for c
    unfolding awaited_def using w wk that by (intro bexI [of _ w]) (simp_all only: at, auto)
  then have inv: "trav_inv g cs [] ?st"
    using cs at unfolding trav_inv_def batches_ok_def
    by (auto simp: batch_ok_def validate_governance_claims_Inr strictest_def recorded_def)
  have nodes: "(ts_nodes st' \<noteq> None) = (ts_nodes st \<noteq> None)"
    if "rfold (traverse_node rx g) st xs = Inr st'" for st st' xs
    by (rule rfold_invariant [OF that]) (auto simp: result_simps traverse_node_def Let_def)
  have start: "traverse_claims rx g cs capture =
      rbind (rfold (traverse_node rx g) ?st order) (\<lambda>st. Inr (entry_node_list g, ts_final st, ts_nodes st))"
    using cs order(1) entry ne first_cycle_error_spec(1) [OF link acyc, of "()"]
    by (simp add: traverse_claims_def Let_def)
  have "respects_edges g ([] @ order)" "distinct ([] @ order)" "set order \<subseteq> set (bm_keys (nodes g))"
    using order by auto
  from traverse_run [OF cs link this inv, of rx] show ?thesis
  proof (elim disjE exE conjE)
    fix st' assume r: "rfold (traverse_node rx g) ?st order = Inr st'" "trav_inv g cs ([] @ order) st'"
    moreover have "(ts_nodes st' \<noteq> None) = capture" using nodes [OF r(1)] by simp
    ultimately show ?thesis using start order(3) by (intro disjI1 exI [of _ st'] exI [of _ order]) simp
  next
    fix e assume r: "rfold (traverse_node rx g) ?st order = Inl (Raised e)" "node_fails rx g cs e"
    then show ?thesis using start by (intro disjI2 exI [of _ e]) simp
  qed
qed

lemma traverse_succeeds_acyclic:
  assumes "well_linked g" and "traverse_claims rx g cs capture = Inr r"
  shows "acyclic (edge_rel g)" and "nodes g \<noteq> []" and "validate_governance_claims cs = Inr ()"
proof -
  have "first_cycle_error g () = Inr ()" and ok: "nodes g \<noteq> []" "validate_governance_claims cs = Inr ()"
    using assms(2) by (auto simp: traverse_claims_def result_simps Let_def split: if_splits)
  then show "acyclic (edge_rel g)" using first_cycle_error_spec(2) [OF assms(1), of "()"] by fastforce
  from ok show "nodes g \<noteq> []" "validate_governance_claims cs = Inr ()" .
qed

lemma graph_well_linked: "validate_governance_graph rx g = Inr () \<Longrightarrow> bm_wf (nodes g) \<Longrightarrow> well_linked g"
  by (auto simp: well_linked_def validate_governance_graph_Inr validate_graph_edge_Inr)

text \<open>Forgetting the captured decisions.\<close>

definition uncaptured :: "traversal_state \<Rightarrow> traversal_state" where
  "uncaptured st = st\<lparr>ts_nodes := None\<rparr>"

lemma traverse_node_uncaptured:
  "traverse_node rx g (uncaptured st) v = rbind (traverse_node rx g st v) (\<lambda>st. Inr (uncaptured st))"
proof (cases "bm_get (nodes g) v")
  case (Some node)
  show ?thesis
  proof (cases "evaluate_node_validated rx node (queue_at (queued_claims st) v)")
    case (Inr ds)
    let ?r = "rfold (forward_edge (forwarded_shared_claims (queue_at (queued_claims st) v) ds) ds)
      (bm_remove v (queued_claims st)) (or_default [] (outgoing_edges g) v)"
    from Some Inr show ?thesis
      by (cases ?r) (simp_all add: traverse_node_def uncaptured_def Let_def)
  qed (simp add: traverse_node_def uncaptured_def Let_def Some)
qed (simp add: traverse_node_def)

lemma traverse_run_uncaptured:
  "rfold (traverse_node rx g) (uncaptured st) vs = rbind (rfold (traverse_node rx g) st vs) (\<lambda>st. Inr (uncaptured st))"
proof (induction vs arbitrary: st)
  case (Cons v vs)
  then show ?case by (cases "traverse_node rx g st v") (simp_all add: traverse_node_uncaptured)
qed simp

lemma rbind_assoc: "rbind (rbind m f) h = rbind m (\<lambda>x. rbind (f x) h)"
  by (cases m) auto

lemma traverse_claims_uncaptured:
  "traverse_claims rx g cs False = rbind (traverse_claims rx g cs True) (\<lambda>(entry, final, _). Inr (entry, final, None))"
proof -
  let ?st = "\<lambda>nd. \<lparr>queued_claims = fold (\<lambda>k. bm_insert k cs) (entry_node_list g) [], ts_final = [], ts_nodes = nd\<rparr>"
  have "uncaptured (?st (Some [])) = ?st None" by (simp add: uncaptured_def)
  then have "rfold (traverse_node rx g) (?st None) vs
      = rbind (rfold (traverse_node rx g) (?st (Some [])) vs) (\<lambda>st. Inr (uncaptured st))" for vs
    using traverse_run_uncaptured [of rx g "?st (Some [])" vs] by simp
  then show ?thesis
    by (cases "validate_governance_claims cs"; cases "first_cycle_error g ()")
      (simp_all add: traverse_claims_def Let_def rbind_assoc uncaptured_def)
qed

lemma traverse_total:
  assumes "validate_governance_graph rx g = Inr ()" and "bm_wf (nodes g)" and "acyclic (edge_rel g)"
    and "nodes g \<noteq> []" and "\<forall>(v, n) \<in> set (nodes g). node_kind n \<noteq> ''Proportional''"
    and "validate_governance_claims cs = Inr ()"
    and "\<forall>(v, n) \<in> set (nodes g). \<forall>c \<in> set cs. \<forall>field \<in> node_fields n. provides c field"
  shows "\<exists>r. traverse rx g cs = Inr r"
proof -
  have "\<not> node_fails rx g cs e" for e
  proof
    assume "node_fails rx g cs e"
    then obtain v n b where n: "(v, n) \<in> set (nodes g)" "batch_ok cs b" "evaluate_node_validated rx n b = Inl e"
      by (auto simp: node_fails_def)
    have valid: "validate_governance_node rx n = Inr ()"
      using assms(1) n(1) by (auto simp: validate_governance_graph_Inr validate_graph_node_def split: if_splits)
    have b: "validate_governance_claims b = Inr ()"
      using assms(6) n(2) by (auto simp: validate_governance_claims_Inr batch_ok_def)
    have "node_kind n \<noteq> ''Proportional''" "\<forall>c \<in> set cs. \<forall>field \<in> node_fields n. provides c field"
      using assms(5,7) n(1) by auto
    then have "\<exists>ds. evaluate_node_validated rx n b = Inr ds"
      using n(2) by (intro node_evaluates [OF valid]) (auto simp: batch_ok_def)
    with n(3) show False by simp
  qed
  with traverse_acyclic [OF graph_well_linked [OF assms(1,2)] assms(3,6,4), of rx True]
  show ?thesis by (auto simp: traverse_def)
qed

section \<open>Properties\<close>

text \<open>C2: what a successful traversal delivers: every claimant of the input, and nobody else, has
  a final decision; it is the strictest (deny, then escalate, then permit) of the decisions that
  the nodes made final for it, escalations at nodes with outgoing edges not counting; and every
  node's decisions are reported.\<close>

theorem traverse_decides:
  assumes "well_linked g" and "traverse rx g cs = Inr r"
  shows "bm_keys (final_decisions r) = sorted_list_of_set (claimant_id ` set cs)
    \<and> (\<forall>k. bm_get (final_decisions r) k = strictest (recorded g (node_decisions r) k))
    \<and> set (bm_keys (node_decisions r)) = set (bm_keys (nodes g))
    \<and> entry_nodes r = entry_node_list g"
proof -
  obtain x where x: "traverse_claims rx g cs True = Inr x"
    using assms(2) by (auto simp: traverse_def result_simps)
  note ok = traverse_succeeds_acyclic [OF assms(1) x]
  from traverse_acyclic [OF assms(1) ok(1,3,2), of rx True] x obtain st order where
    st: "x = (entry_node_list g, ts_final st, ts_nodes st)" "trav_inv g cs order st"
      "set order = set (bm_keys (nodes g))" "ts_nodes st \<noteq> None"
    by auto
  then obtain nd where nd: "ts_nodes st = Some nd" by auto
  have r: "final_decisions r = ts_final st" "node_decisions r = nd" "entry_nodes r = entry_node_list g"
    using assms(2) by (auto simp: traverse_def x st(1) nd)
  have "\<not> awaited g order st c" for c using st(3) by (auto simp: awaited_def)
  then have dom: "bm_get (ts_final st) k \<noteq> None \<longleftrightarrow> k \<in> claimant_id ` set cs" for k
    using st(2) unfolding trav_inv_def by blast
  have wf: "bm_wf (ts_final st)" using st(2) by (simp add: trav_inv_def)
  have "set (bm_keys (ts_final st)) = claimant_id ` set cs"
    using dom unfolding bm_has_get [symmetric] bm_has_def by auto
  then have "bm_keys (ts_final st) = sorted_list_of_set (claimant_id ` set cs)"
    using wf by (metis bm_wf_def sorted_list_of_set.idem_if_sorted_distinct strict_sorted_iff)
  with r st(2,3) nd show ?thesis by (simp add: trav_inv_def)
qed

definition sample_flow :: governance_graph where
  "sample_flow = \<lparr>nodes = [(''a'', Binary ''a'' ''a'' [] Escalate FirstMatch), (''b'', Threshold ''b'' ''b'' (Num 1) ''strength'')],
     edges = [\<lparr>edge_from = ''a'', edge_to = ''b'', edge_transform = ClaimModification (Num 1)\<rparr>]\<rparr>"

definition sample_flow_result :: traversal_result where
  "sample_flow_result =
     \<lparr>entry_nodes = [''a''],
      node_decisions = [(''a'', [\<lparr>cd_claimant_id = ''x'', cd_decision = Escalate\<rparr>]),
                        (''b'', [\<lparr>cd_claimant_id = ''x'', cd_decision = Permit\<rparr>])],
      final_decisions = [(''x'', Permit)], tr_cycles = []\<rparr>"

lemma sample_flow_linked: "well_linked sample_flow"
  by (simp add: well_linked_def sample_flow_def bm_has_def bm_wf_def)

lemma sample_flow_run: "traverse (\<lambda>_. None) sample_flow [sample_claim ''x''] = Inr sample_flow_result"
  by code_simp

theorem traverse_decides_witness:
  "strictest (recorded sample_flow (node_decisions sample_flow_result) ''x'') = Some Permit"
  using traverse_decides [OF sample_flow_linked sample_flow_run]
  by (simp add: sample_flow_result_def bm_get_def split: if_splits)

text \<open>C11: progress. A validated acyclic graph with at least one node and without proportional
  nodes always traverses a batch of valid claims that provide the metrics its nodes read.\<close>

theorem traverse_progress:
  assumes "validate_governance_graph rx g = Inr ()" and "bm_wf (nodes g)" and "acyclic (edge_rel g)"
    and "nodes g \<noteq> []" and "\<forall>(v, n) \<in> set (nodes g). node_kind n \<noteq> ''Proportional''"
    and "validate_governance_claims cs = Inr ()"
    and "\<forall>(v, n) \<in> set (nodes g). \<forall>c \<in> set cs. \<forall>field \<in> node_fields n. provides c field"
  shows "\<exists>r. traverse rx g cs = Inr r"
  using assms by (rule traverse_total)

theorem traverse_progress_witness: "\<exists>r. traverse (\<lambda>_. None) sample_flow [sample_claim ''x''] = Inr r"
proof (rule traverse_progress)
  have "edge_rel sample_flow = {(''a'', ''b'')}" by (simp add: edge_rel_def sample_flow_def)
  then show "acyclic (edge_rel sample_flow)" by (simp add: acyclic_insert acyclic_def [of "{}"])
qed (auto simp: validate_governance_graph_Inr validate_graph_node_def validate_graph_edge_def sample_flow_def
    sample_simps bm_wf_def)

text \<open>A cyclic graph is never traversed: with valid claims the result is the error that names
  the first of the sorted cyclic classes.\<close>

lemma traverse_rejects_cycles:
  assumes "well_linked g" and "\<not> acyclic (edge_rel g)" and "validate_governance_claims cs = Inr ()"
  shows "\<exists>c rest. detect_cycles g = Inr (c # rest) \<and> traverse rx g cs = Inl (Raised (CycleError c))"
  using first_cycle_error_spec(2) [OF assms(1,2), of "()"] assms(3)
  by (auto simp: traverse_def traverse_claims_def)

lemma traverse_rejects_cycles_witness:
  "traverse (\<lambda>_. None) sample_cycle [] = Inl (Raised (CycleError [''a'', ''b'']))"
proof -
  have run: "detect_cycles sample_cycle = Inr [[''a'', ''b'']]" by code_simp
  have link: "well_linked sample_cycle"
    by (simp add: well_linked_def sample_cycle_def bm_has_def bm_wf_def)
  have "(''a'', ''b'') \<in> edge_rel sample_cycle" "(''b'', ''a'') \<in> edge_rel sample_cycle"
    by (simp_all add: edge_rel_def sample_cycle_def)
  then have "\<not> acyclic (edge_rel sample_cycle)"
    by (meson acyclic_def r_into_trancl trancl_into_trancl)
  from traverse_rejects_cycles [OF link this, of "[]"] run show ?thesis
    by (auto simp: validate_governance_claims_def)
qed

text \<open>C13: how a traversal fails. On a graph whose edges connect its nodes the only failures are an
  invalid batch of claims, a cycle, an empty graph and a node that fails on a part of the
  batch: no arithmetic underflow or index out of range, no exhausted budget, and never a
  conflict between the feeds of a node.\<close>

theorem traverse_failures:
  assumes "well_linked g" and "traverse rx g cs = Inl f"
  shows "\<exists>e. f = Raised e \<and>
    (validate_governance_claims cs = Inl e
     \<or> \<not> acyclic (edge_rel g) \<and> (\<exists>c. e = CycleError c)
     \<or> nodes g = [] \<and> e = NoEntryNodes
     \<or> node_fails rx g cs e)"
proof (cases "validate_governance_claims cs")
  case (Inl e)
  with assms(2) show ?thesis by (auto simp: traverse_def traverse_claims_def)
next
  case (Inr u)
  then have cs: "validate_governance_claims cs = Inr ()" by simp
  show ?thesis
  proof (cases "acyclic (edge_rel g)")
    case False
    from first_cycle_error_spec(2) [OF assms(1) False, of "()"] cs assms(2) False show ?thesis
      by (auto simp: traverse_def traverse_claims_def)
  next
    case True
    show ?thesis
    proof (cases "nodes g = []")
      case empty: True
      with first_cycle_error_spec(1) [OF assms(1) True, of "()"] cs assms(2) show ?thesis
        by (auto simp: traverse_def traverse_claims_def Let_def)
    next
      case False
      from traverse_acyclic [OF assms(1) True cs False, of rx True] assms(2) show ?thesis
        by (auto simp: traverse_def)
    qed
  qed
qed

theorem traverse_failures_witness:
  "traverse (\<lambda>_. None) \<lparr>nodes = [], edges = []\<rparr> [] = Inl (Raised NoEntryNodes)"
proof -
  have link: "well_linked \<lparr>nodes = [], edges = []\<rparr>" by (simp add: well_linked_def)
  have "traverse (\<lambda>_. None) \<lparr>nodes = [], edges = []\<rparr> [] = Inl (Raised NoEntryNodes)" by code_simp
  from traverse_failures [OF link this] this show ?thesis by simp
qed

text \<open>Computing only the final decisions gives what the full traversal gives, error for error.\<close>

lemma traverse_final_decisions_agree:
  "traverse_final_decisions rx g cs = rbind (traverse rx g cs) (\<lambda>r. Inr (final_decisions r))"
  unfolding traverse_final_decisions_def traverse_def traverse_claims_uncaptured
  by (cases "traverse_claims rx g cs True") auto

text \<open>Claim modification is inert. Whatever the transform of an edge, the claims that a node
  forwards arrive unchanged, because a transform only modifies permitted claims and only
  escalated claims are forwarded.\<close>

lemma claim_modification_inert:
  assumes "evaluate_node rx n cs = Inr ds"
  shows "apply_transform tr (forwarded_claims cs ds) ds = Inr (forwarded_claims cs ds)
    \<and> apply_transform_shared tr (forwarded_shared_claims cs ds) ds = Inr (forwarded_shared_claims cs ds)"
proof -
  have "aligned cs ds" "distinct (map claimant_id cs)"
    using assms by (auto simp: evaluate_node_def result_simps validate_governance_claims_Inr
        intro: evaluate_validated_aligned)
  from transform_inert [OF this] show ?thesis by (simp add: transforms_agree forwarded_agree)
qed

lemma claim_modification_inert_witness:
  "apply_transform (ClaimModification (Num 1)) [sample_claim ''x''] [\<lparr>cd_claimant_id = ''x'', cd_decision = Escalate\<rparr>]
     = Inr [sample_claim ''x'']"
proof -
  have "evaluate_node (\<lambda>_. None) (Binary ''a'' ''a'' [] Escalate FirstMatch) [sample_claim ''x'']
      = Inr [\<lparr>cd_claimant_id = ''x'', cd_decision = Escalate\<rparr>]" by code_simp
  from claim_modification_inert [OF this, of "ClaimModification (Num 1)"] show ?thesis
    by (simp add: forwarded_claims_def sample_claim_def)
qed

text \<open>The in-place merge of shared claims agrees with the ordered-map merge: on a queue without
  repeated identifiers it fails with the same error or gives the same claims, unsorted.\<close>

lemma merge_shared_agrees:
  assumes "distinct (map claimant_id incoming)"
  shows "raise (merge_claim_batches nid incoming additional) =
    rbind (merge_shared_claim_batches nid incoming additional) (\<lambda>m. Inr (sort_key claimant_id m))"
  using merge_shared_reference [OF assms, of nid additional] by auto

lemma merge_shared_agrees_witness:
  "merge_claim_batches ''n'' [sample_claim ''b''] [sample_claim ''a'', sample_claim ''b'']
     = Inr [sample_claim ''a'', sample_claim ''b'']"
proof -
  have "merge_shared_claim_batches ''n'' [sample_claim ''b''] [sample_claim ''a'', sample_claim ''b'']
      = Inr [sample_claim ''b'', sample_claim ''a'']" by code_simp
  moreover have "sort_key claimant_id [sample_claim ''b'', sample_claim ''a''] = [sample_claim ''a'', sample_claim ''b'']"
    by (simp add: sample_claim_def)
  moreover have "distinct (map claimant_id [sample_claim ''b''])" by simp
  note merge_shared_agrees [OF this, of "''n''" "[sample_claim ''a'', sample_claim ''b'']"]
  ultimately have "raise (merge_claim_batches ''n'' [sample_claim ''b''] [sample_claim ''a'', sample_claim ''b''])
      = Inr [sample_claim ''a'', sample_claim ''b'']" by simp
  then show ?thesis by (simp add: raise_Inr)
qed

end
