(* ===== verification/Governance_Iterate.thy ===== *)
theory Governance_Iterate
  imports Governance_Traverse
begin

text \<open>
  Iterating a cycle, \<open>iterate_cycle\<close>, \<open>check_cycle_admissibility\<close> and their helpers of
  \<open>src/src/graph/cycle.rs\<close>: claims are fed to the first node of the cycle and pass around it until
  nothing is forwarded, the queue returns to its start, or the iteration limit is reached.
\<close>

section \<open>One pass around the cycle\<close>

record cycle_result =
  converged :: bool
  iterations :: nat
  fixed_point_decisions :: "(string, decision) bmap"

definition cycle_edges :: "governance_graph \<Rightarrow> node_id set \<Rightarrow> (node_id, governance_edge list) bmap" where
  "cycle_edges g cycle_set =
     fold (\<lambda>e m. if edge_from e \<in> cycle_set \<and> edge_to e \<in> cycle_set
                then bm_insert (edge_from e) (or_default [] m (edge_from e) @ [e]) m else m) (edges g) []"

definition record_decisions :: "(string, decision) bmap \<Rightarrow> claim_decision list \<Rightarrow> (string, decision) bmap" where
  "record_decisions fixed ds = fold (\<lambda>d. bm_insert (cd_claimant_id d) (cd_decision d)) ds fixed"

text \<open>\<open>iter().position(..)\<close>.\<close>

fun position_of :: "'a list \<Rightarrow> 'a \<Rightarrow> nat option" where
  "position_of [] x = None"
| "position_of (y # ys) x = (if y = x then Some 0 else map_option Suc (position_of ys x))"

type_synonym queue = "(node_id, governance_claim list) bmap"

record pass_state =
  current_queued :: queue
  next_iteration :: queue
  ps_fixed :: "(string, decision) bmap"

definition cycle_forward ::
  "node_id list \<Rightarrow> nat \<Rightarrow> governance_claim list \<Rightarrow> claim_decision list \<Rightarrow> pass_state \<Rightarrow> governance_edge
     \<Rightarrow> legitimacy_error + pass_state" where
  "cycle_forward cycle index forwarded ds ps e =
     rbind (apply_transform (edge_transform e) forwarded ds) (\<lambda>transformed.
     rbind (option_ok (InvalidEdgeReference (edge_to e)) (position_of cycle (edge_to e))) (\<lambda>target_index.
       if index < target_index then
         rbind (merge_claim_batches (edge_to e) (or_default [] (current_queued ps) (edge_to e)) transformed)
           (\<lambda>merged. Inr (ps\<lparr>current_queued := bm_insert (edge_to e) merged (current_queued ps)\<rparr>))
       else
         rbind (merge_claim_batches (edge_to e) (or_default [] (next_iteration ps) (edge_to e)) transformed)
           (\<lambda>merged. Inr (ps\<lparr>next_iteration := bm_insert (edge_to e) merged (next_iteration ps)\<rparr>))))"

definition cycle_node ::
  "regex_engine \<Rightarrow> governance_graph \<Rightarrow> node_id list \<Rightarrow> (node_id, governance_edge list) bmap
     \<Rightarrow> pass_state \<Rightarrow> nat \<times> node_id \<Rightarrow> legitimacy_error + pass_state" where
  "cycle_node rx g cycle ce ps iv =
     (case iv of (index, v) \<Rightarrow>
       rbind (option_ok (InvalidEdgeReference v) (bm_get (nodes g) v)) (\<lambda>node.
         let current_claims = or_default [] (current_queued ps) v;
             ps = ps\<lparr>current_queued := bm_remove v (current_queued ps)\<rparr>
         in rbind (evaluate_node rx node current_claims) (\<lambda>ds.
              let ps = ps\<lparr>ps_fixed := record_decisions (ps_fixed ps) ds\<rparr>;
                  forwarded = forwarded_claims current_claims ds
              in rfold (cycle_forward cycle index forwarded ds) ps (or_default [] ce v))))"

definition cycle_pass ::
  "regex_engine \<Rightarrow> governance_graph \<Rightarrow> node_id list \<Rightarrow> (node_id, governance_edge list) bmap \<Rightarrow> queue
     \<Rightarrow> legitimacy_error + pass_state" where
  "cycle_pass rx g cycle ce queued =
     rfold (cycle_node rx g cycle ce) \<lparr>current_queued = queued, next_iteration = [], ps_fixed = []\<rparr>
       (enumerate 0 cycle)"

section \<open>Comparing the queue with the input\<close>

definition metrics_within_epsilon :: "(string, f64) bmap \<Rightarrow> (string, f64) bmap \<Rightarrow> f64 \<Rightarrow> bool" where
  "metrics_within_epsilon left right epsilon =
     (length left = length right
      \<and> list_all (\<lambda>(field, left_value).
           case bm_get right field of
             None \<Rightarrow> False
           | Some right_value \<Rightarrow> f64_le (f64_abs (f64_sub left_value right_value)) epsilon) left)"

definition claims_within_epsilon :: "governance_claim \<Rightarrow> governance_claim \<Rightarrow> f64 \<Rightarrow> bool" where
  "claims_within_epsilon left right epsilon =
     (claimant_id left = claimant_id right
      \<and> priority_class left = priority_class right \<and> path left = path right
      \<and> action left = action right \<and> content left = content right
      \<and> f64_le (f64_abs (f64_sub (strength left) (strength right))) epsilon
      \<and> metrics_within_epsilon (metrics left) (metrics right) epsilon)"

definition claims_by_id :: "governance_claim list \<Rightarrow> (string, governance_claim) bmap" where
  "claims_by_id cs = fold (\<lambda>c. bm_insert (claimant_id c) c) cs []"

fun baseline_loop ::
  "(string, governance_claim) bmap \<Rightarrow> (string, governance_claim) bmap \<Rightarrow> f64 \<Rightarrow> string list
     \<Rightarrow> legitimacy_error + bool" where
  "baseline_loop baseline observed epsilon [] = Inr True"
| "baseline_loop baseline observed epsilon (k # ks) =
     rbind (option_ok (MissingAllocationShare k ''cycle baseline queue'') (bm_get baseline k)) (\<lambda>left.
     rbind (option_ok (MissingAllocationShare k ''cycle observed queue'') (bm_get observed k)) (\<lambda>right.
       if \<not> claims_within_epsilon left right epsilon then Inr False
       else baseline_loop baseline observed epsilon ks))"

definition queue_matches_baseline ::
  "queue \<Rightarrow> node_id \<Rightarrow> governance_claim list \<Rightarrow> f64 \<Rightarrow> legitimacy_error + bool" where
  "queue_matches_baseline queued entry_node baseline_claims epsilon =
     (if length queued \<noteq> 1 then Inr False
      else case bm_get queued entry_node of
        None \<Rightarrow> Inr False
      | Some queued_for_entry \<Rightarrow>
          if length queued_for_entry \<noteq> length baseline_claims then Inr False
          else let baseline = claims_by_id baseline_claims; observed = claims_by_id queued_for_entry
               in if bm_keys baseline \<noteq> bm_keys observed then Inr False
                  else baseline_loop baseline observed epsilon (bm_keys baseline))"

section \<open>The iteration\<close>

fun iterate_loop ::
  "regex_engine \<Rightarrow> governance_graph \<Rightarrow> node_id list \<Rightarrow> governance_claim list \<Rightarrow> nat \<Rightarrow> f64 \<Rightarrow> nat list
     \<Rightarrow> queue \<Rightarrow> (string, decision) bmap \<Rightarrow> legitimacy_error + cycle_result" where
  "iterate_loop rx g cycle cs max_iterations epsilon [] queued fixed =
     Inr \<lparr>converged = False, iterations = max_iterations, fixed_point_decisions = fixed\<rparr>"
| "iterate_loop rx g cycle cs max_iterations epsilon (iteration # its) queued fixed =
     rbind (cycle_pass rx g cycle (cycle_edges g (set cycle)) queued) (\<lambda>ps.
       if next_iteration ps = [] then
         Inr \<lparr>converged = True, iterations = iteration, fixed_point_decisions = ps_fixed ps\<rparr>
       else rbind (queue_matches_baseline (next_iteration ps) (hd cycle) cs epsilon) (\<lambda>same.
         if same then
           Inr \<lparr>converged = False, iterations = iteration, fixed_point_decisions = ps_fixed ps\<rparr>
         else iterate_loop rx g cycle cs max_iterations epsilon its (next_iteration ps) (ps_fixed ps)))"

definition check_cycle_member :: "governance_graph \<Rightarrow> node_id \<Rightarrow> legitimacy_error + unit" where
  "check_cycle_member g v = require (bm_has (nodes g) v) (InvalidEdgeReference v)"

definition iterate_cycle ::
  "regex_engine \<Rightarrow> governance_graph \<Rightarrow> node_id list \<Rightarrow> governance_claim list \<Rightarrow> nat \<Rightarrow> f64
     \<Rightarrow> legitimacy_error + cycle_result" where
  "iterate_cycle rx g cycle cs max_iterations epsilon =
     (if cycle = [] then Inl (invalid_input ''cycle iteration requires at least one node'' [])
      else if max_iterations = 0
      then Inl (invalid_input ''cycle iteration requires max_iterations > 0'' [])
      else if \<not> is_finite epsilon \<or> f64_lt epsilon (Zero False)
      then Inl (invalid_input ''cycle iteration epsilon must be finite and non-negative, got {}'' [AF64 epsilon])
      else rbind (rfold (\<lambda>_. check_cycle_member g) () cycle) (\<lambda>_.
        iterate_loop rx g cycle cs max_iterations epsilon [1..<Suc max_iterations] [(hd cycle, cs)] []))"

section \<open>Admissibility\<close>

definition convert_claim :: "governance_claim \<Rightarrow> legitimacy_error + claim" where
  "convert_claim c =
     rbind (claim_try_new (claimant_id c) (strength c)) (\<lambda>converted. Inr (converted\<lparr>clm_metrics := metrics c\<rparr>))"

definition convert_claims :: "governance_claim list \<Rightarrow> legitimacy_error + claim list" where
  "convert_claims cs = rmap convert_claim cs"

definition decision_allocation ::
  "governance_claim list \<Rightarrow> (string, decision) bmap \<Rightarrow> legitimacy_error + allocation" where
  "decision_allocation cs decisions =
     rbind (convert_claims cs) (\<lambda>converted.
       valid_allocation_new
         (fold (\<lambda>c. bm_insert (claimant_id c)
                  (f64_of_nat (decision_rank (case bm_get decisions (claimant_id c) of None \<Rightarrow> Escalate | Some d \<Rightarrow> d))))
            cs [])
         converted)"

definition binary_estate :: "legitimacy_error + estate" where
  "binary_estate = estate_new (Num 2) ''binary-decision-rank''"

definition cycle_counterexample ::
  "governance_claim list \<Rightarrow> allocation \<Rightarrow> message \<Rightarrow> string \<Rightarrow> legitimacy_error + counterexample" where
  "cycle_counterexample cs fixed_point_alloc desc viol =
     rbind (convert_claims cs) (\<lambda>oc.
     rbind binary_estate (\<lambda>oe.
     rbind (decision_allocation cs []) (\<lambda>oa.
     rbind (convert_claims cs) (\<lambda>pc.
     rbind binary_estate (\<lambda>pe.
       Inr \<lparr>description = desc, original_claims = oc, original_estate = oe, original_allocation = oa,
            perturbed_claims = pc, perturbed_estate = pe, perturbed_allocation = fixed_point_alloc,
            violation = Message viol []\<rparr>)))))"

definition check_cycle_admissibility ::
  "regex_engine \<Rightarrow> governance_graph \<Rightarrow> node_id list \<Rightarrow> governance_claim list \<Rightarrow> legitimacy_error + verdict" where
  "check_cycle_admissibility rx g cycle cs =
     rbind (iterate_cycle rx g cycle cs 32 EPSILON) (\<lambda>result.
     rbind (decision_allocation cs (fixed_point_decisions result)) (\<lambda>fixed_point_alloc.
       if \<not> converged result then
         rbind (cycle_counterexample cs fixed_point_alloc
                  (Message ''Cycle {:?} did not converge within {} iterations'' [AList cycle, ANat (iterations result)])
                  ''reflexive inadmissibility: the cycle kept feeding itself instead of settling to an admissible fixed point'')
           (\<lambda>ce. Inr (Rejected ''cycle admissibility'' ce))
       else if list_ex (\<lambda>d. d = Escalate) (bm_values (fixed_point_decisions result)) then
         rbind (cycle_counterexample cs fixed_point_alloc
                  (Message ''Cycle {:?} converged to a non-terminal Escalate state'' [AList cycle])
                  ''reflexive inadmissibility: the cycle stabilized only by preserving non-terminal escalation inside the loop'')
           (\<lambda>ce. Inr (Rejected ''cycle admissibility'' ce))
       else Inr (Admissible ''cycle admissibility'' (iterations result))))"

section \<open>Lemmas: a cycle never drains\<close>

lemma cycle_edges_get:
  "or_default [] (cycle_edges g S) v = filter (\<lambda>e. edge_from e = v \<and> edge_from e \<in> S \<and> edge_to e \<in> S) (edges g)"
proof -
  have "or_default [] (fold (\<lambda>e m. if edge_from e \<in> S \<and> edge_to e \<in> S
        then bm_insert (edge_from e) (or_default [] m (edge_from e) @ [e]) m else m) es m) v
      = or_default [] m v @ filter (\<lambda>e. edge_from e = v \<and> edge_from e \<in> S \<and> edge_to e \<in> S) es" for es m
    by (induction es arbitrary: m) (auto simp: or_default_def)
  from this [of "edges g" "[]"] show ?thesis by (simp add: cycle_edges_def or_default_def)
qed

lemma position_of_nth: "distinct xs \<Longrightarrow> i < length xs \<Longrightarrow> position_of xs (xs ! i) = Some i"
  by (induction xs arbitrary: i) (auto simp: nth_Cons split: nat.splits)

lemma position_of_mem: "x \<in> set xs \<Longrightarrow> \<exists>i. position_of xs x = Some i"
  by (induction xs) auto

lemma cycle_forward_next:
  assumes "cycle_forward cycle index f ds ps e = Inr ps'"
  shows "bm_has (next_iteration ps) k \<Longrightarrow> bm_has (next_iteration ps') k"
    and "position_of cycle (edge_to e) = Some j \<Longrightarrow> j \<le> index \<Longrightarrow> bm_has (next_iteration ps') (edge_to e)"
  using assms by (auto simp: cycle_forward_def result_simps split: if_splits)

lemma cycle_forward_all:
  assumes "rfold (cycle_forward cycle index f ds) ps es = Inr ps'"
  shows "bm_has (next_iteration ps) k \<Longrightarrow> bm_has (next_iteration ps') k"
    and "e \<in> set es \<Longrightarrow> position_of cycle (edge_to e) = Some j \<Longrightarrow> j \<le> index \<Longrightarrow> bm_has (next_iteration ps') (edge_to e)"
  by (rule rfold_invariant [OF assms], auto intro: cycle_forward_next)
    (rule rfold_reaches [OF assms], auto intro: cycle_forward_next)

lemma cycle_node_next:
  assumes "cycle_node rx g cycle ce ps (i, v) = Inr ps'"
  shows "bm_has (next_iteration ps) k \<Longrightarrow> bm_has (next_iteration ps') k"
    and "e \<in> set (or_default [] ce v) \<Longrightarrow> position_of cycle (edge_to e) = Some j \<Longrightarrow> j \<le> i
      \<Longrightarrow> bm_has (next_iteration ps') (edge_to e)"
proof -
  obtain f ds ps1 where run: "rfold (cycle_forward cycle i f ds) ps1 (or_default [] ce v) = Inr ps'"
      "next_iteration ps1 = next_iteration ps"
    using assms by (auto simp: cycle_node_def result_simps Let_def)
  show "bm_has (next_iteration ps) k \<Longrightarrow> bm_has (next_iteration ps') k"
    using cycle_forward_all(1) [OF run(1)] run(2) by simp
  show "e \<in> set (or_default [] ce v) \<Longrightarrow> position_of cycle (edge_to e) = Some j \<Longrightarrow> j \<le> i
      \<Longrightarrow> bm_has (next_iteration ps') (edge_to e)"
    using cycle_forward_all(2) [OF run(1)] by blast
qed

lemma cycle_nodes_next:
  assumes "rfold (cycle_node rx g cycle ce) ps ivs = Inr ps'" and "(i, v) \<in> set ivs"
    and "e \<in> set (or_default [] ce v)" and "position_of cycle (edge_to e) = Some j" and "j \<le> i"
  shows "bm_has (next_iteration ps') (edge_to e)"
proof (rule rfold_reaches [OF assms(1,2)])
  fix s y s' assume "cycle_node rx g cycle ce s y = Inr s'" "bm_has (next_iteration s) (edge_to e)"
  then show "bm_has (next_iteration s') (edge_to e)" by (cases y) (auto intro: cycle_node_next(1))
qed (rule cycle_node_next(2) [OF _ assms(3-5)])

text \<open>An edge of the graph from a node of the list to the same or an earlier one.\<close>

definition back_edge :: "governance_graph \<Rightarrow> node_id list \<Rightarrow> bool" where
  "back_edge g cycle \<longleftrightarrow> (\<exists>e \<in> set (edges g). \<exists>i < length cycle. \<exists>j \<le> i. edge_from e = cycle ! i \<and> edge_to e = cycle ! j)"

lemma cycle_pass_next:
  assumes "distinct cycle" and "back_edge g cycle"
    and "cycle_pass rx g cycle (cycle_edges g (set cycle)) queued = Inr ps"
  shows "next_iteration ps \<noteq> []"
proof -
  obtain e i j where e: "e \<in> set (edges g)" "i < length cycle" "j \<le> i" "edge_from e = cycle ! i" "edge_to e = cycle ! j"
    using assms(2) by (auto simp: back_edge_def)
  then have "e \<in> set (or_default [] (cycle_edges g (set cycle)) (cycle ! i))"
    by (simp add: cycle_edges_get)
  moreover have "position_of cycle (edge_to e) = Some j" using e assms(1) by (simp add: position_of_nth)
  moreover have "(i, cycle ! i) \<in> set (enumerate 0 cycle)" using e(2) by (simp add: in_set_enumerate_eq)
  ultimately have "bm_has (next_iteration ps) (edge_to e)"
    using cycle_nodes_next assms(3) e(3) unfolding cycle_pass_def by blast
  then show ?thesis by (auto simp: bm_has_def)
qed

lemma iterate_loop_never_converges:
  assumes "distinct cycle" and "back_edge g cycle"
  shows "iterate_loop rx g cycle cs mx eps its queued fixed = Inr r \<Longrightarrow> \<not> converged r"
  by (induction its arbitrary: queued fixed)
    (auto simp: result_simps cycle_pass_next [OF assms] split: if_splits)

text \<open>Every list of the nodes of a cyclic class has such an edge.\<close>

lemma cyclic_class_back_edge:
  assumes "set cycle \<in> cyclic_classes g UNIV" and "distinct cycle"
  shows "back_edge g cycle"
proof (rule ccontr)
  assume no: "\<not> back_edge g cycle"
  obtain x where x: "set cycle = scc_of g x" "(x, x) \<in> (edge_rel g)\<^sup>+"
    using assms(1) by (auto simp: cyclic_classes_def)
  define pos where "pos y = the (position_of cycle y)" for y
  have pos: "pos y < length cycle \<and> cycle ! pos y = y" if "y \<in> set cycle" for y
    using that assms(2) by (auto simp: in_set_conv_nth pos_def position_of_nth)
  let ?R = "edge_rel g \<inter> set cycle \<times> set cycle"
  have less: "pos a < pos b" if ab: "(a, b) \<in> ?R" for a b
  proof -
    obtain e where e: "e \<in> set (edges g)" "edge_from e = a" "edge_to e = b"
      using ab by (auto simp: edge_rel_def)
    have "a \<in> set cycle" "b \<in> set cycle" using ab by auto
    with e pos [of a] pos [of b] no show ?thesis
      unfolding back_edge_def by (metis leI)
  qed
  have "(x, y) \<in> ?R\<^sup>+" if "(x, y) \<in> (edge_rel g)\<^sup>+" "(y, x) \<in> (edge_rel g)\<^sup>*" for y
    using that
  proof (induction rule: trancl_induct)
    case (base y)
    then have "y \<in> set cycle" "x \<in> set cycle" unfolding x(1) scc_of_def by auto
    with base show ?case by (intro r_into_trancl) auto
  next
    case (step y z)
    have yx: "(y, x) \<in> (edge_rel g)\<^sup>*" using step.hyps(2) step.prems by (rule converse_rtrancl_into_rtrancl)
    have xz: "(x, z) \<in> (edge_rel g)\<^sup>*" using step.hyps by (meson rtrancl.rtrancl_into_rtrancl trancl_into_rtrancl)
    have "y \<in> set cycle" "z \<in> set cycle"
      unfolding x(1) scc_of_def using step.hyps(1) yx xz step.prems by (auto intro: trancl_into_rtrancl)
    with step.IH [OF yx] step.hyps(2) show ?case by (meson IntI SigmaI trancl.trancl_into_trancl)
  qed
  then have "(x, x) \<in> ?R\<^sup>+" using x(2) by simp
  moreover have "?R \<subseteq> measure pos" using less by auto
  ultimately have "(x, x) \<in> (measure pos)\<^sup>+" by (meson trancl_mono)
  then show False using wf_acyclic [OF wf_measure [of pos]] unfolding acyclic_def by blast
qed

section \<open>Lemmas: progress\<close>

lemma merge_batches_ok:
  assumes "validate_governance_claims cs = Inr ()" and "batch_ok cs b" and "set add \<subseteq> set cs"
  shows "\<exists>m. merge_claim_batches nid b add = Inr m \<and> batch_ok cs m"
proof -
  obtain m where m: "merge_shared_claim_batches nid b add = Inr m" "batch_ok cs m"
    using merge_shared_batches [OF assms] by blast
  have "distinct (map claimant_id b)" using assms(2) by (simp add: batch_ok_def)
  from merge_shared_reference [OF this, of nid add] m(1)
  have "merge_claim_batches nid b add = Inr (sort_key claimant_id m)" by auto
  moreover have "distinct (map claimant_id (sort_key claimant_id m))"
    using m(2) unfolding batch_ok_def by (metis mset_map mset_sort mset_eq_imp_distinct_iff)
  ultimately show ?thesis using m(2) by (simp add: batch_ok_def)
qed

definition pass_ok :: "governance_claim list \<Rightarrow> pass_state \<Rightarrow> bool" where
  "pass_ok cs ps \<longleftrightarrow> batches_ok cs (current_queued ps) \<and> batches_ok cs (next_iteration ps)
     \<and> (\<forall>k. bm_has (ps_fixed ps) k \<longrightarrow> k \<in> claimant_id ` set cs)"

text \<open>A cycle of evaluable nodes: what the iteration needs of its inputs.\<close>

definition cycle_ready :: "regex_engine \<Rightarrow> governance_graph \<Rightarrow> node_id list \<Rightarrow> governance_claim list \<Rightarrow> bool" where
  "cycle_ready rx g cycle cs \<longleftrightarrow> validate_governance_claims cs = Inr ()
     \<and> (\<forall>v \<in> set cycle. case bm_get (nodes g) v of None \<Rightarrow> False | Some n \<Rightarrow>
          validate_governance_node rx n = Inr () \<and> node_kind n \<noteq> ''Proportional''
          \<and> (\<forall>c \<in> set cs. \<forall>field \<in> node_fields n. provides c field))"

lemma batch_valid: "validate_governance_claims cs = Inr () \<Longrightarrow> batch_ok cs b \<Longrightarrow> validate_governance_claims b = Inr ()"
  by (auto simp: validate_governance_claims_Inr batch_ok_def)

lemma batches_ok_insert: "batches_ok cs q \<Longrightarrow> batch_ok cs b \<Longrightarrow> batches_ok cs (bm_insert k b q)"
  by (simp add: batches_ok_def)

lemma cycle_forward_ok:
  assumes cs: "validate_governance_claims cs = Inr ()" and ps: "pass_ok cs ps" and f: "set f \<subseteq> set cs"
    and inert: "\<And>tr. apply_transform tr f ds = Inr f" and e: "edge_to e \<in> set cycle"
  shows "\<exists>ps'. cycle_forward cycle i f ds ps e = Inr ps' \<and> pass_ok cs ps'"
proof -
  obtain j where j: "position_of cycle (edge_to e) = Some j" using position_of_mem [OF e] by blast
  have "batch_ok cs (or_default [] (current_queued ps) (edge_to e))"
    "batch_ok cs (or_default [] (next_iteration ps) (edge_to e))"
    using ps by (auto simp: pass_ok_def batches_ok_def)
  from this [THEN merge_batches_ok [OF cs _ f, of _ "edge_to e"]] obtain m m' where
    "merge_claim_batches (edge_to e) (or_default [] (current_queued ps) (edge_to e)) f = Inr m" "batch_ok cs m"
    "merge_claim_batches (edge_to e) (or_default [] (next_iteration ps) (edge_to e)) f = Inr m'" "batch_ok cs m'"
    by blast
  with ps j show ?thesis
    by (simp add: cycle_forward_def inert pass_ok_def batches_ok_insert)
qed

lemma record_decisions_has:
  "bm_has (record_decisions fixed ds) k \<longleftrightarrow> bm_has fixed k \<or> k \<in> cd_claimant_id ` set ds"
  unfolding record_decisions_def by (induction ds arbitrary: fixed) auto

lemma cycle_node_ok:
  assumes ready: "cycle_ready rx g cycle cs" and v: "v \<in> set cycle" and ps: "pass_ok cs ps"
  shows "\<exists>ps'. cycle_node rx g cycle (cycle_edges g (set cycle)) ps (i, v) = Inr ps' \<and> pass_ok cs ps'"
proof -
  let ?b = "or_default [] (current_queued ps) v"
  have cs: "validate_governance_claims cs = Inr ()" using ready by (simp add: cycle_ready_def)
  obtain n where n: "bm_get (nodes g) v = Some n" "validate_governance_node rx n = Inr ()"
      "node_kind n \<noteq> ''Proportional''" "\<forall>c \<in> set cs. \<forall>field \<in> node_fields n. provides c field"
    using ready v unfolding cycle_ready_def by (cases "bm_get (nodes g) v") fastforce+
  have b: "batch_ok cs ?b" using ps by (simp add: pass_ok_def batches_ok_def)
  have "\<forall>c \<in> set ?b. \<forall>field \<in> node_fields n. provides c field" using n(4) b by (auto simp: batch_ok_def)
  from node_evaluates [OF n(2,3) this] obtain ds where ev: "evaluate_node_validated rx n ?b = Inr ds" by blast
  then have eval: "evaluate_node rx n ?b = Inr ds" using batch_valid [OF cs b] by (simp add: evaluate_node_def)
  let ?f = "forwarded_claims ?b ds"
  have al: "aligned ?b ds" using evaluate_validated_aligned [OF ev] .
  have inert: "apply_transform tr ?f ds = Inr ?f" for tr
    using transform_inert [OF al] b by (simp add: batch_ok_def transforms_agree forwarded_agree)
  have "set ?f \<subseteq> set ?b" by (auto simp: forwarded_claims_def dest: set_zip_leftD)
  then have f: "set ?f \<subseteq> set cs" using b by (auto simp: batch_ok_def)
  let ?ps = "ps\<lparr>current_queued := bm_remove v (current_queued ps), ps_fixed := record_decisions (ps_fixed ps) ds\<rparr>"
  have "cd_claimant_id ` set ds = claimant_id ` set ?b" using al unfolding aligned_def by (metis list.set_map)
  then have "pass_ok cs ?ps"
    using ps b by (auto simp: pass_ok_def batches_ok_def batch_ok_def record_decisions_has)
  then have "\<exists>ps'. rfold (cycle_forward cycle i ?f ds) ?ps (or_default [] (cycle_edges g (set cycle)) v) = Inr ps' \<and> pass_ok cs ps'"
  proof (rule rfold_total)
    fix s e assume "e \<in> set (or_default [] (cycle_edges g (set cycle)) v)" "pass_ok cs s"
    then show "\<exists>t. cycle_forward cycle i ?f ds s e = Inr t \<and> pass_ok cs t"
      by (intro cycle_forward_ok [OF cs _ f inert]) (simp_all add: cycle_edges_get)
  qed
  then show ?thesis using n(1) eval by (simp add: cycle_node_def Let_def)
qed

lemma cycle_pass_ok:
  assumes "cycle_ready rx g cycle cs" and "batches_ok cs q"
  shows "\<exists>ps. cycle_pass rx g cycle (cycle_edges g (set cycle)) q = Inr ps \<and> pass_ok cs ps"
  unfolding cycle_pass_def
proof (rule rfold_total)
  show "pass_ok cs \<lparr>current_queued = q, next_iteration = [], ps_fixed = []\<rparr>"
    using assms(2) by (simp add: pass_ok_def batches_ok_def or_default_def batch_ok_def bm_has_def)
next
  fix ps and iv :: "nat \<times> node_id" assume mem: "iv \<in> set (enumerate 0 cycle)" and ok: "pass_ok cs ps"
  obtain i v where iv: "iv = (i, v)" by (cases iv)
  with mem have "v \<in> set cycle" by (auto simp: in_set_enumerate_eq)
  with iv ok show "\<exists>t. cycle_node rx g cycle (cycle_edges g (set cycle)) ps iv = Inr t \<and> pass_ok cs t"
    using cycle_node_ok [OF assms(1)] by simp
qed

lemma queue_matches_total: "\<exists>b. queue_matches_baseline q v cs eps = Inr b"
proof -
  have "\<exists>b. baseline_loop base obs eps ks = Inr b"
    if "\<And>k. k \<in> set ks \<Longrightarrow> bm_has base k \<and> bm_has obs k" for base obs ks
    using that
  proof (induction ks)
    case (Cons k ks)
    have "bm_has base k \<and> bm_has obs k" using Cons.prems by simp
    then obtain l r where "bm_get base k = Some l" "bm_get obs k = Some r"
      by (auto simp: bm_has_get)
    with Cons show ?case by auto
  qed (intro exI [of _ True], simp)
  note loop = this
  have "\<exists>b. baseline_loop base obs eps (bm_keys base) = Inr b" if "bm_keys base = bm_keys obs" for base obs
    by (rule loop) (use that in \<open>simp add: bm_has_def flip: set_map\<close>)
  then show ?thesis
    by (auto simp: queue_matches_baseline_def Let_def split: option.splits)
qed

lemma iterate_loop_ok:
  assumes "cycle_ready rx g cycle cs" and "batches_ok cs q"
    and "\<forall>k. bm_has fixed k \<longrightarrow> k \<in> claimant_id ` set cs"
  shows "\<exists>r. iterate_loop rx g cycle cs' mx eps its q fixed = Inr r
    \<and> iterations r \<in> insert mx (set its)
    \<and> (\<forall>k. bm_has (fixed_point_decisions r) k \<longrightarrow> k \<in> claimant_id ` set cs)"
  using assms(2,3)
proof (induction its arbitrary: q fixed)
  case (Cons it its)
  obtain ps where ps: "cycle_pass rx g cycle (cycle_edges g (set cycle)) q = Inr ps" "pass_ok cs ps"
    using cycle_pass_ok [OF assms(1) Cons.prems(1)] by blast
  obtain b where "queue_matches_baseline (next_iteration ps) (hd cycle) cs' eps = Inr b"
    using queue_matches_total by blast
  with ps Cons.IH [of "next_iteration ps" "ps_fixed ps"] show ?case
    by (auto simp: pass_ok_def)
qed simp

lemma EPSILON_ok: "is_finite EPSILON" "\<not> f64_lt EPSILON (Zero False)"
proof -
  have lo: "f64_le (Num (1 / 2 ^ 30)) EPSILON"
  proof -
    have "round64 (1 / 2 ^ 30) = Num (1 / 2 ^ 30)"
      by (rule round64_exact [of _ 1 "- 30"]) (simp_all add: power_int_def power_one_over)
    moreover have "f64_le (round64 (1 / 2 ^ 30)) (round64 (1 / 10 ^ 9))" by (rule round64_mono_pos) simp_all
    ultimately show ?thesis by (simp only: EPSILON_def)
  qed
  have "f64_le EPSILON (Num 1)"
    unfolding EPSILON_def round64_one [symmetric] by (rule round64_mono_pos) simp_all
  with lo show "is_finite EPSILON" by (rule between_finite)
  from lo show "\<not> f64_lt EPSILON (Zero False)"
    by (cases EPSILON) (auto simp: f64_lt_def f64_le_def split: if_splits)
qed

lemma convert_claim_ok:
  "validate_governance_claim c = Inr () \<Longrightarrow>
     convert_claim c = Inr \<lparr>clm_id = claimant_id c, clm_strength = strength c, clm_metrics = metrics c\<rparr>"
  by (auto simp: convert_claim_def claim_try_new_def validate_claimant_id_def validate_claim_strength_def
      positive_strength_new_def validate_governance_claim_def split: if_splits)

lemma convert_claims_ok:
  assumes "validate_governance_claims cs = Inr ()"
  shows "convert_claims cs =
    Inr (map (\<lambda>c. \<lparr>clm_id = claimant_id c, clm_strength = strength c, clm_metrics = metrics c\<rparr>) cs)"
  unfolding convert_claims_def rmap_Inr_iff list_all2_map2
  using assms by (simp add: list_all2_same convert_claim_ok validate_governance_claims_Inr)

lemma rank_value_ok: "is_finite (f64_of_nat (decision_rank d)) \<and> \<not> f64_lt (f64_of_nat (decision_rank d)) (Zero False)"
proof (cases "decision_rank d = 0")
  case True
  then show ?thesis by (simp add: f64_of_nat_def round64_def f64_lt_def f64_le_def)
next
  case False
  moreover have "decision_rank d < 2 ^ 53" by (cases d) simp_all
  ultimately have "f64_of_nat (decision_rank d) = Num (of_nat (decision_rank d))"
    by (simp only: f64_of_nat_exact not_gr_zero [symmetric] not_not)
  then show ?thesis by (simp add: f64_lt_def f64_le_def)
qed

lemma valid_assignment:
  assumes "validate_governance_claims cs = Inr ()"
    and "\<And>c. c \<in> set cs \<Longrightarrow> is_finite (val c) \<and> \<not> f64_lt (val c) (Zero False)"
  shows "\<exists>a. rbind (convert_claims cs) (valid_allocation_new (fold (\<lambda>c. bm_insert (claimant_id c) (val c)) cs [])) = Inr a"
proof -
  have keys: "fst ` set (fold (\<lambda>c. bm_insert (claimant_id c) (val c)) xs m) = claimant_id ` set xs \<union> fst ` set m" for xs m
    by (induction xs arbitrary: m) (auto simp: set_keys_insert)
  have vals: "snd ` set (fold (\<lambda>c. bm_insert (claimant_id c) (val c)) xs m) \<subseteq> val ` set xs \<union> snd ` set m" for xs m
  proof (induction xs arbitrary: m)
    case (Cons x xs)
    have "snd ` set (bm_insert (claimant_id x) (val x) m) \<subseteq> insert (val x) (snd ` set m)"
      using image_mono [OF set_bm_insert_subset [of "claimant_id x" "val x" m], of snd] by simp
    with Cons [of "bm_insert (claimant_id x) (val x) m"] show ?case by auto
  qed simp
  have "is_finite v \<and> \<not> f64_lt v (Zero False)" if "v \<in> snd ` set (fold (\<lambda>c. bm_insert (claimant_id c) (val c)) cs [])" for v
    using vals [of cs "[]"] that assms(2) by auto
  then show ?thesis
    using keys [of cs "[]"]
    by (auto simp: convert_claims_ok [OF assms(1)] valid_allocation_new_def result_simps
        allocation_validate_Inr image_image)
qed

lemma decision_allocation_ok:
  assumes "validate_governance_claims cs = Inr ()"
  shows "\<exists>a. decision_allocation cs decisions = Inr a"
  unfolding decision_allocation_def Let_def by (rule valid_assignment [OF assms rank_value_ok])

lemma binary_estate_eq: "binary_estate = Inr \<lparr>total = Num 2, unit_name = ''binary-decision-rank''\<rparr>"
  by (simp add: binary_estate_def estate_new_def estate_total_new_def f64_le_def)

lemma cycle_counterexample_ok:
  "validate_governance_claims cs = Inr () \<Longrightarrow> \<exists>ce. cycle_counterexample cs a desc viol = Inr ce"
  using decision_allocation_ok [of cs "[]"]
  by (auto simp: cycle_counterexample_def binary_estate_eq convert_claims_ok)

lemma iterate_total:
  assumes "cycle_ready rx g cycle cs" and "cycle \<noteq> []" and "0 < mx"
    and "is_finite eps" and "\<not> f64_lt eps (Zero False)"
  shows "\<exists>r. iterate_cycle rx g cycle cs mx eps = Inr r \<and> 1 \<le> iterations r \<and> iterations r \<le> mx
    \<and> set (bm_keys (fixed_point_decisions r)) \<subseteq> claimant_id ` set cs"
proof -
  have "bm_has (nodes g) v" if "v \<in> set cycle" for v
    using assms(1) that unfolding cycle_ready_def bm_has_get by (cases "bm_get (nodes g) v") auto
  then have "rfold (\<lambda>_. check_cycle_member g) () cycle = Inr ()"
    by (simp add: rfold_unit_Inr check_cycle_member_def)
  moreover have "batches_ok cs [(hd cycle, cs)]"
    using assms(1) by (auto simp: batches_ok_def or_default_def bm_get_def batch_ok_def cycle_ready_def
        validate_governance_claims_Inr)
  then obtain r where "iterate_loop rx g cycle cs mx eps [1..<Suc mx] [(hd cycle, cs)] [] = Inr r"
      "iterations r \<in> insert mx (set [1..<Suc mx])"
      "\<forall>k. bm_has (fixed_point_decisions r) k \<longrightarrow> k \<in> claimant_id ` set cs"
    using iterate_loop_ok [OF assms(1), of "[(hd cycle, cs)]" "[]" cs mx eps "[1..<Suc mx]"]
    by (auto simp: bm_has_def)
  ultimately show ?thesis
    using assms(2-5) by (auto simp: iterate_cycle_def bm_has_def)
qed

lemma never_converges:
  assumes "distinct cycle" and "back_edge g cycle" and "iterate_cycle rx g cycle cs mx eps = Inr r"
  shows "\<not> converged r"
  using assms(3) iterate_loop_never_converges [OF assms(1,2)]
  by (auto simp: iterate_cycle_def result_simps split: if_splits)

lemma detected_cycle_shape:
  assumes "\<forall>e \<in> set (edges g). bm_has (nodes g) (edge_from e)"
    and "detect_cycles g = Inr cycles" and "cycle \<in> set cycles"
  shows "distinct cycle" and "cycle \<noteq> []" and "back_edge g cycle" and "\<forall>v \<in> set cycle. bm_has (nodes g) v"
proof -
  have "cycle \<in> sorted_list_of_set ` cyclic_classes g UNIV"
    using assms(2,3) detect_cycles_scc [OF assms(1)] finite_cyclic_classes [of g] by auto
  then obtain C where C: "C \<in> cyclic_classes g UNIV" "cycle = sorted_list_of_set C" by blast
  have "finite C"
  proof -
    obtain x where x: "C = scc_of g x" "(x, x) \<in> (edge_rel g)\<^sup>+" using C(1) by (auto simp: cyclic_classes_def)
    have "finite (Field (edge_rel g))" by (rule finite_Field) (simp add: edge_rel_def)
    moreover have "scc_of g x \<subseteq> Field (edge_rel g)"
    proof
      fix y assume "y \<in> scc_of g x"
      then have "(x, y) \<in> (edge_rel g)\<^sup>+" using x(2) by (auto simp: scc_of_def)
      then show "y \<in> Field (edge_rel g)" by (metis FieldI2 tranclE)
    qed
    ultimately show ?thesis using x(1) finite_subset by blast
  qed
  with C have cyc: "distinct cycle" "set cycle \<in> cyclic_classes g UNIV" by simp_all
  show "distinct cycle" by (rule cyc)
  show "cycle \<noteq> []" using cyclic_class_sub [OF cyc(2)] by auto
  show "back_edge g cycle" by (rule cyclic_class_back_edge [OF cyc(2,1)])
  show "\<forall>v \<in> set cycle. bm_has (nodes g) v"
  proof
    fix v assume "v \<in> set cycle"
    then have "(v, v) \<in> (edge_rel g)\<^sup>+" using cyc(2) by (auto simp: cyclic_classes_def scc_of_def)
    then obtain w where "(v, w) \<in> edge_rel g" by (meson tranclD)
    with assms(1) show "bm_has (nodes g) v" by (auto simp: edge_rel_def)
  qed
qed

section \<open>Properties\<close>

lemma sample_cycle_ready: "cycle_ready (\<lambda>_. None) sample_cycle [''a'', ''b''] [sample_claim ''x'']"
  by (auto simp: cycle_ready_def sample_cycle_def sample_simps bm_get_def)

text \<open>Progress of the iteration. With a positive limit and a sensible tolerance, on a non-empty
  list of validated, evaluable nodes and a valid batch that provides their metrics,
  \<open>iterate_cycle\<close> never fails: it stops after between one and \<open>max_iterations\<close> passes and decides
  only claimants of the batch.\<close>

lemma iterate_cycle_progress:
  assumes "cycle_ready rx g cycle cs" and "cycle \<noteq> []" and "0 < mx"
    and "is_finite eps" and "\<not> f64_lt eps (Zero False)"
  shows "\<exists>r. iterate_cycle rx g cycle cs mx eps = Inr r \<and> 1 \<le> iterations r \<and> iterations r \<le> mx
    \<and> set (bm_keys (fixed_point_decisions r)) \<subseteq> claimant_id ` set cs"
  using assms by (rule iterate_total)

lemma iterate_cycle_progress_witness:
  "\<exists>r. iterate_cycle (\<lambda>_. None) sample_cycle [''a'', ''b''] [sample_claim ''x''] 4 (Zero False) = Inr r
     \<and> iterations r \<le> 4"
  using iterate_cycle_progress [OF sample_cycle_ready, of 4 "Zero False"] by (auto simp: f64_lt_def)

text \<open>No real cycle converges. If the graph has an edge from a node of the list to the same or
  an earlier node of it, \<open>iterate_cycle\<close> never reports convergence: every pass queues a batch,
  possibly empty, for the target of that edge.\<close>

lemma iterate_cycle_never_converges:
  assumes "distinct cycle" and "back_edge g cycle" and "iterate_cycle rx g cycle cs mx eps = Inr r"
  shows "\<not> converged r"
  using assms by (rule never_converges)

lemma iterate_cycle_never_converges_witness:
  "\<exists>r. iterate_cycle (\<lambda>_. None) sample_cycle [''a'', ''b''] [] 2 (Zero False) = Inr r \<and> \<not> converged r"
proof -
  have run: "iterate_cycle (\<lambda>_. None) sample_cycle [''a'', ''b''] [] 2 (Zero False)
      = Inr \<lparr>converged = False, iterations = 1, fixed_point_decisions = []\<rparr>" by code_simp
  have "back_edge sample_cycle [''a'', ''b'']"
    unfolding back_edge_def
  proof (intro bexI exI conjI)
    show "\<lparr>edge_from = ''b'', edge_to = ''a'', edge_transform = PassThrough\<rparr> \<in> set (edges sample_cycle)"
      by (simp add: sample_cycle_def)
    show "(1::nat) < length [''a'', ''b'']" "(0::nat) \<le> 1" by simp_all
  qed simp_all
  from iterate_cycle_never_converges [OF _ this run] run show ?thesis by simp
qed

text \<open>C16: consequently the verdict on every cycle that \<open>detect_cycles\<close> reports is a rejection,
  whatever its nodes decide: with evaluable nodes and a valid batch the check does not fail, and
  it never answers \<open>Admissible\<close>.\<close>

theorem detected_cycle_rejected:
  assumes "\<forall>e \<in> set (edges g). bm_has (nodes g) (edge_from e)"
    and "detect_cycles g = Inr cycles" and "cycle \<in> set cycles" and "cycle_ready rx g cycle cs"
  shows "\<exists>ce. check_cycle_admissibility rx g cycle cs = Inr (Rejected ''cycle admissibility'' ce)"
proof -
  note shape = detected_cycle_shape [OF assms(1-3)]
  have valid: "validate_governance_claims cs = Inr ()" using assms(4) by (simp add: cycle_ready_def)
  obtain r where r: "iterate_cycle rx g cycle cs 32 EPSILON = Inr r"
    using iterate_total [OF assms(4) shape(2) _ EPSILON_ok, of 32] by auto
  have "\<not> converged r"
    using never_converges [OF shape(1,3) r] .
  moreover obtain a where a: "decision_allocation cs (fixed_point_decisions r) = Inr a"
    using decision_allocation_ok [OF valid] by blast
  moreover obtain ce where "cycle_counterexample cs a
      (Message ''Cycle {:?} did not converge within {} iterations'' [AList cycle, ANat (iterations r)])
      ''reflexive inadmissibility: the cycle kept feeding itself instead of settling to an admissible fixed point''
      = Inr ce"
    using cycle_counterexample_ok [OF valid] by blast
  ultimately show ?thesis using r by (simp add: check_cycle_admissibility_def)
qed

theorem detected_cycle_rejected_witness:
  "\<exists>ce. check_cycle_admissibility (\<lambda>_. None) sample_cycle [''a'', ''b''] [sample_claim ''x'']
     = Inr (Rejected ''cycle admissibility'' ce)"
proof (rule detected_cycle_rejected)
  show "detect_cycles sample_cycle = Inr [[''a'', ''b'']]" by code_simp
qed (simp_all add: sample_cycle_ready, simp add: sample_cycle_def bm_has_def)

end
