(* ===== verification/Codex_Event.thy ===== *)
theory Codex_Event
  imports F64
begin

text \<open>
  Records of a \<open>codex exec\<close> JSONL stream, \<open>src/src/trajectory/codex_exec_v0/event.rs\<close>,
  \<open>event_wire.rs\<close> and \<open>error.rs\<close>: the typed records, the parser of one line and the legality of a
  record on its own. The JSON parser is a third-party crate: \<open>from_slice\<close> is the parameter that
  turns bytes into a \<open>json\<close> value (an object is a list of distinct keys in order). What
  \<open>#[derive(Deserialize)]\<close> generates for the wire structs is written out: an object must have
  exactly the declared fields (\<open>deny_unknown_fields\<close>), an array its fields by position.
\<close>

section \<open>Errors\<close>

datatype adapter_error_code =
    UnsafeInputPath | UnsafeOutputPath | InputOpen | InputType | InputSymlink | InputAlias
  | InputChanged | InputTooLarge | OutputSymlink | CrossOutputAlias | UnsupportedInputProfile
  | JsonFraming | JsonSyntax | JsonShape | JsonBudget | ReceiptShape | ReceiptMismatch
  | TrustedContextMismatch | UnsupportedAuthority | UnsupportedProfile | IllegalTermination
  | StreamState | UnsupportedRecord | Mapping | Validation | BundleMismatch | LineageSidecarShape
  | SanitizerRejected | OutputExists | OutputPublish | DurabilityUncertain
  | OutputIdentityUncertain | OutputIntegrityUncertain | OutputRollbackUncertain
  | UnsupportedPublicationProfile | EntropyUnavailable | PublicShareabilityDenied
  | ReservedPolicy | UnsupportedPlatform | CaptureSpawn | CaptureStdin | CaptureStdoutOverflow
  | CaptureStderrOverflow | CaptureTimeout | CaptureLiveDescendant | CaptureCleanup

primrec adapter_error_str :: "adapter_error_code \<Rightarrow> string" where
  "adapter_error_str UnsafeInputPath = ''unsafe-input-path''"
| "adapter_error_str UnsafeOutputPath = ''unsafe-output-path''"
| "adapter_error_str InputOpen = ''input-open''"
| "adapter_error_str InputType = ''input-type''"
| "adapter_error_str InputSymlink = ''input-symlink''"
| "adapter_error_str InputAlias = ''input-alias''"
| "adapter_error_str InputChanged = ''input-changed''"
| "adapter_error_str InputTooLarge = ''input-too-large''"
| "adapter_error_str OutputSymlink = ''output-symlink''"
| "adapter_error_str CrossOutputAlias = ''cross-output-alias''"
| "adapter_error_str UnsupportedInputProfile = ''unsupported-input-profile''"
| "adapter_error_str JsonFraming = ''json-framing''"
| "adapter_error_str JsonSyntax = ''json-syntax''"
| "adapter_error_str JsonShape = ''json-shape''"
| "adapter_error_str JsonBudget = ''json-budget''"
| "adapter_error_str ReceiptShape = ''receipt-shape''"
| "adapter_error_str ReceiptMismatch = ''receipt-mismatch''"
| "adapter_error_str TrustedContextMismatch = ''trusted-context-mismatch''"
| "adapter_error_str UnsupportedAuthority = ''unsupported-authority''"
| "adapter_error_str UnsupportedProfile = ''unsupported-profile''"
| "adapter_error_str IllegalTermination = ''illegal-termination''"
| "adapter_error_str StreamState = ''stream-state''"
| "adapter_error_str UnsupportedRecord = ''unsupported-record''"
| "adapter_error_str Mapping = ''mapping''"
| "adapter_error_str Validation = ''validation''"
| "adapter_error_str BundleMismatch = ''bundle-mismatch''"
| "adapter_error_str LineageSidecarShape = ''lineage-sidecar-shape''"
| "adapter_error_str SanitizerRejected = ''sanitizer-rejected''"
| "adapter_error_str OutputExists = ''output-exists''"
| "adapter_error_str OutputPublish = ''output-publish''"
| "adapter_error_str DurabilityUncertain = ''durability-uncertain''"
| "adapter_error_str OutputIdentityUncertain = ''output-identity-uncertain''"
| "adapter_error_str OutputIntegrityUncertain = ''output-integrity-uncertain''"
| "adapter_error_str OutputRollbackUncertain = ''output-rollback-uncertain''"
| "adapter_error_str UnsupportedPublicationProfile = ''unsupported-publication-profile''"
| "adapter_error_str EntropyUnavailable = ''entropy-unavailable''"
| "adapter_error_str PublicShareabilityDenied = ''public-shareability-denied''"
| "adapter_error_str ReservedPolicy = ''reserved-policy''"
| "adapter_error_str UnsupportedPlatform = ''unsupported-platform''"
| "adapter_error_str CaptureSpawn = ''capture-spawn''"
| "adapter_error_str CaptureStdin = ''capture-stdin''"
| "adapter_error_str CaptureStdoutOverflow = ''capture-stdout-overflow''"
| "adapter_error_str CaptureStderrOverflow = ''capture-stderr-overflow''"
| "adapter_error_str CaptureTimeout = ''capture-timeout''"
| "adapter_error_str CaptureLiveDescendant = ''capture-live-descendant''"
| "adapter_error_str CaptureCleanup = ''capture-cleanup''"

record adapter_error =
  ae_code :: adapter_error_code
  ae_record_index :: "nat option"
  ae_path :: "string option"

definition adapter_error_new :: "adapter_error_code \<Rightarrow> adapter_error" where
  "adapter_error_new code = \<lparr>ae_code = code, ae_record_index = None, ae_path = None\<rparr>"

definition adapter_error_record :: "adapter_error_code \<Rightarrow> nat \<Rightarrow> string \<Rightarrow> adapter_error" where
  "adapter_error_record code index p = \<lparr>ae_code = code, ae_record_index = Some index, ae_path = Some p\<rparr>"

definition shape :: "nat \<Rightarrow> string \<Rightarrow> adapter_error" where
  "shape index p = adapter_error_record JsonShape index p"

section \<open>JSON values\<close>

datatype json =
    JNull
  | JBool bool
  | JInt int
  | JFloat f64
  | JStr string
  | JArr "json list"
  | JObj "(string \<times> json) list"

fun as_object :: "json \<Rightarrow> (string \<times> json) list option" where
  "as_object (JObj kvs) = Some kvs"
| "as_object _ = None"

fun as_str :: "json \<Rightarrow> string option" where
  "as_str (JStr s) = Some s"
| "as_str _ = None"

fun as_bool :: "json \<Rightarrow> bool option" where
  "as_bool (JBool b) = Some b"
| "as_bool _ = None"

fun as_array :: "json \<Rightarrow> json list option" where
  "as_array (JArr xs) = Some xs"
| "as_array _ = None"

text \<open>Integers of a bounded type: \<open>lo \<le> n < hi\<close>.\<close>

fun as_int_in :: "int \<Rightarrow> int \<Rightarrow> json \<Rightarrow> int option" where
  "as_int_in lo hi (JInt n) = (if lo \<le> n \<and> n < hi then Some n else None)"
| "as_int_in lo hi _ = None"

abbreviation as_i64 :: "json \<Rightarrow> int option" where
  "as_i64 \<equiv> as_int_in (- (2 ^ 63)) (2 ^ 63)"

abbreviation as_i32 :: "json \<Rightarrow> int option" where
  "as_i32 \<equiv> as_int_in (- (2 ^ 31)) (2 ^ 31)"

text \<open>\<open>Option::deserialize\<close>: \<open>null\<close> is \<open>None\<close>.\<close>

fun as_nullable :: "(json \<Rightarrow> 'a option) \<Rightarrow> json \<Rightarrow> 'a option option" where
  "as_nullable f JNull = Some None"
| "as_nullable f v = map_option Some (f v)"

text \<open>The fields of a wire struct, in the order declared.\<close>

fun struct_fields :: "string list \<Rightarrow> json \<Rightarrow> json list option" where
  "struct_fields names (JObj kvs) =
     (if set (map fst kvs) \<subseteq> set names then those (map (map_of kvs) names) else None)"
| "struct_fields names (JArr vs) = (if length vs = length names then Some vs else None)"
| "struct_fields names _ = None"

section \<open>Records\<close>

datatype lifecycle = Started | Updated | Completed
datatype command_status = CmdInProgress | CmdCompleted | CmdFailed | CmdDeclined
datatype file_status = FileInProgress | FileCompleted | FileFailed
datatype change_kind = Add | Delete | Update

record usage =
  input_tokens :: int
  cached_input_tokens :: int
  output_tokens :: int
  reasoning_output_tokens :: int

record change =
  change_path :: string
  change_kind :: change_kind

record todo =
  todo_text :: string
  todo_completed :: bool

datatype item =
    AgentMessage string string
  | Reasoning string string
  | ItemError string string
  | Command string string string "int option" command_status
  | FileChange string "change list" file_status
  | TodoList string "todo list"

datatype item_class = CAgentMessage | CReasoning | CError | CCommand | CFileChange | CTodoList

datatype parsed_record =
    ThreadStarted string
  | TurnStarted
  | TurnCompleted usage
  | TurnFailed string
  | RecError string
  | Item lifecycle item

fun item_id :: "item \<Rightarrow> string" where
  "item_id (AgentMessage i _) = i"
| "item_id (Reasoning i _) = i"
| "item_id (ItemError i _) = i"
| "item_id (Command i _ _ _ _) = i"
| "item_id (FileChange i _ _) = i"
| "item_id (TodoList i _) = i"

fun item_class_of :: "item \<Rightarrow> item_class" where
  "item_class_of (AgentMessage _ _) = CAgentMessage"
| "item_class_of (Reasoning _ _) = CReasoning"
| "item_class_of (ItemError _ _) = CError"
| "item_class_of (Command _ _ _ _ _) = CCommand"
| "item_class_of (FileChange _ _ _) = CFileChange"
| "item_class_of (TodoList _ _) = CTodoList"

definition MAX_CHANGES_OR_TODOS :: nat where
  "MAX_CHANGES_OR_TODOS = 1024"

section \<open>Parsing one record\<close>

definition usage_nonnegative :: "usage \<Rightarrow> bool" where
  "usage_nonnegative u \<longleftrightarrow> 0 \<le> input_tokens u \<and> 0 \<le> cached_input_tokens u
     \<and> 0 \<le> output_tokens u \<and> 0 \<le> reasoning_output_tokens u"

definition hex_digit :: "char \<Rightarrow> bool" where
  "hex_digit c \<longleftrightarrow> 48 \<le> code_of c \<and> code_of c \<le> 57 \<or> 97 \<le> code_of c \<and> code_of c \<le> 102"

definition uuid_byte :: "nat \<times> char \<Rightarrow> bool" where
  "uuid_byte ib = (case ib of (index, b) \<Rightarrow>
     if index = 8 \<or> index = 13 \<or> index = 18 \<or> index = 23 then b = CHR ''-''
     else if index = 14 then b = CHR ''7''
     else if index = 19 then b = CHR ''8'' \<or> b = CHR ''9'' \<or> b = CHR ''a'' \<or> b = CHR ''b''
     else hex_digit b)"

definition is_canonical_uuid_v7 :: "string \<Rightarrow> bool" where
  "is_canonical_uuid_v7 value \<longleftrightarrow> length value = 36 \<and> list_all uuid_byte (enumerate 0 value)"

definition parse_command_status :: "string \<Rightarrow> command_status option" where
  "parse_command_status value =
     (if value = ''in_progress'' then Some CmdInProgress
      else if value = ''completed'' then Some CmdCompleted
      else if value = ''failed'' then Some CmdFailed
      else if value = ''declined'' then Some CmdDeclined else None)"

definition parse_file_status :: "string \<Rightarrow> file_status option" where
  "parse_file_status value =
     (if value = ''in_progress'' then Some FileInProgress
      else if value = ''completed'' then Some FileCompleted
      else if value = ''failed'' then Some FileFailed else None)"

definition parse_change_kind :: "string \<Rightarrow> change_kind option" where
  "parse_change_kind value =
     (if value = ''add'' then Some Add
      else if value = ''delete'' then Some Delete
      else if value = ''update'' then Some Update else None)"

text \<open>The wire structs of \<open>event_wire.rs\<close>; \<open>None\<close> is a deserialization error.\<close>

definition decode_thread_started :: "json \<Rightarrow> string option" where
  "decode_thread_started v = (case struct_fields [''type'', ''thread_id''] v of
     Some [t, i] \<Rightarrow> Option.bind (as_str t) (\<lambda>_. as_str i) | _ \<Rightarrow> None)"

definition decode_turn_started :: "json \<Rightarrow> unit option" where
  "decode_turn_started v = (case struct_fields [''type''] v of
     Some [t] \<Rightarrow> map_option (\<lambda>_. ()) (as_str t) | _ \<Rightarrow> None)"

definition decode_usage :: "json \<Rightarrow> usage option" where
  "decode_usage v =
     (case struct_fields [''input_tokens'', ''cached_input_tokens'', ''output_tokens'', ''reasoning_output_tokens''] v of
        Some [a, b, c, d] \<Rightarrow>
          Option.bind (as_i64 a) (\<lambda>a. Option.bind (as_i64 b) (\<lambda>b. Option.bind (as_i64 c) (\<lambda>c.
          map_option (\<lambda>d. \<lparr>input_tokens = a, cached_input_tokens = b, output_tokens = c, reasoning_output_tokens = d\<rparr>)
            (as_i64 d))))
      | _ \<Rightarrow> None)"

definition decode_turn_completed :: "json \<Rightarrow> usage option" where
  "decode_turn_completed v = (case struct_fields [''type'', ''usage''] v of
     Some [t, u] \<Rightarrow> Option.bind (as_str t) (\<lambda>_. decode_usage u) | _ \<Rightarrow> None)"

definition decode_error :: "json \<Rightarrow> string option" where
  "decode_error v = (case struct_fields [''message''] v of Some [s] \<Rightarrow> as_str s | _ \<Rightarrow> None)"

definition decode_turn_failed :: "json \<Rightarrow> string option" where
  "decode_turn_failed v = (case struct_fields [''type'', ''error''] v of
     Some [t, e] \<Rightarrow> Option.bind (as_str t) (\<lambda>_. decode_error e) | _ \<Rightarrow> None)"

definition decode_error_record :: "json \<Rightarrow> string option" where
  "decode_error_record v = (case struct_fields [''type'', ''message''] v of
     Some [t, s] \<Rightarrow> Option.bind (as_str t) (\<lambda>_. as_str s) | _ \<Rightarrow> None)"

definition decode_item_record :: "json \<Rightarrow> json option" where
  "decode_item_record v = (case struct_fields [''type'', ''item''] v of
     Some [t, i] \<Rightarrow> Option.bind (as_str t) (\<lambda>_. Some i) | _ \<Rightarrow> None)"

text \<open>\<open>TextItemWire\<close> (\<open>text_field = ''text''\<close>) and \<open>ErrorItemWire\<close> (\<open>text_field = ''message''\<close>).\<close>

definition decode_text_item :: "string \<Rightarrow> json \<Rightarrow> (string \<times> string) option" where
  "decode_text_item text_field v = (case struct_fields [''id'', ''type'', text_field] v of
     Some [i, t, x] \<Rightarrow> Option.bind (as_str i) (\<lambda>i. Option.bind (as_str t) (\<lambda>_. map_option (Pair i) (as_str x)))
   | _ \<Rightarrow> None)"

definition decode_command_item :: "json \<Rightarrow> (string \<times> string \<times> string \<times> int option \<times> string) option" where
  "decode_command_item v =
     (case struct_fields [''id'', ''type'', ''command'', ''aggregated_output'', ''exit_code'', ''status''] v of
        Some [i, t, c, out, code, s] \<Rightarrow>
          Option.bind (as_str i) (\<lambda>i. Option.bind (as_str t) (\<lambda>_. Option.bind (as_str c) (\<lambda>c.
          Option.bind (as_str out) (\<lambda>out. Option.bind (as_nullable as_i32 code) (\<lambda>code.
          map_option (\<lambda>s. (i, c, out, code, s)) (as_str s))))))
      | _ \<Rightarrow> None)"

definition decode_change :: "json \<Rightarrow> (string \<times> string) option" where
  "decode_change v = (case struct_fields [''path'', ''kind''] v of
     Some [p, k] \<Rightarrow> Option.bind (as_str p) (\<lambda>p. map_option (Pair p) (as_str k)) | _ \<Rightarrow> None)"

definition decode_file_item :: "json \<Rightarrow> (string \<times> (string \<times> string) list \<times> string) option" where
  "decode_file_item v = (case struct_fields [''id'', ''type'', ''changes'', ''status''] v of
     Some [i, t, cs, s] \<Rightarrow>
       Option.bind (as_str i) (\<lambda>i. Option.bind (as_str t) (\<lambda>_. Option.bind (as_array cs) (\<lambda>cs.
       Option.bind (those (map decode_change cs)) (\<lambda>cs. map_option (\<lambda>s. (i, cs, s)) (as_str s)))))
   | _ \<Rightarrow> None)"

definition decode_todo :: "json \<Rightarrow> todo option" where
  "decode_todo v = (case struct_fields [''text'', ''completed''] v of
     Some [s, b] \<Rightarrow> Option.bind (as_str s) (\<lambda>s. map_option (\<lambda>b. \<lparr>todo_text = s, todo_completed = b\<rparr>) (as_bool b))
   | _ \<Rightarrow> None)"

definition decode_todo_item :: "json \<Rightarrow> (string \<times> todo list) option" where
  "decode_todo_item v = (case struct_fields [''id'', ''type'', ''items''] v of
     Some [i, t, xs] \<Rightarrow>
       Option.bind (as_str i) (\<lambda>i. Option.bind (as_str t) (\<lambda>_. Option.bind (as_array xs) (\<lambda>xs.
       map_option (Pair i) (those (map decode_todo xs)))))
   | _ \<Rightarrow> None)"

definition decode :: "(json \<Rightarrow> 'a option) \<Rightarrow> json \<Rightarrow> nat \<Rightarrow> string \<Rightarrow> adapter_error + 'a" where
  "decode f v index p = option_ok (shape index p) (f v)"

text \<open>\<open>changes.windows(2).any(|pair| pair[0].path >= pair[1].path)\<close>.\<close>

fun paths_unordered :: "(string \<times> string) list \<Rightarrow> bool" where
  "paths_unordered (a # b # cs) \<longleftrightarrow> fst b \<le> fst a \<or> paths_unordered (b # cs)"
| "paths_unordered _ \<longleftrightarrow> False"

definition parse_change :: "nat \<Rightarrow> string \<times> string \<Rightarrow> adapter_error + change" where
  "parse_change index pk =
     rbind (option_ok (shape index ''$.item.changes[].kind'') (parse_change_kind (snd pk))) (\<lambda>k.
       Inr \<lparr>change_path = fst pk, change_kind = k\<rparr>)"

definition json_type :: "json \<Rightarrow> string option" where
  "json_type v = Option.bind (as_object v) (\<lambda>kvs. Option.bind (map_of kvs ''type'') as_str)"

definition parse_item :: "json \<Rightarrow> nat \<Rightarrow> adapter_error + item" where
  "parse_item v index =
     rbind (option_ok (shape index ''$.item.type'') (json_type v)) (\<lambda>item_type.
       if item_type = ''agent_message'' then
         rbind (decode (decode_text_item ''text'') v index ''$.item'') (\<lambda>(i, x). Inr (AgentMessage i x))
       else if item_type = ''reasoning'' then
         rbind (decode (decode_text_item ''text'') v index ''$.item'') (\<lambda>(i, x).
           if is_blank x then Inl (shape index ''$.item.text'') else Inr (Reasoning i x))
       else if item_type = ''error'' then
         rbind (decode (decode_text_item ''message'') v index ''$.item'') (\<lambda>(i, x). Inr (ItemError i x))
       else if item_type = ''command_execution'' then
         rbind (decode decode_command_item v index ''$.item'') (\<lambda>(i, c, out, code, s).
         rbind (option_ok (shape index ''$.item.status'') (parse_command_status s)) (\<lambda>s.
           Inr (Command i c out code s)))
       else if item_type = ''file_change'' then
         rbind (decode decode_file_item v index ''$.item'') (\<lambda>(i, cs, s).
           if MAX_CHANGES_OR_TODOS < length cs \<or> paths_unordered cs
           then Inl (shape index ''$.item.changes'')
           else rbind (rmap (parse_change index) cs) (\<lambda>cs.
                rbind (option_ok (shape index ''$.item.status'') (parse_file_status s)) (\<lambda>s.
                  Inr (FileChange i cs s))))
       else if item_type = ''todo_list'' then
         rbind (decode decode_todo_item v index ''$.item'') (\<lambda>(i, xs).
           if MAX_CHANGES_OR_TODOS < length xs then Inl (shape index ''$.item.items'')
           else Inr (TodoList i xs))
       else Inl (adapter_error_record UnsupportedRecord index ''$.item.type''))"

definition parse_item_record :: "json \<Rightarrow> nat \<Rightarrow> lifecycle \<Rightarrow> adapter_error + parsed_record" where
  "parse_item_record v index l =
     rbind (decode decode_item_record v index ''$'') (\<lambda>i.
     rbind (parse_item i index) (\<lambda>item. Inr (Item l item)))"

fun lifecycle_legal :: "lifecycle \<Rightarrow> item \<Rightarrow> bool" where
  "lifecycle_legal Completed (AgentMessage _ _) = True"
| "lifecycle_legal Completed (Reasoning _ _) = True"
| "lifecycle_legal Completed (ItemError _ _) = True"
| "lifecycle_legal Started (Command _ _ out code CmdInProgress) = (out = [] \<and> code = None)"
| "lifecycle_legal Completed (Command _ _ _ _ s) = (s \<noteq> CmdInProgress)"
| "lifecycle_legal Started (FileChange _ _ FileInProgress) = True"
| "lifecycle_legal Completed (FileChange _ _ s) = (s \<noteq> FileInProgress)"
| "lifecycle_legal _ (TodoList _ _) = True"
| "lifecycle_legal _ _ = False"

fun validate_lifecycle :: "parsed_record \<Rightarrow> nat \<Rightarrow> adapter_error + unit" where
  "validate_lifecycle (Item l i) index =
     require (lifecycle_legal l i) (adapter_error_record StreamState index ''$.item'')"
| "validate_lifecycle _ index = Inr ()"

definition parse_typed :: "string \<Rightarrow> json \<Rightarrow> nat \<Rightarrow> adapter_error + parsed_record" where
  "parse_typed record_type v index =
     (if record_type = ''thread.started'' then
        rbind (decode decode_thread_started v index ''$'') (\<lambda>i.
          if \<not> is_canonical_uuid_v7 i then Inl (shape index ''$.thread_id'') else Inr (ThreadStarted i))
      else if record_type = ''turn.started'' then
        rbind (decode decode_turn_started v index ''$'') (\<lambda>_. Inr TurnStarted)
      else if record_type = ''turn.completed'' then
        rbind (decode decode_turn_completed v index ''$'') (\<lambda>u.
          if \<not> usage_nonnegative u then Inl (shape index ''$.usage'') else Inr (TurnCompleted u))
      else if record_type = ''turn.failed'' then
        rbind (decode decode_turn_failed v index ''$'') (\<lambda>s. Inr (TurnFailed s))
      else if record_type = ''error'' then
        rbind (decode decode_error_record v index ''$'') (\<lambda>s. Inr (RecError s))
      else if record_type = ''item.started'' then parse_item_record v index Started
      else if record_type = ''item.updated'' then parse_item_record v index Updated
      else if record_type = ''item.completed'' then parse_item_record v index Completed
      else Inl (adapter_error_record UnsupportedRecord index ''$.type''))"

definition parse_record :: "(bytes \<Rightarrow> json option) \<Rightarrow> bytes \<Rightarrow> nat \<Rightarrow> adapter_error + parsed_record" where
  "parse_record from_slice bs index =
     rbind (option_ok (adapter_error_record JsonSyntax index ''$'') (from_slice bs)) (\<lambda>v.
     rbind (option_ok (shape index ''$.type'') (json_type v)) (\<lambda>record_type.
     rbind (parse_typed record_type v index) (\<lambda>parsed.
     rbind (validate_lifecycle parsed index) (\<lambda>_. Inr parsed))))"

section \<open>What a parsed record guarantees\<close>

fun item_wf :: "item \<Rightarrow> bool" where
  "item_wf (Reasoning _ x) = (\<not> is_blank x)"
| "item_wf (FileChange _ cs _) =
     (length cs \<le> MAX_CHANGES_OR_TODOS \<and> sorted_wrt (<) (map change_path cs))"
| "item_wf (TodoList _ xs) = (length xs \<le> MAX_CHANGES_OR_TODOS)"
| "item_wf (Command _ _ _ code _) =
     (case code of None \<Rightarrow> True | Some n \<Rightarrow> - (2 ^ 31) \<le> n \<and> n < 2 ^ 31)"
| "item_wf _ = True"

fun record_wf :: "parsed_record \<Rightarrow> bool" where
  "record_wf (ThreadStarted i) = is_canonical_uuid_v7 i"
| "record_wf (TurnCompleted u) =
     (usage_nonnegative u \<and> input_tokens u < 2 ^ 63 \<and> cached_input_tokens u < 2 ^ 63
      \<and> output_tokens u < 2 ^ 63 \<and> reasoning_output_tokens u < 2 ^ 63)"
| "record_wf (Item l i) = (lifecycle_legal l i \<and> item_wf i)"
| "record_wf _ = True"

lemma paths_unordered_sorted: "\<not> paths_unordered cs \<longleftrightarrow> sorted_wrt (<) (map fst cs)"
proof (induction cs rule: paths_unordered.induct)
  case (1 a b cs)
  then show ?case by (auto simp: not_le dest: order.strict_trans)
qed simp_all

lemma parse_changes_paths:
  "rmap (parse_change index) cs = Inr xs \<Longrightarrow> length xs = length cs \<and> map change_path xs = map fst cs"
  by (auto dest: rmap_length intro!: rmap_map_eq simp: parse_change_def result_simps)

lemma as_int_in_Some: "as_int_in lo hi v = Some n \<Longrightarrow> lo \<le> n \<and> n < hi"
  by (cases v) (auto split: if_splits)

lemma as_nullable_int: "as_nullable (as_int_in lo hi) v = Some (Some n) \<Longrightarrow> lo \<le> n \<and> n < hi"
  by (cases v) (auto split: if_splits)

lemma decode_command_code:
  "decode_command_item v = Some (i, c, out, Some n, s) \<Longrightarrow> - (2 ^ 31) \<le> n \<and> n < 2 ^ 31"
  unfolding decode_command_item_def
  by (auto split: option.splits list.splits simp: bind_eq_Some_conv dest!: as_nullable_int)

lemma decode_usage_bounds:
  "decode_usage v = Some u \<Longrightarrow> input_tokens u < 2 ^ 63 \<and> cached_input_tokens u < 2 ^ 63
     \<and> output_tokens u < 2 ^ 63 \<and> reasoning_output_tokens u < 2 ^ 63"
  unfolding decode_usage_def
  by (auto split: option.splits list.splits simp: bind_eq_Some_conv dest!: as_int_in_Some)

lemma decode_turn_completed_bounds:
  "decode_turn_completed v = Some u \<Longrightarrow> input_tokens u < 2 ^ 63 \<and> cached_input_tokens u < 2 ^ 63
     \<and> output_tokens u < 2 ^ 63 \<and> reasoning_output_tokens u < 2 ^ 63"
  unfolding decode_turn_completed_def
  by (auto split: option.splits list.splits simp: bind_eq_Some_conv dest!: decode_usage_bounds)

lemma parse_item_wf: "parse_item v index = Inr i \<Longrightarrow> item_wf i"
  unfolding parse_item_def decode_def
  by (auto simp: result_simps not_less paths_unordered_sorted
      dest!: decode_command_code parse_changes_paths split: if_splits option.splits)

lemma parse_typed_wf:
  assumes "parse_typed t v index = Inr r" and "validate_lifecycle r index = Inr ()"
  shows "record_wf r"
  using assms unfolding parse_typed_def decode_def parse_item_record_def
  by (auto simp: result_simps dest: parse_item_wf decode_turn_completed_bounds split: if_splits)

section \<open>Properties\<close>

text \<open>C18: a line that parses is well-formed, whatever the JSON parser: the thread identifier is a
  canonical lower-case version-7 UUID, token counts are non-negative and fit 64 bits, exit
  codes fit 32 bits, the paths of a file change are strictly increasing, lists are within
  their bound, reasoning is not blank, and the item is legal in its lifecycle phase.\<close>

theorem parse_record_wf:
  assumes "parse_record from_slice bs index = Inr r"
  shows "record_wf r"
  using assms unfolding parse_record_def by (auto simp: result_simps intro: parse_typed_wf)

definition sample_turn :: json where
  "sample_turn = JObj [(''type'', JStr ''turn.completed''),
     (''usage'', JObj [(''cached_input_tokens'', JInt 0), (''input_tokens'', JInt 7),
                       (''output_tokens'', JInt 2), (''reasoning_output_tokens'', JInt 0)])]"

definition sample_usage :: usage where
  "sample_usage = \<lparr>input_tokens = 7, cached_input_tokens = 0, output_tokens = 2, reasoning_output_tokens = 0\<rparr>"

theorem parse_record_wf_witness: "record_wf (TurnCompleted sample_usage)"
proof -
  have "parse_record (\<lambda>_. Some sample_turn) [] 3 = Inr (TurnCompleted sample_usage)" by code_simp
  then show ?thesis by (rule parse_record_wf)
qed

end
