(* ===== verification/Codex_Stream.thy ===== *)
theory Codex_Stream
  imports Codex_Event
begin

text \<open>
  The stream automaton, \<open>src/src/trajectory/codex_exec_v0/fsm.rs\<close>: which sequences of records
  form a complete turn. The mutable locals of \<open>validate_stream\<close> are the record \<open>stream_state\<close>;
  \<open>stream_record\<close> is one turn of its loop and \<open>validate_item_id\<close> its treatment of an item. The
  raw bytes, which the code passes along and never reads, are left out.
\<close>

section \<open>The automaton\<close>

datatype terminal = TCompleted | TFailed

datatype process_termination = Exited "8 word" | Signaled "8 word" bool

record todo_lifecycle =
  td_id :: string
  td_latest :: "todo list"
  td_completed :: bool

record stream_state =
  turn_started :: bool
  ss_terminal :: "terminal option"
  next_item :: u64
  seen_items :: "(string, item_class) bmap"
  active_items :: "(string, item) bmap"
  ss_todo :: "todo_lifecycle option"
  reconciling :: bool

definition stream_init :: stream_state where
  "stream_init = \<lparr>turn_started = False, ss_terminal = None, next_item = 0, seen_items = [],
     active_items = [], ss_todo = None, reconciling = False\<rparr>"

definition at_record :: "nat \<Rightarrow> string \<Rightarrow> adapter_error" where
  "at_record index p = adapter_error_record StreamState index p"

definition state_error :: adapter_error where
  "state_error = adapter_error_new StreamState"

fun same_active_item :: "item \<Rightarrow> item \<Rightarrow> bool" where
  "same_active_item (Command _ first _ _ CmdInProgress) (Command _ second _ _ s) =
     (s \<noteq> CmdInProgress \<and> first = second)"
| "same_active_item (FileChange _ first FileInProgress) (FileChange _ second s) =
     (s \<noteq> FileInProgress \<and> first = second)"
| "same_active_item (TodoList _ _) (TodoList _ _) = True"
| "same_active_item _ _ = False"

fun is_reconciliation_or_terminal :: "parsed_record \<Rightarrow> bool" where
  "is_reconciliation_or_terminal (Item Completed (Command _ _ _ _ _)) = True"
| "is_reconciliation_or_terminal (Item Completed (FileChange _ _ _)) = True"
| "is_reconciliation_or_terminal (TurnCompleted _) = True"
| "is_reconciliation_or_terminal (TurnFailed _) = True"
| "is_reconciliation_or_terminal _ = False"

definition open_todo :: "nat \<Rightarrow> string \<Rightarrow> stream_state \<Rightarrow> adapter_error + todo_lifecycle" where
  "open_todo index i st =
     (case ss_todo st of
        Some td \<Rightarrow> if td_id td = i \<and> \<not> td_completed td then Inr td else Inl (at_record index ''$.item'')
      | None \<Rightarrow> Inl (at_record index ''$.item''))"

fun first_is_legal :: "item \<Rightarrow> lifecycle \<Rightarrow> bool" where
  "first_is_legal (AgentMessage _ _) l = (l = Completed)"
| "first_is_legal (Reasoning _ _) l = (l = Completed)"
| "first_is_legal (ItemError _ _) l = (l = Completed)"
| "first_is_legal (Command _ _ _ _ _) l = (l = Started)"
| "first_is_legal (FileChange _ _ _) l = (l = Started)"
| "first_is_legal (TodoList _ _) l = (l = Started)"

text \<open>A record about an item that was seen before.\<close>

definition known_item :: "nat \<Rightarrow> lifecycle \<Rightarrow> item \<Rightarrow> stream_state \<Rightarrow> adapter_error + stream_state" where
  "known_item index l item st =
     (case (item, l) of
        (TodoList i items, Updated) \<Rightarrow>
          rbind (open_todo index i st) (\<lambda>td. Inr (st\<lparr>ss_todo := Some (td\<lparr>td_latest := items\<rparr>)\<rparr>))
      | (Command i _ _ _ _, Completed) \<Rightarrow> Inr (st\<lparr>active_items := bm_remove i (active_items st)\<rparr>)
      | (FileChange i _ _, Completed) \<Rightarrow> Inr (st\<lparr>active_items := bm_remove i (active_items st)\<rparr>)
      | (TodoList i items, Completed) \<Rightarrow>
          rbind (open_todo index i st) (\<lambda>td.
            if td_latest td \<noteq> items then Inl (at_record index ''$.item.items'')
            else Inr (st\<lparr>ss_todo := Some (td\<lparr>td_completed := True\<rparr>),
                         active_items := bm_remove i (active_items st), reconciling := True\<rparr>))
      | _ \<Rightarrow> Inl (at_record index ''$.item''))"

definition activate :: "item \<Rightarrow> stream_state \<Rightarrow> stream_state" where
  "activate item st = st\<lparr>active_items := bm_insert (item_id item) item (active_items st)\<rparr>"

text \<open>The first record about an item.\<close>

definition new_item :: "nat \<Rightarrow> lifecycle \<Rightarrow> item \<Rightarrow> stream_state \<Rightarrow> adapter_error + stream_state" where
  "new_item index l item st =
     (if item_id item \<noteq> ''item_'' @ show_nat (unat (next_item st)) then Inl (at_record index ''$.item.id'')
      else if next_item st = - 1 then Inl state_error
      else if \<not> first_is_legal item l then Inl (at_record index ''$.item'')
      else let st = st\<lparr>next_item := next_item st + 1,
                       seen_items := bm_insert (item_id item) (item_class_of item) (seen_items st)\<rparr>
           in case item of
                TodoList i items \<Rightarrow>
                  if ss_todo st \<noteq> None then Inl (at_record index ''$.item'')
                  else Inr (activate item (st\<lparr>ss_todo := Some \<lparr>td_id = i, td_latest = items, td_completed = False\<rparr>\<rparr>))
              | Command _ _ _ _ _ \<Rightarrow> Inr (activate item st)
              | FileChange _ _ _ \<Rightarrow> Inr (activate item st)
              | _ \<Rightarrow> Inr st)"

definition validate_item_id :: "nat \<Rightarrow> lifecycle \<Rightarrow> item \<Rightarrow> stream_state \<Rightarrow> adapter_error + stream_state" where
  "validate_item_id index l item st =
     (if 128 < length (item_id item) then Inl (at_record index ''$.item.id'')
      else case bm_get (seen_items st) (item_id item) of
        Some previous \<Rightarrow>
          if previous \<noteq> item_class_of item then Inl (at_record index ''$.item.id'')
          else rbind (option_ok (at_record index ''$.item.id'') (bm_get (active_items st) (item_id item))) (\<lambda>started.
            if \<not> same_active_item started item then Inl (at_record index ''$.item'')
            else known_item index l item st)
      | None \<Rightarrow> new_item index l item st)"

definition stream_record :: "stream_state \<Rightarrow> nat \<times> parsed_record \<Rightarrow> adapter_error + stream_state" where
  "stream_record st ir =
     (case ir of (index, record) \<Rightarrow>
       if ss_terminal st \<noteq> None then Inl (at_record index ''$.type'')
       else if reconciling st \<and> \<not> is_reconciliation_or_terminal record then Inl (at_record index ''$.type'')
       else case record of
         ThreadStarted _ \<Rightarrow> if index = 0 then Inr st else Inl (at_record index ''$.type'')
       | TurnStarted \<Rightarrow>
           if \<not> turn_started st \<and> 0 < index then Inr (st\<lparr>turn_started := True\<rparr>)
           else Inl (at_record index ''$.type'')
       | RecError _ \<Rightarrow> Inr st
       | Item l item \<Rightarrow>
           if \<not> turn_started st \<and> \<not> (l = Completed \<and> item_class_of item = CError)
           then Inl (at_record index ''$.item'')
           else validate_item_id index l item st
       | TurnCompleted _ \<Rightarrow>
           if \<not> turn_started st \<or> active_items st \<noteq> [] then Inl (at_record index ''$.type'')
           else Inr (st\<lparr>ss_terminal := Some TCompleted\<rparr>)
       | TurnFailed _ \<Rightarrow>
           if \<not> turn_started st \<or> active_items st \<noteq> [] then Inl (at_record index ''$.type'')
           else Inr (st\<lparr>ss_terminal := Some TFailed\<rparr>))"

definition validate_termination :: "terminal \<Rightarrow> process_termination option \<Rightarrow> adapter_error + unit" where
  "validate_termination t termination =
     (case termination of
        None \<Rightarrow> Inr ()
      | Some (Exited code) \<Rightarrow>
          if t = TCompleted \<and> (code = 0 \<or> code = 1) \<or> t = TFailed \<and> code = 1 then Inr ()
          else Inl (adapter_error_new IllegalTermination)
      | Some (Signaled _ _) \<Rightarrow> Inl (adapter_error_new UnsupportedProfile))"

definition validate_stream :: "parsed_record list \<Rightarrow> process_termination option \<Rightarrow> adapter_error + terminal" where
  "validate_stream records termination =
     (if \<not> (case records of ThreadStarted _ # _ \<Rightarrow> True | _ \<Rightarrow> False) then Inl state_error
      else rbind (rfold stream_record stream_init (enumerate 0 records)) (\<lambda>st.
           rbind (option_ok state_error (ss_terminal st)) (\<lambda>t.
           rbind (validate_termination t termination) (\<lambda>_. Inr t))))"

section \<open>The protocol, declaratively\<close>

text \<open>The records about one item, in order, and the shapes they may have.\<close>

definition uses_of :: "string \<Rightarrow> parsed_record list \<Rightarrow> (lifecycle \<times> item) list" where
  "uses_of i rs = concat (map (\<lambda>r. case r of Item l x \<Rightarrow> if item_id x = i then [(l, x)] else [] | _ \<Rightarrow> []) rs)"

fun todo_items :: "item \<Rightarrow> todo list" where
  "todo_items (TodoList _ xs) = xs"
| "todo_items _ = []"

definition is_todo :: "item \<Rightarrow> bool" where
  "is_todo x \<longleftrightarrow> item_class_of x = CTodoList"

text \<open>An item still open: what was started, and for a plan its latest state.\<close>

definition open_uses :: "(lifecycle \<times> item) list \<Rightarrow> bool" where
  "open_uses us \<longleftrightarrow> (\<exists>x ys. us = (Started, x) # ys
     \<and> (if is_todo x then (\<forall>u \<in> set ys. fst u = Updated \<and> is_todo (snd u))
        else ys = [] \<and> item_class_of x \<in> {CCommand, CFileChange}))"

definition closed_uses :: "(lifecycle \<times> item) list \<Rightarrow> bool" where
  "closed_uses us \<longleftrightarrow>
     (\<exists>x. us = [(Completed, x)] \<and> item_class_of x \<in> {CAgentMessage, CReasoning, CError})
     \<or> (\<exists>us' x. us = us' @ [(Completed, x)] \<and> open_uses us' \<and> same_active_item (snd (hd us')) x
          \<and> (is_todo x \<longrightarrow> todo_items x = todo_items (snd (last us'))))"

definition is_thread_started :: "parsed_record \<Rightarrow> bool" where
  "is_thread_started r \<longleftrightarrow> (case r of ThreadStarted _ \<Rightarrow> True | _ \<Rightarrow> False)"

definition item_ids :: "parsed_record list \<Rightarrow> string list" where
  "item_ids rs = concat (map (\<lambda>r. case r of Item l x \<Rightarrow> [item_id x] | _ \<Rightarrow> []) rs)"

text \<open>The distinct elements of a list, in the order of their first occurrence.\<close>

definition first_occurrences :: "'a list \<Rightarrow> 'a list" where
  "first_occurrences xs = rev (remdups (rev xs))"

section \<open>Lemmas: the invariant of the automaton\<close>

lemma uses_of_snoc [simp]:
  "uses_of i [] = []"
  "uses_of i (h @ [r]) = uses_of i h @ (case r of Item l x \<Rightarrow> if item_id x = i then [(l, x)] else [] | _ \<Rightarrow> [])"
  by (simp_all add: uses_of_def)

lemma item_ids_snoc [simp]:
  "item_ids [] = []"
  "item_ids (h @ [r]) = item_ids h @ (case r of Item l x \<Rightarrow> [item_id x] | _ \<Rightarrow> [])"
  by (simp_all add: item_ids_def)

lemma uses_of_Nil_iff: "uses_of i h = [] \<longleftrightarrow> i \<notin> set (item_ids h)"
  by (induction h rule: rev_induct) (auto split: parsed_record.splits)

lemma first_occurrences_snoc:
  "first_occurrences [] = []"
  "first_occurrences (xs @ [x]) = (if x \<in> set xs then first_occurrences xs else first_occurrences xs @ [x])"
  by (simp_all add: first_occurrences_def)

definition item_name :: "nat \<Rightarrow> string" where
  "item_name k = ''item_'' @ show_nat k"

definition terminal_of :: "parsed_record \<Rightarrow> terminal option" where
  "terminal_of r = (case r of TurnCompleted _ \<Rightarrow> Some TCompleted | TurnFailed _ \<Rightarrow> Some TFailed | _ \<Rightarrow> None)"

definition todo_closed :: "parsed_record \<Rightarrow> bool" where
  "todo_closed r \<longleftrightarrow> (case r of Item l x \<Rightarrow> l = Completed \<and> is_todo x | _ \<Rightarrow> False)"

text \<open>The shape of the stream so far.\<close>

definition shape_inv :: "parsed_record list \<Rightarrow> stream_state \<Rightarrow> bool" where
  "shape_inv h st \<longleftrightarrow> count_list h TurnStarted = (if turn_started st then 1 else 0)
     \<and> list_all (\<lambda>r. \<not> is_thread_started r) (tl h)
     \<and> list_all (\<lambda>r. terminal_of r = None) (butlast h)
     \<and> ss_terminal st = (if h = [] then None else terminal_of (last h))
     \<and> (ss_terminal st \<noteq> None \<longrightarrow> turn_started st \<and> active_items st = [])
     \<and> reconciling st = list_ex todo_closed h
     \<and> (\<forall>a r b. h = a @ r # b \<and> todo_closed r \<longrightarrow> list_all is_reconciliation_or_terminal b)"

text \<open>The items so far.\<close>

fun use_ok :: "item option \<Rightarrow> (lifecycle \<times> item) list \<Rightarrow> bool" where
  "use_ok (Some x) us \<longleftrightarrow> open_uses us \<and> snd (hd us) = x"
| "use_ok None us \<longleftrightarrow> us = [] \<or> closed_uses us"

definition item_inv :: "parsed_record list \<Rightarrow> stream_state \<Rightarrow> bool" where
  "item_inv h st \<longleftrightarrow> (\<forall>i. bm_has (seen_items st) i \<longleftrightarrow> i \<in> set (item_ids h))
     \<and> first_occurrences (item_ids h) = map item_name [0..<unat (next_item st)]
     \<and> bm_wf (active_items st)
     \<and> (\<forall>i. use_ok (bm_get (active_items st) i) (uses_of i h))
     \<and> (\<forall>td. ss_todo st = Some td \<longrightarrow> td_id td \<in> set (item_ids h)
          \<and> is_todo (snd (hd (uses_of (td_id td) h)))
          \<and> (\<not> td_completed td \<longrightarrow> td_latest td = todo_items (snd (last (uses_of (td_id td) h)))))"

lemma item_inv_init: "item_inv [] stream_init"
  by (simp add: item_inv_def stream_init_def bm_has_def first_occurrences_snoc)

lemma shape_inv_init: "shape_inv [] stream_init"
  by (simp add: shape_inv_def stream_init_def)

lemma item_inv_other:
  assumes "item_inv h st" and "\<And>l x. r \<noteq> Item l x"
    and "seen_items st' = seen_items st" "next_item st' = next_item st" "active_items st' = active_items st" "ss_todo st' = ss_todo st"
  shows "item_inv (h @ [r]) st'"
  using assms by (cases r) (auto simp: item_inv_def)

lemma unat_plus1: "n \<noteq> - 1 \<Longrightarrow> unat (n + 1) = Suc (unat n)" for n :: u64
  using unatSuc [of n] by (simp add: add.commute eq_neg_iff_add_eq_0)

lemma item_inv_new:
  assumes inv: "item_inv h st" and new: "\<not> bm_has (seen_items st) (item_id x)" and ok: "new_item index l x st = Inr st'"
  shows "item_inv (h @ [Item l x]) st'"
proof -
  let ?i = "item_id x"
  have legal: "?i = item_name (unat (next_item st))" "next_item st \<noteq> - 1" "first_is_legal x l"
    using ok by (auto simp: new_item_def item_name_def split: if_splits)
  have fresh: "?i \<notin> set (item_ids h)" "uses_of ?i h = []"
    using inv new by (auto simp: item_inv_def uses_of_Nil_iff)
  have nxt: "unat (next_item st') = Suc (unat (next_item st))"
  proof -
    have "next_item st' = next_item st + 1"
      using ok by (auto simp: new_item_def activate_def Let_def split: if_splits item.splits)
    then show ?thesis using legal(2) by (simp add: unat_plus1)
  qed
  have seen: "bm_has (seen_items st') i \<longleftrightarrow> i = ?i \<or> bm_has (seen_items st) i" for i
    using ok by (auto simp: new_item_def activate_def Let_def split: if_splits item.splits)
  have "bm_wf (active_items st')"
    using ok inv by (auto simp: new_item_def activate_def Let_def item_inv_def split: if_splits item.splits)
  moreover have "use_ok (bm_get (active_items st') i) (uses_of i (h @ [Item l x]))" for i
  proof (cases "i = ?i")
    case True
    have "bm_get (active_items st) ?i = None"
    proof (cases "bm_get (active_items st) ?i")
      case (Some y)
      then have "open_uses (uses_of ?i h)" using inv unfolding item_inv_def by (metis use_ok.simps(1))
      with fresh(2) show ?thesis by (simp add: open_uses_def)
    qed
    with True fresh(2) ok legal(3) show ?thesis
      by (cases x) (auto simp: new_item_def activate_def Let_def open_uses_def closed_uses_def is_todo_def split: if_splits)
  next
    case False
    then have "bm_get (active_items st') i = bm_get (active_items st) i"
      using ok by (auto simp: new_item_def activate_def Let_def split: if_splits item.splits)
    with False inv show ?thesis by (auto simp: item_inv_def)
  qed
  moreover have "td_id td \<in> set (item_ids (h @ [Item l x]))
      \<and> is_todo (snd (hd (uses_of (td_id td) (h @ [Item l x]))))
      \<and> (\<not> td_completed td \<longrightarrow> td_latest td = todo_items (snd (last (uses_of (td_id td) (h @ [Item l x])))))"
    if "ss_todo st' = Some td" for td
  proof (cases "ss_todo st' = ss_todo st")
    case True
    with that inv have "td_id td \<in> set (item_ids h)" "is_todo (snd (hd (uses_of (td_id td) h)))"
      "\<not> td_completed td \<longrightarrow> td_latest td = todo_items (snd (last (uses_of (td_id td) h)))"
      by (auto simp: item_inv_def)
    moreover from this fresh(1) have "td_id td \<noteq> ?i" by auto
    ultimately show ?thesis by simp
  next
    case False
    with ok obtain i items where "x = TodoList i items" "ss_todo st' = Some \<lparr>td_id = i, td_latest = items, td_completed = False\<rparr>"
      by (auto simp: new_item_def activate_def Let_def split: if_splits item.splits)
    with that fresh(2) show ?thesis by (auto simp: is_todo_def)
  qed
  ultimately show ?thesis
    using inv seen nxt legal(1) fresh(1)
    unfolding item_inv_def by (auto simp: first_occurrences_snoc)
qed

lemma same_active_todo: "same_active_item s x \<Longrightarrow> is_todo s = is_todo x"
  by (induction s x rule: same_active_item.induct) (auto simp: is_todo_def)

lemma open_uses_update:
  assumes "open_uses us" and "is_todo (snd (hd us))" and "is_todo x"
  shows "open_uses (us @ [(Updated, x)]) \<and> hd (us @ [(Updated, x)]) = hd us"
proof -
  obtain y ys where us: "us = (Started, y) # ys" using assms(1) by (auto simp: open_uses_def)
  with assms show ?thesis unfolding open_uses_def by auto
qed

lemma item_inv_known_uses:
  assumes "item_inv h st" and "bm_get (active_items st) (item_id x) = Some s" and "same_active_item s x"
  shows "open_uses (uses_of (item_id x) h)" and "snd (hd (uses_of (item_id x) h)) = s"
    and "\<not> is_todo x \<Longrightarrow> closed_uses (uses_of (item_id x) h @ [(Completed, x)])"
    and "is_todo x \<Longrightarrow> todo_items x = todo_items (snd (last (uses_of (item_id x) h)))
          \<Longrightarrow> closed_uses (uses_of (item_id x) h @ [(Completed, x)])"
proof -
  show *: "open_uses (uses_of (item_id x) h)" "snd (hd (uses_of (item_id x) h)) = s"
    using assms(1,2) unfolding item_inv_def by (metis use_ok.simps(1))+
  show "\<not> is_todo x \<Longrightarrow> closed_uses (uses_of (item_id x) h @ [(Completed, x)])"
    and "is_todo x \<Longrightarrow> todo_items x = todo_items (snd (last (uses_of (item_id x) h)))
          \<Longrightarrow> closed_uses (uses_of (item_id x) h @ [(Completed, x)])"
    using * assms(3) unfolding closed_uses_def by blast+
qed

text \<open>A record about a known item changes only that item's entries.\<close>

lemma item_inv_step:
  assumes inv: "item_inv h st" and known: "item_id x \<in> set (item_ids h)"
    and same: "seen_items st' = seen_items st" "next_item st' = next_item st" "bm_wf (active_items st')"
    and other: "\<And>i. i \<noteq> item_id x \<Longrightarrow> bm_get (active_items st') i = bm_get (active_items st) i"
    and here: "use_ok (bm_get (active_items st') (item_id x)) (uses_of (item_id x) h @ [(l, x)])"
    and todo: "ss_todo st' = ss_todo st \<and> (\<forall>td. ss_todo st = Some td \<longrightarrow> td_id td \<noteq> item_id x)
      \<or> (\<exists>td. ss_todo st' = Some td \<and> td_id td = item_id x \<and> is_todo (snd (hd (uses_of (item_id x) h)))
        \<and> (\<not> td_completed td \<longrightarrow> td_latest td = todo_items x))"
  shows "item_inv (h @ [Item l x]) st'"
proof -
  have "use_ok (bm_get (active_items st') i) (uses_of i (h @ [Item l x]))" for i
    using inv other [of i] here by (cases "i = item_id x") (auto simp: item_inv_def)
  moreover have "td_id td \<in> set (item_ids (h @ [Item l x]))
      \<and> is_todo (snd (hd (uses_of (td_id td) (h @ [Item l x]))))
      \<and> (\<not> td_completed td \<longrightarrow> td_latest td = todo_items (snd (last (uses_of (td_id td) (h @ [Item l x])))))"
    if "ss_todo st' = Some td" for td
    using todo
  proof (elim disjE conjE exE)
    assume "ss_todo st' = ss_todo st" "\<forall>td. ss_todo st = Some td \<longrightarrow> td_id td \<noteq> item_id x"
    with that inv show ?thesis by (auto simp: item_inv_def)
  next
    fix td' assume td': "ss_todo st' = Some td'" "td_id td' = item_id x"
      "is_todo (snd (hd (uses_of (item_id x) h)))" "\<not> td_completed td' \<longrightarrow> td_latest td' = todo_items x"
    have "uses_of (item_id x) h \<noteq> []" using known by (simp add: uses_of_Nil_iff)
    with td' that show ?thesis by simp
  qed
  ultimately show ?thesis
    using inv known same unfolding item_inv_def by (auto simp: first_occurrences_snoc)
qed

lemma open_todo_Inr: "open_todo index i st = Inr td \<longleftrightarrow> ss_todo st = Some td \<and> td_id td = i \<and> \<not> td_completed td"
  by (auto simp: open_todo_def split: option.splits if_splits)

lemma todo_known:
  assumes "item_inv h st" and "ss_todo st = Some td" and "\<not> td_completed td"
  shows "td_latest td = todo_items (snd (last (uses_of (td_id td) h)))"
  using assms by (auto simp: item_inv_def)

lemma item_inv_known:
  assumes inv: "item_inv h st" and act: "bm_get (active_items st) (item_id x) = Some s"
    and same: "same_active_item s x" and ok: "known_item index l x st = Inr st'"
  shows "item_inv (h @ [Item l x]) st'"
proof (rule item_inv_step [OF inv])
  note uses = item_inv_known_uses [OF inv act same]
  have ne: "uses_of (item_id x) h \<noteq> []" using uses(1) by (auto simp: open_uses_def)
  then show "item_id x \<in> set (item_ids h)" by (simp add: uses_of_Nil_iff)
  have wf: "bm_wf (active_items st)" using inv by (simp add: item_inv_def)
  show "seen_items st' = seen_items st" "next_item st' = next_item st" "bm_wf (active_items st')"
    and "\<And>i. i \<noteq> item_id x \<Longrightarrow> bm_get (active_items st') i = bm_get (active_items st) i"
    using ok wf by (auto simp: known_item_def result_simps split: item.splits lifecycle.splits if_splits)
  show "use_ok (bm_get (active_items st') (item_id x)) (uses_of (item_id x) h @ [(l, x)])"
    using ok act uses open_uses_update [of "uses_of (item_id x) h" x] same_active_todo [OF same] todo_known [OF inv]
    by (auto simp: known_item_def result_simps open_todo_Inr is_todo_def split: item.splits lifecycle.splits if_splits)
  have "td_id td \<noteq> item_id x" if "\<not> is_todo x" "ss_todo st = Some td" for td
    using that inv uses(2) same_active_todo [OF same] by (auto simp: item_inv_def)
  then show "ss_todo st' = ss_todo st \<and> (\<forall>td. ss_todo st = Some td \<longrightarrow> td_id td \<noteq> item_id x)
      \<or> (\<exists>td. ss_todo st' = Some td \<and> td_id td = item_id x \<and> is_todo (snd (hd (uses_of (item_id x) h)))
        \<and> (\<not> td_completed td \<longrightarrow> td_latest td = todo_items x))"
    using ok uses(2) same_active_todo [OF same]
    by (auto simp: known_item_def result_simps open_todo_Inr is_todo_def split: item.splits lifecycle.splits if_splits)
qed

lemma item_inv_record:
  assumes inv: "item_inv h st" and ok: "stream_record st (index, r) = Inr st'"
  shows "item_inv (h @ [r]) st'"
proof (cases r)
  case (Item l x)
  have v: "validate_item_id index l x st = Inr st'"
    using ok by (auto simp: stream_record_def Item split: if_splits)
  show ?thesis
  proof (cases "bm_get (seen_items st) (item_id x)")
    case None
    with v have "new_item index l x st = Inr st'" by (auto simp: validate_item_id_def split: if_splits)
    moreover have "\<not> bm_has (seen_items st) (item_id x)" using None by (simp add: bm_has_get)
    ultimately show ?thesis unfolding Item using item_inv_new [OF inv] by blast
  next
    case (Some c)
    with v obtain s where "bm_get (active_items st) (item_id x) = Some s" "same_active_item s x"
        "known_item index l x st = Inr st'"
      by (auto simp: validate_item_id_def result_simps split: if_splits)
    then show ?thesis unfolding Item by (rule item_inv_known [OF inv])
  qed
qed (use ok in \<open>auto simp: stream_record_def split: if_splits intro!: item_inv_other [OF inv]\<close>)

lemma item_keeps:
  assumes "validate_item_id index l x st = Inr st'"
  shows "turn_started st' = turn_started st" "ss_terminal st' = ss_terminal st"
    "reconciling st' = (reconciling st \<or> todo_closed (Item l x))"
  using assms
  by (auto simp: validate_item_id_def known_item_def new_item_def activate_def Let_def result_simps
      todo_closed_def is_todo_def split: option.splits if_splits item.splits lifecycle.splits)

lemma reconciliation_snoc:
  assumes "\<And>a r b. h = a @ r # b \<Longrightarrow> todo_closed r \<Longrightarrow> list_all is_reconciliation_or_terminal b"
    and "list_ex todo_closed h \<Longrightarrow> is_reconciliation_or_terminal r'"
    and "h @ [r'] = a @ r # b" and "todo_closed r"
  shows "list_all is_reconciliation_or_terminal b"
proof (cases b rule: rev_cases)
  case (snoc b' z)
  with assms(3) have h: "h = a @ r # b'" "z = r'" by auto
  then have "list_ex todo_closed h" using assms(4) by simp
  with assms(1) [OF h(1) assms(4)] assms(2) h(2) snoc show ?thesis by simp
qed simp

lemma shape_inv_record:
  assumes inv: "shape_inv h st" and ok: "stream_record st (length h, r) = Inr st'"
  shows "shape_inv (h @ [r]) st'"
proof -
  have none: "ss_terminal st = None" and rec: "reconciling st \<Longrightarrow> is_reconciliation_or_terminal r"
    using ok by (auto simp: stream_record_def split: if_splits)
  have "list_all (\<lambda>r. terminal_of r = None) h"
    using inv none by (cases h rule: rev_cases) (auto simp: shape_inv_def)
  moreover have "list_all is_reconciliation_or_terminal b" if "h @ [r] = a @ r' # b" "todo_closed r'" for a r' b
    by (rule reconciliation_snoc [OF _ _ that]) (use inv rec in \<open>auto simp: shape_inv_def\<close>)
  moreover have "ss_terminal st' = terminal_of r" "reconciling st' = (reconciling st \<or> todo_closed r)"
    "ss_terminal st' \<noteq> None \<longrightarrow> turn_started st' \<and> active_items st' = []"
    using ok none item_keeps
    by (auto simp: stream_record_def terminal_of_def todo_closed_def split: parsed_record.splits if_splits)
  moreover have "count_list (h @ [r]) TurnStarted = (if turn_started st' then 1 else 0)"
    using ok inv item_keeps(1)
    by (auto simp: stream_record_def shape_inv_def split: parsed_record.splits if_splits)
  moreover have "list_all (\<lambda>r. \<not> is_thread_started r) (tl (h @ [r]))"
    using ok inv
    by (cases h) (auto simp: stream_record_def shape_inv_def is_thread_started_def split: parsed_record.splits if_splits)
  ultimately show ?thesis
    using inv unfolding shape_inv_def by auto
qed

lemma stream_run:
  assumes "rfold stream_record st (enumerate (length h) rs) = Inr st'" and "shape_inv h st" and "item_inv h st"
  shows "shape_inv (h @ rs) st' \<and> item_inv (h @ rs) st'"
  using assms
proof (induction rs arbitrary: h st)
  case (Cons r rs)
  then obtain st1 where st1: "stream_record st (length h, r) = Inr st1"
      "rfold stream_record st1 (enumerate (length (h @ [r])) rs) = Inr st'"
    by (auto simp: result_simps)
  from Cons.IH [OF st1(2)] shape_inv_record [OF Cons.prems(2) st1(1)] item_inv_record [OF Cons.prems(3) st1(1)]
  show ?case by simp
qed simp

lemma validate_stream_run:
  assumes "validate_stream rs termination = Inr t"
  shows "\<exists>st tid rest. rs = ThreadStarted tid # rest \<and> shape_inv rs st \<and> item_inv rs st \<and> ss_terminal st = Some t
    \<and> validate_termination t termination = Inr ()"
proof -
  obtain tid rest where rs: "rs = ThreadStarted tid # rest"
    using assms by (auto simp: validate_stream_def split: list.splits parsed_record.splits if_splits)
  obtain st where st: "rfold stream_record stream_init (enumerate 0 rs) = Inr st" "ss_terminal st = Some t"
      "validate_termination t termination = Inr ()"
    using assms by (auto simp: validate_stream_def result_simps split: if_splits)
  have "shape_inv rs st \<and> item_inv rs st"
    using stream_run [of stream_init "[]" rs st] st(1) shape_inv_init item_inv_init by simp
  with rs st(2,3) show ?thesis by blast
qed

section \<open>Properties\<close>

text \<open>C12: the shape of an accepted stream. It opens with its only \<open>thread.started\<close>, has exactly one
  \<open>turn.started\<close>, ends with the only terminal record, which is the reported outcome, and after
  a plan is completed holds nothing but completions of commands and file changes and the
  terminal record; the exit status of the process agrees with the outcome.\<close>

theorem accepted_stream_shape:
  assumes "validate_stream rs termination = Inr t"
  shows "\<exists>tid body r. rs = ThreadStarted tid # body @ [r] \<and> terminal_of r = Some t
    \<and> (\<forall>x \<in> set body. \<not> is_thread_started x \<and> terminal_of x = None)
    \<and> count_list rs TurnStarted = 1
    \<and> (\<forall>a x b. rs = a @ x # b \<and> todo_closed x \<longrightarrow> list_all is_reconciliation_or_terminal b)
    \<and> (\<forall>p. termination = Some p \<longrightarrow> p = Exited 1 \<or> p = Exited 0 \<and> t = TCompleted)"
proof -
  obtain st tid rest where st: "rs = ThreadStarted tid # rest" "shape_inv rs st" "ss_terminal st = Some t"
      "validate_termination t termination = Inr ()"
    using validate_stream_run [OF assms] by blast
  have "terminal_of (last rs) = Some t" using st(1,2,3) by (simp add: shape_inv_def)
  moreover have "rest \<noteq> []"
    using calculation st(1) by (auto simp: terminal_of_def)
  then obtain body r where rest: "rest = body @ [r]" by (cases rest rule: rev_cases) auto
  ultimately have last: "terminal_of r = Some t" using st(1) by simp
  have "\<forall>x \<in> set body. \<not> is_thread_started x \<and> terminal_of x = None"
    using st(1,2) rest by (auto simp: shape_inv_def list_all_iff butlast_append)
  moreover have "count_list rs TurnStarted = 1" using st(2,3) by (auto simp: shape_inv_def)
  moreover have "\<forall>p. termination = Some p \<longrightarrow> p = Exited 1 \<or> p = Exited 0 \<and> t = TCompleted"
    using st(4) by (auto simp: validate_termination_def split: process_termination.splits if_splits)
  ultimately show ?thesis
    using st(1,2) rest last unfolding shape_inv_def by blast
qed

definition sample_stream :: "parsed_record list" where
  "sample_stream = [ThreadStarted ''t'', TurnStarted,
     Item Started (TodoList ''item_0'' []), Item Started (Command ''item_1'' ''ls'' [] None CmdInProgress),
     Item Updated (TodoList ''item_0'' [\<lparr>todo_text = ''a'', todo_completed = True\<rparr>]),
     Item Completed (AgentMessage ''item_2'' ''hi''),
     Item Completed (TodoList ''item_0'' [\<lparr>todo_text = ''a'', todo_completed = True\<rparr>]),
     Item Completed (Command ''item_1'' ''ls'' ''out'' (Some 0) CmdCompleted), TurnCompleted sample_usage]"

lemma sample_stream_accepted: "validate_stream sample_stream (Some (Exited 0)) = Inr TCompleted"
  by code_simp

theorem accepted_stream_shape_witness: "count_list sample_stream TurnStarted = 1"
  using accepted_stream_shape [OF sample_stream_accepted] by auto

text \<open>C4: the items of an accepted stream. Their identifiers are \<open>item_0\<close>, \<open>item_1\<close>, ... in the order
  in which they first occur; every message occurs once, completed; every command and file
  change is started once and then completed once, with the same command line or changes; a
  plan is started, updated any number of times and completed with its latest state; nothing
  is left open.\<close>

theorem accepted_stream_items:
  assumes "validate_stream rs termination = Inr t"
  shows "(\<exists>n. first_occurrences (item_ids rs) = map item_name [0..<n])
    \<and> (\<forall>i \<in> set (item_ids rs). closed_uses (uses_of i rs))"
proof -
  obtain st where st: "shape_inv rs st" "item_inv rs st" "ss_terminal st = Some t"
    using validate_stream_run [OF assms] by blast
  then have "active_items st = []" by (simp add: shape_inv_def)
  then have "uses_of i rs = [] \<or> closed_uses (uses_of i rs)" for i
    using st(2) unfolding item_inv_def by (metis bm_get_Nil use_ok.simps(2))
  with st(2) show ?thesis by (auto simp: item_inv_def uses_of_Nil_iff)
qed

theorem accepted_stream_items_witness:
  "closed_uses [(Started, Command ''item_1'' ''ls'' [] None CmdInProgress),
     (Completed, Command ''item_1'' ''ls'' ''out'' (Some 0) CmdCompleted)]"
proof -
  have "''item_1'' \<in> set (item_ids sample_stream)" by (simp add: sample_stream_def item_ids_def)
  with accepted_stream_items [OF sample_stream_accepted] have "closed_uses (uses_of ''item_1'' sample_stream)" by blast
  then show ?thesis by (simp add: sample_stream_def uses_of_def)
qed

end
