(* ===== verification/Governance_Flow.thy ===== *)
theory Governance_Flow
  imports Governance_Traverse
begin

text \<open>
  What a traversal computes, whatever the order in which it visits the nodes. A \<open>flow\<close> assigns to
  every node the batch of claims that reaches it: the whole input at an entry node, otherwise the
  claims that its predecessors escalate. The locale \<open>claim_flow\<close> is the interface between a
  traversal and this description: a state with a queue per node and the final decisions so far,
  and a step that evaluates one node. It is interpreted on the traversal of
  \<open>src/src/graph/traverse.rs\<close> here and on the order-driven evaluation of
  \<open>src/src/axioms/kernel/observable.rs\<close> in the theory of that file.
\<close>

section \<open>Decisions of a node, claim by claim\<close>

fun node_dec :: "regex_engine \<Rightarrow> governance_node \<Rightarrow> governance_claim list \<Rightarrow> governance_claim \<Rightarrow> legitimacy_error + decision" where
  "node_dec rx (Binary i n gates dflt l) b c = evaluate_combination rx l gates c b dflt"
| "node_dec rx (Threshold i n threshold field) b c =
     rbind (numeric_field c field) (\<lambda>v. Inr (if f64_le threshold v then Permit else Deny))"
| "node_dec rx (Proportional i n r classes) b c = Inl (UnsupportedNodeType i ''Proportional'')"

fun supported :: "governance_node \<Rightarrow> bool" where
  "supported (Proportional i n r classes) = False"
| "supported n = True"

fun node_gates :: "governance_node \<Rightarrow> gate list" where
  "node_gates (Binary i n gates d l) = gates"
| "node_gates _ = []"

lemma rmap_as_map: "rmap f xs = Inr ys \<longleftrightarrow> (\<forall>x \<in> set xs. \<exists>y. f x = Inr y) \<and> ys = map (projr \<circ> f) xs"
  by (induction xs arbitrary: ys) (auto simp: result_simps)

lemma evaluate_as_decs:
  "evaluate_node_validated rx n b = Inr ds \<longleftrightarrow>
     supported n \<and> (\<forall>c \<in> set b. \<exists>d. node_dec rx n b c = Inr d)
     \<and> ds = map (\<lambda>c. decide c (projr (node_dec rx n b c))) b"
proof (cases n)
  case (Binary i nm gates d l)
  have "map (projr \<circ> (\<lambda>c. rbind (evaluate_combination rx l gates c b d) (\<lambda>d. Inr (decide c d)))) b
      = map (\<lambda>c. decide c (projr (evaluate_combination rx l gates c b d))) b"
    if "\<forall>c \<in> set b. \<exists>r. evaluate_combination rx l gates c b d = Inr r"
    using that by (intro map_cong) auto
  then show ?thesis
    by (auto simp: Binary evaluate_binary_node_def rmap_as_map result_simps)
next
  case (Threshold i nm t f)
  have "map (projr \<circ> (\<lambda>c. rbind (numeric_field c f) (\<lambda>v. Inr (decide c (if f64_le t v then Permit else Deny))))) b
      = map (\<lambda>c. decide c (projr (rbind (numeric_field c f) (\<lambda>v. Inr (if f64_le t v then Permit else Deny))))) b"
    if "\<forall>c \<in> set b. \<exists>r. numeric_field c f = Inr r"
    using that by (intro map_cong) auto
  then show ?thesis
    by (auto simp: Threshold evaluate_threshold_node_def rmap_as_map result_simps)
qed simp

lemma rbind_transfer:
  "(\<And>x. m = Inr x \<Longrightarrow> m' = Inr x) \<Longrightarrow> (\<And>x. f x = Inr y \<Longrightarrow> f' x = Inr y) \<Longrightarrow> rbind m f = Inr y \<Longrightarrow> rbind m' f' = Inr y"
  by (cases m) auto

text \<open>A gate may look at the whole batch; whatever leaves its gates alone leaves a node alone.\<close>

lemma first_match_transfer:
  assumes "\<And>g m. g \<in> set gates \<Longrightarrow> gate_matches rx g c b = Inr m \<Longrightarrow> gate_matches rx g c b' = Inr m"
  shows "evaluate_first_match rx gates c b d = Inr r \<Longrightarrow> evaluate_first_match rx gates c b' d = Inr r"
  using assms
proof (induction gates)
  case (Cons g gates)
  from Cons.prems(1) show ?case
    unfolding evaluate_first_match.simps
    by (elim rbind_transfer [rotated 2]) (use Cons in \<open>auto split: if_splits\<close>)
qed simp

lemma matched_transfer:
  assumes "\<And>g m. g \<in> set gates \<Longrightarrow> gate_matches rx g c b = Inr m \<Longrightarrow> gate_matches rx g c b' = Inr m"
  shows "matched_decisions rx gates c b = Inr r \<Longrightarrow> matched_decisions rx gates c b' = Inr r"
  using assms
proof (induction gates arbitrary: r)
  case (Cons g gates)
  from Cons.prems(1) show ?case
    unfolding matched_decisions.simps
    by (elim rbind_transfer [rotated 2]) (use Cons in auto)
qed simp

lemma all_must_pass_transfer:
  assumes "\<And>g m. g \<in> set gates \<Longrightarrow> gate_matches rx g c b = Inr m \<Longrightarrow> gate_matches rx g c b' = Inr m"
  shows "all_must_pass_loop rx c b gates n s = Inr r \<Longrightarrow> all_must_pass_loop rx c b' gates n s = Inr r"
  using assms
proof (induction gates arbitrary: n s)
  case (Cons g gates)
  from Cons.prems(1) show ?case
    unfolding all_must_pass_loop.simps
    by (elim rbind_transfer [rotated 2]) (use Cons in \<open>auto split: if_splits decision.splits\<close>)
qed simp

lemma node_dec_transfer:
  assumes "\<And>g m. g \<in> set (node_gates n) \<Longrightarrow> gate_matches rx g c b = Inr m \<Longrightarrow> gate_matches rx g c b' = Inr m"
    and "node_dec rx n b c = Inr d"
  shows "node_dec rx n b' c = Inr d"
proof (cases n)
  case (Binary i nm gates dflt l)
  have gates: "\<And>g m. g \<in> set gates \<Longrightarrow> gate_matches rx g c b = Inr m \<Longrightarrow> gate_matches rx g c b' = Inr m"
    using assms(1) Binary by simp
  from assms(2) Binary have ev: "evaluate_combination rx l gates c b dflt = Inr d" by simp
  have "evaluate_combination rx l gates c b' dflt = Inr d"
  proof (cases l)
    case AllMustPass
    with ev show ?thesis
      unfolding evaluate_combination_def evaluate_all_must_pass_def
      by (simp, elim rbind_transfer [rotated 2]) (auto intro: all_must_pass_transfer [OF gates])
  next
    case AnyMustPass
    with ev show ?thesis
      unfolding evaluate_combination_def evaluate_any_must_pass_def
      by (simp, elim rbind_transfer [rotated 2]) (auto intro: matched_transfer [OF gates])
  next
    case FirstMatch
    with ev show ?thesis
      by (simp add: evaluate_combination_def first_match_transfer [OF gates])
  qed
  with Binary show ?thesis by simp
qed (use assms(2) in auto)

lemma rmap_mset:
  assumes "rmap f xs = Inr ys" and "mset xs = mset xs'"
  shows "\<exists>ys'. rmap f xs' = Inr ys' \<and> mset ys' = mset ys"
  using assms mset_eq_setD [OF assms(2)] unfolding rmap_as_map by (metis mset_map)

lemma gate_matches_mset:
  assumes "mset b = mset b'" and "gate_matches rx g c b = Inr m"
  shows "gate_matches rx g c b' = Inr m"
proof (cases g)
  case (PeerRelative field p d)
  with assms(2) obtain v vals where v: "numeric_field c field = Inr v"
      "rmap (\<lambda>c. numeric_field c field) b = Inr vals"
      "m = peer_relative_rank_at_least_percentile (length (filter (\<lambda>w. f64_le w v) (f64_sort vals))) (length (f64_sort vals)) p"
    by (auto simp: evaluate_peer_relative_def result_simps Let_def)
  from rmap_mset [OF v(2) assms(1)] obtain vals' where
    vals': "rmap (\<lambda>c. numeric_field c field) b' = Inr vals'" "mset vals' = mset vals" by blast
  have "length (filter P (f64_sort vals')) = length (filter P (f64_sort vals))" for P
    using vals'(2) by (metis mset_f64_sort mset_filter size_mset)
  moreover have "length (f64_sort vals') = length (f64_sort vals)"
    using vals'(2) by (metis mset_f64_sort size_mset)
  ultimately show ?thesis using PeerRelative v vals' by (simp add: evaluate_peer_relative_def Let_def)
qed (use assms(2) in auto)

lemma node_dec_mset: "mset b = mset b' \<Longrightarrow> node_dec rx n b c = Inr d \<Longrightarrow> node_dec rx n b' c = Inr d"
  by (rule node_dec_transfer) (auto intro: gate_matches_mset)

lemma batch_mset:
  assumes "batch_ok cs b" and "batch_ok cs b'" and "set b = set b'"
  shows "mset b = mset b'"
  using assms unfolding batch_ok_def by (metis distinct_map set_eq_iff_mset_eq_distinct)

section \<open>Flows\<close>

definition is_entry :: "governance_graph \<Rightarrow> node_id \<Rightarrow> bool" where
  "is_entry g v \<longleftrightarrow> (\<forall>e \<in> set (edges g). edge_to e \<noteq> v)"

definition node_ok :: "regex_engine \<Rightarrow> governance_graph \<Rightarrow> node_id \<Rightarrow> governance_claim list \<Rightarrow> bool" where
  "node_ok rx g v b \<longleftrightarrow> (\<exists>n. bm_get (nodes g) v = Some n \<and> supported n \<and> (\<forall>c \<in> set b. \<exists>d. node_dec rx n b c = Inr d))"

definition dec_at :: "regex_engine \<Rightarrow> governance_graph \<Rightarrow> node_id \<Rightarrow> governance_claim list \<Rightarrow> governance_claim \<Rightarrow> decision" where
  "dec_at rx g v b c = projr (node_dec rx (the (bm_get (nodes g) v)) b c)"

definition escalated :: "regex_engine \<Rightarrow> governance_graph \<Rightarrow> node_id \<Rightarrow> governance_claim list \<Rightarrow> governance_claim set" where
  "escalated rx g v b = {c \<in> set b. dec_at rx g v b c = Escalate}"

definition inflow ::
  "regex_engine \<Rightarrow> governance_graph \<Rightarrow> governance_claim list \<Rightarrow> (node_id \<Rightarrow> governance_claim list) \<Rightarrow> node_id set
     \<Rightarrow> node_id \<Rightarrow> governance_claim set" where
  "inflow rx g cs B U v = (if is_entry g v then set cs else {})
     \<union> (\<Union>e \<in> {e \<in> set (edges g). edge_to e = v \<and> edge_from e \<in> U}. escalated rx g (edge_from e) (B (edge_from e)))"

definition flow ::
  "regex_engine \<Rightarrow> governance_graph \<Rightarrow> governance_claim list \<Rightarrow> (node_id \<Rightarrow> governance_claim list) \<Rightarrow> bool" where
  "flow rx g cs B \<longleftrightarrow> (\<forall>v \<in> set (bm_keys (nodes g)).
     batch_ok cs (B v) \<and> node_ok rx g v (B v) \<and> set (B v) = inflow rx g cs B UNIV v)"

text \<open>The decisions that become final for a claimant at the nodes of \<open>V\<close>.\<close>

definition decided ::
  "regex_engine \<Rightarrow> governance_graph \<Rightarrow> (node_id \<Rightarrow> governance_claim list) \<Rightarrow> node_id set \<Rightarrow> string \<Rightarrow> decision set" where
  "decided rx g B V k = {d. \<exists>v \<in> V. \<exists>c \<in> set (B v). claimant_id c = k \<and> d = dec_at rx g v (B v) c
     \<and> \<not> (d = Escalate \<and> has_out g v)}"

lemma flowD:
  assumes "flow rx g cs B" and "v \<in> set (bm_keys (nodes g))"
  shows "batch_ok cs (B v)" and "node_ok rx g v (B v)" and "set (B v) = inflow rx g cs B UNIV v"
  using assms unfolding flow_def by blast+

lemma decidedI:
  "v \<in> V \<Longrightarrow> c \<in> set (B v) \<Longrightarrow> claimant_id c = k \<Longrightarrow> d = dec_at rx g v (B v) c \<Longrightarrow> d \<noteq> Escalate \<or> \<not> has_out g v
     \<Longrightarrow> d \<in> decided rx g B V k"
  unfolding decided_def by blast

lemma decidedE:
  assumes "d \<in> decided rx g B V k"
  obtains v c where "v \<in> V" "c \<in> set (B v)" "claimant_id c = k" "d = dec_at rx g v (B v) c" "d \<noteq> Escalate \<or> \<not> has_out g v"
  using assms unfolding decided_def by blast

lemma node_ok_mset: "mset b = mset b' \<Longrightarrow> node_ok rx g v b \<Longrightarrow> node_ok rx g v b'"
  unfolding node_ok_def by (metis mset_eq_setD node_dec_mset)

lemma dec_at_mset:
  assumes "mset b = mset b'" and "node_ok rx g v b" and "c \<in> set b"
  shows "dec_at rx g v b' c = dec_at rx g v b c"
proof -
  obtain n d where "bm_get (nodes g) v = Some n" "node_dec rx n b c = Inr d"
    using assms(2,3) by (auto simp: node_ok_def)
  with node_dec_mset [OF assms(1)] show ?thesis by (simp add: dec_at_def)
qed

lemma escalated_mset:
  assumes "mset b = mset b'" and "node_ok rx g v b"
  shows "escalated rx g v b' = escalated rx g v b"
  using dec_at_mset [OF assms] mset_eq_setD [OF assms(1)] by (auto simp: escalated_def)

lemma acyclic_wf: "acyclic (edge_rel g) \<Longrightarrow> wf (edge_rel g)"
  by (rule finite_acyclic_wf) (simp_all add: edge_rel_def)

lemma flow_unique:
  assumes link: "well_linked g" and acyc: "acyclic (edge_rel g)"
    and B: "flow rx g cs B" and B': "flow rx g cs B'"
    and v: "v \<in> set (bm_keys (nodes g))"
  shows "mset (B v) = mset (B' v)"
  using acyclic_wf [OF acyc] v
proof (induction v rule: wf_induct_rule)
  case (less v)
  have step: "escalated rx g (edge_from e) (B' (edge_from e)) = escalated rx g (edge_from e) (B (edge_from e))"
    if "e \<in> set (edges g)" "edge_to e = v" for e
  proof (rule escalated_mset)
    have e: "edge_from e \<in> set (bm_keys (nodes g))" using link that by (auto simp: well_linked_def bm_has_def)
    with less.IH [of "edge_from e"] that show "mset (B (edge_from e)) = mset (B' (edge_from e))"
      by (auto simp: edge_rel_def)
    from flowD(2) [OF B e] show "node_ok rx g (edge_from e) (B (edge_from e))" .
  qed
  have "set (B v) = set (B' v)"
    using flowD(3) [OF B less.prems] flowD(3) [OF B' less.prems] step by (auto simp: inflow_def)
  then show ?case using flowD(1) [OF B less.prems] flowD(1) [OF B' less.prems] by (rule batch_mset [rotated 2])
qed

lemma flow_decided_unique:
  assumes "well_linked g" and "acyclic (edge_rel g)" and "flow rx g cs B" and "flow rx g cs B'"
  shows "decided rx g B (set (bm_keys (nodes g))) k = decided rx g B' (set (bm_keys (nodes g))) k"
proof -
  have "d \<in> decided rx g B' (set (bm_keys (nodes g))) k"
    if B: "flow rx g cs B" "flow rx g cs B'" and d: "d \<in> decided rx g B (set (bm_keys (nodes g))) k" for B B' d
    using d
  proof (rule decidedE)
    fix v c assume v: "v \<in> set (bm_keys (nodes g))" "c \<in> set (B v)" "claimant_id c = k"
      "d = dec_at rx g v (B v) c" "d \<noteq> Escalate \<or> \<not> has_out g v"
    note eq = flow_unique [OF assms(1,2) B v(1)]
    have "c \<in> set (B' v)" using mset_eq_setD [OF eq] v(2) by simp
    moreover have "d = dec_at rx g v (B' v) c" using dec_at_mset [OF eq flowD(2) [OF B(1) v(1)] v(2)] v(4) by simp
    ultimately show ?thesis using v(1,3,5) by (intro decidedI)
  qed
  with assms(3,4) show ?thesis by blast
qed

section \<open>Traversals that realise the flow\<close>

text \<open>After the nodes \<open>pre\<close>, with the batches \<open>B\<close> they saw, the queues \<open>q\<close> and the final decisions.\<close>

definition flow_inv ::
  "regex_engine \<Rightarrow> governance_graph \<Rightarrow> governance_claim list \<Rightarrow> node_id list \<Rightarrow> (node_id \<Rightarrow> governance_claim list)
     \<Rightarrow> (node_id \<Rightarrow> governance_claim list) \<Rightarrow> (string, decision) bmap \<Rightarrow> bool" where
  "flow_inv rx g cs pre B q final \<longleftrightarrow> (\<forall>w. batch_ok cs (q w))
     \<and> (\<forall>w \<in> set (bm_keys (nodes g)) - set pre. set (q w) = inflow rx g cs B (set pre) w)
     \<and> (\<forall>v \<in> set pre. batch_ok cs (B v) \<and> node_ok rx g v (B v) \<and> set (B v) = inflow rx g cs B (set pre) v)
     \<and> (\<forall>k. bm_get final k = strictest (decided rx g B (set pre) k)) \<and> bm_wf final"

lemma inflow_cong: "(\<And>u. u \<in> U \<Longrightarrow> B u = B' u) \<Longrightarrow> inflow rx g cs B U w = inflow rx g cs B' U w"
  unfolding inflow_def by auto

lemma decided_cong: "(\<And>u. u \<in> V \<Longrightarrow> B u = B' u) \<Longrightarrow> decided rx g B V k = decided rx g B' V k"
  unfolding decided_def by auto

lemma inflow_insert:
  assumes "v \<notin> U"
  shows "inflow rx g cs (B(v := b)) (insert v U) w = inflow rx g cs B U w
    \<union> (if \<exists>e \<in> set (edges g). edge_from e = v \<and> edge_to e = w then escalated rx g v b else {})"
proof -
  have "inflow rx g cs B U w = inflow rx g cs (B(v := b)) U w"
    using assms by (intro inflow_cong) auto
  then show ?thesis by (auto simp: inflow_def)
qed

lemma decided_insert:
  assumes "v \<notin> V"
  shows "decided rx g (B(v := b)) (insert v V) k = decided rx g B V k
    \<union> cd_decision ` {d \<in> set (map (\<lambda>c. decide c (dec_at rx g v b c)) b). cd_claimant_id d = k \<and> terminal (has_out g v) d}"
proof -
  have "decided rx g B V k = decided rx g (B(v := b)) V k"
    using assms by (intro decided_cong) auto
  moreover have "decided rx g (B(v := b)) (insert v V) k = decided rx g (B(v := b)) V k \<union> decided rx g (B(v := b)) {v} k"
    unfolding decided_def by blast
  moreover have "decided rx g (B(v := b)) {v} k
      = cd_decision ` {d \<in> set (map (\<lambda>c. decide c (dec_at rx g v b c)) b). cd_claimant_id d = k \<and> terminal (has_out g v) d}"
    unfolding decided_def decide_def terminal_def by force
  ultimately show ?thesis by simp
qed

lemma evaluate_node_ok:
  assumes "bm_get (nodes g) v = Some n"
  shows "evaluate_node_validated rx n b = Inr ds \<longleftrightarrow>
    node_ok rx g v b \<and> ds = map (\<lambda>c. decide c (dec_at rx g v b c)) b"
  using assms by (auto simp: evaluate_as_decs node_ok_def dec_at_def)

lemma forwarded_escalated:
  "set (forwarded_shared_claims b (map (\<lambda>c. decide c (dec_at rx g v b c)) b)) = escalated rx g v b"
  by (force simp: forwarded_shared_claims_def escalated_def decide_def zip_map2 zip_same_conv_map)

lemma flow_inv_step:
  assumes inv: "flow_inv rx g cs pre B q final" and v: "v \<in> set (bm_keys (nodes g)) - set pre"
    and tgt: "\<forall>e \<in> set (edges g). edge_from e = v \<longrightarrow> edge_to e \<notin> set (pre @ [v])"
    and ok: "node_ok rx g v (q v)" and ds: "ds = map (\<lambda>c. decide c (dec_at rx g v (q v) c)) (q v)"
    and q': "\<forall>w. batch_ok cs (q' w)"
      "\<forall>w. set (q' w) = (if w = v then {} else set (q w))
         \<union> (if \<exists>e \<in> set (edges g). edge_from e = v \<and> edge_to e = w then set (forwarded_shared_claims (q v) ds) else {})"
  shows "flow_inv rx g cs (pre @ [v]) (B(v := q v)) q' (record_final_decisions final ds (has_out g v))"
proof -
  note inv' = inv [unfolded flow_inv_def]
  have new: "v \<notin> set pre" using v by simp
  have fwd: "set (forwarded_shared_claims (q v) ds) = escalated rx g v (q v)"
    unfolding ds by (rule forwarded_escalated)
  have set_pre: "set (pre @ [v]) = insert v (set pre)" by auto
  have tgt': "\<not> (\<exists>e \<in> set (edges g). edge_from e = v \<and> edge_to e = x)" if "x \<in> insert v (set pre)" for x
    using tgt that by auto
  have qv: "set (q v) = inflow rx g cs B (set pre) v" using inv' v by blast
  show ?thesis
    unfolding flow_inv_def set_pre
  proof (intro conjI allI ballI)
    fix w assume w: "w \<in> set (bm_keys (nodes g)) - insert v (set pre)"
    then have "set (q w) = inflow rx g cs B (set pre) w" using inv' by blast
    with w q'(2) fwd show "set (q' w) = inflow rx g cs (B(v := q v)) (insert v (set pre)) w"
      unfolding inflow_insert [OF new] by auto
  next
    fix x assume x: "x \<in> insert v (set pre)"
    have same: "inflow rx g cs (B(v := q v)) (insert v (set pre)) x = inflow rx g cs B (set pre) x"
      unfolding inflow_insert [OF new] if_not_P [OF tgt' [OF x]] by simp
    have "batch_ok cs ((B(v := q v)) x) \<and> node_ok rx g x ((B(v := q v)) x)
      \<and> set ((B(v := q v)) x) = inflow rx g cs B (set pre) x"
      using x inv' ok qv by auto
    with same show "batch_ok cs ((B(v := q v)) x)" "node_ok rx g x ((B(v := q v)) x)"
      "set ((B(v := q v)) x) = inflow rx g cs (B(v := q v)) (insert v (set pre)) x" by simp_all
  next
    fix k
    have "bm_get final k = strictest (decided rx g B (set pre) k)" for k using inv' by blast
    from record_final_strictest [OF this, of ds "has_out g v" k]
    show "bm_get (record_final_decisions final ds (has_out g v)) k
        = strictest (decided rx g (B(v := q v)) (insert v (set pre)) k)"
      unfolding decided_insert [OF new] ds .
  next
    show "bm_wf (record_final_decisions final ds (has_out g v))"
      using inv' by (simp add: record_final_wf)
  qed (use q'(1) in blast)
qed

definition topological :: "governance_graph \<Rightarrow> node_id list \<Rightarrow> bool" where
  "topological g order \<longleftrightarrow> distinct order \<and> set order = set (bm_keys (nodes g)) \<and> respects_edges g order"

locale claim_flow =
  fixes rx :: regex_engine and g :: governance_graph
    and queue :: "'s \<Rightarrow> node_id \<Rightarrow> governance_claim list" and final :: "'s \<Rightarrow> (string, decision) bmap"
    and step :: "'s \<Rightarrow> node_id \<Rightarrow> 'e + 's"
  assumes step_ok: "validate_governance_claims cs = Inr () \<Longrightarrow> (\<forall>w. batch_ok cs (queue st w)) \<Longrightarrow>
      bm_get (nodes g) v = Some n \<Longrightarrow> evaluate_node_validated rx n (queue st v) = Inr ds \<Longrightarrow>
      \<exists>st'. step st v = Inr st' \<and> final st' = record_final_decisions (final st) ds (has_out g v)
        \<and> (\<forall>w. batch_ok cs (queue st' w))
        \<and> (\<forall>w. set (queue st' w) = (if w = v then {} else set (queue st w))
             \<union> (if \<exists>e \<in> set (edges g). edge_from e = v \<and> edge_to e = w
                then set (forwarded_shared_claims (queue st v) ds) else {}))"
    and step_fail: "bm_get (nodes g) v = Some n \<Longrightarrow> evaluate_node_validated rx n (queue st v) = Inl e \<Longrightarrow> \<exists>f. step st v = Inl f"
begin

lemma step_inv:
  assumes cs: "validate_governance_claims cs = Inr ()" and inv: "flow_inv rx g cs pre B (queue st) (final st)"
    and v: "v \<in> set (bm_keys (nodes g)) - set pre"
    and tgt: "\<forall>e \<in> set (edges g). edge_from e = v \<longrightarrow> edge_to e \<notin> set (pre @ [v])"
    and ok: "node_ok rx g v (queue st v)"
  shows "\<exists>st'. step st v = Inr st' \<and> flow_inv rx g cs (pre @ [v]) (B(v := queue st v)) (queue st') (final st')"
proof -
  let ?ds = "map (\<lambda>c. decide c (dec_at rx g v (queue st v) c)) (queue st v)"
  obtain n where n: "bm_get (nodes g) v = Some n" using ok by (auto simp: node_ok_def)
  have ev: "evaluate_node_validated rx n (queue st v) = Inr ?ds" using evaluate_node_ok [OF n] ok by blast
  have q: "\<forall>w. batch_ok cs (queue st w)" using inv by (simp add: flow_inv_def)
  from step_ok [OF cs q n ev] obtain st' where st': "step st v = Inr st'"
      "final st' = record_final_decisions (final st) ?ds (has_out g v)" "\<forall>w. batch_ok cs (queue st' w)"
      "\<forall>w. set (queue st' w) = (if w = v then {} else set (queue st w))
             \<union> (if \<exists>e \<in> set (edges g). edge_from e = v \<and> edge_to e = w
                then set (forwarded_shared_claims (queue st v) ?ds) else {})" by blast
  from flow_inv_step [OF inv v tgt ok refl st'(3,4)] st'(1,2) show ?thesis by auto
qed

lemma run_sound:
  assumes cs: "validate_governance_claims cs = Inr ()" and inv: "flow_inv rx g cs pre B (queue st) (final st)"
    and order: "respects_edges g (pre @ suf)" "distinct (pre @ suf)" "set suf \<subseteq> set (bm_keys (nodes g))"
    and run: "rfold step st suf = Inr st'"
  shows "\<exists>B'. flow_inv rx g cs (pre @ suf) B' (queue st') (final st')"
  using inv order run
proof (induction suf arbitrary: pre B st)
  case (Cons v suf)
  have tgt: "\<forall>e \<in> set (edges g). edge_from e = v \<longrightarrow> edge_to e \<notin> set (pre @ [v])"
    using respects_target [OF Cons.prems(2,3)] by blast
  have v: "v \<in> set (bm_keys (nodes g)) - set pre" using Cons.prems(3,4) by auto
  obtain st1 where st1: "step st v = Inr st1" "rfold step st1 suf = Inr st'"
    using Cons.prems(5) by (auto simp: result_simps)
  have "node_ok rx g v (queue st v)"
  proof (rule ccontr)
    assume "\<not> ?thesis"
    moreover obtain n where n: "bm_get (nodes g) v = Some n"
      using v by (cases "bm_get (nodes g) v") (auto simp: bm_get_def map_of_eq_None_iff)
    ultimately obtain e where "evaluate_node_validated rx n (queue st v) = Inl e"
      using evaluate_node_ok [OF n] by (metis sum.exhaust)
    with step_fail [OF n] st1(1) show False by fastforce
  qed
  from step_inv [OF cs Cons.prems(1) v tgt this] st1(1)
  have "flow_inv rx g cs (pre @ [v]) (B(v := queue st v)) (queue st1) (final st1)" by auto
  from Cons.IH [OF this _ _ _ st1(2)] Cons.prems(2-4) show ?case by simp
qed auto

lemma run_complete:
  assumes cs: "validate_governance_claims cs = Inr ()" and link: "well_linked g" and B0: "flow rx g cs B0"
    and inv: "flow_inv rx g cs pre B (queue st) (final st)" and same: "\<forall>u \<in> set pre. mset (B u) = mset (B0 u)"
    and order: "respects_edges g (pre @ suf)" "distinct (pre @ suf)" "set (pre @ suf) = set (bm_keys (nodes g))"
  shows "\<exists>st'. rfold step st suf = Inr st'"
  using inv same order
proof (induction suf arbitrary: pre B st)
  case (Cons v suf)
  have tgt: "\<forall>e \<in> set (edges g). edge_from e = v \<longrightarrow> edge_to e \<notin> set (pre @ [v])"
    using respects_target [OF Cons.prems(3,4)] by blast
  have keys: "v \<in> set (bm_keys (nodes g))" unfolding Cons.prems(5) [symmetric] by simp
  then have v: "v \<in> set (bm_keys (nodes g)) - set pre" using Cons.prems(4) by simp
  have src: "edge_from e \<in> set pre" if "e \<in> set (edges g)" "edge_to e = v" for e
    using Cons.prems(3) [unfolded respects_edges_def, rule_format, of "length pre" e] that by simp
  have "escalated rx g (edge_from e) (B (edge_from e)) = escalated rx g (edge_from e) (B0 (edge_from e))"
    if "e \<in> set (edges g)" "edge_to e = v" for e
  proof (rule escalated_mset [symmetric])
    show "mset (B (edge_from e)) = mset (B0 (edge_from e))" using src [OF that] Cons.prems(2) by blast
    show "node_ok rx g (edge_from e) (B (edge_from e))"
      using src [OF that] Cons.prems(1) unfolding flow_inv_def by blast
  qed
  then have "inflow rx g cs B (set pre) v = inflow rx g cs B0 UNIV v"
    using src by (auto simp: inflow_def)
  moreover have "set (queue st v) = inflow rx g cs B (set pre) v"
    using Cons.prems(1) v unfolding flow_inv_def by blast
  moreover have "batch_ok cs (queue st v)" using Cons.prems(1) unfolding flow_inv_def by blast
  ultimately have m: "mset (queue st v) = mset (B0 v)"
    using flowD [OF B0 keys] by (intro batch_mset [of cs]) simp_all
  then have ok: "node_ok rx g v (queue st v)" using node_ok_mset flowD(2) [OF B0 keys] by metis
  from step_inv [OF cs Cons.prems(1) v tgt ok] obtain st1 where st1: "step st v = Inr st1"
    "flow_inv rx g cs (pre @ [v]) (B(v := queue st v)) (queue st1) (final st1)" by blast
  have "\<forall>u \<in> set (pre @ [v]). mset ((B(v := queue st v)) u) = mset (B0 u)"
    using m Cons.prems(2) by auto
  from Cons.IH [OF st1(2) this] Cons.prems(3-5) st1(1) show ?case by auto
qed simp

lemma inv_start:
  assumes "validate_governance_claims cs = Inr ()"
    and "\<And>w. queue st w = (if w \<in> set (bm_keys (nodes g)) \<and> is_entry g w then cs else [])" and "final st = []"
  shows "flow_inv rx g cs [] B (queue st) (final st)"
  using assms unfolding flow_inv_def
  by (auto simp: batch_ok_def inflow_def strictest_def decided_def validate_governance_claims_Inr)

lemma inv_complete:
  assumes "well_linked g" and "flow_inv rx g cs order B (queue st) (final st)"
    and "set order = set (bm_keys (nodes g))"
  shows "flow rx g cs B"
proof -
  have "inflow rx g cs B (set order) v = inflow rx g cs B UNIV v" for v
    using assms(1,3) by (fastforce simp: inflow_def well_linked_def bm_has_def)
  with assms(2,3) show ?thesis unfolding flow_inv_def flow_def by auto
qed

text \<open>A run along any topological order realises a flow, and one exists if it does.\<close>

lemma run_flow:
  assumes cs: "validate_governance_claims cs = Inr ()" and link: "well_linked g" and top: "topological g order"
    and start: "\<And>w. queue st w = (if w \<in> set (bm_keys (nodes g)) \<and> is_entry g w then cs else [])" "final st = []"
    and run: "rfold step st order = Inr st'"
  shows "\<exists>B. flow rx g cs B \<and> bm_wf (final st')
    \<and> (\<forall>k. bm_get (final st') k = strictest (decided rx g B (set (bm_keys (nodes g))) k))"
proof -
  have order: "respects_edges g ([] @ order)" "distinct ([] @ order)" "set order \<subseteq> set (bm_keys (nodes g))"
    using top by (auto simp: topological_def)
  from run_sound [OF cs inv_start [OF cs start] order run] obtain B where
    B: "flow_inv rx g cs order B (queue st') (final st')" by auto
  moreover have keys: "set order = set (bm_keys (nodes g))" using top by (simp add: topological_def)
  ultimately have "flow rx g cs B" using inv_complete [OF link] by blast
  with B keys show ?thesis unfolding flow_inv_def by (metis keys)
qed

lemma flow_run:
  assumes cs: "validate_governance_claims cs = Inr ()" and link: "well_linked g" and top: "topological g order"
    and start: "\<And>w. queue st w = (if w \<in> set (bm_keys (nodes g)) \<and> is_entry g w then cs else [])" "final st = []"
    and B: "flow rx g cs B"
  shows "\<exists>st'. rfold step st order = Inr st' \<and> bm_wf (final st')
    \<and> (\<forall>k. bm_get (final st') k = strictest (decided rx g B (set (bm_keys (nodes g))) k))"
proof -
  have order: "respects_edges g ([] @ order)" "distinct ([] @ order)" "set ([] @ order) = set (bm_keys (nodes g))"
    using top by (simp_all add: topological_def)
  from run_complete [OF cs link B inv_start [OF cs start] _ order] obtain st' where
    st': "rfold step st order = Inr st'" by auto
  from run_flow [OF cs link top start st'] obtain B' where B': "flow rx g cs B'" "bm_wf (final st')"
      "\<And>k. bm_get (final st') k = strictest (decided rx g B' (set (bm_keys (nodes g))) k)" by blast
  have "acyclic (edge_rel g)" using respects_acyclic [OF link] top unfolding topological_def by blast
  from flow_decided_unique [OF link this B'(1) B] B' st' show ?thesis by simp
qed

end

section \<open>The traversal of the code realises the flow\<close>

interpretation tf: claim_flow rx g "\<lambda>st. queue_at (queued_claims st)" ts_final "traverse_node rx g" for rx g
proof
  fix cs v n ds and st :: traversal_state
  assume *: "validate_governance_claims cs = Inr ()" "\<forall>w. batch_ok cs (queue_at (queued_claims st) w)"
    "bm_get (nodes g) v = Some n" "evaluate_node_validated rx n (queue_at (queued_claims st) v) = Inr ds"
  then have "batches_ok cs (queued_claims st)" by (simp add: batches_ok_def)
  from traverse_node_Inr [OF *(1) this *(3,4)] obtain q where
    q: "traverse_node rx g st v = Inr \<lparr>queued_claims = q, ts_final = record_final_decisions (ts_final st) ds (has_out g v),
           ts_nodes = map_option (bm_insert v ds) (ts_nodes st)\<rparr>" "batches_ok cs q"
      "\<forall>w. set (queue_at q w) = (if w = v then {} else set (queue_at (queued_claims st) w))
         \<union> (if \<exists>e \<in> set (edges g). edge_from e = v \<and> edge_to e = w
            then set (forwarded_shared_claims (queue_at (queued_claims st) v) ds) else {})" by blast
  show "\<exists>st'. traverse_node rx g st v = Inr st' \<and> ts_final st' = record_final_decisions (ts_final st) ds (has_out g v)
        \<and> (\<forall>w. batch_ok cs (queue_at (queued_claims st') w))
        \<and> (\<forall>w. set (queue_at (queued_claims st') w) = (if w = v then {} else set (queue_at (queued_claims st) w))
             \<union> (if \<exists>e \<in> set (edges g). edge_from e = v \<and> edge_to e = w
                then set (forwarded_shared_claims (queue_at (queued_claims st) v) ds) else {}))"
    by (rule exI, intro conjI, rule q(1)) (use q(2,3) in \<open>simp_all only: traversal_state.select_convs batches_ok_def simp_thms\<close>)
next
  fix v n e and st :: traversal_state
  assume "bm_get (nodes g) v = Some n" "evaluate_node_validated rx n (queue_at (queued_claims st) v) = Inl e"
  from traverse_node_Inl [OF this] show "\<exists>f. traverse_node rx g st v = Inl f" by blast
qed

lemma set_entry_nodes: "set (entry_node_list g) = {v \<in> set (bm_keys (nodes g)). is_entry g v}"
proof -
  have "zero_count (incoming_counts g) v \<longleftrightarrow> is_entry g v" if "v \<in> set (bm_keys (nodes g))" for v
  proof -
    have "v \<in> graph_ids g" using that by (simp add: graph_ids_def)
    then show ?thesis by (simp add: zero_count_def or_default_def incoming_counts_get indeg_0 is_entry_def)
  qed
  then show ?thesis unfolding entry_node_list_def set_sort set_filter by blast
qed

lemma entry_queues:
  "queue_at (fold (\<lambda>k. bm_insert k cs) (entry_node_list g) []) w
     = (if w \<in> set (bm_keys (nodes g)) \<and> is_entry g w then cs else [])"
  using set_entry_nodes [of g] by (simp add: or_default_def get_fold_const)

lemma traverse_final_run:
  assumes link: "well_linked g" and acyc: "acyclic (edge_rel g)" and cs: "validate_governance_claims cs = Inr ()"
    and ne: "nodes g \<noteq> []"
  obtains order where "topological g order"
    and "traverse_final_decisions rx g cs = rbind (rfold (traverse_node rx g)
      \<lparr>queued_claims = fold (\<lambda>k. bm_insert k cs) (entry_node_list g) [], ts_final = [], ts_nodes = None\<rparr> order)
        (\<lambda>st. Inr (ts_final st))"
proof -
  obtain order where order: "topological_order g (incoming_counts g) = Inr order" "topological g order"
    using topological_order_acyclic [OF link acyc] unfolding topological_def by blast
  have "traverse_claims rx g cs False =
      rbind (rfold (traverse_node rx g)
        \<lparr>queued_claims = fold (\<lambda>k. bm_insert k cs) (entry_node_list g) [], ts_final = [], ts_nodes = None\<rparr> order)
        (\<lambda>st. Inr (entry_node_list g, ts_final st, ts_nodes st))"
    using cs order(1) entry_exists [OF link acyc ne] ne first_cycle_error_spec(1) [OF link acyc, of "()"]
    by (simp add: traverse_claims_def Let_def)
  then have "traverse_final_decisions rx g cs = rbind (rfold (traverse_node rx g)
      \<lparr>queued_claims = fold (\<lambda>k. bm_insert k cs) (entry_node_list g) [], ts_final = [], ts_nodes = None\<rparr> order)
        (\<lambda>st. Inr (ts_final st))" by (simp add: traverse_final_decisions_def rbind_assoc)
  with order(2) show ?thesis by (rule that)
qed

lemma traverse_final_flow:
  assumes "well_linked g" and "traverse_final_decisions rx g cs = Inr f"
  shows "\<exists>B. flow rx g cs B \<and> bm_wf f \<and> (\<forall>k. bm_get f k = strictest (decided rx g B (set (bm_keys (nodes g))) k))"
proof -
  obtain r where r: "traverse_claims rx g cs False = Inr r"
    using assms(2) by (auto simp: traverse_final_decisions_def result_simps)
  note ok = traverse_succeeds_acyclic [OF assms(1) r]
  obtain order where order: "topological g order" "traverse_final_decisions rx g cs = rbind (rfold (traverse_node rx g)
      \<lparr>queued_claims = fold (\<lambda>k. bm_insert k cs) (entry_node_list g) [], ts_final = [], ts_nodes = None\<rparr> order)
        (\<lambda>st. Inr (ts_final st))"
    using traverse_final_run [OF assms(1) ok(1,3,2), of rx] by blast
  from assms(2) obtain st where st: "rfold (traverse_node rx g)
      \<lparr>queued_claims = fold (\<lambda>k. bm_insert k cs) (entry_node_list g) [], ts_final = [], ts_nodes = None\<rparr> order = Inr st"
      "f = ts_final st"
    unfolding order(2) rbind_Inr_iff by auto
  from tf.run_flow [OF ok(3) assms(1) order(1) _ _ st(1)] st(2) show ?thesis
    by (simp only: traversal_state.select_convs entry_queues)
qed

lemma flow_traverse_final:
  assumes link: "well_linked g" and acyc: "acyclic (edge_rel g)" and cs: "validate_governance_claims cs = Inr ()"
    and ne: "nodes g \<noteq> []" and B: "flow rx g cs B"
  shows "\<exists>f. traverse_final_decisions rx g cs = Inr f \<and> bm_wf f
    \<and> (\<forall>k. bm_get f k = strictest (decided rx g B (set (bm_keys (nodes g))) k))"
proof -
  obtain order where order: "topological g order" "traverse_final_decisions rx g cs = rbind (rfold (traverse_node rx g)
      \<lparr>queued_claims = fold (\<lambda>k. bm_insert k cs) (entry_node_list g) [], ts_final = [], ts_nodes = None\<rparr> order)
        (\<lambda>st. Inr (ts_final st))"
    using traverse_final_run [OF link acyc cs ne, of rx] by blast
  from tf.flow_run [OF cs link order(1) _ _ B,
      of "\<lparr>queued_claims = fold (\<lambda>k. bm_insert k cs) (entry_node_list g) [], ts_final = [], ts_nodes = None\<rparr>"]
  show ?thesis unfolding order(2) by (auto simp: entry_queues)
qed

end
