(* ===== verification/Graph_Diagnostics.thy ===== *)
theory Graph_Diagnostics
  imports Governance_Flow Governance_Iterate
begin

text \<open>
  The diagnostic axioms of a governance graph, \<open>src/src/axioms/diagnostics/graph/\<close>: consistency
  (\<open>consistency.rs\<close>), solidarity (\<open>solidarity.rs\<close>), monotonicity (\<open>monotonicity.rs\<close>) and
  strategyproofness (\<open>strategyproofness.rs\<close>), with the helpers of \<open>mod.rs\<close>. Each check traverses
  the graph on perturbed batches and returns a verdict; a rejection carries a counterexample.
\<close>

section \<open>Helpers\<close>

record field_delta =
  fd_field :: string
  fd_delta :: f64

definition decision_debug :: "decision \<Rightarrow> string" where
  "decision_debug d = (case d of Permit \<Rightarrow> ''Permit'' | Deny \<Rightarrow> ''Deny'' | Escalate \<Rightarrow> ''Escalate'')"

definition apply_field_delta :: "governance_claim \<Rightarrow> string \<Rightarrow> f64 \<Rightarrow> legitimacy_error + governance_claim" where
  "apply_field_delta c field delta =
     (if field = ''strength'' then
        (let updated = c\<lparr>strength := f64_add (strength c) delta\<rparr>
         in if \<not> is_finite (strength updated) \<or> f64_le (strength updated) (Zero False)
            then Inl (InvalidGovernanceStrength (claimant_id updated) (strength updated)) else Inr updated)
      else
        (let value = f64_add (or_default (Zero False) (metrics c) field) delta
         in if \<not> is_finite value
            then Inl (InvalidGate field (Message (''delta produced non-finite value for '{}'' @ [CHR 0x27]) [AStr (claimant_id c)]))
            else Inr (c\<lparr>metrics := bm_insert field value (metrics c)\<rparr>)))"

definition diag_convert_claim :: "governance_claim \<Rightarrow> legitimacy_error + claim" where
  "diag_convert_claim c =
     rbind (claim_try_new (claimant_id c) (strength c)) (\<lambda>converted. Inr (converted\<lparr>clm_metrics := metrics c\<rparr>))"

definition diag_convert_claims :: "governance_claim list \<Rightarrow> legitimacy_error + claim list" where
  "diag_convert_claims cs = rmap diag_convert_claim cs"

definition decision_share :: "(string, decision) bmap \<Rightarrow> governance_claim \<Rightarrow> f64" where
  "decision_share decisions c = f64_of_nat (decision_rank (or_default Escalate decisions (claimant_id c)))"

definition diag_decision_allocation ::
  "governance_claim list \<Rightarrow> (string, decision) bmap \<Rightarrow> legitimacy_error + allocation" where
  "diag_decision_allocation cs decisions =
     (let alloc = fold (\<lambda>c. bm_insert (claimant_id c) (decision_share decisions c)) cs []
      in rbind (diag_convert_claims cs) (valid_allocation_new alloc))"

definition graph_estate :: "legitimacy_error + estate" where
  "graph_estate = estate_new (Num 2) ''binary-decision-rank''"

definition diag_final_decisions ::
  "regex_engine \<Rightarrow> governance_graph \<Rightarrow> governance_claim list \<Rightarrow> legitimacy_error fault + (string, decision) bmap" where
  "diag_final_decisions rx g cs = traverse_final_decisions rx g cs"

definition class_of :: "governance_claim \<Rightarrow> string" where
  "class_of c = (case priority_class c of Some class \<Rightarrow> class | None \<Rightarrow> claimant_id c)"

definition same_class_groups :: "governance_claim list \<Rightarrow> string list list" where
  "same_class_groups cs =
     filter (\<lambda>members. 1 < length members) (bm_values
       (fold (\<lambda>c m. bm_insert (class_of c) (or_default [] m (class_of c) @ [claimant_id c]) m) cs []))"

definition decision_direction :: "decision \<Rightarrow> decision \<Rightarrow> int" where
  "decision_direction before after =
     (if decision_rank after < decision_rank before then - 1
      else if decision_rank after = decision_rank before then 0 else 1)"

definition claimant_ids :: "governance_claim list \<Rightarrow> string list" where
  "claimant_ids cs = sorted_list_of_set (claimant_id ` set cs)"

text \<open>What every check computes of the unperturbed batch first.\<close>

record diag_baseline =
  base_decisions :: "(string, decision) bmap"
  base_allocation :: allocation
  base_claims :: "claim list"
  base_estate :: estate

definition diag_baseline_of ::
  "regex_engine \<Rightarrow> governance_graph \<Rightarrow> governance_claim list \<Rightarrow> legitimacy_error fault + diag_baseline" where
  "diag_baseline_of rx g cs =
     rbind (diag_final_decisions rx g cs) (\<lambda>original_decisions.
     rbind (raise (diag_decision_allocation cs original_decisions)) (\<lambda>original_allocation.
     rbind (raise (diag_convert_claims cs)) (\<lambda>original_claims.
     rbind (raise graph_estate) (\<lambda>original_estate.
       Inr \<lparr>base_decisions = original_decisions, base_allocation = original_allocation,
            base_claims = original_claims, base_estate = original_estate\<rparr>))))"

definition diag_rejection ::
  "string \<Rightarrow> diag_baseline \<Rightarrow> message \<Rightarrow> governance_claim list \<Rightarrow> allocation \<Rightarrow> message \<Rightarrow> legitimacy_error fault + verdict" where
  "diag_rejection axm base desc perturbed alloc viol =
     rbind (raise (diag_convert_claims perturbed)) (\<lambda>pc.
       Inr (Rejected axm
         \<lparr>description = desc, original_claims = base_claims base, original_estate = base_estate base,
          original_allocation = base_allocation base, perturbed_claims = pc, perturbed_estate = base_estate base,
          perturbed_allocation = alloc, violation = viol\<rparr>))"

definition lookup_decision ::
  "(string, decision) bmap \<Rightarrow> string \<Rightarrow> string \<Rightarrow> legitimacy_error fault + decision" where
  "lookup_decision decisions k context = option_ok (Raised (MissingAllocationShare k context)) (bm_get decisions k)"

text \<open>How a check ends: with the rejection its loop returned, or admissible with its counter.\<close>

fun diag_verdict :: "string \<Rightarrow> verdict + nat \<Rightarrow> legitimacy_error fault + verdict" where
  "diag_verdict axm (Inl v) = Inr v"
| "diag_verdict axm (Inr n) = Inr (Admissible axm n)"

section \<open>Consistency\<close>

definition remove_index :: "nat \<Rightarrow> 'a list \<Rightarrow> 'a list" where
  "remove_index i xs = map snd (filter (\<lambda>p. fst p \<noteq> i) (enumerate 0 xs))"

definition consistency_claim ::
  "diag_baseline \<Rightarrow> string \<Rightarrow> governance_claim list \<Rightarrow> (string, decision) bmap \<Rightarrow> allocation \<Rightarrow> unit \<Rightarrow> governance_claim
     \<Rightarrow> legitimacy_error fault + (verdict + unit)" where
  "consistency_claim base removed reduced decisions alloc u c =
     rbind (lookup_decision (base_decisions base) (claimant_id c) ''graph consistency original lookup'') (\<lambda>before.
     rbind (lookup_decision decisions (claimant_id c) ''graph consistency reduced lookup'') (\<lambda>after.
       if before \<noteq> after then
         rbind (diag_rejection ''graph consistency'' base
                  (Message ''Removing claimant '{}' changed '{}' from {:?} to {:?}''
                     [AStr removed, AStr (claimant_id c), AStr (decision_debug before), AStr (decision_debug after)])
                  reduced alloc
                  (Message ''The composed graph depends on '{}' being present. Removing one claimant changed an unrelated claimant's final exit decision.''
                     [AStr removed]))
           (\<lambda>v. Inr (Inl v))
       else Inr (Inr ())))"

definition consistency_removal ::
  "regex_engine \<Rightarrow> governance_graph \<Rightarrow> governance_claim list \<Rightarrow> diag_baseline \<Rightarrow> nat \<Rightarrow> nat
     \<Rightarrow> legitimacy_error fault + (verdict + nat)" where
  "consistency_removal rx g cs base tested removed_index =
     (let reduced = remove_index removed_index cs
      in rbind (diag_final_decisions rx g reduced) (\<lambda>decisions.
         rbind (raise (diag_decision_allocation reduced decisions)) (\<lambda>alloc.
         rbind (rloop (consistency_claim base (claimant_id (cs ! removed_index)) reduced decisions alloc) () reduced) (\<lambda>r.
           case r of Inl v \<Rightarrow> Inr (Inl v) | Inr _ \<Rightarrow> Inr (Inr (tested + 1))))))"

definition check_graph_consistency ::
  "regex_engine \<Rightarrow> governance_graph \<Rightarrow> governance_claim list \<Rightarrow> legitimacy_error fault + verdict" where
  "check_graph_consistency rx g cs =
     rbind (diag_baseline_of rx g cs) (\<lambda>base.
     rbind (rloop (consistency_removal rx g cs base) 0 [0..<length cs]) (diag_verdict ''graph consistency''))"

section \<open>Solidarity\<close>

definition solidarity_member ::
  "diag_baseline \<Rightarrow> string list \<Rightarrow> (string, decision) bmap \<Rightarrow> bool \<times> bool \<Rightarrow> string
     \<Rightarrow> legitimacy_error fault + bool \<times> bool" where
  "solidarity_member base ids shocked seen k =
     (case seen of (saw_improvement, saw_worsening) \<Rightarrow>
       if k \<notin> set ids then Inr seen
       else rbind (lookup_decision (base_decisions base) k ''graph solidarity original lookup'') (\<lambda>before.
            rbind (lookup_decision shocked k ''graph solidarity shocked lookup'') (\<lambda>after.
              Inr (saw_improvement \<or> decision_direction before after = 1,
                   saw_worsening \<or> decision_direction before after = - 1))))"

definition solidarity_group ::
  "diag_baseline \<Rightarrow> string list \<Rightarrow> string \<Rightarrow> governance_claim list \<Rightarrow> (string, decision) bmap \<Rightarrow> allocation \<Rightarrow> unit
     \<Rightarrow> string list \<Rightarrow> legitimacy_error fault + (verdict + unit)" where
  "solidarity_group base ids field shocked_claims shocked alloc u members =
     rbind (rfold (solidarity_member base ids shocked) (False, False) members) (\<lambda>(saw_improvement, saw_worsening).
       if saw_improvement \<and> saw_worsening then
         rbind (diag_rejection ''graph solidarity'' base
                  (Message ''Common shock on '{}' split priority class {:?} into winners and losers'' [AStr field, AList members])
                  shocked_claims alloc
                  (Message ''A shared entry shock produced opposite exit movements inside one priority class. The composed graph created accidental winners and losers.'' []))
           (\<lambda>v. Inr (Inl v))
       else Inr (Inr ()))"

definition solidarity_shock ::
  "regex_engine \<Rightarrow> governance_graph \<Rightarrow> governance_claim list \<Rightarrow> diag_baseline \<Rightarrow> nat \<Rightarrow> field_delta
     \<Rightarrow> legitimacy_error fault + (verdict + nat)" where
  "solidarity_shock rx g cs base tested shock =
     (if \<not> is_finite (fd_delta shock) \<or> f64_eq (fd_delta shock) (Zero False) then Inr (Inr tested)
      else rbind (raise (rmap (\<lambda>c. apply_field_delta c (fd_field shock) (fd_delta shock)) cs)) (\<lambda>shocked_claims.
           rbind (diag_final_decisions rx g shocked_claims) (\<lambda>shocked.
           rbind (raise (diag_decision_allocation shocked_claims shocked)) (\<lambda>alloc.
           rbind (rloop (solidarity_group base (claimant_ids cs) (fd_field shock) shocked_claims shocked alloc) ()
                    (same_class_groups cs)) (\<lambda>r.
             case r of Inl v \<Rightarrow> Inr (Inl v) | Inr _ \<Rightarrow> Inr (Inr (tested + 1)))))))"

definition check_graph_solidarity ::
  "regex_engine \<Rightarrow> governance_graph \<Rightarrow> governance_claim list \<Rightarrow> field_delta list \<Rightarrow> legitimacy_error fault + verdict" where
  "check_graph_solidarity rx g cs shocks =
     rbind (diag_baseline_of rx g cs) (\<lambda>base.
     rbind (rloop (solidarity_shock rx g cs base) 0 shocks) (diag_verdict ''graph solidarity''))"

section \<open>Monotonicity\<close>

datatype audit_metric_polarity = HigherBetter | LowerBetter | DiagnosticPresence

type_synonym polarity_schema = "(string \<times> audit_metric_polarity) list"

definition polarity_for :: "polarity_schema \<Rightarrow> string \<Rightarrow> audit_metric_polarity option" where
  "polarity_for schema field = map_of schema field"

definition AUDIT_METRIC_POLARITY_SCHEMA :: polarity_schema where
  "AUDIT_METRIC_POLARITY_SCHEMA = [
    (''approval_forbidden'', LowerBetter), (''approval_not_found'', LowerBetter),
    (''block_reason'', LowerBetter), (''blocked_context'', LowerBetter),
    (''combined_untrusted_suspicion'', LowerBetter), (''blocked'', LowerBetter),
    (''dangerous_keyword'', LowerBetter), (''dangerous_pattern'', LowerBetter),
    (''dangerous_user_approved'', LowerBetter), (''dangerous_user_rejected'', LowerBetter),
    (''dangerous_without_ui'', LowerBetter), (''deployment_context'', LowerBetter),
    (''hook_invalid_or_unsupported'', LowerBetter), (''latency'', LowerBetter),
    (''monitor_validation_failure'', LowerBetter), (''paradox_risk'', LowerBetter),
    (''policyblocked'', LowerBetter), (''policy_strictness'', LowerBetter), (''risk'', LowerBetter),
    (''trusted_edit_band_suspicion'', LowerBetter), (''trusted_edit_top2_suspicion'', LowerBetter),
    (''trusted_suspicion'', LowerBetter), (''trusted_suspicion_defer_band'', LowerBetter),
    (''trusted_suspicion_top2'', LowerBetter), (''test_failure'', LowerBetter),
    (''upfront_audit_window'', LowerBetter), (''after_hook'', HigherBetter),
    (''allowacrossproviders'', HigherBetter), (''allowcrosscontextsend'', HigherBetter),
    (''allowed'', HigherBetter), (''alloweddecisions'', HigherBetter), (''allowfinalsymlink'', HigherBetter),
    (''allowlist'', HigherBetter), (''allowlist_match'', HigherBetter),
    (''allowlistsatisfied'', HigherBetter), (''allowpluginfallback'', HigherBetter),
    (''allowskillpreludeatindex'', HigherBetter), (''allowskills'', HigherBetter),
    (''allowunsafereplay'', HigherBetter), (''allowwithinprovider'', HigherBetter),
    (''agent_id'', HigherBetter), (''approval'', HigherBetter), (''approval_policy'', HigherBetter),
    (''approval_required'', DiagnosticPresence), (''approvalcommandid'', HigherBetter),
    (''approvalid'', HigherBetter), (''approvalkind'', HigherBetter), (''approvalslug'', HigherBetter),
    (''approved'', HigherBetter), (''approvedforsession'', HigherBetter), (''analysis_ok'', HigherBetter),
    (''audit_recorded'', HigherBetter), (''audit_signal'', HigherBetter), (''available'', HigherBetter),
    (''base_authorization'', HigherBetter), (''baseline'', HigherBetter), (''baseline_allow'', HigherBetter),
    (''before_hook'', HigherBetter), (''block_threshold'', HigherBetter),
    (''checkpoint_written'', HigherBetter), (''claude_md_always_execute'', HigherBetter),
    (''completed_turn'', HigherBetter), (''consequential'', HigherBetter),
    (''content_length'', HigherBetter), (''deny_signal'', DiagnosticPresence),
    (''denied'', DiagnosticPresence), (''diversity'', HigherBetter), (''durable_trust'', HigherBetter),
    (''escalated'', DiagnosticPresence), (''escalate_signal'', DiagnosticPresence),
    (''executed'', HigherBetter), (''execution_skipped'', DiagnosticPresence),
    (''fallback_selected'', HigherBetter), (''file_edit'', HigherBetter), (''full_access'', HigherBetter),
    (''hook'', HigherBetter), (''hook_blocks'', HigherBetter), (''hook_event_name'', HigherBetter),
    (''hook_registration'', HigherBetter), (''hook_registration:BeforeToolCall'', HigherBetter),
    (''hook_registration:CodeExecutorApproval'', HigherBetter),
    (''hook_registration:DialoguePolicy'', HigherBetter),
    (''hook_registration:InterruptBeforeTool'', HigherBetter),
    (''hook_registration:PreToolUse'', HigherBetter), (''hook_run_is_quiet_success'', HigherBetter),
    (''human_resume_required'', DiagnosticPresence), (''human_review'', HigherBetter),
    (''interrupt'', HigherBetter), (''invocation_id'', HigherBetter), (''listed'', HigherBetter),
    (''maxTurns'', HigherBetter), (''memory_id'', HigherBetter),
    (''most_common_answer_score'', HigherBetter), (''needs_approval'', DiagnosticPresence),
    (''observation_id'', HigherBetter), (''permission'', HigherBetter), (''permission_mode'', HigherBetter),
    (''permissiongrantscope'', HigherBetter), (''permissions'', HigherBetter),
    (''patch_applied'', HigherBetter), (''peer_relative'', HigherBetter), (''policy'', HigherBetter),
    (''policy_cwd'', HigherBetter), (''policy_for_chat'', HigherBetter), (''policy_match'', HigherBetter),
    (''policy_rule_matched'', HigherBetter), (''permit_signal'', HigherBetter),
    (''primary_failed'', DiagnosticPresence), (''profile_restricted'', HigherBetter),
    (''record_id'', HigherBetter), (''refusal_emitted'', DiagnosticPresence),
    (''reviewdecision'', HigherBetter), (''runtime_roots_readable'', HigherBetter),
    (''sandbox'', HigherBetter), (''sandbox_policy'', HigherBetter),
    (''sandbox_setup_is_complete'', HigherBetter), (''sandboxpolicy'', HigherBetter),
    (''sandboxed'', HigherBetter), (''sanitize_context'', HigherBetter), (''scarcity_bonus'', HigherBetter),
    (''security_allowlist'', HigherBetter), (''sensitive_path'', HigherBetter),
    (''skip_exec_approval'', DiagnosticPresence), (''solve_directly'', HigherBetter),
    (''specialization_floor'', HigherBetter), (''specialization_penalty'', HigherBetter),
    (''stdout_taken_over'', HigherBetter), (''strength'', HigherBetter), (''task_id'', HigherBetter),
    (''tests_run'', HigherBetter), (''tool_call'', HigherBetter), (''tool_ready'', HigherBetter),
    (''tool_name'', HigherBetter), (''training_context'', HigherBetter),
    (''unsafe_intent'', DiagnosticPresence), (''word_count'', HigherBetter)]"

definition monotonicity_claimant ::
  "string \<Rightarrow> string \<Rightarrow> diag_baseline \<Rightarrow> field_delta \<Rightarrow> string \<Rightarrow> governance_claim list \<Rightarrow> (string, decision) bmap \<Rightarrow> allocation
     \<Rightarrow> unit \<Rightarrow> string \<Rightarrow> legitimacy_error fault + (verdict + unit)" where
  "monotonicity_claimant desc viol base delta strengthened claims decisions alloc u k =
     rbind (lookup_decision (base_decisions base) k ''graph monotonicity original lookup'') (\<lambda>before.
     rbind (lookup_decision decisions k ''graph monotonicity strengthened lookup'') (\<lambda>after.
       if decision_direction before after < 0 then
         rbind (diag_rejection ''graph monotonicity'' base
                  (Message desc [AStr strengthened, AStr (fd_field delta), AF64 (fd_delta delta), AStr k,
                     AStr (decision_debug before), AStr (decision_debug after)])
                  claims alloc (Message viol [AStr strengthened, AStr k]))
           (\<lambda>v. Inr (Inl v))
       else Inr (Inr ())))"

definition monotonicity_index ::
  "string \<Rightarrow> string \<Rightarrow> regex_engine \<Rightarrow> governance_graph \<Rightarrow> governance_claim list \<Rightarrow> diag_baseline \<Rightarrow> field_delta \<Rightarrow> f64
     \<Rightarrow> nat \<Rightarrow> nat \<Rightarrow> legitimacy_error fault + (verdict + nat)" where
  "monotonicity_index desc viol rx g cs base delta improvement_delta tested index =
     rbind (raise (rmap (\<lambda>(claim_index, c).
              if claim_index = index then apply_field_delta c (fd_field delta) improvement_delta else Inr c)
              (enumerate 0 cs))) (\<lambda>claims.
     rbind (diag_final_decisions rx g claims) (\<lambda>decisions.
     rbind (raise (diag_decision_allocation claims decisions)) (\<lambda>alloc.
     rbind (rloop (monotonicity_claimant desc viol base delta (claimant_id (cs ! index)) claims decisions alloc) ()
              (claimant_ids cs)) (\<lambda>r.
       case r of Inl v \<Rightarrow> Inr (Inl v) | Inr _ \<Rightarrow> Inr (Inr (tested + 1))))))"

definition monotonicity_delta ::
  "polarity_schema \<Rightarrow> regex_engine \<Rightarrow> governance_graph \<Rightarrow> governance_claim list \<Rightarrow> diag_baseline \<Rightarrow> nat \<Rightarrow> field_delta
     \<Rightarrow> legitimacy_error fault + (verdict + nat)" where
  "monotonicity_delta schema rx g cs base tested delta =
     (if \<not> is_finite (fd_delta delta) \<or> f64_le (fd_delta delta) (Zero False) then Inr (Inr tested)
      else
        let improve = (\<lambda>d. rloop (monotonicity_index
              ''Improving '{}' on '{}' by {:.2} worsened '{}' from {:?} to {:?}''
              ''Schema-aware improvement of '{}' changed the composed graph so that '{}' became strictly worse at the exit node.''
              rx g cs base delta d) tested [0..<length cs])
        in case polarity_for schema (fd_field delta) of
             Some HigherBetter \<Rightarrow> improve (fd_delta delta)
           | Some LowerBetter \<Rightarrow> improve (f64_uminus (fd_delta delta))
           | Some DiagnosticPresence \<Rightarrow> Inr (Inr tested)
           | None \<Rightarrow> Inl (Raised (InvalidGate (fd_field delta)
               (Message ''metric field '{}' has no schema polarity annotation'' [AStr (fd_field delta)]))))"

definition monotonicity_check_via_polarity_schema ::
  "regex_engine \<Rightarrow> governance_graph \<Rightarrow> governance_claim list \<Rightarrow> field_delta list \<Rightarrow> polarity_schema
     \<Rightarrow> legitimacy_error fault + verdict" where
  "monotonicity_check_via_polarity_schema rx g cs deltas schema =
     rbind (diag_baseline_of rx g cs) (\<lambda>base.
     rbind (rloop (monotonicity_delta schema rx g cs base) 0 deltas) (diag_verdict ''graph monotonicity''))"

definition check_graph_monotonicity ::
  "regex_engine \<Rightarrow> governance_graph \<Rightarrow> governance_claim list \<Rightarrow> field_delta list \<Rightarrow> legitimacy_error fault + verdict" where
  "check_graph_monotonicity rx g cs deltas =
     monotonicity_check_via_polarity_schema rx g cs deltas AUDIT_METRIC_POLARITY_SCHEMA"

text \<open>The deprecated check, which reads every metric as higher-is-better.\<close>

definition positive_delta ::
  "regex_engine \<Rightarrow> governance_graph \<Rightarrow> governance_claim list \<Rightarrow> diag_baseline \<Rightarrow> nat \<Rightarrow> field_delta
     \<Rightarrow> legitimacy_error fault + (verdict + nat)" where
  "positive_delta rx g cs base tested delta =
     (if \<not> is_finite (fd_delta delta) \<or> f64_le (fd_delta delta) (Zero False) then Inr (Inr tested)
      else rloop (monotonicity_index
             ''Strengthening '{}' on '{}' by {:.2} worsened '{}' from {:?} to {:?}''
             ''Strengthening '{}' changed the composed graph so that '{}' became strictly worse at the exit node.''
             rx g cs base delta (fd_delta delta)) tested [0..<length cs])"

definition check_graph_monotonicity_positive_delta ::
  "regex_engine \<Rightarrow> governance_graph \<Rightarrow> governance_claim list \<Rightarrow> field_delta list \<Rightarrow> legitimacy_error fault + verdict" where
  "check_graph_monotonicity_positive_delta rx g cs deltas =
     rbind (diag_baseline_of rx g cs) (\<lambda>base.
     rbind (rloop (positive_delta rx g cs base) 0 deltas) (diag_verdict ''graph monotonicity''))"

section \<open>Strategyproofness\<close>

definition MISREPORT_DELTAS :: "f64 list" where
  "MISREPORT_DELTAS = [round64 (- 3 / 10), round64 (- 1 / 10), round64 (1 / 10), round64 (3 / 10), round64 (1 / 2)]"

definition misreport_delta ::
  "regex_engine \<Rightarrow> governance_graph \<Rightarrow> governance_claim list \<Rightarrow> diag_baseline \<Rightarrow> nat \<Rightarrow> decision \<Rightarrow> nat \<Rightarrow> f64
     \<Rightarrow> legitimacy_error fault + (verdict + nat)" where
  "misreport_delta rx g cs base index true_decision tested delta =
     (let misreporter = cs ! index; reported_strength = f64_add (strength misreporter) delta
      in if \<not> is_finite reported_strength \<or> f64_le reported_strength (Zero False) then Inr (Inr tested)
         else
           let claims = map (\<lambda>(claim_index, c). if claim_index = index then c\<lparr>strength := reported_strength\<rparr> else c)
                 (enumerate 0 cs)
           in rbind (diag_final_decisions rx g claims) (\<lambda>decisions.
              rbind (raise (diag_decision_allocation claims decisions)) (\<lambda>alloc.
              rbind (lookup_decision decisions (claimant_id misreporter) ''graph strategyproofness misreported lookup'') (\<lambda>reported.
                if decision_rank true_decision < decision_rank reported then
                  rbind (diag_rejection ''graph strategyproofness'' base
                           (Message ''Claimant '{}' improved from {:?} to {:?} by misreporting strength {:.2} -> {:.2}''
                              [AStr (claimant_id misreporter), AStr (decision_debug true_decision),
                               AStr (decision_debug reported), AF64 (strength misreporter), AF64 reported_strength])
                           claims alloc
                           (Message ''Claimant '{}' can strategically misreport claim strength to achieve a better governance outcome. The composed graph is manipulable.''
                              [AStr (claimant_id misreporter)]))
                    (\<lambda>v. Inr (Inl v))
                else Inr (Inr (tested + 1))))))"

definition misreport_index ::
  "regex_engine \<Rightarrow> governance_graph \<Rightarrow> governance_claim list \<Rightarrow> diag_baseline \<Rightarrow> nat \<Rightarrow> nat
     \<Rightarrow> legitimacy_error fault + (verdict + nat)" where
  "misreport_index rx g cs base tested index =
     rbind (lookup_decision (base_decisions base) (claimant_id (cs ! index)) ''graph strategyproofness original lookup'') (\<lambda>true_decision.
       rloop (misreport_delta rx g cs base index true_decision) tested MISREPORT_DELTAS)"

definition check_graph_strategyproofness ::
  "regex_engine \<Rightarrow> governance_graph \<Rightarrow> governance_claim list \<Rightarrow> legitimacy_error fault + verdict" where
  "check_graph_strategyproofness rx g cs =
     rbind (diag_baseline_of rx g cs) (\<lambda>base.
     rbind (rloop (misreport_index rx g cs base) 0 [0..<length cs]) (diag_verdict ''graph strategyproofness''))"

section \<open>Lemmas: the baseline of a check\<close>

lemma diag_convert_eq: "diag_convert_claims cs = convert_claims cs"
  unfolding diag_convert_claims_def convert_claims_def by (rule rmap_cong) (simp_all add: diag_convert_claim_def convert_claim_def)

lemma diag_allocation_eq: "diag_decision_allocation cs ds = decision_allocation cs ds"
  by (simp add: diag_decision_allocation_def decision_allocation_def diag_convert_eq decision_share_def or_default_def)

lemma graph_estate_eq: "graph_estate = Inr \<lparr>total = Num 2, unit_name = ''binary-decision-rank''\<rparr>"
  by (simp add: graph_estate_def estate_new_def estate_total_new_def f64_le_def)

lemma final_valid:
  assumes "well_linked g" and "traverse_final_decisions rx g cs = Inr f"
  shows "acyclic (edge_rel g)" and "nodes g \<noteq> []" and "validate_governance_claims cs = Inr ()"
  using assms traverse_succeeds_acyclic [OF assms(1)]
  by (auto simp: traverse_final_decisions_def result_simps)

lemma baseline_ok:
  assumes "well_linked g" and "traverse_final_decisions rx g cs = Inr f"
  shows "\<exists>base. diag_baseline_of rx g cs = Inr base \<and> base_decisions base = f"
proof -
  note valid = final_valid(3) [OF assms]
  obtain a where "decision_allocation cs f = Inr a" using decision_allocation_ok [OF valid] by blast
  with assms(2) show ?thesis
    by (simp add: diag_baseline_of_def diag_final_decisions_def diag_allocation_eq diag_convert_eq
        graph_estate_eq convert_claims_ok [OF valid])
qed

lemma baseline_Inr:
  "diag_baseline_of rx g cs = Inr base \<Longrightarrow> traverse_final_decisions rx g cs = Inr (base_decisions base)"
  by (auto simp: diag_baseline_of_def diag_final_decisions_def result_simps)

lemma rejection_ok:
  "validate_governance_claims perturbed = Inr () \<Longrightarrow> \<exists>ce. diag_rejection axm base desc perturbed alloc viol = Inr (Rejected axm ce)"
  by (simp add: diag_rejection_def diag_convert_eq convert_claims_ok)

lemma reject_step:
  "validate_governance_claims perturbed = Inr () \<Longrightarrow>
     \<exists>ce. rbind (diag_rejection axm base desc perturbed alloc viol) (\<lambda>v. Inr (Inl v)) = Inr (Inl (Rejected axm ce))"
  using rejection_ok [of perturbed axm base desc alloc viol] by auto

lemma rejection_Inr: "diag_rejection axm base desc perturbed alloc viol = Inr v \<Longrightarrow> \<exists>ce. v = Rejected axm ce"
  by (auto simp: diag_rejection_def result_simps)

lemma final_lookup:
  assumes "well_linked g" and "traverse_final_decisions rx g cs = Inr f" and "c \<in> set cs"
  shows "\<exists>d. bm_get f (claimant_id c) = Some d"
proof -
  from assms(2) obtain r where r: "traverse_claims rx g cs False = Inr r" "f = fst (snd r)"
    by (auto simp: traverse_final_decisions_def result_simps)
  note ok = traverse_succeeds_acyclic [OF assms(1) r(1)]
  from traverse_acyclic [OF assms(1) ok(1,3,2), of rx False] r obtain st order where
    st: "f = ts_final st" "trav_inv g cs order st" "set order = set (bm_keys (nodes g))" by auto
  have "\<not> awaited g order st c" using st(3) by (auto simp: awaited_def)
  with st(2) assms(3) have "bm_get (ts_final st) (claimant_id c) \<noteq> None" unfolding trav_inv_def by blast
  with st(1) show ?thesis by auto
qed

section \<open>Lemmas: removing a claim\<close>

lemma set_remove_index: "set (remove_index i xs) \<subseteq> set xs"
  unfolding remove_index_def by (auto simp: in_set_enumerate_eq)

lemma valid_remove_index:
  assumes "validate_governance_claims cs = Inr ()"
  shows "validate_governance_claims (remove_index i cs) = Inr ()"
proof -
  have "distinct (map claimant_id cs)" "\<forall>c \<in> set cs. validate_governance_claim c = Inr ()"
    using assms by (auto simp: validate_governance_claims_Inr)
  moreover have "distinct (map f (map snd (filter P (enumerate n xs))))" if "distinct (map f xs)" for f P n and xs :: "'a list"
    using that
  proof (induction xs arbitrary: n)
    case (Cons a xs)
    have "set (map snd (filter P (enumerate (Suc n) xs))) \<subseteq> set xs" by (auto simp: in_set_enumerate_eq)
    then have "f ` set (map snd (filter P (enumerate (Suc n) xs))) \<subseteq> f ` set xs" by (rule image_mono)
    with Cons.prems Cons.IH [of "Suc n"] show ?case by auto
  qed simp
  ultimately show ?thesis
    using set_remove_index [of i cs] unfolding validate_governance_claims_Inr remove_index_def by blast
qed

section \<open>Lemmas: graphs without peer-relative gates\<close>

fun is_peer_gate :: "gate \<Rightarrow> bool" where
  "is_peer_gate (PeerRelative _ _ _) = True"
| "is_peer_gate _ = False"

definition peer_free :: "governance_graph \<Rightarrow> bool" where
  "peer_free g \<longleftrightarrow> (\<forall>(v, n) \<in> set (nodes g). \<forall>gt \<in> set (node_gates n). \<not> is_peer_gate gt)"

lemma gate_matches_peer_free: "\<not> is_peer_gate gt \<Longrightarrow> gate_matches rx gt c b = gate_matches rx gt c b'"
  by (cases gt) simp_all

lemma node_dec_peer_free:
  assumes "\<forall>gt \<in> set (node_gates n). \<not> is_peer_gate gt" and "node_dec rx n b c = Inr d"
  shows "node_dec rx n b' c = Inr d"
  using assms(2)
proof (rule node_dec_transfer [rotated])
  fix gt m assume "gt \<in> set (node_gates n)" "gate_matches rx gt c b = Inr m"
  with assms(1) gate_matches_peer_free [of gt rx c b b'] show "gate_matches rx gt c b' = Inr m" by simp
qed

definition only_in :: "governance_claim list \<Rightarrow> (node_id \<Rightarrow> governance_claim list) \<Rightarrow> node_id \<Rightarrow> governance_claim list" where
  "only_in cs' B v = filter (\<lambda>c. c \<in> set cs') (B v)"

lemma peer_free_node:
  assumes "well_linked g" and "peer_free g" and "node_ok rx g v b" and "set b' \<subseteq> set b"
  shows "node_ok rx g v b'" and "c \<in> set b' \<Longrightarrow> dec_at rx g v b' c = dec_at rx g v b c"
proof -
  obtain n where n: "bm_get (nodes g) v = Some n" "supported n" "\<forall>c \<in> set b. \<exists>d. node_dec rx n b c = Inr d"
    using assms(3) by (auto simp: node_ok_def)
  have "(v, n) \<in> set (nodes g)" using n(1) assms(1) by (simp add: bm_get_mem well_linked_def)
  then have pf: "\<forall>gt \<in> set (node_gates n). \<not> is_peer_gate gt" using assms(2) unfolding peer_free_def by blast
  with n assms(4) show "node_ok rx g v b'" unfolding node_ok_def by (meson node_dec_peer_free subsetD)
  assume "c \<in> set b'"
  with n(3) assms(4) obtain d where "node_dec rx n b c = Inr d" by blast
  with node_dec_peer_free [OF pf this, of b'] n(1) show "dec_at rx g v b' c = dec_at rx g v b c" by (simp add: dec_at_def)
qed

lemma flow_restrict:
  assumes link: "well_linked g" and pf: "peer_free g" and B: "flow rx g cs B" and sub: "set cs' \<subseteq> set cs"
  shows "flow rx g cs' (only_in cs' B)"
  unfolding flow_def
proof (intro ballI conjI)
  fix v assume v: "v \<in> set (bm_keys (nodes g))"
  have batch: "batch_ok cs (B v)" by (rule flowD(1) [OF B v])
  then show "batch_ok cs' (only_in cs' B v)"
    unfolding batch_ok_def only_in_def by (auto simp: distinct_map_filter)
  have sub_b: "set (only_in cs' B u) \<subseteq> set (B u)" for u by (auto simp: only_in_def)
  show "node_ok rx g v (only_in cs' B v)" by (rule peer_free_node(1) [OF link pf flowD(2) [OF B v] sub_b])
  have esc: "escalated rx g (edge_from e) (only_in cs' B (edge_from e)) = escalated rx g (edge_from e) (B (edge_from e)) \<inter> set cs'"
    if "e \<in> set (edges g)" for e
  proof -
    have u: "edge_from e \<in> set (bm_keys (nodes g))" using link that by (auto simp: well_linked_def bm_has_def)
    from peer_free_node(2) [OF link pf flowD(2) [OF B u] sub_b] show ?thesis
      by (auto simp: escalated_def only_in_def)
  qed
  have "set (only_in cs' B v) = set (B v) \<inter> set cs'" by (auto simp: only_in_def)
  also have "\<dots> = inflow rx g cs B UNIV v \<inter> set cs'" using flowD(3) [OF B v] by simp
  also have "\<dots> = inflow rx g cs' (only_in cs' B) UNIV v" using sub esc by (auto simp: inflow_def)
  finally show "set (only_in cs' B v) = inflow rx g cs' (only_in cs' B) UNIV v" .
qed

lemma decided_restrict:
  assumes link: "well_linked g" and pf: "peer_free g" and B: "flow rx g cs B" and sub: "set cs' \<subseteq> set cs"
    and dist: "distinct (map claimant_id cs)" and c: "c \<in> set cs'"
  shows "decided rx g (only_in cs' B) (set (bm_keys (nodes g))) (claimant_id c)
    = decided rx g B (set (bm_keys (nodes g))) (claimant_id c)"
proof -
  have same: "x \<in> set (only_in cs' B v) \<longleftrightarrow> x \<in> set (B v)"
    if v: "v \<in> set (bm_keys (nodes g))" and "claimant_id x = claimant_id c" for x v
  proof -
    have "x = c" if "x \<in> set (B v)"
      using flowD(1) [OF B v] that \<open>claimant_id x = claimant_id c\<close> sub c distinct_ids_inj [OF dist, of x c]
      by (auto simp: batch_ok_def)
    with c show ?thesis by (auto simp: only_in_def)
  qed
  have dec: "dec_at rx g v (only_in cs' B v) x = dec_at rx g v (B v) x"
    if v: "v \<in> set (bm_keys (nodes g))" and "x \<in> set (only_in cs' B v)" for x v
    using peer_free_node(2) [OF link pf flowD(2) [OF B v] _ that(2)] by (auto simp: only_in_def)
  show ?thesis
  proof (intro equalityI subsetI)
    fix d assume "d \<in> decided rx g (only_in cs' B) (set (bm_keys (nodes g))) (claimant_id c)"
    then show "d \<in> decided rx g B (set (bm_keys (nodes g))) (claimant_id c)"
      using same dec by (elim decidedE) (intro decidedI, auto)
  next
    fix d assume "d \<in> decided rx g B (set (bm_keys (nodes g))) (claimant_id c)"
    then show "d \<in> decided rx g (only_in cs' B) (set (bm_keys (nodes g))) (claimant_id c)"
    proof (rule decidedE)
      fix v x assume x: "v \<in> set (bm_keys (nodes g))" "x \<in> set (B v)" "claimant_id x = claimant_id c"
        "d = dec_at rx g v (B v) x" "d \<noteq> Escalate \<or> \<not> has_out g v"
      then have "x \<in> set (only_in cs' B v)" using same by blast
      with x dec [OF x(1)] show ?thesis by (intro decidedI [where v = v and c = x]) simp_all
    qed
  qed
qed

lemma peer_free_restrict:
  assumes link: "well_linked g" and pf: "peer_free g" and f: "traverse_final_decisions rx g cs = Inr f"
    and sub: "set cs' \<subseteq> set cs" and cs': "validate_governance_claims cs' = Inr ()"
  shows "\<exists>f'. traverse_final_decisions rx g cs' = Inr f' \<and> (\<forall>c \<in> set cs'. bm_get f' (claimant_id c) = bm_get f (claimant_id c))"
proof -
  note ok = final_valid [OF link f]
  obtain B where B: "flow rx g cs B" "\<And>k. bm_get f k = strictest (decided rx g B (set (bm_keys (nodes g))) k)"
    using traverse_final_flow [OF link f] by blast
  from flow_traverse_final [OF link ok(1) cs' ok(2) flow_restrict [OF link pf B(1) sub]] obtain f' where
    f': "traverse_final_decisions rx g cs' = Inr f'"
      "\<And>k. bm_get f' k = strictest (decided rx g (only_in cs' B) (set (bm_keys (nodes g))) k)" by blast
  have "distinct (map claimant_id cs)" using ok(3) by (simp add: validate_governance_claims_Inr)
  from decided_restrict [OF link pf B(1) sub this] f' B(2) show ?thesis by auto
qed

section \<open>Lemmas: the consistency check\<close>

lemma removal_spec:
  assumes link: "well_linked g" and base: "diag_baseline_of rx g cs = Inr base"
    and f': "traverse_final_decisions rx g (remove_index i cs) = Inr f'"
  defines "agree \<equiv> \<lambda>c. bm_get (base_decisions base) (claimant_id c) = bm_get f' (claimant_id c)"
  shows "(\<forall>c \<in> set (remove_index i cs). agree c) \<Longrightarrow> consistency_removal rx g cs base n i = Inr (Inr (Suc n))"
    and "\<not> (\<forall>c \<in> set (remove_index i cs). agree c) \<Longrightarrow>
      \<exists>ce. consistency_removal rx g cs base n i = Inr (Inl (Rejected ''graph consistency'' ce))"
proof -
  let ?cs = "remove_index i cs"
  note f = baseline_Inr [OF base] and valid' = final_valid(3) [OF link f']
  obtain a where a: "diag_decision_allocation ?cs f' = Inr a"
    using decision_allocation_ok [OF valid'] by (auto simp: diag_allocation_eq)
  have "\<exists>ce. consistency_claim base (claimant_id (cs ! i)) ?cs f' a () c
      = (if agree c then Inr (Inr ()) else Inr (Inl (Rejected ''graph consistency'' ce)))" if c: "c \<in> set ?cs" for c
  proof -
    have "c \<in> set cs" by (rule subsetD [OF set_remove_index c])
    then obtain d d' where "bm_get (base_decisions base) (claimant_id c) = Some d" "bm_get f' (claimant_id c) = Some d'"
      using final_lookup [OF link f] final_lookup [OF link f' c] by blast
    then show ?thesis
      unfolding consistency_claim_def lookup_decision_def agree_def
      using reject_step [OF valid', of "''graph consistency''" base]
      by (cases "d = d'") (simp_all only: option_ok.simps rbind.simps option.inject not_True_eq_False not_False_eq_True if_True if_False simp_thms)
  qed
  then have "\<forall>c \<in> set ?cs. \<exists>ce. consistency_claim base (claimant_id (cs ! i)) ?cs f' a () c
      = (if agree c then Inr (Inr ()) else Inr (Inl (Rejected ''graph consistency'' ce)))" by blast
  from bchoice [OF this] obtain ce where "\<forall>c \<in> set ?cs. consistency_claim base (claimant_id (cs ! i)) ?cs f' a () c
      = (if agree c then Inr (Inr ()) else Inr (Inl (Rejected ''graph consistency'' (ce c))))" by blast
  then have loop: "rloop (consistency_claim base (claimant_id (cs ! i)) ?cs f' a) () ?cs =
      (case find (\<lambda>c. \<not> agree c) ?cs of None \<Rightarrow> Inr (Inr ()) | Some c \<Rightarrow> Inr (Inl (Rejected ''graph consistency'' (ce c))))"
    by (intro rloop_unit) blast
  have run: "consistency_removal rx g cs base n i = rbind
      (rloop (consistency_claim base (claimant_id (cs ! i)) ?cs f' a) () ?cs)
      (\<lambda>r. case r of Inl v \<Rightarrow> Inr (Inl v) | Inr _ \<Rightarrow> Inr (Inr (Suc n)))"
    using f' a by (simp add: consistency_removal_def diag_final_decisions_def Let_def)
  show "consistency_removal rx g cs base n i = Inr (Inr (Suc n))" if "\<forall>c \<in> set ?cs. agree c"
  proof -
    have "find (\<lambda>c. \<not> agree c) ?cs = None" using that by (simp add: find_None_iff)
    then show ?thesis unfolding run loop by simp
  qed
  show "\<exists>ce. consistency_removal rx g cs base n i = Inr (Inl (Rejected ''graph consistency'' ce))"
    if bad: "\<not> (\<forall>c \<in> set ?cs. agree c)"
  proof -
    have "find (\<lambda>c. \<not> agree c) ?cs \<noteq> None" using bad by (auto simp: find_None_iff)
    then obtain x where "find (\<lambda>c. \<not> agree c) ?cs = Some x" by blast
    then show ?thesis unfolding run loop by simp
  qed
qed

text \<open>Removing one claimant leaves every other final decision as it was.\<close>

definition removal_stable :: "regex_engine \<Rightarrow> governance_graph \<Rightarrow> governance_claim list \<Rightarrow> bool" where
  "removal_stable rx g cs \<longleftrightarrow> (\<exists>f. traverse_final_decisions rx g cs = Inr f \<and>
     (\<forall>i < length cs. \<exists>f'. traverse_final_decisions rx g (remove_index i cs) = Inr f'
        \<and> (\<forall>c \<in> set (remove_index i cs). bm_get f (claimant_id c) = bm_get f' (claimant_id c))))"

lemma consistency_admissible:
  assumes link: "well_linked g" and stable: "removal_stable rx g cs"
  shows "check_graph_consistency rx g cs = Inr (Admissible ''graph consistency'' (length cs))"
proof -
  obtain f where f: "traverse_final_decisions rx g cs = Inr f"
    "\<And>i. i < length cs \<Longrightarrow> \<exists>f'. traverse_final_decisions rx g (remove_index i cs) = Inr f'
        \<and> (\<forall>c \<in> set (remove_index i cs). bm_get f (claimant_id c) = bm_get f' (claimant_id c))"
    using stable by (auto simp: removal_stable_def)
  obtain base where base: "diag_baseline_of rx g cs = Inr base" "base_decisions base = f"
    using baseline_ok [OF link f(1)] by blast
  have "consistency_removal rx g cs base n i = Inr (Inr (Suc n))" if "i \<in> set [0..<length cs]" for n i
    using f(2) [of i] that removal_spec(1) [OF link base(1)] base(2) by auto
  from rloop_pass [of "[0..<length cs]" "consistency_removal rx g cs base" Suc 0, OF this] base(1) show ?thesis
    by (simp add: check_graph_consistency_def)
qed

lemma consistency_stable:
  assumes link: "well_linked g" and run: "check_graph_consistency rx g cs = Inr (Admissible a n)"
  shows "removal_stable rx g cs"
proof -
  obtain base r where base: "diag_baseline_of rx g cs = Inr base"
      and r: "rloop (consistency_removal rx g cs base) 0 [0..<length cs] = Inr r"
        "diag_verdict ''graph consistency'' r = Inr (Admissible a n)"
    using run by (auto simp: check_graph_consistency_def result_simps)
  have ret: "\<exists>f'. traverse_final_decisions rx g (remove_index i cs) = Inr f'" if "consistency_removal rx g cs base u i = Inr x" for u i x
    using that by (auto simp: consistency_removal_def diag_final_decisions_def result_simps Let_def)
  have "\<nexists>v. r = Inl v"
  proof (rule notI, elim exE)
    fix v assume v: "r = Inl v"
    with r(1) rloop_return obtain u i where i: "consistency_removal rx g cs base u i = Inr (Inl v)" by fast
    from ret [OF i] obtain f' where "traverse_final_decisions rx g (remove_index i cs) = Inr f'" by blast
    from removal_spec [OF link base this, of u] i have "\<exists>ce. v = Rejected ''graph consistency'' ce"
      by (metis Inl_Inr_False Inr_inject Inl_inject)
    with r(2) v show False by auto
  qed
  then obtain m where m: "r = Inr m" by (cases r) auto
  have "\<exists>f'. traverse_final_decisions rx g (remove_index i cs) = Inr f'
      \<and> (\<forall>c \<in> set (remove_index i cs). bm_get (base_decisions base) (claimant_id c) = bm_get f' (claimant_id c))"
    if i: "i < length cs" for i
  proof -
    have "i \<in> set [0..<length cs]" using i by simp
    from rloop_continue [OF r(1) [unfolded m] this] obtain u u' where
      u: "consistency_removal rx g cs base u i = Inr (Inr u')" by blast
    from ret [OF u] obtain f' where "traverse_final_decisions rx g (remove_index i cs) = Inr f'" by blast
    with removal_spec(2) [OF link base this, of u] u show ?thesis by (metis Inl_Inr_False Inr_inject)
  qed
  with baseline_Inr [OF base] show ?thesis by (auto simp: removal_stable_def)
qed

lemma peer_free_stable:
  assumes "well_linked g" and "peer_free g" and "traverse_final_decisions rx g cs = Inr f"
  shows "removal_stable rx g cs"
proof -
  have "\<exists>f'. traverse_final_decisions rx g (remove_index i cs) = Inr f'
      \<and> (\<forall>c \<in> set (remove_index i cs). bm_get f (claimant_id c) = bm_get f' (claimant_id c))" for i
    using peer_free_restrict [OF assms set_remove_index valid_remove_index [OF final_valid(3) [OF assms(1,3)]]]
    by metis
  with assms(3) show ?thesis by (auto simp: removal_stable_def)
qed

section \<open>Properties\<close>

text \<open>C19: the consistency check decides what it announces: whenever it returns, it answers admissible
  exactly when removing any one claimant leaves the final decision of every other claimant as it
  was, and it has then tested every removal.\<close>

theorem graph_consistency_decides:
  assumes "well_linked g" and "check_graph_consistency rx g cs = Inr v"
  shows "v = Admissible ''graph consistency'' (length cs) \<longleftrightarrow> removal_stable rx g cs"
  using consistency_admissible [OF assms(1)] consistency_stable [OF assms(1)] assms(2) by fastforce

text \<open>A graph without peer-relative gates is consistent: whenever it traverses the batch, the
  check succeeds and admits it.\<close>

lemma peer_free_consistent:
  assumes "well_linked g" and "peer_free g" and "traverse_final_decisions rx g cs = Inr f"
  shows "check_graph_consistency rx g cs = Inr (Admissible ''graph consistency'' (length cs))"
  using consistency_admissible [OF assms(1) peer_free_stable [OF assms]] .

lemma sample_flow_final: "traverse_final_decisions (\<lambda>_. None) sample_flow [sample_claim ''x''] = Inr [(''x'', Permit)]"
  by code_simp

lemma peer_free_consistent_witness:
  "check_graph_consistency (\<lambda>_. None) sample_flow [sample_claim ''x''] = Inr (Admissible ''graph consistency'' 1)"
  using peer_free_consistent [OF sample_flow_linked _ sample_flow_final]
  by (simp add: peer_free_def sample_flow_def)

theorem graph_consistency_decides_witness: "removal_stable (\<lambda>_. None) sample_flow [sample_claim ''x'']"
proof -
  have "peer_free sample_flow" by (simp add: peer_free_def sample_flow_def)
  from consistency_admissible [OF sample_flow_linked peer_free_stable [OF sample_flow_linked this sample_flow_final]]
  have "check_graph_consistency (\<lambda>_. None) sample_flow [sample_claim ''x''] = Inr (Admissible ''graph consistency'' 1)"
    by simp
  from graph_consistency_decides [OF sample_flow_linked this] show ?thesis by simp
qed

end
