(* ===== verification/Synthetic_Claims.thy ===== *)
theory Synthetic_Claims
  imports Graph_Diagnostics
begin

text \<open>
  The probe claims that the audit and the protocol evaluate a graph on,
  \<open>src/src/extract/audit.rs\<close> (\<open>synthetic_claims\<close> and its helpers): a baseline claim and one claim
  per gate of a binary node, shaped to match that gate. The lemmas show that the probes of a
  validated graph are a valid batch; a property shows which metrics they provide.
\<close>

section \<open>The probes\<close>

fun gate_metric_field :: "gate \<Rightarrow> string option" where
  "gate_metric_field (ThresholdGate field _ _) = Some field"
| "gate_metric_field (PeerRelative field _ _) = Some field"
| "gate_metric_field _ = None"

definition node_metric_fields :: "governance_node \<Rightarrow> string list" where
  "node_metric_fields n =
     (case n of Binary _ _ gates _ _ \<Rightarrow> List.map_filter gate_metric_field gates | _ \<Rightarrow> [])"

definition all_metric_fields_for_nodes :: "governance_graph \<Rightarrow> node_id list \<Rightarrow> string list" where
  "all_metric_fields_for_nodes g node_ids =
     remdups_adj (sort (concat (map node_metric_fields (List.map_filter (bm_get (nodes g)) node_ids))))"

definition baseline_claim :: "string list \<Rightarrow> governance_claim" where
  "baseline_claim metric_fields =
     \<lparr>claimant_id = ''baseline'', strength = Num 1, priority_class = Some ''extracted'',
      path = Some ''/workspace/safe.rs'', action = Some ''safe_action'', content = Some ''safe content'',
      metrics = fold (\<lambda>field. bm_insert field (Zero False)) metric_fields []\<rparr>"

definition decision_signal :: "decision \<Rightarrow> string" where
  "decision_signal d =
     (case d of Permit \<Rightarrow> ''permit_signal'' | Deny \<Rightarrow> ''deny_signal'' | Escalate \<Rightarrow> ''escalate_signal'')"

definition apply_decision_metrics :: "decision \<Rightarrow> governance_claim \<Rightarrow> governance_claim" where
  "apply_decision_metrics d c = c\<lparr>metrics := bm_insert (decision_signal d) (Num 1) (metrics c)\<rparr>"

text \<open>The loop of \<open>sample_content\<close>; a backslash is one byte, so the bytes of a character stay together.\<close>

fun unescape :: "bool \<Rightarrow> string \<Rightarrow> string" where
  "unescape escaped [] = []"
| "unescape escaped (c # s) =
     (if escaped then c # unescape False s
      else if c = CHR 0x5C then unescape True s
      else c # unescape False s)"

definition sample_content :: "string \<Rightarrow> string" where
  "sample_content regex = (let value = unescape False regex in if is_blank value then ''safe content'' else value)"

definition claim_for_gate :: "string \<Rightarrow> gate \<Rightarrow> string list \<Rightarrow> nat \<Rightarrow> governance_claim" where
  "claim_for_gate cid gt metric_fields index =
     (let c = (baseline_claim metric_fields)
            \<lparr>claimant_id := cid, strength := f64_add (Num 1) (f64_mul (f64_of_nat index) (round64 (1 / 20)))\<rparr>
      in case gt of
           PrefixMatch pattern d \<Rightarrow> apply_decision_metrics d (c\<lparr>path := Some (pattern @ ''/candidate'')\<rparr>)
         | ExactMatch value d \<Rightarrow> apply_decision_metrics d (c\<lparr>action := Some value\<rparr>)
         | ContentMatch regex d \<Rightarrow> apply_decision_metrics d (c\<lparr>content := Some (sample_content regex)\<rparr>)
         | ThresholdGate field mn d \<Rightarrow>
             apply_decision_metrics d
               (c\<lparr>metrics := bm_insert field (if f64_le mn (Zero False) then Num 1 else mn) (metrics c)\<rparr>)
         | PeerRelative field _ d \<Rightarrow>
             apply_decision_metrics d
               (c\<lparr>metrics := bm_insert field (f64_add (Num 10) (f64_of_nat index)) (metrics c)\<rparr>))"

definition gate_claim_id :: "node_id \<Rightarrow> nat \<Rightarrow> string" where
  "gate_claim_id i index = i @ ''-gate-'' @ show_nat index"

definition gate_claims :: "governance_graph \<Rightarrow> string list \<Rightarrow> node_id \<Rightarrow> governance_claim list" where
  "gate_claims g metric_fields v =
     (case bm_get (nodes g) v of
        Some (Binary i _ gates _ _) \<Rightarrow>
          map (\<lambda>(index, gt). claim_for_gate (gate_claim_id i index) gt metric_fields index) (enumerate 0 gates)
      | _ \<Rightarrow> [])"

definition synthetic_claims_for_nodes :: "governance_graph \<Rightarrow> node_id list \<Rightarrow> governance_claim list" where
  "synthetic_claims_for_nodes g node_ids =
     (let node_ids = sort node_ids; metric_fields = all_metric_fields_for_nodes g node_ids
      in sort_key claimant_id (baseline_claim metric_fields # concat (map (gate_claims g metric_fields) node_ids)))"

definition synthetic_claims :: "governance_graph \<Rightarrow> governance_claim list" where
  "synthetic_claims g = synthetic_claims_for_nodes g (bm_keys (nodes g))"

definition synthetic_claims_for_cycle :: "governance_graph \<Rightarrow> node_id list \<Rightarrow> governance_claim list" where
  "synthetic_claims_for_cycle g cycle = synthetic_claims_for_nodes g cycle"

definition synthetic_claims_for_cycles :: "governance_graph \<Rightarrow> node_id list list \<Rightarrow> governance_claim list" where
  "synthetic_claims_for_cycles g cycles = synthetic_claims_for_nodes g (sorted_list_of_set (set (concat cycles)))"

section \<open>Lemmas: the probes are a valid batch\<close>

text \<open>The identifier of a probe determines its node and the index of its gate.\<close>

lemma gate_suffix_split:
  assumes "a @ ''-gate-'' @ show_nat m = b @ ''-gate-'' @ show_nat n"
  shows "a = b \<and> m = n"
proof -
  let ?digit = "\<lambda>c. 48 \<le> code_of c \<and> code_of c \<le> 57"
  have digits: "takeWhile ?digit (rev (x @ ''-gate-'' @ show_nat k)) = rev (show_nat k)" for x k
  proof -
    have "takeWhile ?digit (rev (show_nat k) @ CHR ''-'' # rest) = rev (show_nat k)" for rest
      using show_nat_digits [of _ k] by (subst takeWhile_append2) auto
    from this [of "rev (x @ ''-gate'')"] show ?thesis by simp
  qed
  from digits [of a m] digits [of b n] assms have "rev (show_nat m) = rev (show_nat n)" by metis
  then have "m = n" by simp
  with assms show ?thesis by simp
qed

lemma baseline_not_gate: "''baseline'' \<noteq> a @ ''-gate-'' @ show_nat n"
proof
  assume eq: "''baseline'' = a @ ''-gate-'' @ show_nat n"
  have "CHR ''-'' \<in> set (a @ ''-gate-'' @ show_nat n)" by simp
  with eq have "CHR ''-'' \<in> set ''baseline''" by metis
  then show False by simp
qed

lemma apply_decision_metrics_sel [simp]:
  "claimant_id (apply_decision_metrics d c) = claimant_id c" "strength (apply_decision_metrics d c) = strength c"
  "priority_class (apply_decision_metrics d c) = priority_class c"
  "metrics (apply_decision_metrics d c) = bm_insert (decision_signal d) (Num 1) (metrics c)"
  by (simp_all add: apply_decision_metrics_def)

lemma baseline_claim_sel [simp]:
  "claimant_id (baseline_claim mf) = ''baseline''" "strength (baseline_claim mf) = Num 1"
  "priority_class (baseline_claim mf) = Some ''extracted''"
  "metrics (baseline_claim mf) = fold (\<lambda>field. bm_insert field (Zero False)) mf []"
  by (simp_all add: baseline_claim_def)

lemma claim_for_gate_sel [simp]:
  "claimant_id (claim_for_gate cid gt mf index) = cid"
  "strength (claim_for_gate cid gt mf index) = f64_add (Num 1) (f64_mul (f64_of_nat index) (round64 (1 / 20)))"
  "priority_class (claim_for_gate cid gt mf index) = Some ''extracted''"
  by (cases gt; simp add: claim_for_gate_def Let_def)+

text \<open>The metrics of a probe: those of the baseline, the metric of its gate and the signal of its decision.\<close>

fun gate_probe :: "gate \<Rightarrow> nat \<Rightarrow> (string \<times> f64) list" where
  "gate_probe (ThresholdGate field mn _) index = [(field, if f64_le mn (Zero False) then Num 1 else mn)]"
| "gate_probe (PeerRelative field _ _) index = [(field, f64_add (Num 10) (f64_of_nat index))]"
| "gate_probe _ index = []"

lemma claim_for_gate_metrics:
  "metrics (claim_for_gate cid gt mf index) =
     bm_insert (decision_signal (gate_decision gt)) (Num 1)
       (fold (\<lambda>(f, v). bm_insert f v) (gate_probe gt index) (metrics (baseline_claim mf)))"
  by (cases gt) (simp_all add: claim_for_gate_def Let_def)

lemma has_fold_insert: "bm_has (fold (\<lambda>k. bm_insert k v) ks m) a \<longleftrightarrow> a \<in> set ks \<or> bm_has m a"
  by (induction ks arbitrary: m) auto

lemma baseline_metrics_values: "e \<in> set (metrics (baseline_claim mf)) \<Longrightarrow> snd e = Zero False"
proof -
  have "\<forall>e \<in> set (fold (\<lambda>k. bm_insert k v) ks m). snd e = v"
    if "\<forall>e \<in> set m. snd e = v" for v :: f64 and ks :: "string list" and m
    using that
  proof (induction ks arbitrary: m)
    case (Cons k ks)
    have "\<forall>e \<in> set (bm_insert k v m). snd e = v" using Cons.prems set_bm_insert_subset [of k v m] by auto
    then show ?case using Cons.IH by simp
  qed simp
  from this [of "[]"] show "e \<in> set (metrics (baseline_claim mf)) \<Longrightarrow> snd e = Zero False" by simp
qed

text \<open>The strength of a probe and the value of a peer-relative probe stay finite below \<open>2 ^ 53\<close>.\<close>

lemma probe_strength:
  assumes "index < 2 ^ 53"
  shows "\<exists>r \<ge> 1. f64_add (Num 1) (f64_mul (f64_of_nat index) (round64 (1 / 20))) = Num r"
proof -
  have low: "round64 (1 / 2 ^ 5) = Num (1 / 2 ^ 5)"
    by (rule round64_exact [of _ 1 "- 5"]) (simp_all add: power_int_def power_one_over)
  then obtain c where c: "round64 (1 / 20) = Num c" "1 / 2 ^ 5 \<le> c" "c \<le> 1"
    using round64_between [of "1 / 2 ^ 5" "1 / 20" 1] round64_one by auto
  show ?thesis
  proof (cases "index = 0")
    case True
    then show ?thesis by (simp add: f64_of_nat_def round64_def [of 0] c(1))
  next
    case False
    have i: "f64_of_nat index = Num (of_nat index)" using False assms by (intro f64_of_nat_exact) auto
    have "(of_nat index :: rat) < of_nat (2 ^ 53)" using assms unfolding of_nat_less_iff .
    then have up: "(of_nat index :: rat) \<le> 2 ^ 53" by simp
    have lo: "(1 :: rat) \<le> of_nat index" using False by simp
    have "1 * (1 / 2 ^ 5) \<le> of_nat index * c" using lo c(2) by (intro mult_mono) auto
    moreover have "of_nat index * c \<le> 2 ^ 53 * 1" using up c by (intro mult_mono) auto
    ultimately obtain r where r: "round64 (of_nat index * c) = Num r" "0 \<le> r" "r \<le> 2 ^ 53"
      using round64_between [of "1 / 2 ^ 5" "of_nat index * c" "2 ^ 53"] low round64_pow2 [of 53] by auto
    then obtain s where "round64 (1 + r) = Num s" "1 \<le> s"
      using round64_between [of 1 "1 + r" "2 ^ 54"] round64_one round64_pow2 [of 54] by auto
    with r c i show ?thesis by auto
  qed
qed

lemma peer_probe_finite:
  assumes "index < 2 ^ 53"
  shows "is_finite (f64_add (Num 10) (f64_of_nat index))"
proof (cases "index = 0")
  case False
  have "(of_nat index :: rat) < of_nat (2 ^ 53)" using assms unfolding of_nat_less_iff .
  then have "1 \<le> 10 + (of_nat index :: rat)" "10 + (of_nat index :: rat) \<le> 2 ^ 54" by simp_all
  then show ?thesis
    using round64_between [of 1 "10 + of_nat index" "2 ^ 54"] round64_one round64_pow2 [of 54]
      f64_of_nat_exact [of index] False assms by auto
qed (simp add: f64_of_nat_def round64_def)

lemma gate_probe_finite:
  assumes "validate_gate rx gt = Inr ()" and "index < 2 ^ 53" and "(f, v) \<in> set (gate_probe gt index)"
  shows "is_finite v"
  using assms peer_probe_finite [of index] by (cases gt) (auto simp: result_simps split: if_splits)

lemma claim_for_gate_metrics_finite:
  assumes "validate_gate rx gt = Inr ()" and "index < 2 ^ 53"
    and "e \<in> set (metrics (claim_for_gate cid gt mf index))"
  shows "is_finite (snd e)"
proof -
  have step: "set (fold (\<lambda>(f, v). bm_insert f v) ps m) \<subseteq> set ps \<union> set m"
    for ps :: "(string \<times> f64) list" and m
  proof (induction ps arbitrary: m)
    case (Cons p ps)
    show ?case
      using Cons.IH [of "bm_insert (fst p) (snd p) m"] set_bm_insert_subset [of "fst p" "snd p" m]
      by (auto simp: case_prod_beta)
  qed simp
  let ?m = "fold (\<lambda>(f, v). bm_insert f v) (gate_probe gt index) (metrics (baseline_claim mf))"
  have "e \<in> insert (decision_signal (gate_decision gt), Num 1) (set ?m)"
    using assms(3) subsetD [OF set_bm_insert_subset] unfolding claim_for_gate_metrics by fast
  with subsetD [OF step] consider "e = (decision_signal (gate_decision gt), Num 1)"
    | "e \<in> set (gate_probe gt index)" | "e \<in> set (metrics (baseline_claim mf))" by fast
  then show ?thesis
    by cases (use gate_probe_finite [OF assms(1,2), of "fst e" "snd e"] baseline_metrics_values [of e mf] in simp_all)
qed

lemma validate_claimI:
  assumes "\<not> is_blank (claimant_id c)" and "strength c = Num r" and "0 < r"
    and "priority_class c = Some class" and "\<not> is_blank class" and "\<And>e. e \<in> set (metrics c) \<Longrightarrow> is_finite (snd e)"
  shows "validate_governance_claim c = Inr ()"
proof -
  have "rfold (\<lambda>_. validate_metric c) () (metrics c) = Inr ()"
    using assms(6) by (auto simp: rfold_unit_Inr validate_metric_def)
  with assms show ?thesis by (simp add: validate_governance_claim_def f64_le_def)
qed

lemma probe_strings: "\<not> is_blank ''extracted''" "\<not> is_blank ''baseline''"
  by code_simp+

lemma gate_claim_id_nonblank: "\<not> is_blank (gate_claim_id i index)"
  using blank_chars [of "gate_claim_id i index" "CHR ''-''"] by (auto simp: gate_claim_id_def)

lemma gate_claim_id_inject [simp]: "gate_claim_id i m = gate_claim_id j n \<longleftrightarrow> i = j \<and> m = n"
  using gate_suffix_split [of i m j n] by (auto simp: gate_claim_id_def)

lemma baseline_not_gate_claim_id: "''baseline'' \<noteq> gate_claim_id i n"
  unfolding gate_claim_id_def by (rule baseline_not_gate)

lemma gate_metric_field_eq: "gate_metric_field gt = gate_field gt"
  by (cases gt) simp_all

lemma gate_claims_mem:
  assumes "c \<in> set (gate_claims g mf v)"
  obtains i nm gates d l index where "bm_get (nodes g) v = Some (Binary i nm gates d l)" "index < length gates"
    "c = claim_for_gate (gate_claim_id i index) (gates ! index) mf index"
proof -
  obtain n where "bm_get (nodes g) v = Some n"
    using assms by (cases "bm_get (nodes g) v") (auto simp: gate_claims_def)
  with assms obtain i nm gates d l where n: "bm_get (nodes g) v = Some (Binary i nm gates d l)"
    by (cases n) (auto simp: gate_claims_def)
  with assms obtain p where "p \<in> set (enumerate 0 gates)"
      "c = claim_for_gate (gate_claim_id i (fst p)) (snd p) mf (fst p)"
    by (auto simp: gate_claims_def)
  then show ?thesis using that [OF n] by (auto simp: in_set_enumerate_eq)
qed

definition gates_bounded :: "governance_graph \<Rightarrow> bool" where
  "gates_bounded g \<longleftrightarrow> (\<forall>(v, n) \<in> set (nodes g). length (node_gates n) \<le> 2 ^ 53)"

lemma validate_probe:
  assumes "validate_governance_graph rx g = Inr ()" and "bm_wf (nodes g)" and "gates_bounded g"
    and c: "c \<in> set (gate_claims g mf v)"
  shows "validate_governance_claim c = Inr ()"
  using c
proof (rule gate_claims_mem)
  fix i nm gates d l index
  assume n: "bm_get (nodes g) v = Some (Binary i nm gates d l)" and i: "index < length gates"
    and c: "c = claim_for_gate (gate_claim_id i index) (gates ! index) mf index"
  have mem: "(v, Binary i nm gates d l) \<in> set (nodes g)" using n assms(2) by (simp add: bm_get_mem)
  then have bound: "index < 2 ^ 53" using assms(3) i by (auto simp: gates_bounded_def)
  have gate: "validate_gate rx (gates ! index) = Inr ()"
    using assms(1) mem i
    by (auto simp: validate_governance_graph_Inr validate_graph_node_def rfold_unit_Inr split: if_splits)
  obtain r where r: "r \<ge> 1" "strength c = Num r" using probe_strength [OF bound] c by auto
  show ?thesis
  proof (rule validate_claimI)
    show "\<not> is_blank (claimant_id c)" unfolding c claim_for_gate_sel by (rule gate_claim_id_nonblank)
    show "strength c = Num r" "0 < r" using r by simp_all
    show "priority_class c = Some ''extracted''" unfolding c by (rule claim_for_gate_sel)
    show "is_finite (snd e)" if "e \<in> set (metrics c)" for e
      using claim_for_gate_metrics_finite [OF gate bound] that unfolding c .
  qed (rule probe_strings)
qed

lemma validate_baseline: "validate_governance_claim (baseline_claim mf) = Inr ()"
proof (rule validate_claimI)
  show "\<not> is_blank (claimant_id (baseline_claim mf))" unfolding baseline_claim_sel by (rule probe_strings)
  show "is_finite (snd e)" if "e \<in> set (metrics (baseline_claim mf))" for e
    using baseline_metrics_values [OF that] by simp
qed (rule baseline_claim_sel probe_strings zero_less_one)+

lemma gate_claims_ids:
  assumes "validate_governance_graph rx g = Inr ()" and "bm_wf (nodes g)" and "c \<in> set (gate_claims g mf v)"
  shows "\<exists>index. claimant_id c = gate_claim_id v index"
  using assms(3)
proof (rule gate_claims_mem)
  fix i nm gates d l index
  assume "bm_get (nodes g) v = Some (Binary i nm gates d l)"
    and "c = claim_for_gate (gate_claim_id i index) (gates ! index) mf index"
  moreover from this(1) assms(2) have "(v, Binary i nm gates d l) \<in> set (nodes g)" by (simp add: bm_get_mem)
  with assms(1) have "i = v" by (auto simp: validate_governance_graph_Inr validate_graph_node_def split: if_splits)
  ultimately show ?thesis by auto
qed

lemma distinct_gate_claims: "distinct (map claimant_id (gate_claims g mf v))"
proof -
  have "distinct (map (gate_claim_id i \<circ> fst) (enumerate 0 gates))" for i :: string and gates :: "gate list"
  proof -
    have "distinct (map (gate_claim_id i) [0..<length gates])"
      by (simp add: distinct_map inj_on_def)
    then show ?thesis by (simp flip: map_map)
  qed
  then show ?thesis
    by (simp add: gate_claims_def comp_def case_prod_beta split: option.split governance_node.split)
qed

lemma distinct_probes:
  assumes "validate_governance_graph rx g = Inr ()" and "bm_wf (nodes g)" and "distinct vs"
  shows "distinct (map claimant_id (baseline_claim mf # concat (map (gate_claims g mf) vs)))"
proof -
  have "distinct (map claimant_id (concat (map (gate_claims g mf) vs)))" using assms(3)
  proof (induction vs)
    case (Cons v vs)
    have "claimant_id c \<noteq> claimant_id c'"
      if "c \<in> set (gate_claims g mf v)" "w \<in> set vs" "c' \<in> set (gate_claims g mf w)" for c c' w
      using gate_claims_ids [OF assms(1,2) that(1)] gate_claims_ids [OF assms(1,2) that(3)] Cons.prems that(2)
      by (metis distinct.simps(2) gate_claim_id_inject)
    with Cons distinct_gate_claims show ?case by (auto simp: map_concat)
  qed simp
  moreover have "''baseline'' \<noteq> claimant_id c" if "c \<in> set (gate_claims g mf v)" for c v
    using gate_claims_ids [OF assms(1,2) that] baseline_not_gate_claim_id by metis
  ultimately show ?thesis by auto
qed

lemma probes_valid:
  assumes "validate_governance_graph rx g = Inr ()" and "bm_wf (nodes g)" and "gates_bounded g" and "distinct vs"
  shows "validate_governance_claims (synthetic_claims_for_nodes g vs) = Inr ()"
proof -
  let ?cs = "baseline_claim (all_metric_fields_for_nodes g (sort vs))
    # concat (map (gate_claims g (all_metric_fields_for_nodes g (sort vs))) (sort vs))"
  have "distinct (map claimant_id ?cs)" using assms by (intro distinct_probes) auto
  then have "distinct (map claimant_id (sort_key claimant_id ?cs))"
    by (metis distinct_sort mset_eq_imp_distinct_iff mset_map mset_sort)
  moreover have "\<forall>c \<in> set ?cs. validate_governance_claim c = Inr ()"
    using validate_probe [OF assms(1-3)] validate_baseline by auto
  ultimately show ?thesis
    unfolding validate_governance_claims_Inr synthetic_claims_for_nodes_def Let_def set_sort by blast
qed

lemma probes_provide:
  assumes "c \<in> set (synthetic_claims_for_nodes g vs)" and "v \<in> set vs"
    and n: "bm_get (nodes g) v = Some (Binary i nm gates d l)" and "f \<in> node_fields (Binary i nm gates d l)"
  shows "provides c f"
proof -
  let ?mf = "all_metric_fields_for_nodes g (sort vs)"
  have base: "bm_has (metrics (baseline_claim mf)) a \<longleftrightarrow> a \<in> set mf" for mf a
    unfolding baseline_claim_sel has_fold_insert by (simp add: bm_has_def)
  have grow: "bm_has m a \<Longrightarrow> bm_has (fold (\<lambda>(f, v). bm_insert f v) ps m) a"
    for ps :: "(string \<times> f64) list" and m a
    by (induction ps arbitrary: m) auto
  have "f \<in> set (node_metric_fields (Binary i nm gates d l))"
    using assms(4) by (force simp: node_metric_fields_def map_filter_def gate_metric_field_eq)
  moreover have "Binary i nm gates d l \<in> set (List.map_filter (bm_get (nodes g)) (sort vs))"
    using assms(2) n by (force simp: map_filter_def)
  ultimately have f: "f \<in> set ?mf" by (auto simp: all_metric_fields_for_nodes_def)
  from assms(1) consider "c = baseline_claim ?mf" | w where "c \<in> set (gate_claims g ?mf w)"
    unfolding synthetic_claims_for_nodes_def Let_def set_sort by auto
  then have "bm_has (metrics c) f"
  proof cases
    case 2
    then show ?thesis
      by (rule gate_claims_mem) (use f base [of ?mf] grow in \<open>auto simp: claim_for_gate_metrics\<close>)
  qed (use f base in simp)
  then show ?thesis by (simp add: provides_def)
qed

section \<open>Properties\<close>

text \<open>The probes fit the graph. A validated acyclic graph of binary nodes (at least one, none
  with more than \<open>2 ^ 53\<close> gates) traverses its own probe claims.\<close>

lemma probes_traverse:
  assumes "validate_governance_graph rx g = Inr ()" and "bm_wf (nodes g)" and "acyclic (edge_rel g)"
    and "nodes g \<noteq> []" and "\<forall>(v, n) \<in> set (nodes g). node_kind n = ''Binary''" and "gates_bounded g"
  shows "validate_governance_claims (synthetic_claims g) = Inr ()
    \<and> (\<exists>r. traverse rx g (synthetic_claims g) = Inr r)"
proof
  have keys: "distinct (bm_keys (nodes g))" using assms(2) by (rule bm_wf_distinct)
  show cs: "validate_governance_claims (synthetic_claims g) = Inr ()"
    using probes_valid [OF assms(1,2,6) keys] by (simp add: synthetic_claims_def)
  have prov: "provides c f"
    if "(v, n) \<in> set (nodes g)" "c \<in> set (synthetic_claims g)" "f \<in> node_fields n" for v n c f
  proof (cases n)
    case (Binary i nm gates d l)
    have "bm_get (nodes g) v = Some n" using that(1) assms(2) by (simp add: bm_get_mem)
    with Binary that show ?thesis
      by (intro probes_provide [of c g "bm_keys (nodes g)" v i nm gates d l])
        (auto simp: synthetic_claims_def intro: rev_image_eqI)
  qed (use assms(5) that(1) in auto)
  show "\<exists>r. traverse rx g (synthetic_claims g) = Inr r"
    using assms(1-4) _ cs by (rule traverse_total) (use prov assms(5) in fastforce)+
qed

text \<open>The probes ignore threshold nodes. Where an entry node compares a metric that no gate of
  the graph reads and that is not a decision signal, no traversal of the probes succeeds.\<close>

lemma threshold_metric_unprobed:
  assumes "well_linked g" and "bm_get (nodes g) v = Some (Threshold i nm t field)" and "is_entry g v"
    and "field \<noteq> ''strength''" and "\<forall>(w, n) \<in> set (nodes g). \<forall>gt \<in> set (node_gates n). gate_field gt \<noteq> Some field"
  shows "\<exists>e. traverse rx g (synthetic_claims g) = Inl e"
proof (cases "traverse rx g (synthetic_claims g)")
  case (Inr r)
  then have "traverse_final_decisions rx g (synthetic_claims g) = Inr (final_decisions r)"
    unfolding traverse_final_decisions_def traverse_def traverse_claims_uncaptured
    by (auto simp: result_simps)
  then obtain B where B: "flow rx g (synthetic_claims g) B" using traverse_final_flow [OF assms(1)] by blast
  let ?mf = "all_metric_fields_for_nodes g (sort (bm_keys (nodes g)))"
  have v: "v \<in> set (bm_keys (nodes g))"
    using assms(2) by (auto simp: bm_get_def dest!: map_of_SomeD intro: rev_image_eqI)
  have c: "baseline_claim ?mf \<in> set (synthetic_claims g)"
    unfolding synthetic_claims_def synthetic_claims_for_nodes_def Let_def set_sort by simp
  then have "baseline_claim ?mf \<in> set (B v)"
    using flowD(3) [OF B v] assms(3) by (simp add: inflow_def)
  then obtain d where "numeric_field (baseline_claim ?mf) field = Inr d"
    using flowD(2) [OF B v] assms(2) by (auto simp: node_ok_def result_simps)
  then have "bm_has (metrics (baseline_claim ?mf)) field"
    using assms(4) by (simp add: numeric_field_def option_ok_Inr bm_has_get)
  then have "field \<in> set ?mf"
    unfolding baseline_claim_sel has_fold_insert by (simp add: bm_has_def)
  then obtain w n where "bm_get (nodes g) w = Some n" "field \<in> set (node_metric_fields n)"
    by (auto simp: all_metric_fields_for_nodes_def map_filter_def)
  then have "(w, n) \<in> set (nodes g)" "\<exists>gt \<in> set (node_gates n). gate_field gt = Some field"
    by (auto simp: bm_get_def node_metric_fields_def map_filter_def gate_metric_field_eq
        dest: map_of_SomeD split: governance_node.splits)
  with assms(5) show ?thesis by fast
qed simp

definition probe_node :: governance_node where
  "probe_node = Binary ''gate'' ''Gate'' [ThresholdGate ''risk'' (Num 1) Deny] Permit FirstMatch"

definition unprobed_node :: governance_node where
  "unprobed_node = Threshold ''cap'' ''Cap'' (Num 1) ''risk''"

lemma probes_traverse_witness:
  "\<exists>r. traverse (\<lambda>_. None) \<lparr>nodes = [(''gate'', probe_node)], edges = []\<rparr>
     (synthetic_claims \<lparr>nodes = [(''gate'', probe_node)], edges = []\<rparr>) = Inr r"
proof -
  let ?g = "\<lparr>nodes = [(''gate'', probe_node)], edges = []\<rparr>"
  have "validate_governance_graph (\<lambda>_. None) ?g = Inr ()" by code_simp
  moreover have "edge_rel ?g = {}" by (simp add: edge_rel_def)
  ultimately show ?thesis
    using probes_traverse [of "\<lambda>_. None" ?g]
    by (auto simp: bm_wf_def gates_bounded_def probe_node_def acyclic_def)
qed

lemma threshold_metric_unprobed_witness:
  "\<exists>e. traverse (\<lambda>_. None) \<lparr>nodes = [(''cap'', unprobed_node)], edges = []\<rparr>
     (synthetic_claims \<lparr>nodes = [(''cap'', unprobed_node)], edges = []\<rparr>) = Inl e"
  by (rule threshold_metric_unprobed [of _ "''cap''" "''cap''" "''Cap''" "Num 1" "''risk''"])
    (simp_all add: unprobed_node_def well_linked_def bm_wf_def bm_get_def is_entry_def)

end
