(* ===== verification/Kernel_Axioms.thy ===== *)
theory Kernel_Axioms
  imports Synthetic_Claims
begin

text \<open>
  The kernel axioms of a governance graph, \<open>src/src/axioms/kernel/\<close>: the verdicts of \<open>mod.rs\<close>,
  certifiability (\<open>certifiable.rs\<close>), corrigibility (\<open>corrigible.rs\<close>), compositional safety
  (\<open>compositional.rs\<close>) and non-vacuity (\<open>nonvacuity.rs\<close>). Observable determinacy has a theory
  of its own. The properties say when each check passes: the first three always do on a graph
  that can be evaluated, because of what a traversal computes; the last one exactly when every
  claim is decided and one is permitted, and never on a detected cycle.
\<close>

section \<open>Verdicts\<close>

datatype kernel_axiom = Certifiable | Observable | Corrigible | CompositionalSafety | NonVacuous

fun graph_axiom_name :: "kernel_axiom \<Rightarrow> string" where
  "graph_axiom_name Certifiable = ''graph certifiability''"
| "graph_axiom_name Observable = ''graph observable determinacy''"
| "graph_axiom_name Corrigible = ''graph corrigibility''"
| "graph_axiom_name CompositionalSafety = ''graph compositional safety''"
| "graph_axiom_name NonVacuous = ''graph nonvacuity''"

datatype axiom_verdict =
    Pass kernel_axiom nat
  | Fail kernel_axiom message counterexample
  | Skipped kernel_axiom string

record skipped_axiom_verdict =
  sk_axiom :: kernel_axiom
  sk_reason :: string

fun verdict_try_from :: "axiom_verdict \<Rightarrow> skipped_axiom_verdict + verdict" where
  "verdict_try_from (Pass axm n) = Inr (Admissible (graph_axiom_name axm) n)"
| "verdict_try_from (Fail axm reason witness) = Inr (Rejected (graph_axiom_name axm) witness)"
| "verdict_try_from (Skipped axm reason) = Inl \<lparr>sk_axiom = axm, sk_reason = reason\<rparr>"

text \<open>
  The rejections of the kernel checks evaluate their fields in the order of the struct literal;
  the unperturbed claims serve as the perturbed ones.
\<close>

definition kernel_rejection ::
  "kernel_axiom \<Rightarrow> governance_claim list \<Rightarrow> (string, decision) bmap \<Rightarrow> (string, decision) bmap \<Rightarrow> message \<Rightarrow> message
     \<Rightarrow> legitimacy_error + axiom_verdict" where
  "kernel_rejection axm cs original perturbed desc viol =
     rbind (diag_convert_claims cs) (\<lambda>oc.
     rbind graph_estate (\<lambda>oe.
     rbind (diag_decision_allocation cs original) (\<lambda>oa.
     rbind (diag_convert_claims cs) (\<lambda>pc.
     rbind graph_estate (\<lambda>pe.
     rbind (diag_decision_allocation cs perturbed) (\<lambda>pa.
       Inr (Fail axm desc
         \<lparr>description = desc, original_claims = oc, original_estate = oe, original_allocation = oa,
          perturbed_claims = pc, perturbed_estate = pe, perturbed_allocation = pa, violation = viol\<rparr>)))))))"

definition CYCLE_SKIP :: string where
  "CYCLE_SKIP = ''cyclic graphs are handled by cycle and nonvacuity probes''"

section \<open>Certifiability\<close>

definition certifiability_rejection ::
  "governance_claim list \<Rightarrow> (string, decision) bmap \<Rightarrow> message \<Rightarrow> message \<Rightarrow> legitimacy_error + axiom_verdict" where
  "certifiability_rejection cs decisions desc viol = kernel_rejection Certifiable cs decisions decisions desc viol"

definition check_graph_certifiability ::
  "regex_engine \<Rightarrow> governance_graph \<Rightarrow> governance_claim list \<Rightarrow> legitimacy_error fault + axiom_verdict" where
  "check_graph_certifiability rx g cs =
     rbind (detect_cycles g) (\<lambda>cycles.
       if cycles \<noteq> [] then Inr (Skipped Certifiable CYCLE_SKIP)
       else if nodes g = [] then
         raise (certifiability_rejection cs []
           (Message ''graph has no governance nodes to replay'' [])
           (Message ''CERTIFIABLE requires a finite replay certificate for audited graph decisions'' []))
       else
         rbind (raise (validate_governance_graph rx g)) (\<lambda>_.
         rbind (traverse rx g cs) (\<lambda>traversal.
           let missing = map claimant_id (filter (\<lambda>c. \<not> bm_has (final_decisions traversal) (claimant_id c)) cs)
           in if missing \<noteq> [] then
                raise (certifiability_rejection cs (final_decisions traversal)
                  (Message ''graph traversal produced no replayable final decision for {}'' [AList missing])
                  (Message ''CERTIFIABLE requires every governed claim to have a replayable final decision'' []))
              else
                let replay_steps = sum_list (map length (bm_values (node_decisions traversal)))
                in Inr (Pass Certifiable (replay_steps + length cs)))))"

section \<open>Corrigibility\<close>

definition override_node :: "decision \<Rightarrow> node_id \<Rightarrow> governance_node" where
  "override_node d v = Binary v (''supervisory-override-'' @ v) [] d FirstMatch"

definition constant_override_graph :: "governance_graph \<Rightarrow> decision \<Rightarrow> governance_graph" where
  "constant_override_graph g d =
     \<lparr>nodes = map (\<lambda>v. (v, override_node d v)) (bm_keys (nodes g)),
      edges = map (\<lambda>e. \<lparr>edge_from = edge_from e, edge_to = edge_to e, edge_transform = PassThrough\<rparr>) (edges g)\<rparr>"

definition corrigibility_rejection ::
  "governance_claim list \<Rightarrow> message \<Rightarrow> message \<Rightarrow> legitimacy_error + axiom_verdict" where
  "corrigibility_rejection cs desc viol = kernel_rejection Corrigible cs [] [] desc viol"

definition check_graph_corrigibility ::
  "regex_engine \<Rightarrow> governance_graph \<Rightarrow> governance_claim list \<Rightarrow> legitimacy_error fault + axiom_verdict" where
  "check_graph_corrigibility rx g cs =
     rbind (detect_cycles g) (\<lambda>cycles.
       if cycles \<noteq> [] then Inr (Skipped Corrigible CYCLE_SKIP)
       else if nodes g = [] then
         raise (corrigibility_rejection cs
           (Message ''graph has no governance nodes for supervisory override'' [])
           (Message ''CORRIGIBLE requires a nonempty graph surface that can be paused, denied, or permitted'' []))
       else
         rbind (traverse rx (constant_override_graph g Escalate) cs) (\<lambda>_.
         rbind (traverse rx (constant_override_graph g Deny) cs) (\<lambda>_.
         rbind (traverse rx (constant_override_graph g Permit) cs) (\<lambda>_.
           Inr (Pass Corrigible 3)))))"

section \<open>Compositional safety\<close>

definition append_candidate :: "nat \<Rightarrow> string" where
  "append_candidate index = ''__kernel_compositional_append_'' @ show_nat index"

definition fresh_sink_id :: "governance_graph \<Rightarrow> legitimacy_error + node_id" where
  "fresh_sink_id g =
     rbind (rloop (\<lambda>_ index. rbind (node_id_new (append_candidate index)) (\<lambda>candidate.
                    Inr (if \<not> bm_has (nodes g) candidate then Inl candidate else Inr ())))
              () [0..<Suc (length (nodes g))])
       (\<lambda>o1. case o1 of Inl candidate \<Rightarrow> Inr candidate
             | Inr _ \<Rightarrow> node_id_new ''__kernel_compositional_append_fallback'')"

definition terminal_nodes :: "governance_graph \<Rightarrow> node_id list" where
  "terminal_nodes g = filter (\<lambda>v. v \<notin> set (map edge_from (edges g))) (bm_keys (nodes g))"

definition permit_suffix :: "node_id \<Rightarrow> governance_node" where
  "permit_suffix sink = Binary sink ''kernel-compositional-permit-suffix'' [] Permit FirstMatch"

definition append_sink :: "node_id \<Rightarrow> governance_graph \<Rightarrow> governance_graph" where
  "append_sink sink g =
     \<lparr>nodes = bm_insert sink (permit_suffix sink) (nodes g),
      edges = edges g @ map (\<lambda>source. \<lparr>edge_from = source, edge_to = sink, edge_transform = PassThrough\<rparr>)
                          (terminal_nodes g)\<rparr>"

definition append_permissive_stage :: "governance_graph \<Rightarrow> legitimacy_error + governance_graph" where
  "append_permissive_stage g = rbind (fresh_sink_id g) (\<lambda>sink. Inr (append_sink sink g))"

definition compositional_rejection ::
  "governance_claim list \<Rightarrow> (string, decision) bmap \<Rightarrow> (string, decision) bmap \<Rightarrow> message \<Rightarrow> message
     \<Rightarrow> legitimacy_error + axiom_verdict" where
  "compositional_rejection cs original appended desc viol =
     kernel_rejection CompositionalSafety cs original appended desc viol"

definition check_graph_compositional_safety ::
  "regex_engine \<Rightarrow> governance_graph \<Rightarrow> governance_claim list \<Rightarrow> legitimacy_error fault + axiom_verdict" where
  "check_graph_compositional_safety rx g cs =
     rbind (detect_cycles g) (\<lambda>cycles.
       if cycles \<noteq> [] then Inr (Skipped CompositionalSafety CYCLE_SKIP)
       else if nodes g = [] then
         Inr (Skipped CompositionalSafety ''empty graph has no denied decision surface to extend'')
       else
         rbind (diag_final_decisions rx g cs) (\<lambda>original.
         rbind (raise (append_permissive_stage g)) (\<lambda>appended_graph.
         rbind (diag_final_decisions rx appended_graph cs) (\<lambda>appended.
         rbind (rloop (\<lambda>_ c.
                   let before = or_default Escalate original (claimant_id c);
                       after = or_default Escalate appended (claimant_id c)
                   in if before = Deny \<and> after \<noteq> Deny then
                        rbind (raise (compositional_rejection cs original appended
                          (Message (''appending a permissive governance stage changed '' @ [CHR 0x27] @ ''{}'' @ [CHR 0x27] @ '' from Deny to {}'')
                             [AStr (claimant_id c), AStr (decision_debug after)])
                          (Message ''COMPOSITIONAL SAFETY requires denied claims to remain denied under graph extension'' [])))
                          (\<lambda>v. Inr (Inl v))
                      else Inr (Inr ())) () cs)
           (\<lambda>o1. case o1 of Inl v \<Rightarrow> Inr v | Inr _ \<Rightarrow> Inr (Pass CompositionalSafety (length cs)))))))"

section \<open>Non-vacuity\<close>

definition convert_governance_claim :: "governance_claim \<Rightarrow> legitimacy_error + claim" where
  "convert_governance_claim c =
     rbind (claim_try_new (claimant_id c) (strength c)) (\<lambda>converted.
       Inr (fold (\<lambda>(field, value). with_metric field value) (metrics c) converted))"

definition convert_governance_claims :: "governance_claim list \<Rightarrow> legitimacy_error + claim list" where
  "convert_governance_claims cs = rmap convert_governance_claim cs"

definition zero_decision_allocation :: "governance_claim list \<Rightarrow> legitimacy_error + allocation" where
  "zero_decision_allocation cs =
     rbind (convert_governance_claims cs)
       (valid_allocation_new (fold (\<lambda>c. bm_insert (claimant_id c) (Zero False)) cs []))"

definition stuck_fraction :: "governance_claim list \<Rightarrow> string list \<Rightarrow> f64" where
  "stuck_fraction cs nonterminal =
     (if cs = [] then Zero False
      else f64_div (f64_of_nat (card (set nonterminal))) (f64_of_nat (length cs)))"

definition nonvacuity_liveness_allocation ::
  "governance_claim list \<Rightarrow> string list \<Rightarrow> legitimacy_error + allocation" where
  "nonvacuity_liveness_allocation cs nonterminal =
     rbind (convert_governance_claims cs)
       (valid_allocation_new
         (fold (\<lambda>c. bm_insert (claimant_id c)
                  (if claimant_id c \<in> set nonterminal then stuck_fraction cs nonterminal else Zero False)) cs []))"

definition nonvacuity_rejection ::
  "governance_claim list \<Rightarrow> message \<Rightarrow> message \<Rightarrow> string list \<Rightarrow> legitimacy_error + axiom_verdict" where
  "nonvacuity_rejection cs desc viol nonterminal =
     rbind (convert_governance_claims cs) (\<lambda>oc.
     rbind (estate_new (Num 1) ''decision'') (\<lambda>oe.
     rbind (zero_decision_allocation cs) (\<lambda>oa.
     rbind (convert_governance_claims cs) (\<lambda>pc.
     rbind (estate_new (Num 1) ''decision'') (\<lambda>pe.
     rbind (nonvacuity_liveness_allocation cs nonterminal) (\<lambda>pa.
       Inr (Fail NonVacuous desc
         \<lparr>description = desc, original_claims = oc, original_estate = oe, original_allocation = oa,
          perturbed_claims = pc, perturbed_estate = pe, perturbed_allocation = pa, violation = viol\<rparr>)))))))"

definition nonterminal_claimants :: "governance_claim list \<Rightarrow> (string, decision) bmap \<Rightarrow> string list" where
  "nonterminal_claimants cs decisions =
     sort (map claimant_id (filter (\<lambda>c. case bm_get decisions (claimant_id c) of
             Some Permit \<Rightarrow> False | Some Deny \<Rightarrow> False | _ \<Rightarrow> True) cs))"

definition permits_some :: "governance_claim list \<Rightarrow> (string, decision) bmap \<Rightarrow> bool" where
  "permits_some cs decisions = list_ex (\<lambda>c. bm_get decisions (claimant_id c) = Some Permit) cs"

text \<open>What the check has established: whether a permit was found, and the perturbation counter.\<close>

type_synonym liveness = "bool \<times> nat"

definition nonvacuity_traversal ::
  "regex_engine \<Rightarrow> governance_graph \<Rightarrow> governance_claim list \<Rightarrow> legitimacy_error fault + (axiom_verdict + liveness)" where
  "nonvacuity_traversal rx g cs =
     rbind (traverse rx g cs) (\<lambda>traversal.
       let nonterminal = nonterminal_claimants cs (final_decisions traversal)
       in if nonterminal \<noteq> [] then
            rbind (raise (nonvacuity_rejection cs
              (Message ''{} examined claims remained in Escalate after traversal: {}'' [ANat (length nonterminal), AList nonterminal])
              (Message ''NON-VACUOUS requires every governed claim to reach a terminal Permit or Deny disposition'' [])
              nonterminal)) (\<lambda>v. Inr (Inl v))
          else Inr (Inr (permits_some cs (final_decisions traversal), length cs)))"

definition nonvacuity_cycle ::
  "regex_engine \<Rightarrow> governance_graph \<Rightarrow> liveness \<Rightarrow> node_id list \<Rightarrow> legitimacy_error fault + (axiom_verdict + liveness)" where
  "nonvacuity_cycle rx g pt cycle =
     (let cycle_claims = synthetic_claims_for_cycle g cycle
      in rbind (raise (iterate_cycle rx g cycle cycle_claims 32 EPSILON)) (\<lambda>result.
           if \<not> converged result then
             rbind (raise (nonvacuity_rejection cycle_claims
               (Message ''cycle {:?} deadlocked before reaching terminal dispositions'' [AList cycle])
               (Message ''NON-VACUOUS rejects deadlocked governance cycles'' [])
               (map claimant_id cycle_claims))) (\<lambda>v. Inr (Inl v))
           else
             let nonterminal = nonterminal_claimants cycle_claims (fixed_point_decisions result)
             in if nonterminal \<noteq> [] then
                  rbind (raise (nonvacuity_rejection cycle_claims
                    (Message ''cycle {:?} left {} synthetic claims in Escalate: {}''
                       [AList cycle, ANat (length nonterminal), AList nonterminal])
                    (Message ''NON-VACUOUS rejects permanent escalation loops'' [])
                    nonterminal)) (\<lambda>v. Inr (Inl v))
                else Inr (Inr (fst pt \<or> permits_some cycle_claims (fixed_point_decisions result),
                               snd pt + iterations result))))"

definition check_graph_nonvacuity ::
  "regex_engine \<Rightarrow> governance_graph \<Rightarrow> governance_claim list \<Rightarrow> node_id list list
     \<Rightarrow> legitimacy_error fault + axiom_verdict" where
  "check_graph_nonvacuity rx g cs cycles =
     (if nodes g = [] then
        raise (nonvacuity_rejection cs (Message ''graph has no governance nodes'' [])
          (Message ''NON-VACUOUS requires a nonempty governance graph with at least one permitting disposition'' []) [])
      else
        rbind (if cycles = [] then nonvacuity_traversal rx g cs
               else rloop (nonvacuity_cycle rx g) (False, length cs) cycles)
          (\<lambda>o1. case o1 of
             Inl v \<Rightarrow> Inr v
           | Inr (permit_found, tested) \<Rightarrow>
               if permit_found then Inr (Pass NonVacuous tested)
               else if cycles = [] then
                 raise (nonvacuity_rejection cs
                   (Message ''all examined claims reached Deny; the graph refused every governed claim'' [])
                   (Message ''NON-VACUOUS requires at least one examined claim to reach Permit'' []) [])
               else
                 raise (nonvacuity_rejection (synthetic_claims_for_cycles g cycles)
                   (Message ''all synthetic cycle probes reached Deny; the graph refused every governed claim'' [])
                   (Message ''NON-VACUOUS requires at least one synthetic cycle probe to reach Permit'' []) [])))"

section \<open>Lemmas: overriding every node\<close>

lemma bm_get_override: "bm_get (nodes (constant_override_graph g d)) v
    = (if bm_has (nodes g) v then Some (override_node d v) else None)"
proof -
  have "map_of (map (\<lambda>v. (v, f v)) vs) v = (if v \<in> set vs then Some (f v) else None)" for f :: "node_id \<Rightarrow> governance_node" and vs
    by (induction vs) auto
  from this [of "override_node d" "bm_keys (nodes g)"] show ?thesis
    by (simp add: constant_override_graph_def bm_get_def bm_has_def)
qed

lemma override_keys [simp]: "bm_keys (nodes (constant_override_graph g d)) = bm_keys (nodes g)"
  by (simp add: constant_override_graph_def comp_def)

lemma override_edge_rel [simp]: "edge_rel (constant_override_graph g d) = edge_rel g"
  by (simp add: edge_rel_def constant_override_graph_def image_image)

lemma override_has: "bm_has (nodes (constant_override_graph g d)) v \<longleftrightarrow> bm_has (nodes g) v"
  by (simp add: bm_has_get bm_get_override)

lemma override_edges: "e \<in> set (edges (constant_override_graph g d)) \<longleftrightarrow>
    (\<exists>e' \<in> set (edges g). e = \<lparr>edge_from = edge_from e', edge_to = edge_to e', edge_transform = PassThrough\<rparr>)"
  by (auto simp: constant_override_graph_def)

lemma override_linked: "well_linked g \<Longrightarrow> well_linked (constant_override_graph g d)"
  unfolding well_linked_def bm_wf_def override_keys override_has by (auto simp: override_edges)

lemma override_has_out: "has_out (constant_override_graph g d) v \<longleftrightarrow> has_out g v"
  by (auto simp: has_out_def constant_override_graph_def list_ex_iff)

lemma override_entry: "is_entry (constant_override_graph g d) v \<longleftrightarrow> is_entry g v"
  by (auto simp: is_entry_def constant_override_graph_def)

lemma override_node_id: "node_id_for_node (override_node d v) = v"
  by (simp add: override_node_def)

lemma override_node_valid: "validate_governance_node rx (override_node d v) = Inr ()"
  by (simp add: override_node_def)

lemma override_valid:
  assumes "well_linked g"
  shows "validate_governance_graph rx (constant_override_graph g d) = Inr ()"
  unfolding validate_governance_graph_Inr
proof (intro conjI ballI)
  fix e assume "e \<in> set (nodes (constant_override_graph g d))"
  then obtain v where "e = (v, override_node d v)" by (auto simp: constant_override_graph_def)
  then show "validate_graph_node rx e = Inr ()"
    by (simp add: validate_graph_node_def override_node_id override_node_valid)
next
  fix e assume "e \<in> set (edges (constant_override_graph g d))"
  with assms show "validate_graph_edge (constant_override_graph g d) e = Inr ()"
    unfolding validate_graph_edge_Inr override_has override_edges by (auto simp: edge_ok_def well_linked_def)
qed

lemma override_traverses:
  assumes "well_linked g" and "acyclic (edge_rel g)" and "nodes g \<noteq> []" and "validate_governance_claims cs = Inr ()"
  shows "\<exists>r. traverse rx (constant_override_graph g d) cs = Inr r"
proof (rule traverse_total [OF override_valid [OF assms(1)]])
  show "bm_wf (nodes (constant_override_graph g d))" using override_linked [OF assms(1)] by (simp add: well_linked_def)
  show "nodes (constant_override_graph g d) \<noteq> []" using assms(3) by (simp add: constant_override_graph_def)
  show "\<forall>(v, n) \<in> set (nodes (constant_override_graph g d)). node_kind n \<noteq> ''Proportional''"
    by (auto simp: constant_override_graph_def override_node_def)
  show "\<forall>(v, n) \<in> set (nodes (constant_override_graph g d)). \<forall>c \<in> set cs. \<forall>f \<in> node_fields n. provides c f"
    by (auto simp: constant_override_graph_def override_node_def)
qed (use assms in simp_all)

lemma override_dec_at:
  "bm_has (nodes g) v \<Longrightarrow> dec_at rx (constant_override_graph g d) v b c = d"
  by (simp add: dec_at_def bm_get_override override_node_def evaluate_combination_def)

text \<open>Every final decision under an override is the override.\<close>

lemma override_decided:
  assumes "flow rx (constant_override_graph g d) cs B"
  shows "decided rx (constant_override_graph g d) B (set (bm_keys (nodes g))) k \<subseteq> {d}"
  by (auto simp: decided_def override_dec_at bm_has_def)

lemma override_final:
  assumes "well_linked g" and "traverse_final_decisions rx (constant_override_graph g d) cs = Inr f" and "c \<in> set cs"
  shows "bm_get f (claimant_id c) = Some d"
proof -
  let ?g = "constant_override_graph g d"
  note link = override_linked [OF assms(1)]
  obtain B where B: "flow rx ?g cs B" "bm_get f (claimant_id c) = strictest (decided rx ?g B (set (bm_keys (nodes ?g))) (claimant_id c))"
    using traverse_final_flow [OF link assms(2)] by blast
  obtain d' where "bm_get f (claimant_id c) = Some d'"
    using final_lookup [OF link assms(2,3)] by blast
  with B override_decided [OF B(1), of "claimant_id c"] show ?thesis
    by (auto simp: strictest_def subset_singleton_iff split: if_splits)
qed

section \<open>Lemmas: a permissive stage behind the graph\<close>

lemma append_candidate_ok: "node_id_new (append_candidate n) = Inr (append_candidate n)"
proof -
  have "CHR ''_'' \<in> set (append_candidate n)" by (simp add: append_candidate_def)
  moreover have "code_of (CHR ''_'') = 95" by simp
  ultimately have "\<not> is_blank (append_candidate n)" using blank_chars [of "append_candidate n" "CHR ''_''"] by linarith
  then show ?thesis by (simp add: node_id_new_def)
qed

lemma fresh_sink:
  assumes "bm_wf (nodes g)"
  shows "\<exists>sink. fresh_sink_id g = Inr sink \<and> \<not> bm_has (nodes g) sink"
proof -
  let ?is = "[0..<Suc (length (nodes g))]"
  have "\<exists>i \<in> set ?is. \<not> bm_has (nodes g) (append_candidate i)"
  proof (rule ccontr)
    assume "\<not> ?thesis"
    then have "append_candidate ` {0..<Suc (length (nodes g))} \<subseteq> set (bm_keys (nodes g))"
      unfolding set_upt bm_has_def set_map by blast
    moreover have "inj append_candidate" by (auto intro!: injI simp: append_candidate_def show_nat_inj)
    ultimately have "Suc (length (nodes g)) \<le> card (set (bm_keys (nodes g)))"
      using card_mono [of "set (bm_keys (nodes g))" "append_candidate ` {0..<Suc (length (nodes g))}"]
      by (simp add: card_image inj_on_subset)
    then show False using card_length [of "bm_keys (nodes g)"] by simp
  qed
  then obtain i where i: "find (\<lambda>i. \<not> bm_has (nodes g) (append_candidate i)) ?is = Some i"
    by (cases "find (\<lambda>i. \<not> bm_has (nodes g) (append_candidate i)) ?is") (auto simp only: find_None_iff)
  have "rloop (\<lambda>_ index. rbind (node_id_new (append_candidate index)) (\<lambda>candidate.
      Inr (if \<not> bm_has (nodes g) candidate then Inl candidate else Inr ()))) () ?is
    = Inr (Inl (append_candidate i) :: node_id + unit)"
    using i rloop_unit [of ?is "\<lambda>_ index. rbind (node_id_new (append_candidate index)) (\<lambda>candidate.
        Inr (if \<not> bm_has (nodes g) candidate then Inl candidate else Inr ()))"
        "\<lambda>i. bm_has (nodes g) (append_candidate i)" append_candidate]
    by (simp add: append_candidate_ok del: upt_Suc)
  then show ?thesis using i by (auto simp: fresh_sink_id_def find_Some_iff simp del: upt_Suc)
qed

lemma terminal_nodes_iff: "v \<in> set (terminal_nodes g) \<longleftrightarrow> v \<in> set (bm_keys (nodes g)) \<and> \<not> has_out g v"
  by (auto simp: terminal_nodes_def has_out_def list_ex_iff)

lemma sink_edges: "e \<in> set (edges (append_sink sink g)) \<longleftrightarrow> e \<in> set (edges g)
    \<or> (\<exists>v \<in> set (terminal_nodes g). e = \<lparr>edge_from = v, edge_to = sink, edge_transform = PassThrough\<rparr>)"
  by (auto simp: append_sink_def)

lemma sink_get: "bm_get (nodes (append_sink sink g)) v = (if v = sink then Some (permit_suffix sink) else bm_get (nodes g) v)"
  by (simp add: append_sink_def)

lemma sink_keys: "set (bm_keys (nodes (append_sink sink g))) = insert sink (set (bm_keys (nodes g)))"
  by (simp add: append_sink_def set_keys_insert)

lemma sink_has: "bm_has (nodes (append_sink sink g)) v \<longleftrightarrow> v = sink \<or> bm_has (nodes g) v"
  by (simp add: append_sink_def)

lemma sink_edge_rel: "edge_rel (append_sink sink g) = edge_rel g \<union> set (terminal_nodes g) \<times> {sink}"
  by (auto simp: edge_rel_def append_sink_def image_Un image_image)

lemma sink_linked:
  assumes "well_linked g"
  shows "well_linked (append_sink sink g)"
proof -
  have "bm_has (nodes g) v" if "v \<in> set (terminal_nodes g)" for v
    using that by (simp add: terminal_nodes_iff bm_has_def)
  with assms show ?thesis
    unfolding well_linked_def sink_has by (auto simp: sink_edges) (simp add: append_sink_def)
qed

lemma sink_isolated:
  assumes "well_linked g" and "\<not> bm_has (nodes g) sink" and "e \<in> set (edges g)"
  shows "edge_from e \<noteq> sink" and "edge_to e \<noteq> sink"
  using assms by (auto simp: well_linked_def)

lemma sink_acyclic:
  assumes "well_linked g" and "\<not> bm_has (nodes g) sink" and "acyclic (edge_rel g)"
  shows "acyclic (edge_rel (append_sink sink g))"
proof -
  have "(sink, y) \<notin> edge_rel g" for y
    using sink_isolated(1) [OF assms(1,2)] by (auto simp: edge_rel_def)
  moreover have "sink \<notin> set (terminal_nodes g)" using assms(2) by (simp add: terminal_nodes_iff bm_has_def)
  ultimately have "(sink, y) \<notin> edge_rel (append_sink sink g)" for y by (simp add: sink_edge_rel)
  then have dead: "(sink, y) \<notin> (edge_rel (append_sink sink g))\<^sup>+" for y by (meson tranclD)
  have "(x, y) \<in> (edge_rel g)\<^sup>+ \<or> y = sink" if "(x, y) \<in> (edge_rel (append_sink sink g))\<^sup>+" for x y
    using that
  proof (induction rule: trancl_induct)
    case (base y)
    then show ?case by (auto simp: sink_edge_rel)
  next
    case (step y z)
    then have "y \<noteq> sink" using dead by blast
    with step have "(x, y) \<in> (edge_rel g)\<^sup>+" by blast
    moreover from step(2) have "(y, z) \<in> edge_rel g \<or> z = sink" by (auto simp: sink_edge_rel)
    ultimately show ?case by (meson trancl.trancl_into_trancl)
  qed
  with assms(3) dead show ?thesis unfolding acyclic_def by blast
qed

lemma terminal_exists:
  assumes "well_linked g" and "acyclic (edge_rel g)" and "nodes g \<noteq> []"
  shows "terminal_nodes g \<noteq> []"
proof -
  have "wf ((edge_rel g)\<inverse>)"
    using finite_acyclic_wf_converse [of "edge_rel g"] assms(2) by (simp add: edge_rel_def)
  moreover have "fst (hd (nodes g)) \<in> set (bm_keys (nodes g))" using assms(3) by simp
  ultimately obtain v where v: "v \<in> set (bm_keys (nodes g))" "\<And>w. (w, v) \<in> (edge_rel g)\<inverse> \<Longrightarrow> w \<notin> set (bm_keys (nodes g))"
    by (rule wfE_min) blast
  then have "\<not> has_out g v"
    using assms(1) by (force simp: has_out_def list_ex_iff edge_rel_def well_linked_def bm_has_def)
  with v(1) have "v \<in> set (terminal_nodes g)" by (simp add: terminal_nodes_iff)
  then show ?thesis by auto
qed

text \<open>The flow of the extended graph: unchanged in \<open>g\<close>, and the claims escalated at its ends at the sink.\<close>

definition sink_claims ::
  "regex_engine \<Rightarrow> governance_graph \<Rightarrow> governance_claim list \<Rightarrow> (node_id \<Rightarrow> governance_claim list) \<Rightarrow> governance_claim list" where
  "sink_claims rx g cs B = filter (\<lambda>c. \<exists>v \<in> set (terminal_nodes g). c \<in> escalated rx g v (B v)) cs"

lemma sink_dec_at:
  "v \<noteq> sink \<Longrightarrow> dec_at rx (append_sink sink g) v b c = dec_at rx g v b c"
  "dec_at rx (append_sink sink g) sink b c = Permit"
  by (simp_all add: dec_at_def sink_get permit_suffix_def evaluate_combination_def)

lemma sink_escalated:
  "v \<noteq> sink \<Longrightarrow> escalated rx (append_sink sink g) v b = escalated rx g v b"
  "escalated rx (append_sink sink g) sink b = {}"
  by (auto simp: escalated_def sink_dec_at)

lemma sink_entry:
  assumes "well_linked g" and "\<not> bm_has (nodes g) sink"
  shows "v \<noteq> sink \<Longrightarrow> is_entry (append_sink sink g) v \<longleftrightarrow> is_entry g v"
    and "terminal_nodes g \<noteq> [] \<Longrightarrow> \<not> is_entry (append_sink sink g) sink"
proof -
  show "v \<noteq> sink \<Longrightarrow> is_entry (append_sink sink g) v \<longleftrightarrow> is_entry g v"
    by (auto simp: is_entry_def sink_edges)
  assume "terminal_nodes g \<noteq> []"
  then obtain v where "v \<in> set (terminal_nodes g)" using hd_in_set by blast
  then have "\<lparr>edge_from = v, edge_to = sink, edge_transform = PassThrough\<rparr> \<in> set (edges (append_sink sink g))"
    by (simp add: sink_edges)
  then show "\<not> is_entry (append_sink sink g) sink" unfolding is_entry_def by force
qed

lemma sink_inflow:
  assumes "well_linked g" and "\<not> bm_has (nodes g) sink" and "v \<noteq> sink"
  shows "inflow rx (append_sink sink g) cs B UNIV v = inflow rx g cs B UNIV v"
proof -
  have "{e \<in> set (edges (append_sink sink g)). edge_to e = v} = {e \<in> set (edges g). edge_to e = v}"
    using assms(3) by (auto simp: sink_edges)
  moreover have "escalated rx (append_sink sink g) (edge_from e) b = escalated rx g (edge_from e) b"
    if "e \<in> set (edges g)" for e b
    using sink_isolated [OF assms(1,2) that] by (simp add: sink_escalated)
  ultimately show ?thesis using sink_entry(1) [OF assms] by (auto simp: inflow_def)
qed

lemma set_sink_claims:
  assumes "flow rx g cs B"
  shows "set (sink_claims rx g cs B) = (\<Union>v \<in> set (terminal_nodes g). escalated rx g v (B v))"
proof -
  have "escalated rx g v (B v) \<subseteq> set cs" if "v \<in> set (terminal_nodes g)" for v
    using flowD(1) [OF assms, of v] that by (auto simp: terminal_nodes_iff escalated_def batch_ok_def)
  then show ?thesis by (auto simp: sink_claims_def)
qed

lemma sink_flow:
  assumes link: "well_linked g" and fresh: "\<not> bm_has (nodes g) sink" and acyc: "acyclic (edge_rel g)" and ne: "nodes g \<noteq> []"
    and cs: "distinct (map claimant_id cs)" and B: "flow rx g cs B"
  shows "flow rx (append_sink sink g) cs (B(sink := sink_claims rx g cs B))"
  unfolding flow_def sink_keys
proof (intro ballI)
  let ?g = "append_sink sink g" and ?B = "B(sink := sink_claims rx g cs B)"
  fix v assume v: "v \<in> insert sink (set (bm_keys (nodes g)))"
  show "batch_ok cs (?B v) \<and> node_ok rx ?g v (?B v) \<and> set (?B v) = inflow rx ?g cs ?B UNIV v"
  proof (cases "v = sink")
    case True
    have "batch_ok cs (sink_claims rx g cs B)"
      using cs by (auto simp: batch_ok_def sink_claims_def distinct_map_filter)
    moreover have "node_ok rx ?g sink b" for b
      by (simp add: node_ok_def sink_get permit_suffix_def evaluate_combination_def)
    moreover have "inflow rx ?g cs ?B UNIV sink = (\<Union>u \<in> set (terminal_nodes g). escalated rx g u (B u))"
    proof -
      have "{e \<in> set (edges ?g). edge_to e = sink}
          = (\<lambda>u. \<lparr>edge_from = u, edge_to = sink, edge_transform = PassThrough\<rparr>) ` set (terminal_nodes g)"
        using sink_isolated(2) [OF link fresh] by (auto simp: sink_edges)
      moreover have "u \<noteq> sink" if "u \<in> set (terminal_nodes g)" for u
        using that fresh by (auto simp: terminal_nodes_iff bm_has_def)
      ultimately show ?thesis
        using sink_entry(2) [OF link fresh terminal_exists [OF link acyc ne]]
        by (auto simp: inflow_def sink_escalated)
    qed
    ultimately show ?thesis using True set_sink_claims [OF B] by simp
  next
    case False
    then have v': "v \<in> set (bm_keys (nodes g))" using v by simp
    have "inflow rx g cs ?B UNIV v = inflow rx g cs B UNIV v"
      using sink_isolated(1) [OF link fresh] by (auto simp: inflow_def)
    with flowD [OF B v'] False sink_inflow [OF link fresh False, of rx cs ?B] show ?thesis
      by (simp add: node_ok_def sink_get)
  qed
qed

lemma sink_has_out:
  assumes "v \<in> set (bm_keys (nodes g))"
  shows "has_out (append_sink sink g) v"
proof (cases "has_out g v")
  case False
  with assms have "v \<in> set (terminal_nodes g)" by (simp add: terminal_nodes_iff)
  then have "\<lparr>edge_from = v, edge_to = sink, edge_transform = PassThrough\<rparr> \<in> set (edges (append_sink sink g))"
    by (simp add: sink_edges)
  then show ?thesis unfolding has_out_def list_ex_iff by force
qed (auto simp: has_out_def append_sink_def)

lemma sink_decided:
  assumes link: "well_linked g" and fresh: "\<not> bm_has (nodes g) sink" and B: "flow rx g cs B"
  shows "decided rx (append_sink sink g) (B(sink := sink_claims rx g cs B)) (insert sink (set (bm_keys (nodes g)))) k
    = decided rx g B (set (bm_keys (nodes g))) k - {Escalate}
      \<union> (if Escalate \<in> decided rx g B (set (bm_keys (nodes g))) k then {Permit} else {})"
proof -
  let ?g = "append_sink sink g" and ?B = "B(sink := sink_claims rx g cs B)" and ?K = "set (bm_keys (nodes g))"
  have nK: "sink \<notin> ?K" using fresh by (simp add: bm_has_def)
  have "decided rx ?g ?B (insert sink ?K) k = decided rx ?g ?B {sink} k \<union> decided rx ?g ?B ?K k"
    by (auto simp: decided_def)
  moreover have "decided rx ?g ?B {sink} k = (if \<exists>c \<in> set (sink_claims rx g cs B). claimant_id c = k then {Permit} else {})"
    by (auto simp: decided_def sink_dec_at)
  moreover have "(\<exists>c \<in> set (sink_claims rx g cs B). claimant_id c = k) \<longleftrightarrow> Escalate \<in> decided rx g B ?K k"
  proof
    assume "\<exists>c \<in> set (sink_claims rx g cs B). claimant_id c = k"
    then obtain v c where "v \<in> set (terminal_nodes g)" "c \<in> escalated rx g v (B v)" "claimant_id c = k"
      unfolding set_sink_claims [OF B] by blast
    then show "Escalate \<in> decided rx g B ?K k"
      by (intro decidedI [of v _ c]) (auto simp: terminal_nodes_iff escalated_def)
  next
    assume "Escalate \<in> decided rx g B ?K k"
    then show "\<exists>c \<in> set (sink_claims rx g cs B). claimant_id c = k"
    proof (rule decidedE)
      fix v c
      assume vc: "v \<in> ?K" "c \<in> set (B v)" "claimant_id c = k" "Escalate = dec_at rx g v (B v) c"
        "Escalate \<noteq> Escalate \<or> \<not> has_out g v"
      then have "v \<in> set (terminal_nodes g)" "c \<in> escalated rx g v (B v)"
        by (simp_all add: terminal_nodes_iff escalated_def)
      with vc(3) show ?thesis unfolding set_sink_claims [OF B] by blast
    qed
  qed
  moreover have "decided rx ?g ?B ?K k = decided rx g B ?K k - {Escalate}"
  proof -
    have "dec_at rx ?g v (?B v) c = dec_at rx g v (B v) c" "?B v = B v" if "v \<in> ?K" for v c
      using that nK sink_dec_at(1) [of v sink] by auto
    then show ?thesis unfolding decided_def using sink_has_out by fastforce
  qed
  ultimately show ?thesis by (simp only: Un_commute)
qed

lemma strictest_cases:
  "strictest S = (if Deny \<in> S then Some Deny else if Escalate \<in> S then Some Escalate
     else if Permit \<in> S then Some Permit else None)"
proof -
  have "Min S = (if Deny \<in> S then Deny else if Escalate \<in> S then Escalate else Permit)" if "S \<noteq> {}"
  proof (rule Min_eqI)
    show "(if Deny \<in> S then Deny else if Escalate \<in> S then Escalate else Permit) \<le> d" if "d \<in> S" for d
      using that by (cases d) (auto simp: less_eq_decision_def)
    show "(if Deny \<in> S then Deny else if Escalate \<in> S then Escalate else Permit) \<in> S"
      using \<open>S \<noteq> {}\<close> by (metis all_not_in_conv decision.exhaust)
  qed simp
  then show ?thesis by (auto simp: strictest_def) (metis decision.exhaust)+
qed

text \<open>What appending the stage does to the final decisions.\<close>

definition permit_escalated :: "decision \<Rightarrow> decision" where
  "permit_escalated d = (if d = Escalate then Permit else d)"

lemma strictest_permitted:
  "strictest (S - {Escalate} \<union> (if Escalate \<in> S then {Permit} else {})) = map_option permit_escalated (strictest S)"
  unfolding strictest_cases permit_escalated_def by auto

lemma appended_final:
  assumes link: "well_linked g" and f: "traverse_final_decisions rx g cs = Inr f"
  shows "\<exists>g' f'. append_permissive_stage g = Inr g' \<and> traverse_final_decisions rx g' cs = Inr f'
    \<and> bm_wf f' \<and> (\<forall>k. bm_get f' k = map_option permit_escalated (bm_get f k))"
proof -
  obtain sink where sink: "fresh_sink_id g = Inr sink" "\<not> bm_has (nodes g) sink"
    using fresh_sink [of g] link by (auto simp: well_linked_def)
  note ok = final_valid [OF link f]
  obtain B where B: "flow rx g cs B" "\<And>k. bm_get f k = strictest (decided rx g B (set (bm_keys (nodes g))) k)"
    using traverse_final_flow [OF link f] by blast
  have ids: "distinct (map claimant_id cs)" using ok(3) by (simp add: validate_governance_claims_Inr)
  have ne: "nodes (append_sink sink g) \<noteq> []" using sink_get [of sink g sink] by (auto simp: bm_get_def)
  from flow_traverse_final [OF sink_linked [OF link] sink_acyclic [OF link sink(2) ok(1)] ok(3) ne
      sink_flow [OF link sink(2) ok(1,2) ids B(1)]]
  obtain f' where f': "traverse_final_decisions rx (append_sink sink g) cs = Inr f'" "bm_wf f'"
      "\<And>k. bm_get f' k = strictest (decided rx (append_sink sink g) (B(sink := sink_claims rx g cs B))
        (set (bm_keys (nodes (append_sink sink g)))) k)" by blast
  have "bm_get f' k = map_option permit_escalated (bm_get f k)" for k
    using f'(3) [of k] unfolding sink_keys sink_decided [OF link sink(2) B(1)] B(2) strictest_permitted .
  with f' sink show ?thesis by (auto simp: append_permissive_stage_def)
qed

section \<open>Lemmas: rejections and cycles\<close>

lemma no_cycles_iff: "well_linked g \<Longrightarrow> \<exists>cycles. detect_cycles g = Inr cycles \<and> (cycles = [] \<longleftrightarrow> acyclic (edge_rel g))"
proof -
  assume link: "well_linked g"
  then have "\<forall>e \<in> set (edges g). bm_has (nodes g) (edge_from e)" by (simp add: well_linked_def)
  then show ?thesis
    using detect_cycles_scc finite_cyclic_classes [of g] by (auto simp: cyclic_classes_def acyclic_def)
qed

lemma kernel_rejection_ok:
  assumes "validate_governance_claims cs = Inr ()"
  shows "\<exists>ce. kernel_rejection axm cs d d' desc viol = Inr (Fail axm desc ce)"
proof -
  obtain a a' where "diag_decision_allocation cs d = Inr a" "diag_decision_allocation cs d' = Inr a'"
    using decision_allocation_ok [OF assms] unfolding diag_allocation_eq by metis
  then show ?thesis
    by (simp add: kernel_rejection_def diag_convert_eq convert_claims_ok [OF assms] graph_estate_eq)
qed

lemma convert_governance_eq:
  assumes "\<And>c. c \<in> set cs \<Longrightarrow> bm_wf (metrics c)"
  shows "convert_governance_claims cs = convert_claims cs"
proof -
  have "fold (\<lambda>(f, v). bm_insert f v) ms acc = acc @ ms" if "bm_wf (acc @ ms)" for acc ms :: "(string, f64) bmap"
    using that
  proof (induction ms arbitrary: acc)
    case (Cons m ms)
    obtain f v where m: "m = (f, v)" by force
    have "a < f" if "a \<in> fst ` set acc" for a
      using Cons.prems that by (auto simp: bm_wf_def sorted_wrt_append m)
    with Cons m show ?case by (simp add: bm_insert_snoc)
  qed simp
  from this [of "[]"] have "fold (\<lambda>(field, value). with_metric field value) ms c = c\<lparr>clm_metrics := ms\<rparr>"
    if "bm_wf ms" "clm_metrics c = []" for ms c
  proof -
    have "fold (\<lambda>(field, value). with_metric field value) xs c
        = c\<lparr>clm_metrics := fold (\<lambda>(f, v). bm_insert f v) xs (clm_metrics c)\<rparr>" for xs c
      by (induction xs arbitrary: c) (auto simp: with_metric_def)
    with that \<open>\<And>ms. bm_wf ([] @ ms) \<Longrightarrow> fold (\<lambda>(f, v). bm_insert f v) ms [] = [] @ ms\<close> show ?thesis by simp
  qed
  then have "convert_governance_claim c = convert_claim c" if "c \<in> set cs" for c
    using assms [OF that]
    by (cases "claim_try_new (claimant_id c) (strength c)")
      (auto simp: convert_governance_claim_def convert_claim_def claim_try_new_def result_simps)
  then show ?thesis by (auto simp: convert_governance_claims_def convert_claims_def intro: rmap_cong)
qed

lemma stuck_fraction_ok:
  assumes "length cs < 2 ^ 53" and "set nonterminal \<subseteq> claimant_id ` set cs"
  shows "is_finite (stuck_fraction cs nonterminal) \<and> \<not> f64_lt (stuck_fraction cs nonterminal) (Zero False)"
proof (cases "nonterminal = []")
  case True
  then show ?thesis
    using assms(1) by (simp add: stuck_fraction_def f64_of_nat_exact f64_of_nat_def [of 0] round64_def [of 0] f64_lt_def f64_le_def)
next
  case False
  let ?r = "card (set nonterminal)" and ?t = "length cs"
  have cs: "cs \<noteq> []" using False assms(2) by auto
  have r: "0 < ?r" using False by (simp add: card_gt_0_iff)
  have "?r \<le> card (claimant_id ` set cs)" using assms(2) by (intro card_mono) auto
  also have "\<dots> \<le> ?t" using card_image_le [of "set cs" claimant_id] card_length [of cs] by simp
  finally have rt: "?r \<le> ?t" .
  have t: "(of_nat ?t :: rat) \<le> 2 ^ 53" using assms(1) by (metis less_imp_le of_nat_le_iff of_nat_numeral of_nat_power)
  have "1 / 2 ^ 53 \<le> (of_nat ?r :: rat) / of_nat ?t"
    using t r rt cs by (intro frac_le) auto
  moreover have "(of_nat ?r :: rat) / of_nat ?t \<le> 1" using rt cs by simp
  moreover have "round64 (1 / 2 ^ 53) = Num (1 / 2 ^ 53)"
    by (rule round64_exact [of _ 1 "- 53"]) (simp_all add: power_int_def power_one_over)
  ultimately obtain q where "round64 (of_nat ?r / of_nat ?t) = Num q" "1 / 2 ^ 53 \<le> q"
    using round64_between [of "1 / 2 ^ 53" "of_nat ?r / of_nat ?t" 1] round64_one by auto
  moreover have "f64_of_nat ?r = Num (of_nat ?r)" "f64_of_nat ?t = Num (of_nat ?t)"
    using r rt assms(1) by (auto intro!: f64_of_nat_exact)
  moreover have "stuck_fraction cs nonterminal = f64_div (f64_of_nat ?r) (f64_of_nat ?t)"
    using cs by (simp add: stuck_fraction_def)
  ultimately show ?thesis by (simp add: f64_lt_def f64_le_def)
qed

lemma nonvacuity_rejection_ok:
  assumes "validate_governance_claims cs = Inr ()" and "\<And>c. c \<in> set cs \<Longrightarrow> bm_wf (metrics c)"
    and "length cs < 2 ^ 53" and "set nonterminal \<subseteq> claimant_id ` set cs"
  shows "\<exists>ce. nonvacuity_rejection cs desc viol nonterminal = Inr (Fail NonVacuous desc ce)"
proof -
  have conv: "convert_governance_claims cs = convert_claims cs" by (rule convert_governance_eq) (rule assms(2))
  have "\<exists>a. zero_decision_allocation cs = Inr a"
    unfolding zero_decision_allocation_def conv
    by (rule valid_assignment [OF assms(1)]) (simp add: f64_lt_def f64_le_def)
  moreover have "\<exists>a. nonvacuity_liveness_allocation cs nonterminal = Inr a"
    unfolding nonvacuity_liveness_allocation_def conv
    by (rule valid_assignment [OF assms(1)]) (use stuck_fraction_ok [OF assms(3,4)] in \<open>auto simp: f64_lt_def f64_le_def\<close>)
  ultimately show ?thesis
    by (auto simp: nonvacuity_rejection_def conv convert_claims_ok [OF assms(1)] estate_new_def
        estate_total_new_def f64_le_def)
qed

lemma set_nonterminal: "set (nonterminal_claimants cs decisions) =
    claimant_id ` {c \<in> set cs. bm_get decisions (claimant_id c) \<notin> {Some Permit, Some Deny}}"
  unfolding nonterminal_claimants_def set_sort set_map set_filter
  by (intro arg_cong [where f = "image claimant_id"] Collect_cong) (auto split: option.splits decision.splits)

lemma probe_metrics_wf:
  assumes "c \<in> set (synthetic_claims_for_nodes g vs)"
  shows "bm_wf (metrics c)"
proof -
  have ins: "bm_wf (fold (\<lambda>k. bm_insert k v) ks m)" if "bm_wf m" for ks m and v :: f64
    using that by (induction ks arbitrary: m) auto
  have ins': "bm_wf (fold (\<lambda>(f, v). bm_insert f v) ps m)" if "bm_wf m" for ps :: "(string \<times> f64) list" and m
    using that by (induction ps arbitrary: m) auto
  have base: "bm_wf (metrics (baseline_claim mf))" for mf
    unfolding baseline_claim_sel by (rule ins) (simp add: bm_wf_def)
  from assms consider mf where "c = baseline_claim mf" | mf v where "c \<in> set (gate_claims g mf v)"
    unfolding synthetic_claims_for_nodes_def Let_def set_sort by auto
  then show ?thesis
  proof cases
    case 2
    then show ?thesis
      by (rule gate_claims_mem) (simp only: claim_for_gate_metrics, intro bm_wf_insert ins' base)
  qed (use base in blast)
qed

lemma traverse_final: "traverse rx g cs = Inr r \<Longrightarrow> traverse_final_decisions rx g cs = Inr (final_decisions r)"
  unfolding traverse_final_decisions_def traverse_def traverse_claims_uncaptured by (auto simp: result_simps)

lemma acyclic_no_cycles: "well_linked g \<Longrightarrow> acyclic (edge_rel g) \<Longrightarrow> detect_cycles g = Inr []"
  using no_cycles_iff [of g] by auto

section \<open>Properties\<close>

text \<open>Certifiability. On a validated graph that traverses the claims the check passes: every
  claimant has a final decision, and the count is the length of the trace plus the claims.\<close>

lemma certifiability_passes:
  assumes "validate_governance_graph rx g = Inr ()" and "bm_wf (nodes g)" and r: "traverse rx g cs = Inr r"
  shows "check_graph_certifiability rx g cs
    = Inr (Pass Certifiable (sum_list (map length (bm_values (node_decisions r))) + length cs))"
proof -
  have link: "well_linked g" by (rule graph_well_linked [OF assms(1,2)])
  note final = traverse_final [OF r] and ok = final_valid [OF link traverse_final [OF r]]
  have "filter (\<lambda>c. \<not> bm_has (final_decisions r) (claimant_id c)) cs = []"
    using final_lookup [OF link final] by (auto simp: filter_empty_conv bm_has_get)
  with assms ok acyclic_no_cycles [OF link] show ?thesis by (simp add: check_graph_certifiability_def Let_def)
qed

lemma certifiability_passes_witness:
  "check_graph_certifiability (\<lambda>_. None) sample_flow [sample_claim ''x''] = Inr (Pass Certifiable 3)"
proof -
  have "validate_governance_graph (\<lambda>_. None) sample_flow = Inr ()" "bm_wf (nodes sample_flow)"
    by (auto simp: validate_governance_graph_Inr validate_graph_node_def validate_graph_edge_def sample_flow_def
        sample_simps bm_wf_def)
  from certifiability_passes [OF this sample_flow_run] show ?thesis by (simp add: sample_flow_result_def)
qed

text \<open>Corrigibility. On a non-empty acyclic graph with a valid batch the check passes whatever
  the nodes do, and each of its overrides decides every claim by the override.\<close>

lemma corrigibility_passes:
  assumes "well_linked g" and "acyclic (edge_rel g)" and "nodes g \<noteq> []" and "validate_governance_claims cs = Inr ()"
  shows "check_graph_corrigibility rx g cs = Inr (Pass Corrigible 3)
    \<and> (\<forall>d. \<exists>r. traverse rx (constant_override_graph g d) cs = Inr r
         \<and> (\<forall>c \<in> set cs. bm_get (final_decisions r) (claimant_id c) = Some d))"
proof (intro conjI allI)
  have run: "\<exists>r. traverse rx (constant_override_graph g d) cs = Inr r" for d
    using assms by (rule override_traverses)
  obtain r1 r2 r3 where "traverse rx (constant_override_graph g Escalate) cs = Inr r1"
      "traverse rx (constant_override_graph g Deny) cs = Inr r2"
      "traverse rx (constant_override_graph g Permit) cs = Inr r3"
    using run [of Escalate] run [of Deny] run [of Permit] by blast
  then show "check_graph_corrigibility rx g cs = Inr (Pass Corrigible 3)"
    using assms acyclic_no_cycles [OF assms(1,2)] by (simp add: check_graph_corrigibility_def)
  fix d
  obtain r where r: "traverse rx (constant_override_graph g d) cs = Inr r" using run by blast
  with override_final [OF assms(1) traverse_final [OF r]]
  show "\<exists>r. traverse rx (constant_override_graph g d) cs = Inr r
      \<and> (\<forall>c \<in> set cs. bm_get (final_decisions r) (claimant_id c) = Some d)" by blast
qed

lemma sample_flow_acyclic: "acyclic (edge_rel sample_flow)"
proof -
  have "edge_rel sample_flow = {(''a'', ''b'')}" by (simp add: edge_rel_def sample_flow_def)
  then show ?thesis by (simp add: acyclic_insert acyclic_def [of "{}"])
qed

lemma corrigibility_passes_witness:
  "check_graph_corrigibility (\<lambda>_. None) sample_flow [sample_claim ''x''] = Inr (Pass Corrigible 3)"
  using corrigibility_passes [OF sample_flow_linked sample_flow_acyclic, of "[sample_claim ''x'']" "\<lambda>_. None"]
    final_valid(2,3) [OF sample_flow_linked traverse_final [OF sample_flow_run]] by blast

lemma compositional_passes:
  assumes link: "well_linked g" and f: "traverse_final_decisions rx g cs = Inr f"
  shows "check_graph_compositional_safety rx g cs = Inr (Pass CompositionalSafety (length cs))
    \<and> (\<exists>g' f'. append_permissive_stage g = Inr g' \<and> traverse_final_decisions rx g' cs = Inr f'
         \<and> (\<forall>k. bm_get f' k = map_option permit_escalated (bm_get f k)))"
proof -
  obtain g' f' where g': "append_permissive_stage g = Inr g'" "traverse_final_decisions rx g' cs = Inr f'"
      "\<And>k. bm_get f' k = map_option permit_escalated (bm_get f k)"
    using appended_final [OF assms] by blast
  have kept: "\<not> (or_default Escalate f k = Deny \<and> or_default Escalate f' k \<noteq> Deny)" for k
    using g'(3) [of k] by (auto simp: or_default_def permit_escalated_def split: option.splits)
  have skip: "(if or_default Escalate f k = Deny \<and> or_default Escalate f' k \<noteq> Deny then x else y) = y"
    for k and x y :: "legitimacy_error fault + (axiom_verdict + unit)"
    using kept [of k] by (rule if_not_P)
  have "rloop (\<lambda>_ c. Inr (Inr ())) () cs = (Inr (Inr ()) :: legitimacy_error fault + (axiom_verdict + unit))"
    by (induction cs) auto
  then have "check_graph_compositional_safety rx g cs = Inr (Pass CompositionalSafety (length cs))"
    using final_valid(1,2) [OF assms] acyclic_no_cycles [OF link] f g'(1,2)
    by (simp add: check_graph_compositional_safety_def diag_final_decisions_def skip Let_def)
  with g' show ?thesis by blast
qed



text \<open>C23: non-vacuity of an acyclic graph. If the graph traverses a batch (with ordered metrics, below
  \<open>2 ^ 53\<close> claims) then the check passes exactly when every claim ends in a permit or a denial and
  at least one in a permit; otherwise it fails with a counterexample.\<close>

theorem nonvacuity_decides:
  assumes link: "well_linked g" and r: "traverse rx g cs = Inr r"
    and "\<forall>c \<in> set cs. bm_wf (metrics c)" and "length cs < 2 ^ 53"
  shows "if (\<forall>c \<in> set cs. bm_get (final_decisions r) (claimant_id c) \<in> {Some Permit, Some Deny})
       \<and> (\<exists>c \<in> set cs. bm_get (final_decisions r) (claimant_id c) = Some Permit)
     then check_graph_nonvacuity rx g cs [] = Inr (Pass NonVacuous (length cs))
     else \<exists>desc ce. check_graph_nonvacuity rx g cs [] = Inr (Fail NonVacuous desc ce)"
proof -
  note ok = final_valid [OF link traverse_final [OF r]]
  have reject: "\<exists>ce. nonvacuity_rejection cs desc viol nt = Inr (Fail NonVacuous desc ce)"
    if "set nt \<subseteq> claimant_id ` set cs" for desc viol nt
    by (rule nonvacuity_rejection_ok [OF ok(3) _ assms(4) that]) (use assms(3) in blast)
  let ?nt = "nonterminal_claimants cs (final_decisions r)"
  have all: "?nt = [] \<longleftrightarrow> (\<forall>c \<in> set cs. bm_get (final_decisions r) (claimant_id c) \<in> {Some Permit, Some Deny})"
    using set_nonterminal [of cs "final_decisions r"] by (metis (no_types, lifting) empty_Collect_eq image_is_empty set_empty)
  have some: "permits_some cs (final_decisions r) \<longleftrightarrow> (\<exists>c \<in> set cs. bm_get (final_decisions r) (claimant_id c) = Some Permit)"
    by (simp add: permits_some_def list_ex_iff)
  have sub: "set ?nt \<subseteq> claimant_id ` set cs" unfolding set_nonterminal by blast
  obtain F where F: "\<And>desc viol. nonvacuity_rejection cs desc viol ?nt = Inr (Fail NonVacuous desc (F desc viol))"
    using reject [OF sub] by metis
  obtain G where G: "\<And>desc viol. nonvacuity_rejection cs desc viol [] = Inr (Fail NonVacuous desc (G desc viol))"
    using reject [of "[]"] by (metis empty_subsetI set_empty2)
  consider "?nt \<noteq> []" | "?nt = []" "permits_some cs (final_decisions r)" | "?nt = []" "\<not> permits_some cs (final_decisions r)"
    by blast
  then show ?thesis
  proof cases
    case 1
    with r ok(2) F have "\<exists>desc ce. check_graph_nonvacuity rx g cs [] = Inr (Fail NonVacuous desc ce)"
      by (simp add: check_graph_nonvacuity_def nonvacuity_traversal_def Let_def)
    with 1 all show ?thesis by presburger
  next
    case 2
    with r ok(2) have "check_graph_nonvacuity rx g cs [] = Inr (Pass NonVacuous (length cs))"
      by (simp add: check_graph_nonvacuity_def nonvacuity_traversal_def Let_def)
    with 2 all some show ?thesis by presburger
  next
    case 3
    with r ok(2) G have "\<exists>desc ce. check_graph_nonvacuity rx g cs [] = Inr (Fail NonVacuous desc ce)"
      by (simp add: check_graph_nonvacuity_def nonvacuity_traversal_def Let_def)
    with 3 some show ?thesis by presburger
  qed
qed

theorem nonvacuity_decides_witness:
  "check_graph_nonvacuity (\<lambda>_. None) sample_flow [sample_claim ''x''] [] = Inr (Pass NonVacuous 1)"
proof -
  have "bm_get (final_decisions sample_flow_result) (claimant_id (sample_claim ''x'')) = Some Permit"
    by (simp add: sample_flow_result_def sample_claim_def bm_get_def)
  moreover have "bm_wf (metrics (sample_claim ''x''))" by (simp add: sample_claim_def bm_wf_def)
  ultimately show ?thesis using nonvacuity_decides [OF sample_flow_linked sample_flow_run] by simp
qed

text \<open>Non-vacuity of a cyclic graph. On a validated graph of binary nodes the check fails for
  every list of detected cycles, whatever the claims: the probes of the first cycle never
  converge.\<close>

lemma nonvacuity_rejects_cycles:
  assumes valid: "validate_governance_graph rx g = Inr ()" and wf: "bm_wf (nodes g)"
    and binary: "\<forall>(v, n) \<in> set (nodes g). node_kind n = ''Binary''" and bounded: "gates_bounded g"
    and cycles: "detect_cycles g = Inr cycles" "cycles \<noteq> []"
    and small: "length (synthetic_claims_for_cycle g (hd cycles)) < 2 ^ 53"
  shows "\<exists>desc ce. check_graph_nonvacuity rx g cs cycles = Inr (Fail NonVacuous desc ce)"
proof -
  have link: "well_linked g" by (rule graph_well_linked [OF valid wf])
  have from_nodes: "\<forall>e \<in> set (edges g). bm_has (nodes g) (edge_from e)" using link by (simp add: well_linked_def)
  obtain cycle rest where c: "cycles = cycle # rest" using cycles(2) by (cases cycles) auto
  have in_cycles: "cycle \<in> set cycles" by (simp add: c)
  note shape = detected_cycle_shape [OF from_nodes cycles(1) in_cycles]
  let ?probes = "synthetic_claims_for_cycle g cycle"
  have pv: "validate_governance_claims ?probes = Inr ()"
    unfolding synthetic_claims_for_cycle_def by (rule probes_valid [OF valid wf bounded shape(1)])
  have has: "\<forall>v \<in> set cycle. bm_has (nodes g) v" by (rule detected_cycle_shape(4) [OF from_nodes cycles(1) in_cycles])
  have "cycle_ready rx g cycle ?probes"
    unfolding cycle_ready_def
  proof (intro conjI ballI)
    fix v assume v: "v \<in> set cycle"
    with has obtain n where n: "bm_get (nodes g) v = Some n" by (auto simp: bm_has_get)
    then have mem: "(v, n) \<in> set (nodes g)" using wf by (simp add: bm_get_mem)
    with binary obtain i nm gates d l where b: "n = Binary i nm gates d l" by (cases n) auto
    have "validate_governance_node rx n = Inr ()"
      using valid mem by (auto simp: validate_governance_graph_Inr validate_graph_node_def split: if_splits)
    moreover have "provides c f" if "c \<in> set ?probes" "f \<in> node_fields n" for c f
      using probes_provide [of c g cycle v i nm gates d l f] that n v unfolding b synthetic_claims_for_cycle_def by blast
    ultimately show "case bm_get (nodes g) v of None \<Rightarrow> False | Some n \<Rightarrow> validate_governance_node rx n = Inr ()
        \<and> node_kind n \<noteq> ''Proportional'' \<and> (\<forall>c \<in> set ?probes. \<forall>field \<in> node_fields n. provides c field)"
      by (simp add: n b)
  qed (rule pv)
  from iterate_total [OF this shape(2) _ EPSILON_ok, of 32]
  obtain r where r: "iterate_cycle rx g cycle ?probes 32 EPSILON = Inr r" by auto
  with never_converges [OF shape(1,3)] have "\<not> converged r" by blast
  moreover have "\<exists>ce. nonvacuity_rejection ?probes desc viol (map claimant_id ?probes) = Inr (Fail NonVacuous desc ce)"
    for desc viol
    using small probe_metrics_wf unfolding c synthetic_claims_for_cycle_def
    by (intro nonvacuity_rejection_ok [OF pv [unfolded synthetic_claims_for_cycle_def]]) auto
  then obtain F where "\<And>desc viol. nonvacuity_rejection ?probes desc viol (map claimant_id ?probes)
      = Inr (Fail NonVacuous desc (F desc viol))" by metis
  moreover have "nodes g \<noteq> []" using has shape(2) by (cases cycle) (auto simp: bm_has_def)
  ultimately show ?thesis
    using r by (simp add: check_graph_nonvacuity_def nonvacuity_cycle_def c Let_def)
qed

definition looping_graph :: governance_graph where
  "looping_graph = \<lparr>nodes = [(''gate'', probe_node)],
     edges = [\<lparr>edge_from = ''gate'', edge_to = ''gate'', edge_transform = PassThrough\<rparr>]\<rparr>"

lemma nonvacuity_rejects_cycles_witness:
  "\<exists>desc ce. check_graph_nonvacuity (\<lambda>_. None) looping_graph [] [[''gate'']] = Inr (Fail NonVacuous desc ce)"
proof (rule nonvacuity_rejects_cycles)
  show "validate_governance_graph (\<lambda>_. None) looping_graph = Inr ()" by code_simp
  show "detect_cycles looping_graph = Inr [[''gate'']]" by code_simp
  show "gates_bounded looping_graph" by (simp add: gates_bounded_def looping_graph_def probe_node_def)
  show "bm_wf (nodes looping_graph)" by (simp add: looping_graph_def bm_wf_def)
  show "\<forall>(v, n) \<in> set (nodes looping_graph). node_kind n = ''Binary''" by (simp add: looping_graph_def probe_node_def)
  show "length (synthetic_claims_for_cycle looping_graph (hd [[''gate'']])) < 2 ^ 53"
    by (simp add: synthetic_claims_for_cycle_def synthetic_claims_for_nodes_def Let_def gate_claims_def looping_graph_def
        probe_node_def bm_get_def)
qed simp

end
