(* ===== verification/Kernel_Observable.thy ===== *)
theory Kernel_Observable
  imports Kernel_Axioms
begin

text \<open>
  Observable determinacy, \<open>src/src/axioms/kernel/observable.rs\<close>: the enumeration and the counting
  of all topological orders, the evaluation of a graph along a given order, and the check that
  compares the orders. The counters that the recursion shares and restores are threaded through
  it. The recursion carries a budget, the number of nodes, proved to suffice.

  \<open>orders_from\<close> is the reference enumeration; the code's enumeration returns it, and the counting
  its length as far as the limit. The evaluation along an order is an instance of the locale
  \<open>claim_flow\<close>, so it computes the flow whatever the order.
\<close>

section \<open>Counting and enumerating the orders\<close>

definition EXHAUSTIVE_OBSERVABLE_ORDER_LIMIT :: nat where
  "EXHAUSTIVE_OBSERVABLE_ORDER_LIMIT = 100000"

definition EXHAUSTIVE_OBSERVABLE_NODE_LIMIT :: nat where
  "EXHAUSTIVE_OBSERVABLE_NODE_LIMIT = 10"

definition USIZE_MAX :: nat where
  "USIZE_MAX = 2 ^ 64 - 1"

definition saturating_add :: "nat \<Rightarrow> nat \<Rightarrow> nat" where
  "saturating_add a b = min (a + b) USIZE_MAX"

definition initial_ready :: "governance_graph \<Rightarrow> node_id list" where
  "initial_ready g = fold insort_insert (filter (zero_count (incoming_counts g)) (bm_keys (nodes g))) []"

definition no_ready_error :: "governance_graph \<Rightarrow> legitimacy_error fault + 'a" where
  "no_ready_error g =
     rbind (detect_cycles g) (\<lambda>cycles. Inl (Raised (CycleError (case cycles of [] \<Rightarrow> [] | c # _ \<Rightarrow> c))))"

text \<open>Taking a ready node: its edges are counted down, as \<open>order_edge\<close> does, and up again afterwards.\<close>

definition take_ready ::
  "governance_graph \<Rightarrow> (node_id, nat) bmap \<Rightarrow> node_id list \<Rightarrow> node_id
     \<Rightarrow> legitimacy_error fault + (node_id, nat) bmap \<times> node_id list" where
  "take_ready g incoming ready v =
     rfold order_edge (incoming, remove1 v ready) (filter (\<lambda>e. edge_from e = v) (edges g))"

definition restore_edge ::
  "(node_id, nat) bmap \<Rightarrow> governance_edge \<Rightarrow> legitimacy_error fault + (node_id, nat) bmap" where
  "restore_edge incoming e =
     rbind (option_ok (Raised (InvalidEdgeReference (edge_to e))) (bm_get incoming (edge_to e))) (\<lambda>remaining.
       Inr (bm_insert (edge_to e) (remaining + 1) incoming))"

definition restore_counts ::
  "governance_graph \<Rightarrow> (node_id, nat) bmap \<Rightarrow> node_id \<Rightarrow> legitimacy_error fault + (node_id, nat) bmap" where
  "restore_counts g incoming v = rfold restore_edge incoming (filter (\<lambda>e. edge_from e = v) (edges g))"

fun count_orders ::
  "nat \<Rightarrow> governance_graph \<Rightarrow> nat \<Rightarrow> (node_id, nat) bmap \<Rightarrow> node_id list \<Rightarrow> nat
     \<Rightarrow> legitimacy_error fault + nat \<times> (node_id, nat) bmap" where
  "count_orders fuel g limit incoming ready prefix_len =
     (if prefix_len = length (nodes g) then Inr (1, incoming)
      else if ready = [] then no_ready_error g
      else (case fuel of
          0 \<Rightarrow> Inl OutOfFuel
        | Suc fuel \<Rightarrow>
            rbind (rloop (\<lambda>(total, incoming) v.
                     rbind (take_ready g incoming ready v) (\<lambda>(incoming, next_ready).
                     rbind (count_orders fuel g limit incoming next_ready (prefix_len + 1)) (\<lambda>(branch, incoming).
                     rbind (restore_counts g incoming v) (\<lambda>incoming.
                       let total = saturating_add total branch
                       in Inr (if limit < total then Inl (total, incoming) else Inr (total, incoming))))))
                   (0, incoming) ready)
              (\<lambda>o1. case o1 of Inl r \<Rightarrow> Inr r | Inr r \<Rightarrow> Inr r)))"

declare count_orders.simps [simp del]

definition count_topological_orders_up_to :: "governance_graph \<Rightarrow> nat \<Rightarrow> legitimacy_error fault + nat" where
  "count_topological_orders_up_to g limit =
     rbind (count_orders (length (nodes g)) g limit (incoming_counts g) (initial_ready g) 0) (\<lambda>r. Inr (fst r))"

fun enumerate_orders ::
  "nat \<Rightarrow> governance_graph \<Rightarrow> (node_id, nat) bmap \<Rightarrow> node_id list \<Rightarrow> node_id list \<Rightarrow> node_id list list
     \<Rightarrow> legitimacy_error fault + (node_id, nat) bmap \<times> node_id list list" where
  "enumerate_orders fuel g incoming ready prefix orders =
     (if length prefix = length (nodes g) then Inr (incoming, orders @ [prefix])
      else if ready = [] then no_ready_error g
      else (case fuel of
          0 \<Rightarrow> Inl OutOfFuel
        | Suc fuel \<Rightarrow>
            rfold (\<lambda>(incoming, orders) v.
                     rbind (take_ready g incoming ready v) (\<lambda>(incoming, next_ready).
                     rbind (enumerate_orders fuel g incoming next_ready (prefix @ [v]) orders) (\<lambda>(incoming, orders).
                     rbind (restore_counts g incoming v) (\<lambda>incoming. Inr (incoming, orders)))))
              (incoming, orders) ready))"

declare enumerate_orders.simps [simp del]

definition all_topological_orders :: "governance_graph \<Rightarrow> legitimacy_error fault + node_id list list" where
  "all_topological_orders g =
     rbind (enumerate_orders (length (nodes g)) g (incoming_counts g) (initial_ready g) [] []) (\<lambda>r. Inr (snd r))"

section \<open>Validating an order\<close>

definition format_order :: "node_id list \<Rightarrow> string" where
  "format_order order = join '' -> '' order"

definition order_position ::
  "governance_graph \<Rightarrow> node_id list \<times> (node_id, nat) bmap \<Rightarrow> nat \<times> node_id
     \<Rightarrow> legitimacy_error + node_id list \<times> (node_id, nat) bmap" where
  "order_position g sp iv =
     (case iv of (index, v) \<Rightarrow>
       if \<not> bm_has (nodes g) v then Inl (InvalidEdgeReference v)
       else if v \<in> set (fst sp)
       then Inl (invalid_input (''node '' @ [CHR 0x27] @ ''{}'' @ [CHR 0x27] @ '' appears more than once in evaluation order'') [AStr v])
       else Inr (insort_insert v (fst sp), bm_insert v index (snd sp)))"

definition validate_order_edge ::
  "node_id list \<Rightarrow> (node_id, nat) bmap \<Rightarrow> governance_edge \<Rightarrow> legitimacy_error + unit" where
  "validate_order_edge order positions e =
     rbind (option_ok (InvalidEdgeReference (edge_from e)) (bm_get positions (edge_from e))) (\<lambda>source.
     rbind (option_ok (InvalidEdgeReference (edge_to e)) (bm_get positions (edge_to e))) (\<lambda>target.
       if target \<le> source
       then Inl (invalid_input ''order {} violates edge {} -> {}'' [AStr (format_order order), AStr (edge_from e), AStr (edge_to e)])
       else Inr ()))"

definition validate_topological_order :: "governance_graph \<Rightarrow> node_id list \<Rightarrow> legitimacy_error + unit" where
  "validate_topological_order g order =
     (if length order \<noteq> length (nodes g)
      then Inl (invalid_input ''topological order must include every node exactly once'' [])
      else rbind (rfold (order_position g) ([], []) (enumerate 0 order)) (\<lambda>sp.
             rfold (\<lambda>_. validate_order_edge order (snd sp)) () (edges g)))"

text \<open>The canonical order: the worklist is a vector that is sorted before each step.\<close>

definition worklist_edge ::
  "(node_id, nat) bmap \<times> node_id list \<Rightarrow> governance_edge
     \<Rightarrow> legitimacy_error fault + (node_id, nat) bmap \<times> node_id list" where
  "worklist_edge cq e =
     (case cq of (counts, ready) \<Rightarrow>
       (case bm_get counts (edge_to e) of
          None \<Rightarrow> Inl (Raised (InvalidEdgeReference (edge_to e)))
        | Some 0 \<Rightarrow> Inl Panicked
        | Some (Suc n) \<Rightarrow>
            Inr (bm_insert (edge_to e) n counts, if n = 0 then ready @ [edge_to e] else ready)))"

fun worklist_loop ::
  "nat \<Rightarrow> governance_graph \<Rightarrow> (node_id, nat) bmap \<Rightarrow> node_id list \<Rightarrow> node_id list
     \<Rightarrow> legitimacy_error fault + node_id list" where
  "worklist_loop fuel g counts ready order =
     (case sort ready of
        [] \<Rightarrow> Inr order
      | v # rest \<Rightarrow>
          (case fuel of
             0 \<Rightarrow> Inl OutOfFuel
           | Suc fuel \<Rightarrow>
               rbind (rfold worklist_edge (counts, rest) (filter (\<lambda>e. edge_from e = v) (edges g)))
                 (\<lambda>(counts, ready). worklist_loop fuel g counts ready (order @ [v]))))"

declare worklist_loop.simps [simp del]

definition obs_topological_order :: "governance_graph \<Rightarrow> legitimacy_error fault + node_id list" where
  "obs_topological_order g =
     rbind (worklist_loop (tarjan_fuel g) g (incoming_counts g)
              (filter (zero_count (incoming_counts g)) (bm_keys (nodes g))) []) (\<lambda>order.
     rbind (raise (validate_topological_order g order)) (\<lambda>_. Inr order))"

section \<open>Evaluating along an order\<close>

record ordered_state =
  os_queued :: "(node_id, governance_claim list) bmap"
  os_final :: "(string, decision) bmap"

definition obs_forward ::
  "governance_claim list \<Rightarrow> claim_decision list \<Rightarrow> (node_id, governance_claim list) bmap \<Rightarrow> governance_edge
     \<Rightarrow> legitimacy_error + (node_id, governance_claim list) bmap" where
  "obs_forward forwarded ds queued e =
     rbind (apply_transform (edge_transform e) forwarded ds) (\<lambda>transformed.
     rbind (merge_claim_batches (edge_to e) (or_default [] queued (edge_to e)) transformed) (\<lambda>merged.
       Inr (bm_insert (edge_to e) merged queued)))"

definition obs_step ::
  "regex_engine \<Rightarrow> governance_graph \<Rightarrow> ordered_state \<Rightarrow> node_id \<Rightarrow> legitimacy_error + ordered_state" where
  "obs_step rx g st v =
     rbind (option_ok (InvalidEdgeReference v) (bm_get (nodes g) v)) (\<lambda>node.
       let current_claims = or_default [] (os_queued st) v;
           queued = bm_remove v (os_queued st)
       in rbind (evaluate_node rx node current_claims) (\<lambda>ds.
            let outgoing = or_default [] (outgoing_edges g) v;
                final = foldl (record_final_decision (outgoing \<noteq> [])) (os_final st) ds;
                forwarded = forwarded_claims current_claims ds
            in rbind (rfold (obs_forward forwarded ds) queued outgoing) (\<lambda>queued.
                 Inr \<lparr>os_queued = queued, os_final = final\<rparr>)))"

definition evaluate_with_order ::
  "regex_engine \<Rightarrow> governance_graph \<Rightarrow> governance_claim list \<Rightarrow> node_id list
     \<Rightarrow> legitimacy_error + (string, decision) bmap" where
  "evaluate_with_order rx g cs order =
     rbind (validate_topological_order g order) (\<lambda>_.
       let entry = filter (zero_count (incoming_counts g)) (bm_keys (nodes g))
       in if nodes g = [] \<or> entry = [] then Inl NoEntryNodes
          else rbind (rfold (obs_step rx g)
                  \<lparr>os_queued = fold (\<lambda>k. bm_insert k cs) entry [], os_final = []\<rparr> order)
                 (\<lambda>st. Inr (os_final st)))"

section \<open>The check\<close>

definition first_difference ::
  "(string, decision) bmap \<Rightarrow> (string, decision) bmap \<Rightarrow> governance_claim list \<Rightarrow> (string \<times> decision \<times> decision) option" where
  "first_difference left right cs =
     map_option (\<lambda>k. (k, or_default Escalate left k, or_default Escalate right k))
       (find (\<lambda>k. or_default Escalate left k \<noteq> or_default Escalate right k) (claimant_ids cs))"

definition obs_decision_rank :: "decision \<Rightarrow> f64" where
  "obs_decision_rank d = (case d of Deny \<Rightarrow> Zero False | Escalate \<Rightarrow> Num 1 | Permit \<Rightarrow> Num 2)"

definition obs_decision_allocation ::
  "governance_claim list \<Rightarrow> (string, decision) bmap \<Rightarrow> legitimacy_error + allocation" where
  "obs_decision_allocation cs decisions =
     rbind (convert_governance_claims cs)
       (valid_allocation_new
         (fold (\<lambda>c. bm_insert (claimant_id c) (obs_decision_rank (or_default Escalate decisions (claimant_id c)))) cs []))"

definition observable_rejection ::
  "kernel_axiom \<Rightarrow> governance_claim list \<Rightarrow> message \<Rightarrow> (string, decision) bmap \<Rightarrow> (string, decision) bmap
     \<Rightarrow> legitimacy_error + axiom_verdict" where
  "observable_rejection axm cs desc original perturbed =
     rbind (convert_governance_claims cs) (\<lambda>oc.
     rbind (estate_new (Num 2) ''binary-decision-rank'') (\<lambda>oe.
     rbind (obs_decision_allocation cs original) (\<lambda>oa.
     rbind (convert_governance_claims cs) (\<lambda>pc.
     rbind (estate_new (Num 2) ''binary-decision-rank'') (\<lambda>pe.
     rbind (obs_decision_allocation cs perturbed) (\<lambda>pa.
       Inr (Fail axm desc
         \<lparr>description = desc, original_claims = oc, original_estate = oe, original_allocation = oa,
          perturbed_claims = pc, perturbed_estate = pe, perturbed_allocation = pa,
          violation = Message ''{} requires claimant decisions to be invariant across legal traversal orders''
                        [AStr (graph_axiom_name axm)]\<rparr>)))))))"

definition compare_order ::
  "regex_engine \<Rightarrow> governance_graph \<Rightarrow> governance_claim list \<Rightarrow> node_id list \<Rightarrow> (string, decision) bmap
     \<Rightarrow> nat \<Rightarrow> node_id list \<Rightarrow> legitimacy_error fault + (axiom_verdict + nat)" where
  "compare_order rx g cs canonical_order canonical tested order =
     (if order = canonical_order then Inr (Inr tested)
      else rbind (raise (evaluate_with_order rx g cs order)) (\<lambda>candidate.
        case first_difference canonical candidate cs of
          None \<Rightarrow> Inr (Inr (tested + 1))
        | Some (k, first, second) \<Rightarrow>
            rbind (raise (observable_rejection Observable cs
              (Message (''Evaluating graph orders {} and {} changed '' @ [CHR 0x27] @ ''{}'' @ [CHR 0x27] @ '' from {} to {}'')
                 [AStr (format_order canonical_order), AStr (format_order order), AStr k,
                  AStr (decision_debug first), AStr (decision_debug second)])
              canonical candidate)) (\<lambda>v. Inr (Inl v))))"

definition check_graph_traversal_order_invariance ::
  "regex_engine \<Rightarrow> governance_graph \<Rightarrow> governance_claim list \<Rightarrow> legitimacy_error fault + axiom_verdict" where
  "check_graph_traversal_order_invariance rx g cs =
     rbind (detect_cycles g) (\<lambda>cycles.
       if cycles \<noteq> [] then Inr (Skipped Observable CYCLE_SKIP)
       else if nodes g = [] then
         Inr (Skipped Observable ''empty graph has no order-dependent decision surface'')
       else
         rbind (obs_topological_order g) (\<lambda>canonical_order.
         rbind (raise (evaluate_with_order rx g cs canonical_order)) (\<lambda>canonical.
           if EXHAUSTIVE_OBSERVABLE_NODE_LIMIT < length (nodes g) then
             Inr (Skipped Observable (''graph has '' @ show_nat (length (nodes g))
               @ '' nodes, above exhaustive observable-determinacy limit '' @ show_nat EXHAUSTIVE_OBSERVABLE_NODE_LIMIT))
           else
             rbind (count_topological_orders_up_to g EXHAUSTIVE_OBSERVABLE_ORDER_LIMIT) (\<lambda>order_count.
               if EXHAUSTIVE_OBSERVABLE_ORDER_LIMIT < order_count then
                 Inr (Skipped Observable (''graph has more than '' @ show_nat EXHAUSTIVE_OBSERVABLE_ORDER_LIMIT
                   @ '' legal topological orders''))
               else
                 rbind (all_topological_orders g) (\<lambda>orders.
                 rbind (rloop (compare_order rx g cs canonical_order canonical) 1 orders) (\<lambda>o1.
                   case o1 of Inl v \<Rightarrow> Inr v | Inr tested \<Rightarrow> Inr (Pass Observable tested)))))))"

definition check_graph_observable_determinacy ::
  "regex_engine \<Rightarrow> governance_graph \<Rightarrow> governance_claim list \<Rightarrow> legitimacy_error fault + axiom_verdict" where
  "check_graph_observable_determinacy rx g cs = check_graph_traversal_order_invariance rx g cs"

section \<open>Lemmas: the evaluation along an order realises the flow\<close>

lemma batch_ok_sort: "batch_ok cs (sort_key claimant_id b) \<longleftrightarrow> batch_ok cs b"
proof -
  have "mset (map claimant_id (sort_key claimant_id b)) = mset (map claimant_id b)" by simp
  then show ?thesis unfolding batch_ok_def set_sort using mset_eq_imp_distinct_iff by blast
qed

lemma merge_batches:
  assumes "validate_governance_claims cs = Inr ()" and "batch_ok cs b" and "set add \<subseteq> set cs"
  shows "\<exists>m. merge_claim_batches nid b add = Inr m \<and> batch_ok cs m \<and> set m = set b \<union> set add"
proof -
  obtain m where m: "merge_shared_claim_batches nid b add = Inr m" "batch_ok cs m" "set m = set b \<union> set add"
    using merge_shared_batches [OF assms] by blast
  have "distinct (map claimant_id b)" using assms(2) by (simp add: batch_ok_def)
  from merge_shared_reference [OF this, of nid add] m(1)
  have "merge_claim_batches nid b add = Inr (sort_key claimant_id m)" by auto
  with m(2,3) show ?thesis by (simp add: batch_ok_sort)
qed

lemma obs_forward_edges:
  assumes cs: "validate_governance_claims cs = Inr ()" and q: "batches_ok cs q" and f: "set f \<subseteq> set cs"
    and inert: "\<And>tr. apply_transform tr f ds = Inr f"
  shows "\<exists>q'. rfold (obs_forward f ds) q es = Inr q' \<and> batches_ok cs q'
    \<and> (\<forall>w. set (queue_at q' w) = set (queue_at q w) \<union> (if w \<in> edge_to ` set es then set f else {}))"
proof (rule rfold_progress [where P = "\<lambda>X q'. batches_ok cs q'
    \<and> (\<forall>w. set (queue_at q' w) = set (queue_at q w) \<union> (if w \<in> edge_to ` X then set f else {}))"])
  fix X :: "governance_edge set" and q' and e :: governance_edge
  assume P: "batches_ok cs q' \<and> (\<forall>w. set (queue_at q' w) = set (queue_at q w) \<union> (if w \<in> edge_to ` X then set f else {}))"
  then have "batch_ok cs (queue_at q' (edge_to e))" by (simp add: batches_ok_def)
  from merge_batches [OF cs this f] obtain m where
    m: "merge_claim_batches (edge_to e) (queue_at q' (edge_to e)) f = Inr m"
       "batch_ok cs m" "set m = set (queue_at q' (edge_to e)) \<union> set f" by blast
  then have "obs_forward f ds q' e = Inr (bm_insert (edge_to e) m q')" by (simp add: obs_forward_def inert)
  with P m show "\<exists>t. obs_forward f ds q' e = Inr t \<and> batches_ok cs t
      \<and> (\<forall>w. set (queue_at t w) = set (queue_at q w) \<union> (if w \<in> edge_to ` insert e X then set f else {}))"
    by (auto simp: batches_ok_def)
qed (use q in simp)

interpretation obs: claim_flow rx g "\<lambda>st. queue_at (os_queued st)" os_final "obs_step rx g" for rx g
proof
  fix cs v n ds and st :: ordered_state
  assume cs: "validate_governance_claims cs = Inr ()" and q: "\<forall>w. batch_ok cs (queue_at (os_queued st) w)"
    and n: "bm_get (nodes g) v = Some n" and ev: "evaluate_node_validated rx n (queue_at (os_queued st) v) = Inr ds"
  let ?b = "queue_at (os_queued st) v" and ?es = "filter (\<lambda>e. edge_from e = v) (edges g)"
  let ?f = "forwarded_shared_claims ?b ds"
  have b: "batch_ok cs ?b" using q by blast
  have inert: "apply_transform tr ?f ds = Inr ?f" for tr
    using transform_inert [OF evaluate_validated_aligned [OF ev]] b by (simp add: batch_ok_def transforms_agree)
  have "set ?f \<subseteq> set ?b" by (auto simp: forwarded_shared_claims_def dest: set_zip_leftD)
  then have sub: "set ?f \<subseteq> set cs" using b by (auto simp: batch_ok_def)
  have "batches_ok cs (bm_remove v (os_queued st))" using q by (auto simp: batches_ok_def batch_ok_def)
  from obs_forward_edges [OF cs this sub inert] obtain q' where
    q': "rfold (obs_forward ?f ds) (bm_remove v (os_queued st)) ?es = Inr q'" "batches_ok cs q'"
      "\<forall>w. set (queue_at q' w) = set (queue_at (bm_remove v (os_queued st)) w)
         \<union> (if w \<in> edge_to ` set ?es then set ?f else {})" by blast
  have "validate_governance_claims ?b = Inr ()" using batch_valid [OF cs b] .
  then have "obs_step rx g st v
      = Inr \<lparr>os_queued = q', os_final = record_final_decisions (os_final st) ds (has_out g v)\<rparr>"
    using n ev q'(1) outgoing_nonempty [of v g]
    by (simp add: obs_step_def Let_def outgoing_edges_get evaluate_node_def forwarded_agree record_final_decisions_def)
  moreover have "\<forall>w. batch_ok cs (queue_at q' w)" using q'(2) by (simp add: batches_ok_def)
  moreover have "\<forall>w. set (queue_at q' w) = (if w = v then {} else set (queue_at (os_queued st) w))
      \<union> (if \<exists>e \<in> set (edges g). edge_from e = v \<and> edge_to e = w then set ?f else {})"
    using q'(3) by (auto simp: image_iff)
  ultimately show "\<exists>st'. obs_step rx g st v = Inr st' \<and> os_final st' = record_final_decisions (os_final st) ds (has_out g v)
      \<and> (\<forall>w. batch_ok cs (queue_at (os_queued st') w))
      \<and> (\<forall>w. set (queue_at (os_queued st') w) = (if w = v then {} else set (queue_at (os_queued st) w))
           \<union> (if \<exists>e \<in> set (edges g). edge_from e = v \<and> edge_to e = w then set ?f else {}))"
    by (intro exI [of _ "\<lparr>os_queued = q', os_final = record_final_decisions (os_final st) ds (has_out g v)\<rparr>"])
      (simp only: ordered_state.select_convs simp_thms)
next
  fix v n e and st :: ordered_state
  assume "bm_get (nodes g) v = Some n" "evaluate_node_validated rx n (queue_at (os_queued st) v) = Inl e"
  then show "\<exists>f. obs_step rx g st v = Inl f"
    by (cases "validate_governance_claims (queue_at (os_queued st) v)")
      (auto simp: obs_step_def Let_def evaluate_node_def)
qed

section \<open>Lemmas: the reference enumeration\<close>

definition ready_of :: "governance_graph \<Rightarrow> node_id list \<Rightarrow> node_id list" where
  "ready_of g p = sorted_list_of_set {x \<in> graph_ids g. indeg x (pending g p) = 0 \<and> x \<notin> set p}"

fun orders_from :: "governance_graph \<Rightarrow> nat \<Rightarrow> node_id list \<Rightarrow> node_id list list" where
  "orders_from g 0 p = [p]"
| "orders_from g (Suc k) p = concat (map (\<lambda>v. orders_from g k (p @ [v])) (ready_of g p))"

definition legal :: "governance_graph \<Rightarrow> node_id list \<Rightarrow> bool" where
  "legal g p \<longleftrightarrow> distinct p \<and> set p \<subseteq> set (bm_keys (nodes g)) \<and> respects_edges g p"

definition counts_at :: "governance_graph \<Rightarrow> node_id list \<Rightarrow> (node_id, nat) bmap \<Rightarrow> bool" where
  "counts_at g p counts \<longleftrightarrow> bm_get counts = (\<lambda>x. if x \<in> graph_ids g then Some (indeg x (pending g p)) else None)"

lemma finite_graph_ids: "finite (graph_ids g)"
  by (simp add: graph_ids_def)

lemma set_ready_of: "set (ready_of g p) = {x \<in> graph_ids g. indeg x (pending g p) = 0 \<and> x \<notin> set p}"
  using finite_graph_ids [of g] by (simp add: ready_of_def)

lemma legal_satisfied: "respects_edges g p \<Longrightarrow> x \<in> set p \<Longrightarrow> indeg x (pending g p) = 0"
proof -
  assume resp: "respects_edges g p" and "x \<in> set p"
  then obtain i where i: "i < length p" "p ! i = x" by (auto simp: in_set_conv_nth)
  have "edge_from e \<in> set p" if "e \<in> set (edges g)" "edge_to e = x" for e
    using resp i that set_take_subset [of i p] unfolding respects_edges_def by blast
  then show ?thesis by (auto simp: indeg_0 pending_def)
qed

lemma legal_inv:
  assumes "well_linked g" and "legal g p" and "counts_at g p counts"
  shows "order_inv g (pending g p) p (counts, ready_of g p)"
proof -
  have "set p \<subseteq> {x \<in> graph_ids g. indeg x (pending g p) = 0}"
    using assms(2) legal_satisfied [of g p] by (auto simp: legal_def well_linked_ids [OF assms(1)])
  then have "{x \<in> graph_ids g. indeg x (pending g p) = 0} = set p \<union> set (ready_of g p)"
    unfolding set_ready_of by blast
  moreover have "distinct (p @ ready_of g p)"
    using assms(2) unfolding distinct_append set_ready_of by (auto simp: legal_def ready_of_def)
  ultimately show ?thesis
    using assms(3) unfolding order_inv_def counts_at_def fst_conv snd_conv by (auto simp: pending_def)
qed

lemma sorted_order_edge: "order_edge (c, q) e = Inr (c', q') \<Longrightarrow> sorted q \<Longrightarrow> sorted q'"
  by (auto simp: order_edge_def sorted_insort_insert split: option.splits nat.splits)

lemma sorted_order_edges: "rfold order_edge cq es = Inr cq' \<Longrightarrow> sorted (snd cq) \<Longrightarrow> sorted (snd cq')"
  by (erule rfold_invariant [where P = "\<lambda>cq. sorted (snd cq)"]) (auto intro: sorted_order_edge)

lemma inv_ready:
  assumes "order_inv g (pending g p) p (counts, q)" and "sorted q"
  shows "q = ready_of g p" and "counts_at g p counts"
proof -
  have "distinct q" "set q = set (ready_of g p)" using assms(1) by (auto simp: order_inv_def set_ready_of)
  with assms(2) show "q = ready_of g p" by (simp add: ready_of_def sorted_distinct_set_unique)
  show "counts_at g p counts" using assms(1) by (simp add: order_inv_def counts_at_def)
qed

lemma legal_snoc:
  assumes "well_linked g" and "legal g p" and "v \<in> set (ready_of g p)"
  shows "legal g (p @ [v])"
  using assms respects_snoc [of g p v] by (auto simp: legal_def set_ready_of well_linked_ids)

lemma take_ready_step:
  assumes link: "well_linked g" and legal: "legal g p" and counts: "counts_at g p counts" and v: "v \<in> set (ready_of g p)"
  shows "\<exists>counts'. take_ready g counts (ready_of g p) v = Inr (counts', ready_of g (p @ [v])) \<and> counts_at g (p @ [v]) counts'"
proof -
  have dist: "distinct (ready_of g p)" "sorted (ready_of g p)" by (simp_all add: ready_of_def)
  have "order_inv g (pending g p) p (counts, v # remove1 v (ready_of g p))"
    using legal_inv [OF link legal counts] v dist by (auto simp: order_inv_def set_remove1_eq)
  from order_edges_inv [OF order_inv_pop [OF this]] obtain cq where
    cq: "rfold order_edge (counts, remove1 v (ready_of g p)) (filter (\<lambda>e. edge_from e = v) (edges g)) = Inr cq"
      "order_inv g (pending g (p @ [v])) (p @ [v]) cq" by blast
  have "sorted (snd cq)" using sorted_order_edges [OF cq(1)] dist by (simp add: sorted_remove1)
  with cq inv_ready [of g "p @ [v]" "fst cq" "snd cq"] show ?thesis
    by (cases cq) (auto simp: take_ready_def)
qed

lemma restore_edges:
  assumes "bm_get counts = (\<lambda>x. if x \<in> graph_ids g then Some (f x) else None)" and "edge_to ` set es \<subseteq> graph_ids g"
  shows "\<exists>counts'. rfold restore_edge counts es = Inr counts'
    \<and> bm_get counts' = (\<lambda>x. if x \<in> graph_ids g then Some (f x + indeg x es) else None)"
  using assms
proof (induction es arbitrary: counts f)
  case (Cons e es)
  then have step: "restore_edge counts e = Inr (bm_insert (edge_to e) (f (edge_to e) + 1) counts)"
    by (simp add: restore_edge_def)
  have "bm_get (bm_insert (edge_to e) (f (edge_to e) + 1) counts)
      = (\<lambda>x. if x \<in> graph_ids g then Some ((f(edge_to e := f (edge_to e) + 1)) x) else None)"
    using Cons.prems by (auto simp: fun_eq_iff)
  from Cons.IH [OF this] Cons.prems(2) obtain counts' where
    "rfold restore_edge (bm_insert (edge_to e) (f (edge_to e) + 1) counts) es = Inr counts'"
    "bm_get counts' = (\<lambda>x. if x \<in> graph_ids g then Some ((f(edge_to e := f (edge_to e) + 1)) x + indeg x es) else None)"
    by auto
  with step show ?case by (auto simp: fun_eq_iff)
qed (simp add: fun_eq_iff)

lemma restore_step:
  assumes "v \<notin> set p" and "counts_at g (p @ [v]) counts"
  shows "\<exists>counts'. restore_counts g counts v = Inr counts' \<and> counts_at g p counts'"
proof -
  have "edge_to ` set (filter (\<lambda>e. edge_from e = v) (edges g)) \<subseteq> graph_ids g" by (auto simp: graph_ids_def)
  from restore_edges [OF assms(2) [unfolded counts_at_def] this] show ?thesis
    unfolding restore_counts_def counts_at_def by (auto simp: indeg_pending [OF assms(1)] fun_eq_iff)
qed

lemma ready_nonempty:
  assumes link: "well_linked g" and acyc: "acyclic (edge_rel g)" and legal: "legal g p" and len: "length p \<noteq> length (nodes g)"
  shows "ready_of g p \<noteq> []"
proof
  assume "ready_of g p = []"
  then have "set (ready_of g p) = {}" by simp
  then have "{x \<in> graph_ids g. indeg x (pending g p) = 0} \<subseteq> set p" unfolding set_ready_of by blast
  then have "set p = {x \<in> set (bm_keys (nodes g)). indeg x (pending g p) = 0}"
    using legal legal_satisfied [of g p] by (auto simp: legal_def well_linked_ids [OF link])
  from acyclic_order_complete [OF link acyc this] have "card (set p) = card (set (bm_keys (nodes g)))" by simp
  moreover have "distinct (bm_keys (nodes g))" using link by (simp add: well_linked_def bm_wf_distinct)
  ultimately show False using legal len by (simp add: legal_def distinct_card del: set_map)
qed

lemma enumerate_reference:
  assumes link: "well_linked g" and acyc: "acyclic (edge_rel g)"
    and "legal g p" and "counts_at g p counts" and "length p + k = length (nodes g)"
  shows "\<exists>counts'. enumerate_orders k g counts (ready_of g p) p orders = Inr (counts', orders @ orders_from g k p)
    \<and> counts_at g p counts'"
  using assms(3-5)
proof (induction k arbitrary: p counts orders)
  case (Suc k)
  let ?body = "\<lambda>(incoming, orders) v.
      rbind (take_ready g incoming (ready_of g p) v) (\<lambda>(incoming, next_ready).
      rbind (enumerate_orders k g incoming next_ready (p @ [v]) orders) (\<lambda>(incoming, orders).
      rbind (restore_counts g incoming v) (\<lambda>incoming. Inr (incoming, orders))))"
  have "\<exists>c'. rfold ?body (c, os) vs = Inr (c', os @ concat (map (\<lambda>v. orders_from g k (p @ [v])) vs)) \<and> counts_at g p c'"
    if "counts_at g p c" "set vs \<subseteq> set (ready_of g p)" for c os vs
    using that
  proof (induction vs arbitrary: c os)
    case (Cons v vs)
    then have v: "v \<in> set (ready_of g p)" by simp
    from take_ready_step [OF link Suc.prems(1) Cons.prems(1) v] obtain c1 where
      c1: "take_ready g c (ready_of g p) v = Inr (c1, ready_of g (p @ [v]))" "counts_at g (p @ [v]) c1" by blast
    from Suc.IH [OF legal_snoc [OF link Suc.prems(1) v] c1(2)] Suc.prems(3) obtain c2 where
      c2: "enumerate_orders k g c1 (ready_of g (p @ [v])) (p @ [v]) os = Inr (c2, os @ orders_from g k (p @ [v]))"
        "counts_at g (p @ [v]) c2" by auto
    have "v \<notin> set p" using v by (simp add: set_ready_of)
    from restore_step [OF this c2(2)] obtain c3 where c3: "restore_counts g c2 v = Inr c3" "counts_at g p c3" by blast
    from Cons.IH [OF c3(2), of "os @ orders_from g k (p @ [v])"] Cons.prems(2) c1(1) c2(1) c3(1) show ?case by auto
  qed simp
  from this [OF Suc.prems(2) order.refl, of orders] ready_nonempty [OF link acyc Suc.prems(1)] Suc.prems(3)
  show ?case by (simp add: enumerate_orders.simps [of "Suc k"])
qed (simp add: enumerate_orders.simps)

text \<open>The reference enumeration lists the completions of a legal prefix, each once.\<close>

lemma topological_legal: "topological g order \<longleftrightarrow> legal g order \<and> set order = set (bm_keys (nodes g))"
  by (auto simp: topological_def legal_def)

lemma legal_next:
  assumes "well_linked g" and "respects_edges g (p @ v # suf)" and "distinct (p @ v # suf)" and "v \<in> set (bm_keys (nodes g))"
  shows "v \<in> set (ready_of g p)"
proof -
  have "edge_from e \<in> set p" if "e \<in> set (edges g)" "edge_to e = v" for e
    using assms(2) [unfolded respects_edges_def, rule_format, of "length p" e] that by simp
  then have "indeg v (pending g p) = 0" by (auto simp: indeg_0 pending_def)
  with assms(3,4) show ?thesis by (simp add: set_ready_of well_linked_ids [OF assms(1)] del: set_map)
qed

lemma full_prefix:
  assumes "well_linked g" and "legal g p" and "length p = length (nodes g)"
  shows "set p = set (bm_keys (nodes g))"
proof (rule card_subset_eq)
  have "distinct (bm_keys (nodes g))" using assms(1) by (simp add: well_linked_def bm_wf_distinct)
  then show "card (set p) = card (set (bm_keys (nodes g)))"
    using assms(2,3) by (simp add: legal_def distinct_card del: set_map)
qed (use assms(2) in \<open>simp_all add: legal_def\<close>)

lemma topological_length: "well_linked g \<Longrightarrow> topological g order \<Longrightarrow> length order = length (nodes g)"
  using distinct_card [of order] distinct_card [of "bm_keys (nodes g)"]
  by (simp add: topological_def well_linked_def bm_wf_distinct del: set_map)

lemma orders_from_sound:
  assumes link: "well_linked g" and "legal g p" and "length p + k = length (nodes g)"
  shows "set (orders_from g k p) = {order. topological g order \<and> (\<exists>suf. order = p @ suf)}"
  using assms(2,3)
proof (induction k arbitrary: p)
  case 0
  then have "set p = set (bm_keys (nodes g))" using full_prefix [OF link] by simp
  with 0 have "topological g p" by (simp add: topological_legal)
  moreover have "suf = []" if "topological g (p @ suf)" for suf
    using topological_length [OF link that] 0 by simp
  ultimately show ?case by auto
next
  case (Suc k)
  have "set (orders_from g (Suc k) p) = (\<Union>v \<in> set (ready_of g p). {order. topological g order \<and> (\<exists>suf. order = (p @ [v]) @ suf)})"
    using Suc.IH [OF legal_snoc [OF link Suc.prems(1)]] Suc.prems(2) by auto
  also have "\<dots> = {order. topological g order \<and> (\<exists>suf. order = p @ suf)}"
  proof (intro equalityI subsetI)
    fix order assume "order \<in> {order. topological g order \<and> (\<exists>suf. order = p @ suf)}"
    then obtain suf where order: "topological g order" "order = p @ suf" by blast
    have "length order = length (nodes g)" by (rule topological_length [OF link order(1)])
    with Suc.prems(2) order(2) obtain v suf' where suf: "suf = v # suf'" by (cases suf) auto
    have "v \<in> set (ready_of g p)"
      by (rule legal_next [OF link, of p v suf']) (use order suf in \<open>auto simp: topological_def\<close>)
    with order suf show "order \<in> (\<Union>v \<in> set (ready_of g p). {order. topological g order \<and> (\<exists>suf. order = (p @ [v]) @ suf)})"
      by auto
  qed auto
  finally show ?case .
qed

lemma distinct_concat_map:
  "distinct xs \<Longrightarrow> (\<And>x. x \<in> set xs \<Longrightarrow> distinct (f x))
     \<Longrightarrow> (\<And>x y. x \<in> set xs \<Longrightarrow> y \<in> set xs \<Longrightarrow> x \<noteq> y \<Longrightarrow> set (f x) \<inter> set (f y) = {}) \<Longrightarrow> distinct (concat (map f xs))"
proof (induction xs)
  case (Cons x xs)
  have "set (f x) \<inter> set (f y) = {}" if "y \<in> set xs" for y
    using Cons.prems(1,3) [of] that by (metis Cons.prems(3) distinct.simps(2) list.set_intros)
  with Cons show ?case by auto
qed simp

lemma orders_from_distinct:
  assumes link: "well_linked g" and "legal g p" and "length p + k = length (nodes g)"
  shows "distinct (orders_from g k p)"
  using assms(2,3)
proof (induction k arbitrary: p)
  case (Suc k)
  have len: "length (p @ [v]) + k = length (nodes g)" for v using Suc.prems(2) by simp
  show ?case
    unfolding orders_from.simps
  proof (rule distinct_concat_map)
    fix v w assume vw: "v \<in> set (ready_of g p)" "w \<in> set (ready_of g p)" "v \<noteq> w"
    show "set (orders_from g k (p @ [v])) \<inter> set (orders_from g k (p @ [w])) = {}"
      unfolding orders_from_sound [OF link legal_snoc [OF link Suc.prems(1) vw(1)] len]
        orders_from_sound [OF link legal_snoc [OF link Suc.prems(1) vw(2)] len]
      using vw(3) by auto
  qed (use Suc.IH [OF legal_snoc [OF link Suc.prems(1)] len] in \<open>simp_all add: ready_of_def\<close>)
qed simp

lemma initial_counts: "well_linked g \<Longrightarrow> counts_at g [] (incoming_counts g)"
  by (auto simp: counts_at_def pending_def incoming_counts_get fun_eq_iff)

lemma initial_ready: "well_linked g \<Longrightarrow> initial_ready g = ready_of g []"
proof -
  assume link: "well_linked g"
  have "sorted (fold insort_insert xs ys)" if "sorted ys" for xs ys :: "node_id list"
    using that by (induction xs arbitrary: ys) (auto simp: sorted_insort_insert)
  then have "sorted (initial_ready g)" "distinct (initial_ready g)"
    by (auto simp: initial_ready_def initial_queue)
  moreover have "set (initial_ready g) = set (ready_of g [])"
    unfolding initial_ready_def set_ready_of
    by (auto simp: initial_queue zero_count_def or_default_def incoming_counts_get pending_def well_linked_ids [OF link])
  ultimately show ?thesis by (simp add: ready_of_def sorted_distinct_set_unique)
qed

lemma legal_Nil: "legal g []"
  by (simp add: legal_def respects_edges_def)

lemma all_orders_reference:
  assumes "well_linked g" and "acyclic (edge_rel g)"
  shows "all_topological_orders g = Inr (orders_from g (length (nodes g)) [])"
  using enumerate_reference [OF assms legal_Nil initial_counts [OF assms(1)], of "length (nodes g)" "[]"]
  by (auto simp: all_topological_orders_def initial_ready [OF assms(1)])

section \<open>Lemmas: counting up to a limit\<close>

text \<open>What the counter answers when the true number is \<open>n\<close>: exact up to the limit, then just too large.\<close>

definition counts_to :: "nat \<Rightarrow> nat \<Rightarrow> nat \<Rightarrow> bool" where
  "counts_to limit n m \<longleftrightarrow> (if n \<le> limit then m = n else limit < m)"

lemma counts_to_add:
  assumes "limit < USIZE_MAX" and "t \<le> limit" and "counts_to limit n m"
  shows "counts_to limit (t + n) (saturating_add t m)"
  using assms by (auto simp: counts_to_def saturating_add_def split: if_splits)

lemma count_reference:
  assumes link: "well_linked g" and acyc: "acyclic (edge_rel g)" and limit: "1 \<le> limit" "limit < USIZE_MAX"
    and "legal g p" and "counts_at g p counts" and "length p + k = length (nodes g)"
  shows "\<exists>m counts'. count_orders k g limit counts (ready_of g p) (length p) = Inr (m, counts')
    \<and> counts_at g p counts' \<and> counts_to limit (length (orders_from g k p)) m"
  using assms(5-7)
proof (induction k arbitrary: p counts)
  case 0
  with limit show ?case by (simp add: count_orders.simps counts_to_def)
next
  case (Suc k)
  let ?body = "\<lambda>(total, incoming) v.
      rbind (take_ready g incoming (ready_of g p) v) (\<lambda>(incoming, next_ready).
      rbind (count_orders k g limit incoming next_ready (length p + 1)) (\<lambda>(branch, incoming).
      rbind (restore_counts g incoming v) (\<lambda>incoming.
        let total = saturating_add total branch
        in Inr (if limit < total then Inl (total, incoming) else Inr (total, incoming)))))"
  let ?n = "\<lambda>vs. length (concat (map (\<lambda>v. orders_from g k (p @ [v])) vs))"
  have "\<exists>m c'. counts_at g p c' \<and> counts_to limit (t + ?n vs) m
      \<and> (rloop ?body (t, c) vs = Inr (Inl (m, c')) \<or> rloop ?body (t, c) vs = Inr (Inr (m, c')))"
    if "counts_at g p c" "set vs \<subseteq> set (ready_of g p)" "t \<le> limit" for t c vs
    using that
  proof (induction vs arbitrary: t c)
    case Nil
    then show ?case by (auto simp: counts_to_def)
  next
    case (Cons v vs)
    then have v: "v \<in> set (ready_of g p)" by simp
    from take_ready_step [OF link Suc.prems(1) Cons.prems(1) v] obtain c1 where
      c1: "take_ready g c (ready_of g p) v = Inr (c1, ready_of g (p @ [v]))" "counts_at g (p @ [v]) c1" by blast
    from Suc.IH [OF legal_snoc [OF link Suc.prems(1) v] c1(2)] Suc.prems(3) obtain b c2 where
      c2: "count_orders k g limit c1 (ready_of g (p @ [v])) (length p + 1) = Inr (b, c2)"
        "counts_at g (p @ [v]) c2" "counts_to limit (length (orders_from g k (p @ [v]))) b" by auto
    have "v \<notin> set p" using v by (simp add: set_ready_of)
    from restore_step [OF this c2(2)] obtain c3 where c3: "restore_counts g c2 v = Inr c3" "counts_at g p c3" by blast
    let ?t = "saturating_add t b"
    have t: "counts_to limit (t + length (orders_from g k (p @ [v]))) ?t"
      by (rule counts_to_add [OF limit(2) Cons.prems(3) c2(3)])
    have step: "?body (t, c) v = Inr (if limit < ?t then Inl (?t, c3) else Inr (?t, c3))"
      using c1(1) c2(1) c3(1) by (simp add: Let_def)
    show ?case
    proof (cases "limit < ?t")
      case True
      then have "counts_to limit (t + ?n (v # vs)) ?t" using t by (auto simp: counts_to_def split: if_splits)
      with step True c3(2) show ?thesis by auto
    next
      case False
      then have "?t = t + length (orders_from g k (p @ [v]))" using t by (auto simp: counts_to_def split: if_splits)
      with Cons.IH [OF c3(2), of ?t] Cons.prems(2) False step show ?thesis by (simp add: add.assoc)
    qed
  qed
  from this [OF Suc.prems(2) order.refl, of 0] obtain m c' where
    m: "counts_at g p c'" "counts_to limit (length (orders_from g (Suc k) p)) m"
      "rloop ?body (0, counts) (ready_of g p) = Inr (Inl (m, c')) \<or> rloop ?body (0, counts) (ready_of g p) = Inr (Inr (m, c'))"
    by auto
  then show ?case
    using ready_nonempty [OF link acyc Suc.prems(1)] Suc.prems(3)
    by (auto simp: count_orders.simps [of "Suc k"])
qed

lemma count_all_reference:
  assumes "well_linked g" and "acyclic (edge_rel g)" and "1 \<le> limit" and "limit < USIZE_MAX"
  shows "\<exists>m. count_topological_orders_up_to g limit = Inr m \<and> counts_to limit (length (orders_from g (length (nodes g)) [])) m"
  using count_reference [OF assms legal_Nil initial_counts [OF assms(1)], of "length (nodes g)"]
  by (auto simp: count_topological_orders_up_to_def initial_ready [OF assms(1)])

lemma sort_snoc: "sort (xs @ [x]) = insort x (sort xs)" for x :: "'a::linorder"
  by (rule properties_for_sort) (auto simp: sorted_insort)

section \<open>Lemmas: the canonical order is that of the traversal\<close>

lemma worklist_step:
  assumes "order_inv g (e # pend) order (counts, sort r)" and "distinct r"
  shows "\<exists>c' r'. worklist_edge (counts, r) e = Inr (c', r') \<and> order_edge (counts, sort r) e = Inr (c', sort r') \<and> distinct r'"
proof -
  have to: "edge_to e \<in> graph_ids g" using assms(1) by (auto simp: order_inv_def graph_ids_def)
  then have get: "bm_get counts (edge_to e) = Some (Suc (indeg (edge_to e) pend))"
    using assms(1) by (simp add: order_inv_def)
  have "edge_to e \<notin> {x \<in> graph_ids g. indeg x (e # pend) = 0}" by simp
  moreover have "set r \<subseteq> {x \<in> graph_ids g. indeg x (e # pend) = 0}" using assms(1) by (auto simp: order_inv_def)
  ultimately have new: "edge_to e \<notin> set r" by blast
  have "sort (r @ [edge_to e]) = insort_insert (edge_to e) (sort r)"
    using new by (simp add: sort_snoc insort_insert_insort)
  with get new assms(2) show ?thesis by (auto simp: worklist_edge_def order_edge_def)
qed

lemma worklist_edges:
  assumes "order_inv g (es @ pend) order (counts, sort r)" and "distinct r"
  shows "\<exists>c' r'. rfold worklist_edge (counts, r) es = Inr (c', r') \<and> rfold order_edge (counts, sort r) es = Inr (c', sort r') \<and> distinct r'"
  using assms
proof (induction es arbitrary: counts r)
  case (Cons e es)
  from worklist_step [of g e "es @ pend" order counts r] Cons.prems obtain c' r' where
    s: "worklist_edge (counts, r) e = Inr (c', r')" "order_edge (counts, sort r) e = Inr (c', sort r')" "distinct r'" by auto
  have "order_inv g (es @ pend) order (c', sort r')"
    using order_edge_inv [of g e "es @ pend" order "(counts, sort r)"] Cons.prems(1) s(2) by simp
  from Cons.IH [OF this s(3)] s(1,2) show ?case by auto
qed auto

lemma worklist_is_order_loop:
  assumes "order_inv g (pending g order) order (counts, sort r)" and "distinct r"
  shows "worklist_loop fuel g counts r order = order_loop fuel g counts (sort r) order"
  using assms
proof (induction fuel arbitrary: counts r order)
  case 0
  show ?case by (cases "sort r") (simp_all add: worklist_loop.simps)
next
  case (Suc fuel)
  show ?case
  proof (cases "sort r")
    case Nil
    then show ?thesis by (simp add: worklist_loop.simps)
  next
    case (Cons v rest)
    have rest: "sort rest = rest" "distinct rest"
    proof -
      have "sorted (v # rest)" "distinct (v # rest)" using Suc.prems(2) unfolding Cons [symmetric] by simp_all
      then show "sort rest = rest" "distinct rest" by (simp_all add: sorted_sort_id)
    qed
    have inv: "order_inv g (filter (\<lambda>e. edge_from e = v) (edges g) @ pending g (order @ [v])) (order @ [v]) (counts, sort rest)"
      using order_inv_pop [OF Suc.prems(1) [unfolded Cons]] rest by simp
    from worklist_edges [OF inv rest(2)] rest(1) obtain c' r' where
      s: "rfold worklist_edge (counts, rest) (filter (\<lambda>e. edge_from e = v) (edges g)) = Inr (c', r')"
        "rfold order_edge (counts, rest) (filter (\<lambda>e. edge_from e = v) (edges g)) = Inr (c', sort r')" "distinct r'" by auto
    have "order_inv g (pending g (order @ [v])) (order @ [v]) (c', sort r')"
      using order_edges_inv [OF inv] rest(1) s(2) by auto
    from Suc.IH [OF this s(3)] s(1,2) Cons show ?thesis by (simp add: worklist_loop.simps [of "Suc fuel"])
  qed
qed

section \<open>Lemmas: validating an order\<close>

lemma position_of_None: "position_of xs v = None \<longleftrightarrow> v \<notin> set xs"
  by (induction xs) auto

lemma order_position_Inr:
  "order_position g (seen, pos) (n, x) = Inr t \<longleftrightarrow>
     bm_has (nodes g) x \<and> x \<notin> set seen \<and> t = (insort_insert x seen, bm_insert x n pos)"
  by (auto simp: order_position_def)

lemma order_positions:
  "(\<exists>sp. rfold (order_position g) (seen, pos) (enumerate n xs) = Inr sp)
     \<longleftrightarrow> (\<forall>v \<in> set xs. bm_has (nodes g) v) \<and> distinct xs \<and> set xs \<inter> set seen = {}"
proof (induction xs arbitrary: n seen pos)
  case (Cons x xs)
  have "(\<exists>sp. rfold (order_position g) (seen, pos) (enumerate n (x # xs)) = Inr sp) \<longleftrightarrow>
      bm_has (nodes g) x \<and> x \<notin> set seen
      \<and> (\<exists>sp. rfold (order_position g) (insort_insert x seen, bm_insert x n pos) (enumerate (Suc n) xs) = Inr sp)"
    by (auto simp: rbind_Inr_iff order_position_Inr)
  then show ?case unfolding Cons.IH by auto
qed simp

lemma order_positions_get:
  "rfold (order_position g) (seen, pos) (enumerate n xs) = Inr sp \<Longrightarrow>
     bm_get (snd sp) v = (case position_of xs v of Some i \<Rightarrow> Some (n + i) | None \<Rightarrow> bm_get pos v)"
proof (induction xs arbitrary: n seen pos)
  case (Cons x xs)
  then have rest: "rfold (order_position g) (insort_insert x seen, bm_insert x n pos) (enumerate (Suc n) xs) = Inr sp"
    and x: "x \<notin> set xs"
    using order_positions [of g "insort_insert x seen" "bm_insert x n pos" "Suc n" xs]
    by (auto simp: rbind_Inr_iff order_position_Inr)
  have "position_of xs x = None" using x by (simp add: position_of_None)
  with Cons.IH [OF rest] show ?case by (cases "x = v"; cases "position_of xs v") auto
qed auto

lemma validate_order_edges_Inr:
  assumes "bm_get pos = position_of order"
  shows "rfold (\<lambda>_. validate_order_edge order pos) () es = Inr u \<longleftrightarrow>
    (\<forall>e \<in> set es. \<exists>i j. position_of order (edge_from e) = Some i \<and> position_of order (edge_to e) = Some j \<and> i < j)"
  unfolding rfold_unit_Inr
  by (intro ball_cong refl) (auto simp: validate_order_edge_def assms result_simps not_le)

lemma respects_positions:
  assumes "distinct order" and "\<forall>e \<in> set (edges g). edge_from e \<in> set order \<and> edge_to e \<in> set order"
  shows "respects_edges g order \<longleftrightarrow>
    (\<forall>e \<in> set (edges g). \<exists>i j. position_of order (edge_from e) = Some i \<and> position_of order (edge_to e) = Some j \<and> i < j)"
proof
  assume resp: "respects_edges g order"
  show "\<forall>e \<in> set (edges g). \<exists>i j. position_of order (edge_from e) = Some i \<and> position_of order (edge_to e) = Some j \<and> i < j"
  proof
    fix e assume e: "e \<in> set (edges g)"
    obtain j where j: "j < length order" "order ! j = edge_to e" using assms(2) e by (metis in_set_conv_nth)
    have "edge_from e \<in> set (take j order)" using resp j e unfolding respects_edges_def by metis
    then obtain i where i: "i < j" "order ! i = edge_from e" using j(1) by (auto simp: in_set_conv_nth)
    from i j have "position_of order (edge_from e) = Some i" "position_of order (edge_to e) = Some j"
      using position_of_nth [OF assms(1), of i] position_of_nth [OF assms(1), of j] by simp_all
    with i(1) show "\<exists>i j. position_of order (edge_from e) = Some i \<and> position_of order (edge_to e) = Some j \<and> i < j"
      by blast
  qed
next
  assume pos: "\<forall>e \<in> set (edges g). \<exists>i j. position_of order (edge_from e) = Some i \<and> position_of order (edge_to e) = Some j \<and> i < j"
  have nth: "i < length order \<and> order ! i = v" if "position_of order v = Some i" for v i
    using that by (induction order arbitrary: i) (auto split: if_splits)
  show "respects_edges g order"
    unfolding respects_edges_def
  proof (intro allI impI ballI)
    fix k e assume k: "k < length order" "e \<in> set (edges g)" "edge_to e = order ! k"
    with pos obtain i where i: "position_of order (edge_from e) = Some i" "i < k"
      using position_of_nth [OF assms(1) k(1)] by auto
    with nth [OF i(1)] k(1) show "edge_from e \<in> set (take k order)"
      by (auto simp: in_set_conv_nth intro!: exI [of _ i])
  qed
qed

lemma validate_order_iff:
  assumes link: "well_linked g"
  shows "validate_topological_order g order = Inr () \<longleftrightarrow> topological g order"
proof (cases "length order = length (nodes g) \<and> distinct order \<and> set order \<subseteq> set (bm_keys (nodes g))")
  case True
  have all: "set order = set (bm_keys (nodes g))"
  proof (rule card_subset_eq)
    have "distinct (bm_keys (nodes g))" using link by (simp add: well_linked_def bm_wf_distinct)
    then show "card (set order) = card (set (bm_keys (nodes g)))" using True by (simp add: distinct_card del: set_map)
  qed (use True in simp_all)
  obtain sp where sp: "rfold (order_position g) ([], []) (enumerate 0 order) = Inr sp"
    using order_positions [of g "[]" "[]" 0 order] True by (auto simp: bm_has_def)
  have pos: "bm_get (snd sp) = position_of order"
    using order_positions_get [OF sp] by (auto simp: fun_eq_iff split: option.split)
  have "\<forall>e \<in> set (edges g). edge_from e \<in> set order \<and> edge_to e \<in> set order"
    using link all by (simp add: well_linked_def bm_has_def)
  from respects_positions [OF _ this] True all sp validate_order_edges_Inr [OF pos, of "edges g"]
  show ?thesis by (simp add: validate_topological_order_def topological_def)
next
  case False
  have "length order = length (nodes g) \<and> distinct order \<and> set order \<subseteq> set (bm_keys (nodes g))"
    if "validate_topological_order g order = Inr ()"
  proof -
    from that obtain sp where "length order = length (nodes g)" "rfold (order_position g) ([], []) (enumerate 0 order) = Inr sp"
      by (auto simp: validate_topological_order_def result_simps split: if_splits)
    with order_positions [of g "[]" "[]" 0 order] show ?thesis by (auto simp: bm_has_def)
  qed
  moreover have "length order = length (nodes g)" if "topological g order"
    by (rule topological_length [OF link that])
  ultimately show ?thesis using False by (auto simp: topological_def)
qed

section \<open>Lemmas: the evaluation agrees with the traversal\<close>

lemma obs_start:
  "queue_at (fold (\<lambda>k. bm_insert k cs) (filter (zero_count (incoming_counts g)) (bm_keys (nodes g))) []) w
     = (if w \<in> set (bm_keys (nodes g)) \<and> is_entry g w then cs else [])"
proof -
  have "set (filter (zero_count (incoming_counts g)) (bm_keys (nodes g))) = {v \<in> set (bm_keys (nodes g)). is_entry g v}"
    using set_entry_nodes [of g] unfolding entry_node_list_def set_sort .
  then show ?thesis by (simp add: or_default_def get_fold_const)
qed

lemma evaluate_valid:
  assumes link: "well_linked g" and top: "topological g order" and run: "evaluate_with_order rx g cs order = Inr f"
  shows "validate_governance_claims cs = Inr ()"
proof -
  have ne: "nodes g \<noteq> []" using run by (auto simp: evaluate_with_order_def result_simps Let_def split: if_splits)
  then obtain v rest where order: "order = v # rest"
    using topological_length [OF link top] by (cases order) auto
  have v: "v \<in> set (bm_keys (nodes g))" using top by (auto simp: topological_def order simp del: set_map)
  have "respects_edges g (v # rest)" using top by (simp add: topological_def order)
  then have "edge_to e \<noteq> v" if "e \<in> set (edges g)" for e
    using that unfolding respects_edges_def by (metis (no_types) length_greater_0_conv list.distinct(1) list.set(1) empty_iff nth_Cons_0 take0)
  then have "is_entry g v" by (simp add: is_entry_def)
  with v have q: "queue_at (fold (\<lambda>k. bm_insert k cs) (filter (zero_count (incoming_counts g)) (bm_keys (nodes g))) []) v = cs"
    by (simp add: obs_start)
  obtain st where "obs_step rx g \<lparr>os_queued = fold (\<lambda>k. bm_insert k cs)
      (filter (zero_count (incoming_counts g)) (bm_keys (nodes g))) [], os_final = []\<rparr> v = Inr st"
    using run by (auto simp: evaluate_with_order_def order result_simps Let_def split: if_splits)
  then show ?thesis by (auto simp: obs_step_def result_simps Let_def q evaluate_node_def)
qed

lemma evaluate_agrees:
  assumes link: "well_linked g" and top: "topological g order" and ne: "nodes g \<noteq> []"
  shows "evaluate_with_order rx g cs order = Inr f \<longleftrightarrow> traverse_final_decisions rx g cs = Inr f"
proof -
  let ?st = "\<lparr>os_queued = fold (\<lambda>k. bm_insert k cs) (filter (zero_count (incoming_counts g)) (bm_keys (nodes g))) [], os_final = []\<rparr>"
  have acyc: "acyclic (edge_rel g)" using respects_acyclic [OF link] top unfolding topological_def by blast
  have "filter (zero_count (incoming_counts g)) (bm_keys (nodes g)) \<noteq> []"
    using entry_exists [OF link acyc ne] unfolding entry_node_list_def by (metis sort_key_simps(1))
  then have ev: "evaluate_with_order rx g cs order = rbind (rfold (obs_step rx g) ?st order) (\<lambda>st. Inr (os_final st))"
    using validate_order_iff [OF link, of order] top ne by (simp add: evaluate_with_order_def)
  have start: "queue_at (os_queued ?st) w = (if w \<in> set (bm_keys (nodes g)) \<and> is_entry g w then cs else [])" "os_final ?st = []" for w
    unfolding ordered_state.select_convs by (rule obs_start) (rule refl)
  show ?thesis
  proof
    assume run: "evaluate_with_order rx g cs order = Inr f"
    note cs = evaluate_valid [OF link top run]
    from run ev obtain st where st: "rfold (obs_step rx g) ?st order = Inr st" "f = os_final st" by (auto simp: result_simps)
    from obs.run_flow [OF cs link top start st(1)] obtain B where B: "flow rx g cs B" "bm_wf f"
        "\<And>k. bm_get f k = strictest (decided rx g B (set (bm_keys (nodes g))) k)" using st(2) by blast
    from flow_traverse_final [OF link acyc cs ne B(1)] B(2,3) show "traverse_final_decisions rx g cs = Inr f"
      by (metis bm_ext ext)
  next
    assume run: "traverse_final_decisions rx g cs = Inr f"
    note cs = final_valid(3) [OF link run]
    from traverse_final_flow [OF link run] obtain B where B: "flow rx g cs B" "bm_wf f"
        "\<And>k. bm_get f k = strictest (decided rx g B (set (bm_keys (nodes g))) k)" by blast
    from obs.flow_run [OF cs link top start B(1)] obtain st where
      "rfold (obs_step rx g) ?st order = Inr st" "bm_wf (os_final st)"
      "\<And>k. bm_get (os_final st) k = strictest (decided rx g B (set (bm_keys (nodes g))) k)" by blast
    with B(2,3) ev show "evaluate_with_order rx g cs order = Inr f" by (metis bm_ext ext rbind.simps(2))
  qed
qed

lemma canonical_order:
  assumes link: "well_linked g" and acyc: "acyclic (edge_rel g)"
  shows "\<exists>order. obs_topological_order g = Inr order \<and> topological_order g (incoming_counts g) = Inr order \<and> topological g order"
proof -
  let ?r = "filter (zero_count (incoming_counts g)) (bm_keys (nodes g))"
  have "distinct (bm_keys (nodes g))" "sorted (bm_keys (nodes g))"
    using link by (auto simp: well_linked_def bm_wf_distinct bm_wf_def strict_sorted_iff)
  then have r: "distinct ?r" "sorted ?r" by (auto intro: sorted_filter [where f = "\<lambda>x. x", simplified])
  have eq: "initial_ready g = sort ?r"
  proof (rule sorted_distinct_set_unique)
    show "sorted (initial_ready g)" "distinct (initial_ready g)" by (simp_all add: initial_ready [OF link] ready_of_def)
  qed (use r in \<open>auto simp: initial_ready_def initial_queue\<close>)
  have "order_inv g (pending g []) [] (incoming_counts g, sort ?r)"
    using legal_inv [OF link legal_Nil initial_counts [OF link]] by (simp add: eq [symmetric] initial_ready [OF link])
  from worklist_is_order_loop [OF this r(1), of "tarjan_fuel g"]
  have "worklist_loop (tarjan_fuel g) g (incoming_counts g) ?r []
      = order_loop (tarjan_fuel g) g (incoming_counts g) (initial_ready g) []" by (simp add: eq)
  moreover obtain order where order: "topological_order g (incoming_counts g) = Inr order" "topological g order"
    using topological_order_acyclic [OF assms] unfolding topological_def by blast
  moreover from order(1) topological_length [OF link order(2)]
  have "order_loop (tarjan_fuel g) g (incoming_counts g) (initial_ready g) [] = Inr order"
    using first_cycle_error_spec(1) [OF link acyc, where x = "_ :: node_id list"]
    by (auto simp: topological_order_def initial_ready_def result_simps split: if_splits)
  ultimately show ?thesis using validate_order_iff [OF link, of order] by (auto simp: obs_topological_order_def)
qed

lemma compare_all:
  assumes "\<And>order. order \<in> set orders \<Longrightarrow> evaluate_with_order rx g cs order = Inr f" and "distinct orders"
  shows "rloop (compare_order rx g cs canonical f) n orders = Inr (Inr (n + length (filter (\<lambda>order. order \<noteq> canonical) orders)))"
proof -
  have "first_difference f f cs = None" by (auto simp: first_difference_def find_None_iff)
  then have "compare_order rx g cs canonical f m order = Inr (Inr (if order = canonical then m else m + 1))"
    if "order \<in> set orders" for m order
    using assms(1) [OF that] by (simp add: compare_order_def)
  then show ?thesis by (induction orders arbitrary: n) auto
qed

text \<open>The only topological order of the sample graph.\<close>

lemma sample_flow_orders: "{order. topological sample_flow order} = {[''a'', ''b'']}"
proof -
  have "all_topological_orders sample_flow = Inr [[''a'', ''b'']]" by code_simp
  with all_orders_reference [OF sample_flow_linked sample_flow_acyclic]
  have "orders_from sample_flow (length (nodes sample_flow)) [] = [[''a'', ''b'']]" by simp
  with orders_from_sound [OF sample_flow_linked legal_Nil, of "length (nodes sample_flow)"] show ?thesis by simp
qed

section \<open>Properties\<close>

text \<open>C21: the enumeration is exact. On an acyclic graph \<open>all_topological_orders\<close> ends within its budget
  and returns every topological order exactly once and nothing else.\<close>

theorem all_topological_orders_exact:
  assumes "well_linked g" and "acyclic (edge_rel g)"
  shows "\<exists>orders. all_topological_orders g = Inr orders \<and> distinct orders \<and> set orders = {order. topological g order}"
  using all_orders_reference [OF assms] orders_from_distinct [OF assms(1) legal_Nil, of "length (nodes g)"]
    orders_from_sound [OF assms(1) legal_Nil, of "length (nodes g)"] by simp

theorem all_topological_orders_exact_witness:
  "all_topological_orders sample_flow = Inr [[''a'', ''b'']] \<and> {order. topological sample_flow order} = {[''a'', ''b'']}"
proof -
  have run: "all_topological_orders sample_flow = Inr [[''a'', ''b'']]" by code_simp
  from all_topological_orders_exact [OF sample_flow_linked sample_flow_acyclic] obtain orders where
    orders: "all_topological_orders sample_flow = Inr orders" "set orders = {order. topological sample_flow order}" by blast
  have eq: "orders = [[''a'', ''b'']]" using orders(1) unfolding run sum.inject by (rule sym)
  have "{order. topological sample_flow order} = {[''a'', ''b'']}" using orders(2) unfolding eq list.set by (rule sym)
  with run show ?thesis by (rule conjI)
qed

text \<open>The count. It is the number of topological orders while that does not exceed the limit, and
  a number above the limit otherwise.\<close>

lemma count_topological_orders_exact:
  assumes "well_linked g" and "acyclic (edge_rel g)" and "1 \<le> limit" and "limit < USIZE_MAX"
  shows "\<exists>m. count_topological_orders_up_to g limit = Inr m
    \<and> (if card {order. topological g order} \<le> limit then m = card {order. topological g order} else limit < m)"
proof -
  let ?os = "orders_from g (length (nodes g)) []"
  have "distinct ?os" "set ?os = {order. topological g order}"
    using orders_from_distinct [OF assms(1) legal_Nil, of "length (nodes g)"]
      orders_from_sound [OF assms(1) legal_Nil, of "length (nodes g)"] by auto
  then have "length ?os = card {order. topological g order}" by (metis distinct_card)
  with count_all_reference [OF assms] show ?thesis by (simp add: counts_to_def)
qed

lemma count_topological_orders_exact_witness:
  "count_topological_orders_up_to sample_flow 1 = Inr 1 \<and> card {order. topological sample_flow order} = 1"
proof -
  have "card {order. topological sample_flow order} = 1" unfolding sample_flow_orders by simp
  with count_topological_orders_exact [OF sample_flow_linked sample_flow_acyclic, of 1]
  show ?thesis by (auto simp: USIZE_MAX_def)
qed

text \<open>C20: order independence. Along whatever topological order a graph is evaluated, the evaluation
  succeeds exactly when the traversal does, and with the same final decisions.\<close>

theorem evaluation_order_independent:
  assumes "well_linked g" and "topological g order" and "nodes g \<noteq> []"
  shows "evaluate_with_order rx g cs order = Inr f \<longleftrightarrow> traverse_final_decisions rx g cs = Inr f"
  using assms by (rule evaluate_agrees)

theorem evaluation_order_independent_witness:
  "evaluate_with_order (\<lambda>_. None) sample_flow [sample_claim ''x''] [''a'', ''b''] = Inr (final_decisions sample_flow_result)"
proof -
  have "[''a'', ''b''] \<in> {order. topological sample_flow order}" unfolding sample_flow_orders by simp
  then have "topological sample_flow [''a'', ''b'']" by (simp only: mem_Collect_eq)
  from evaluation_order_independent [OF sample_flow_linked this] traverse_final [OF sample_flow_run]
  show ?thesis by (simp add: sample_flow_def)
qed

lemma observable_passes:
  assumes link: "well_linked g" and f: "traverse_final_decisions rx g cs = Inr f"
  shows "if length (nodes g) \<le> EXHAUSTIVE_OBSERVABLE_NODE_LIMIT
       \<and> card {order. topological g order} \<le> EXHAUSTIVE_OBSERVABLE_ORDER_LIMIT
     then check_graph_observable_determinacy rx g cs = Inr (Pass Observable (card {order. topological g order}))
     else \<exists>reason. check_graph_observable_determinacy rx g cs = Inr (Skipped Observable reason)"
proof -
  note ok = final_valid [OF link f]
  obtain canonical where canonical: "obs_topological_order g = Inr canonical" "topological g canonical"
    using canonical_order [OF link ok(1)] by blast
  let ?os = "orders_from g (length (nodes g)) []" and ?n = "card {order. topological g order}"
  have os: "distinct ?os" "set ?os = {order. topological g order}" "all_topological_orders g = Inr ?os"
    using orders_from_distinct [OF link legal_Nil, of "length (nodes g)"]
      orders_from_sound [OF link legal_Nil, of "length (nodes g)"] all_orders_reference [OF link ok(1)] by auto
  have len: "length ?os = ?n" using os(1,2) by (metis distinct_card)
  obtain m where m: "count_topological_orders_up_to g EXHAUSTIVE_OBSERVABLE_ORDER_LIMIT = Inr m"
      "counts_to EXHAUSTIVE_OBSERVABLE_ORDER_LIMIT ?n m"
    using count_all_reference [OF link ok(1), of EXHAUSTIVE_OBSERVABLE_ORDER_LIMIT]
    by (auto simp: len EXHAUSTIVE_OBSERVABLE_ORDER_LIMIT_def USIZE_MAX_def)
  have ev: "evaluate_with_order rx g cs order = Inr f" if "topological g order" for order
    using evaluate_agrees [OF link that ok(2)] f by blast
  have run: "rloop (compare_order rx g cs canonical f) 1 ?os = Inr (Inr ?n)"
  proof -
    have c: "canonical \<in> set ?os" using canonical(2) os(2) by simp
    have "filter (\<lambda>order. order \<noteq> canonical) ?os = remove1 canonical ?os"
      using distinct_remove1_removeAll [OF os(1), of canonical] by (simp add: removeAll_filter_not_eq eq_commute)
    with c have "1 + length (filter (\<lambda>order. order \<noteq> canonical) ?os) = ?n"
      using length_pos_if_in_set [OF c] by (simp add: length_remove1 len)
    moreover have "evaluate_with_order rx g cs order = Inr f" if "order \<in> set ?os" for order
      using ev that os(2) by simp
    note compare_all [OF this os(1), of canonical 1]
    ultimately show ?thesis by simp
  qed
  have "m \<le> EXHAUSTIVE_OBSERVABLE_ORDER_LIMIT \<longleftrightarrow> ?n \<le> EXHAUSTIVE_OBSERVABLE_ORDER_LIMIT"
    using m(2) by (auto simp: counts_to_def split: if_splits)
  with canonical ev [OF canonical(2)] ok(2) acyclic_no_cycles [OF link ok(1)] m(1) os(3) run show ?thesis
    by (auto simp: check_graph_observable_determinacy_def check_graph_traversal_order_invariance_def not_le)
qed

text \<open>Observable determinacy. On a graph that decides the claims the check passes after comparing
  all topological orders, or is skipped when there are too many nodes or orders.\<close>

lemma observable_determinacy_passes:
  assumes "well_linked g" and "traverse_final_decisions rx g cs = Inr f"
  shows "if length (nodes g) \<le> EXHAUSTIVE_OBSERVABLE_NODE_LIMIT
       \<and> card {order. topological g order} \<le> EXHAUSTIVE_OBSERVABLE_ORDER_LIMIT
     then check_graph_observable_determinacy rx g cs = Inr (Pass Observable (card {order. topological g order}))
     else \<exists>reason. check_graph_observable_determinacy rx g cs = Inr (Skipped Observable reason)"
  using assms by (rule observable_passes)

lemma observable_determinacy_passes_witness:
  "check_graph_observable_determinacy (\<lambda>_. None) sample_flow [sample_claim ''x''] = Inr (Pass Observable 1)"
proof -
  have "length (nodes sample_flow) \<le> EXHAUSTIVE_OBSERVABLE_NODE_LIMIT" by code_simp
  then show ?thesis
    using observable_determinacy_passes [OF sample_flow_linked traverse_final [OF sample_flow_run]]
    unfolding sample_flow_orders by (simp add: EXHAUSTIVE_OBSERVABLE_ORDER_LIMIT_def)
qed

end
