(* ===== verification/F64_Functions.thy ===== *)
theory F64_Functions
  imports F64
begin

text \<open>
  The methods of Rust's \<open>f64\<close> that the protocol uses beyond arithmetic: \<open>max\<close>, \<open>min\<close>, \<open>clamp\<close>,
  the correctly rounded \<open>sqrt\<close> and the binary representation \<open>to_bits\<close>. The sign that \<open>max\<close> and
  \<open>min\<close> give for a pair of zeros is left open by Rust; the second argument is kept here.
\<close>

section \<open>Selection\<close>

definition f64_max :: "f64 \<Rightarrow> f64 \<Rightarrow> f64" where
  "f64_max a b = (if is_nan a then b else if is_nan b then a else if f64_lt b a then a else b)"

definition f64_min :: "f64 \<Rightarrow> f64 \<Rightarrow> f64" where
  "f64_min a b = (if is_nan a then b else if is_nan b then a else if f64_lt a b then a else b)"

definition f64_clamp :: "f64 \<Rightarrow> f64 \<Rightarrow> f64 \<Rightarrow> f64" where
  "f64_clamp x lo hi = (if f64_lt x lo then lo else if f64_lt hi x then hi else x)"

section \<open>Square root\<close>

text \<open>The integer square root, one base-four digit at a time.\<close>

function isqrt :: "int \<Rightarrow> int" where
  "isqrt n = (if n \<le> 0 then 0
     else let r = 2 * isqrt (n div 4) in if (r + 1) * (r + 1) \<le> n then r + 1 else r)"
  by auto
termination by (relation "measure nat") auto

declare isqrt.simps [simp del]

text \<open>
  The root of \<open>r = m * 4 ^ e\<close> with \<open>m\<close> between \<open>4 ^ 52\<close> and \<open>4 ^ 53\<close> is \<open>sqrt m * 2 ^ e\<close>, rounded at the
  unit of \<open>m\<close>. Roots of doubles are far from the subnormal range.
\<close>

definition sqrt_rat :: "rat \<Rightarrow> rat" where
  "sqrt_rat r =
     (let e = ilog2 r div 2 - 52;
          m = r / 2 powi (2 * e);
          n = isqrt \<lfloor>m\<rfloor>;
          mid = (of_int n + 1 / 2) * (of_int n + 1 / 2);
          k = if m < mid then n else if mid < m then n + 1 else if even n then n else n + 1
      in of_int k * 2 powi e)"

fun f64_sqrt :: "f64 \<Rightarrow> f64" where
  "f64_sqrt NaN = NaN"
| "f64_sqrt (Infinite neg) = (if neg then NaN else Infinite False)"
| "f64_sqrt (Zero neg) = Zero neg"
| "f64_sqrt (Num r) = (if r < 0 then NaN else Num (sqrt_rat r))"

section \<open>Binary representation\<close>

definition sign_bit :: "bool \<Rightarrow> int" where
  "sign_bit neg = (if neg then 2 ^ 63 else 0)"

definition magnitude_bits :: "rat \<Rightarrow> int" where
  "magnitude_bits x =
     (let e = ilog2 x in
      if e < - 1022 then \<lfloor>x * 2 powi 1074\<rfloor>
      else (e + 1023) * 2 ^ 52 + (\<lfloor>x / 2 powi (e - 52)\<rfloor> - 2 ^ 52))"

fun f64_to_bits :: "f64 \<Rightarrow> u64" where
  "f64_to_bits NaN = word_of_int (2047 * 2 ^ 52 + 2 ^ 51)"
| "f64_to_bits (Infinite neg) = word_of_int (sign_bit neg + 2047 * 2 ^ 52)"
| "f64_to_bits (Zero neg) = word_of_int (sign_bit neg)"
| "f64_to_bits (Num r) = word_of_int (sign_bit (r < 0) + magnitude_bits \<bar>r\<bar>)"

section \<open>Lemmas\<close>

lemma isqrt_bounds: "0 \<le> n \<Longrightarrow> 0 \<le> isqrt n \<and> isqrt n * isqrt n \<le> n \<and> n < (isqrt n + 1) * (isqrt n + 1)"
proof (induction n rule: isqrt.induct)
  case (1 n)
  show ?case
  proof (cases "n = 0")
    case False
    define s where "s = isqrt (n div 4)"
    with 1 False have s: "0 \<le> s" "s * s \<le> n div 4" "n div 4 < (s + 1) * (s + 1)" by simp_all
    have eq: "isqrt n = (if (2 * s + 1) * (2 * s + 1) \<le> n then 2 * s + 1 else 2 * s)"
      using False 1 by (subst isqrt.simps) (simp add: Let_def s_def)
    from s(2) have lo: "(2 * s) * (2 * s) \<le> n" by (simp add: algebra_simps)
    from s(3) have "n div 4 + 1 \<le> (s + 1) * (s + 1)" by simp
    then have "4 * (n div 4) + 4 \<le> 4 * ((s + 1) * (s + 1))" by linarith
    moreover have "n < 4 * (n div 4) + 4" by linarith
    ultimately have hi: "n < (2 * s + 2) * (2 * s + 2)" by (simp add: algebra_simps)
    show ?thesis using eq s(1) lo hi by (simp add: algebra_simps)
  qed (simp add: isqrt.simps)
qed

lemma f64_max_cases: "f64_max a b = a \<or> f64_max a b = b"
  by (simp add: f64_max_def)

lemma f64_max_ge:
  assumes "\<not> is_nan a" and "\<not> is_nan b"
  shows "f64_le a (f64_max a b) \<and> f64_le b (f64_max a b)"
  using assms f64_le_total [OF assms] by (auto simp: f64_max_def f64_lt_def f64_le_refl)

lemma f64_max_nan: "is_nan (f64_max a b) \<longleftrightarrow> is_nan a \<and> is_nan b"
  by (simp add: f64_max_def)

lemma f64_clamp_between:
  assumes "\<not> is_nan x" and "f64_le lo hi"
  shows "f64_le lo (f64_clamp x lo hi) \<and> f64_le (f64_clamp x lo hi) hi"
proof -
  have nn: "\<not> is_nan lo" "\<not> is_nan hi" using assms(2) by (auto simp: f64_le_def)
  show ?thesis
    using assms f64_le_total [OF assms(1) nn(1)] f64_le_total [OF assms(1) nn(2)] nn
    by (auto simp: f64_clamp_def f64_lt_def f64_le_refl)
qed

end
