(* ===== verification/Protocol_Spectral.thy ===== *)
theory Protocol_Spectral
  imports Graph_Diagnostics F64_Functions
begin

text \<open>
  The numeric side of the protocol, \<open>src/src/protocol/transitions.rs\<close>: the Laplacian of a graph,
  its eigenvalues by Jacobi rotations, the spectral gap and the bounds derived from it, and the
  monitoring interval. Matrices are lists of rows. The properties give the Laplacian in closed
  form, and bounds that hold of every graph and claim batch whatever the rounding does.
\<close>

section \<open>The Laplacian\<close>

type_synonym matrix = "f64 list list"

definition entry :: "matrix \<Rightarrow> nat \<Rightarrow> nat \<Rightarrow> f64" where
  "entry m i j = m ! i ! j"

definition set_entry :: "nat \<Rightarrow> nat \<Rightarrow> f64 \<Rightarrow> matrix \<Rightarrow> matrix" where
  "set_entry i j x m = m[i := (m ! i)[j := x]]"

definition zero_matrix :: "nat \<Rightarrow> matrix" where
  "zero_matrix n = replicate n (replicate n (Zero False))"

definition index_by_node :: "node_id list \<Rightarrow> (node_id \<times> nat) list" where
  "index_by_node ids = zip ids [0..<length ids]"

definition count_edge :: "(node_id \<times> nat) list \<Rightarrow> governance_edge \<Rightarrow> matrix \<Rightarrow> matrix" where
  "count_edge index e adjacency =
     (case (map_of index (edge_from e), map_of index (edge_to e)) of
        (Some i, Some j) \<Rightarrow>
          let once = set_entry i j (f64_add (entry adjacency i j) (Num 1)) adjacency
          in set_entry j i (f64_add (entry once j i) (Num 1)) once
      | _ \<Rightarrow> adjacency)"

definition adjacency_matrix :: "governance_graph \<Rightarrow> matrix" where
  "adjacency_matrix g = fold (count_edge (index_by_node (bm_keys (nodes g)))) (edges g) (zero_matrix (length (nodes g)))"

definition laplacian_matrix :: "governance_graph \<Rightarrow> matrix \<times> nat" where
  "laplacian_matrix g =
     (let n = length (nodes g); adjacency = adjacency_matrix g
      in (map (\<lambda>row. map (\<lambda>col. if row = col then f64_sum (adjacency ! row)
                                  else f64_uminus (entry adjacency row col)) [0..<n]) [0..<n], n))"

section \<open>Jacobi rotations\<close>

definition upper_indices :: "nat \<Rightarrow> (nat \<times> nat) list" where
  "upper_indices n = concat (map (\<lambda>row. map (\<lambda>col. (row, col)) [row + 1..<n]) [0..<n])"

definition pivot_step :: "matrix \<Rightarrow> nat \<times> nat \<Rightarrow> f64 \<times> (nat \<times> nat) option \<Rightarrow> f64 \<times> (nat \<times> nat) option" where
  "pivot_step m rc best =
     (let candidate = f64_abs (entry m (fst rc) (snd rc))
      in if f64_lt (fst best) candidate then (candidate, Some rc) else best)"

definition find_pivot :: "matrix \<Rightarrow> f64 \<times> (nat \<times> nat) option" where
  "find_pivot m = fold (pivot_step m) (upper_indices (length m)) (Zero False, None)"

definition JACOBI_EPSILON :: f64 where
  "JACOBI_EPSILON = round64 (1 / 10 ^ 12)"

definition rotation :: "matrix \<Rightarrow> nat \<Rightarrow> nat \<Rightarrow> f64 \<times> f64" where
  "rotation m p q =
     (let theta = f64_div (f64_sub (entry m q q) (entry m p p)) (f64_mul (Num 2) (entry m p q));
          root = f64_sqrt (f64_add (Num 1) (f64_mul theta theta));
          t = if f64_le (Zero False) theta then f64_div (Num 1) (f64_add theta root)
              else f64_div (Num (- 1)) (f64_add (f64_uminus theta) root);
          c = f64_div (Num 1) (f64_sqrt (f64_add (Num 1) (f64_mul t t)))
      in (c, f64_mul t c))"

definition rotate_index :: "f64 \<Rightarrow> f64 \<Rightarrow> nat \<Rightarrow> nat \<Rightarrow> nat \<Rightarrow> matrix \<Rightarrow> matrix" where
  "rotate_index c s p q i m =
     (if i = p \<or> i = q then m
      else
        let aip = entry m i p; aiq = entry m i q;
            m1 = set_entry i p (f64_sub (f64_mul c aip) (f64_mul s aiq)) m;
            m2 = set_entry p i (entry m1 i p) m1;
            m3 = set_entry i q (f64_add (f64_mul c aiq) (f64_mul s aip)) m2
        in set_entry q i (entry m3 i q) m3)"

definition rotate :: "matrix \<Rightarrow> nat \<Rightarrow> nat \<Rightarrow> matrix" where
  "rotate m p q =
     (let (c, s) = rotation m p q;
          r = fold (rotate_index c s p q) [0..<length m] m;
          app = entry r p p; aqq = entry r q q; apq = entry r p q;
          cross = f64_mul (f64_mul (f64_mul (Num 2) s) c) apq;
          r1 = set_entry p p (f64_add (f64_sub (f64_mul (f64_mul c c) app) cross) (f64_mul (f64_mul s s) aqq)) r;
          r2 = set_entry q q (f64_add (f64_add (f64_mul (f64_mul s s) app) cross) (f64_mul (f64_mul c c) aqq)) r1
      in set_entry q p (Zero False) (set_entry p q (Zero False) r2))"

fun jacobi_loop :: "nat \<Rightarrow> matrix \<Rightarrow> matrix" where
  "jacobi_loop 0 m = m"
| "jacobi_loop (Suc k) m =
     (case find_pivot m of
        (_, None) \<Rightarrow> m
      | (max_value, Some (p, q)) \<Rightarrow>
          if f64_le max_value JACOBI_EPSILON then m else jacobi_loop k (rotate m p q))"

definition jacobi_eigenvalues :: "matrix \<Rightarrow> f64 list" where
  "jacobi_eigenvalues m =
     (let n = length m
      in if n = 0 then [] else
         let r = jacobi_loop (max (n * n * 16) 16) m in map (\<lambda>i. entry r i i) [0..<n])"

section \<open>Gap and bounds\<close>

definition spectral_gap :: "governance_graph \<Rightarrow> f64" where
  "spectral_gap g =
     (let (laplacian, n) = laplacian_matrix g
      in if n < 2 then Zero False
         else case find (\<lambda>value. f64_lt EPSILON value) (f64_sort (jacobi_eigenvalues laplacian)) of
                None \<Rightarrow> Zero False | Some value \<Rightarrow> value)"

definition signal_range :: "governance_claim list \<Rightarrow> f64" where
  "signal_range cs =
     (let lo = fold (\<lambda>c m. f64_min m (strength c)) cs (Infinite False);
          hi = fold (\<lambda>c m. f64_max m (strength c)) cs (Infinite True)
      in if \<not> is_finite lo \<or> \<not> is_finite hi then Zero False else f64_sub hi lo)"

definition max_degree :: "governance_graph \<Rightarrow> f64" where
  "max_degree g =
     (let laplacian = fst (laplacian_matrix g)
      in fold (\<lambda>i m. f64_max m (entry laplacian i i)) [0..<length laplacian] (Zero False))"

definition consistency_vulnerability_bound :: "governance_graph \<Rightarrow> governance_claim list \<Rightarrow> f64" where
  "consistency_vulnerability_bound g cs =
     (if f64_lt EPSILON (spectral_gap g)
      then f64_div (f64_mul (signal_range cs) (max_degree g)) (spectral_gap g)
      else signal_range cs)"

definition localizability_bound :: "governance_graph \<Rightarrow> governance_claim list \<Rightarrow> f64" where
  "localizability_bound g cs =
     (let cv_bound = consistency_vulnerability_bound g cs
      in if f64_le cv_bound EPSILON then Num 1
         else f64_clamp (f64_div (Num (1 / 2)) cv_bound) (Zero False) (Num 1))"

section \<open>The monitoring interval\<close>

record monitor_config =
  min_interval_seconds :: u64
  max_interval_seconds :: u64
  seed :: u64

definition lower_interval :: "monitor_config \<Rightarrow> u64" where
  "lower_interval config = max (min_interval_seconds config) 1"

definition upper_interval :: "monitor_config \<Rightarrow> u64" where
  "upper_interval config = max (max_interval_seconds config) (lower_interval config)"

definition randomized_interval :: "monitor_config \<Rightarrow> f64 \<Rightarrow> f64 \<Rightarrow> u64" where
  "randomized_interval config gap exposure =
     (if lower_interval config = upper_interval config then lower_interval config
      else
        let normalized = f64_to_bits (f64_add (f64_add gap exposure) (f64_of_nat (unat (seed config))))
        in lower_interval config + normalized mod (upper_interval config - lower_interval config + 1))"

section \<open>Lemmas: exact counting\<close>

lemma f64_of_nat_0: "f64_of_nat 0 = Zero False"
  by (simp add: f64_of_nat_def round64_def)

lemma f64_of_nat_add: "a + b < 2 ^ 53 \<Longrightarrow> f64_add (f64_of_nat a) (f64_of_nat b) = f64_of_nat (a + b)"
proof -
  assume ab: "a + b < 2 ^ 53"
  consider "a = 0 \<and> b = 0" | "a = 0 \<and> 0 < b" | "0 < a \<and> b = 0" | "0 < a \<and> 0 < b" by arith
  then show ?thesis
  proof cases
    case 4
    then have "f64_add (f64_of_nat a) (f64_of_nat b) = round64 (of_nat a + of_nat b)"
      using ab by (simp add: f64_of_nat_exact)
    then show ?thesis by (simp add: f64_of_nat_def)
  qed (use ab in \<open>simp_all add: f64_of_nat_0 f64_of_nat_exact\<close>)
qed

lemma f64_of_nat_1: "f64_of_nat 1 = Num 1"
  by (simp add: f64_of_nat_exact)

lemma f64_sum_nat:
  "xs \<noteq> [] \<Longrightarrow> sum_list xs < 2 ^ 53 \<Longrightarrow> f64_sum (map f64_of_nat xs) = f64_of_nat (sum_list xs)"
proof (induction xs rule: rev_nonempty_induct)
  case (single x)
  then show ?case by (cases "x = 0") (simp_all add: f64_sum_def f64_of_nat_0 f64_of_nat_exact)
next
  case (snoc x xs)
  then show ?case by (simp add: f64_sum_def f64_of_nat_add)
qed

definition arrows :: "governance_edge list \<Rightarrow> node_id \<Rightarrow> node_id \<Rightarrow> nat" where
  "arrows es v w = length (filter (\<lambda>e. edge_from e = v \<and> edge_to e = w) es)"

definition links :: "governance_edge list \<Rightarrow> node_id \<Rightarrow> node_id \<Rightarrow> nat" where
  "links es v w = arrows es v w + arrows es w v"

definition degree :: "governance_graph \<Rightarrow> node_id \<Rightarrow> nat" where
  "degree g v = length (filter (\<lambda>e. edge_from e = v) (edges g)) + length (filter (\<lambda>e. edge_to e = v) (edges g))"

lemma arrows_snoc: "arrows (es @ [e]) v w = arrows es v w + (if edge_from e = v \<and> edge_to e = w then 1 else 0)"
  by (simp add: arrows_def)

lemma count_twice:
  assumes "F (N k) = N (k + 1)" and "F (N (k + 1)) = N (k + (2 :: nat))"
  shows "(if Q then F (if P then N (k + 1) else N k) else if P then N (k + 1) else N k)
    = N (k + (if P then 1 else 0) + (if Q then 1 else 0))"
  using assms by (cases P; cases Q) simp_all

definition square :: "nat \<Rightarrow> matrix \<Rightarrow> bool" where
  "square n m \<longleftrightarrow> length m = n \<and> (\<forall>i < n. length (m ! i) = n)"

lemma square_set: "square n m \<Longrightarrow> i < n \<Longrightarrow> square n (set_entry i j x m)"
  by (auto simp: square_def set_entry_def nth_list_update)

lemma entry_set:
  "square n m \<Longrightarrow> i < n \<Longrightarrow> j < n \<Longrightarrow> i' < n \<Longrightarrow> j' < n
     \<Longrightarrow> entry (set_entry i j x m) i' j' = (if i' = i \<and> j' = j then x else entry m i' j')"
  by (auto simp: square_def set_entry_def entry_def nth_list_update)

lemma square_zero: "square n (zero_matrix n)" "i < n \<Longrightarrow> j < n \<Longrightarrow> entry (zero_matrix n) i j = Zero False"
  by (simp_all add: square_def zero_matrix_def entry_def)

lemma index_get: "distinct ids \<Longrightarrow> map_of (index_by_node ids) v = Some i \<longleftrightarrow> i < length ids \<and> ids ! i = v"
  by (auto simp: index_by_node_def map_of_zip_nth map_of_eq_Some_iff in_set_zip)

lemma index_mem: "v \<in> set ids \<Longrightarrow> distinct ids \<Longrightarrow> \<exists>i. map_of (index_by_node ids) v = Some i \<and> i < length ids \<and> ids ! i = v"
  by (metis index_get in_set_conv_nth)

lemma nth_edge: "distinct ids \<Longrightarrow> i < length ids \<Longrightarrow> k < length ids \<Longrightarrow> ids ! i = ids ! k \<longleftrightarrow> i = k"
  by (rule nth_eq_iff_index_eq)

lemma adjacency_counts:
  assumes ids: "distinct ids" and "\<forall>e \<in> set es. edge_from e \<in> set ids \<and> edge_to e \<in> set ids"
    and "2 * length es < 2 ^ 53"
  shows "square (length ids) (fold (count_edge (index_by_node ids)) es (zero_matrix (length ids)))
    \<and> (\<forall>i < length ids. \<forall>j < length ids.
         entry (fold (count_edge (index_by_node ids)) es (zero_matrix (length ids))) i j
           = f64_of_nat (links es (ids ! i) (ids ! j)))"
  using assms(2,3)
proof (induction es rule: rev_induct)
  case Nil
  then show ?case by (simp add: square_zero links_def arrows_def f64_of_nat_0)
next
  case (snoc e es)
  let ?m = "fold (count_edge (index_by_node ids)) es (zero_matrix (length ids))" and ?n = "length ids"
  from snoc have sq: "square ?n ?m" and counts: "\<And>i j. i < ?n \<Longrightarrow> j < ?n \<Longrightarrow> entry ?m i j = f64_of_nat (links es (ids ! i) (ids ! j))"
    by simp_all
  obtain a b where a: "map_of (index_by_node ids) (edge_from e) = Some a" "a < ?n" "ids ! a = edge_from e"
      and b: "map_of (index_by_node ids) (edge_to e) = Some b" "b < ?n" "ids ! b = edge_to e"
    using index_mem [OF _ ids] snoc.prems(1) by (metis in_set_conv_decomp)
  let ?once = "set_entry a b (f64_add (entry ?m a b) (Num 1)) ?m"
  have step: "count_edge (index_by_node ids) e ?m = set_entry b a (f64_add (entry ?once b a) (Num 1)) ?once"
    by (simp add: count_edge_def a b Let_def)
  have sq1: "square ?n ?once" using square_set [OF sq a(2)] .
  have le: "links es v w \<le> 2 * length es" for v w
    using length_filter_le [of "\<lambda>e. edge_from e = v \<and> edge_to e = w" es]
      length_filter_le [of "\<lambda>e. edge_from e = w \<and> edge_to e = v" es] unfolding links_def arrows_def by linarith
  have small: "links es v w + 2 < 2 ^ 53" for v w using le [of v w] snoc.prems(2) by simp
  have add1: "f64_add (f64_of_nat (links es v w)) (Num 1) = f64_of_nat (links es v w + 1)" for v w
    using f64_of_nat_add [of "links es v w" 1] small [of v w] by (simp only: f64_of_nat_1)
  have add2: "f64_add (f64_of_nat (links es v w + 1)) (Num 1) = f64_of_nat (links es v w + 2)" for v w
    using f64_of_nat_add [of "links es v w + 1" 1] small [of v w] by (simp only: f64_of_nat_1) simp
  have ln: "links (es @ [e]) (ids ! i) (ids ! j)
      = links es (ids ! i) (ids ! j) + (if i = a \<and> j = b then 1 else 0) + (if i = b \<and> j = a then 1 else 0)"
    if "i < ?n" "j < ?n" for i j
  proof -
    have from_ids: "edge_from e = ids ! k \<longleftrightarrow> k = a" if "k < ?n" for k
      using nth_edge [OF ids that a(2)] a(3) by metis
    have to_ids: "edge_to e = ids ! k \<longleftrightarrow> k = b" if "k < ?n" for k
      using nth_edge [OF ids that b(2)] b(3) by metis
    show ?thesis
      unfolding links_def arrows_snoc from_ids [OF that(1)] from_ids [OF that(2)] to_ids [OF that(1)] to_ids [OF that(2)]
      by (simp add: conj_commute)
  qed
  have ent: "entry (count_edge (index_by_node ids) e ?m) i j = f64_of_nat (links (es @ [e]) (ids ! i) (ids ! j))"
    if ij: "i < ?n" "j < ?n" for i j
  proof -
    let ?k = "links es (ids ! i) (ids ! j)"
    have once: "entry ?once i j = (if i = a \<and> j = b then f64_of_nat (?k + 1) else f64_of_nat ?k)"
      using entry_set [OF sq a(2) b(2) ij] counts [OF ij] counts [OF a(2) b(2)] add1 by (cases "i = a \<and> j = b") auto
    have twice: "entry (count_edge (index_by_node ids) e ?m) i j
        = (if i = b \<and> j = a then f64_add (entry ?once i j) (Num 1) else entry ?once i j)"
      unfolding step entry_set [OF sq1 b(2) a(2) ij] by (cases "i = b \<and> j = a") auto
    show ?thesis
      unfolding twice once ln [OF ij] by (rule count_twice [where F = "\<lambda>x. f64_add x (Num 1)", OF add1 add2])
  qed
  show ?case using ent square_set [OF sq1 b(2)] step by simp
qed

lemma sum_arrows:
  assumes "distinct ids" and "\<forall>e \<in> set es. edge_from e \<in> set ids \<and> edge_to e \<in> set ids"
  shows "(\<Sum>w \<leftarrow> ids. arrows es v w) = length (filter (\<lambda>e. edge_from e = v) es)"
    and "(\<Sum>w \<leftarrow> ids. arrows es w v) = length (filter (\<lambda>e. edge_to e = v) es)"
proof -
  have one: "(\<Sum>w \<leftarrow> ids. if P \<and> x = w then 1 else 0) = (if P then 1 else (0 :: nat))" if "x \<in> set ids" for x :: node_id and P
    using assms(1) that by (simp add: sum_list_distinct_conv_sum_set)
  have add: "(\<Sum>w \<leftarrow> ids. f w + h w) = (\<Sum>w \<leftarrow> ids. f w) + (\<Sum>w \<leftarrow> ids. h w)" for f h :: "node_id \<Rightarrow> nat"
    by (rule sum_list_addf)
  have cons: "arrows (e # es) a = (\<lambda>b. (if edge_from e = a \<and> edge_to e = b then 1 else 0) + arrows es a b)" for e es a
    by (simp add: arrows_def fun_eq_iff)
  show "(\<Sum>w \<leftarrow> ids. arrows es v w) = length (filter (\<lambda>e. edge_from e = v) es)"
    using assms(2) by (induction es) (simp_all add: cons add one arrows_def [of "[]"])
  have cons': "arrows (e # es) a b = (if edge_to e = b \<and> edge_from e = a then 1 else 0) + arrows es a b" for e es a b
    by (simp add: arrows_def)
  show "(\<Sum>w \<leftarrow> ids. arrows es w v) = length (filter (\<lambda>e. edge_to e = v) es)"
    using assms(2) by (induction es) (simp_all add: cons' add one arrows_def [of "[]"])
qed

lemma sum_links:
  assumes "distinct ids" and "\<forall>e \<in> set es. edge_from e \<in> set ids \<and> edge_to e \<in> set ids"
  shows "(\<Sum>w \<leftarrow> ids. links es v w)
    = length (filter (\<lambda>e. edge_from e = v) es) + length (filter (\<lambda>e. edge_to e = v) es)"
  by (simp add: links_def sum_list_addf sum_arrows [OF assms])

lemma map_nth_links: "map (\<lambda>j. f (ids ! j)) [0..<length ids] = map (\<lambda>v. f v) ids"
  by (rule nth_equalityI) simp_all

lemma adjacency_row:
  assumes link: "well_linked g" and small: "2 * length (edges g) < 2 ^ 53" and i: "i < length (nodes g)"
  shows "adjacency_matrix g ! i = map (\<lambda>w. f64_of_nat (links (edges g) (bm_keys (nodes g) ! i) w)) (bm_keys (nodes g))"
    (is "?row = ?rhs")
proof -
  have ids: "distinct (bm_keys (nodes g))" using link by (simp add: well_linked_def bm_wf_distinct)
  have ends: "\<forall>e \<in> set (edges g). edge_from e \<in> set (bm_keys (nodes g)) \<and> edge_to e \<in> set (bm_keys (nodes g))"
    using link by (auto simp: well_linked_def bm_has_def)
  note a = adjacency_counts [OF ids ends small]
  show ?thesis
  proof (rule nth_equalityI)
    show "length ?row = length ?rhs" using a i by (simp add: square_def adjacency_matrix_def)
    fix j assume "j < length ?row"
    with a i show "?row ! j = ?rhs ! j"
      by (simp add: square_def adjacency_matrix_def entry_def)
  qed
qed

definition laplacian_value :: "governance_graph \<Rightarrow> node_id \<Rightarrow> node_id \<Rightarrow> f64" where
  "laplacian_value g v w =
     (if v = w then f64_of_nat (degree g v) else f64_uminus (f64_of_nat (links (edges g) v w)))"

lemma laplacian_closed_form:
  assumes "well_linked g" and "2 * length (edges g) < 2 ^ 53"
  shows "laplacian_matrix g
    = (map (\<lambda>v. map (\<lambda>w. laplacian_value g v w) (bm_keys (nodes g))) (bm_keys (nodes g)), length (nodes g))"
proof -
  let ?ids = "bm_keys (nodes g)" and ?n = "length (nodes g)"
  have ids: "distinct ?ids" using assms(1) by (simp add: well_linked_def bm_wf_distinct)
  have ends: "\<forall>e \<in> set (edges g). edge_from e \<in> set ?ids \<and> edge_to e \<in> set ?ids"
    using assms(1) by (auto simp: well_linked_def bm_has_def)
  have row: "(if i = j then f64_sum (adjacency_matrix g ! i) else f64_uminus (entry (adjacency_matrix g) i j))
      = laplacian_value g (?ids ! i) (?ids ! j)" if ij: "i < ?n" "j < ?n" for i j
  proof -
    have "?n \<noteq> 0" using ij by linarith
    have eq: "?ids ! i = ?ids ! j \<longleftrightarrow> i = j" using nth_edge [OF ids, of i j] ij by simp
    have deg: "(\<Sum>w \<leftarrow> ?ids. links (edges g) (?ids ! i) w) = degree g (?ids ! i)"
      using sum_links [OF ids ends] by (simp add: degree_def)
    have "degree g (?ids ! i) \<le> 2 * length (edges g)"
      using add_mono [OF length_filter_le length_filter_le] unfolding degree_def mult_2 .
    with assms(2) have "degree g (?ids ! i) < 2 ^ 53" by simp
    then have "f64_sum (map (\<lambda>w. f64_of_nat (links (edges g) (?ids ! i) w)) ?ids) = f64_of_nat (degree g (?ids ! i))"
      using f64_sum_nat [of "map (links (edges g) (?ids ! i)) ?ids"] deg \<open>?n \<noteq> 0\<close>
      by (simp add: comp_def del: nth_map)
    then have sum: "f64_sum (adjacency_matrix g ! i) = f64_of_nat (degree g (?ids ! i))"
      by (simp only: adjacency_row [OF assms ij(1)])
    show ?thesis
    proof (cases "i = j")
      case True
      with sum show ?thesis by (simp only: laplacian_value_def simp_thms if_True)
    next
      case False
      with eq have "?ids ! i \<noteq> ?ids ! j" by simp
      with False ij show ?thesis
        by (simp add: laplacian_value_def entry_def adjacency_row [OF assms ij(1)])
    qed
  qed
  have "fst (laplacian_matrix g) = map (\<lambda>i. map (\<lambda>j. laplacian_value g (?ids ! i) (?ids ! j)) [0..<?n]) [0..<?n]"
    unfolding laplacian_matrix_def Let_def fst_conv by (intro map_cong refl row) auto
  also have "\<dots> = map (\<lambda>v. map (\<lambda>w. laplacian_value g v w) ?ids) ?ids"
  proof -
    have "map (\<lambda>j. laplacian_value g v (?ids ! j)) [0..<?n] = map (laplacian_value g v) ?ids" for v
      using map_nth_links [of "laplacian_value g v" ?ids] unfolding length_map .
    then show ?thesis
      using map_nth_links [of "\<lambda>v. map (laplacian_value g v) ?ids" ?ids] unfolding length_map by simp
  qed
  finally show ?thesis by (simp add: laplacian_matrix_def Let_def)
qed

section \<open>Lemmas: rotations\<close>

definition symmetric :: "nat \<Rightarrow> matrix \<Rightarrow> bool" where
  "symmetric n m \<longleftrightarrow> square n m \<and> (\<forall>i < n. \<forall>j < n. entry m i j = entry m j i)"

lemma symmetric_pair:
  assumes "symmetric n m" and "i < n" and "j < n"
  shows "symmetric n (set_entry j i x (set_entry i j x m))"
proof -
  have sq: "square n m" and sy: "\<And>a b. a < n \<Longrightarrow> b < n \<Longrightarrow> entry m a b = entry m b a"
    using assms(1) by (simp_all add: symmetric_def)
  note sq1 = square_set [OF sq assms(2), of j x]
  show ?thesis
    unfolding symmetric_def
  proof (intro conjI allI impI)
    fix a b assume ab: "a < n" "b < n"
    show "entry (set_entry j i x (set_entry i j x m)) a b = entry (set_entry j i x (set_entry i j x m)) b a"
      unfolding entry_set [OF sq1 assms(3,2) ab] entry_set [OF sq1 assms(3,2) ab(2,1)]
        entry_set [OF sq assms(2,3) ab] entry_set [OF sq assms(2,3) ab(2,1)]
      using sy [OF ab] by presburger
  qed (rule square_set [OF sq1 assms(3)])
qed

lemma symmetric_diag: "symmetric n m \<Longrightarrow> i < n \<Longrightarrow> symmetric n (set_entry i i x m)"
  using symmetric_pair [of n m i i x] by (simp add: set_entry_def symmetric_def square_def)

lemma symmetric_rotate_index:
  assumes "symmetric n m" and "p < n" and "q < n" and "i < n"
  shows "symmetric n (rotate_index c s p q i m)"
proof (cases "i = p \<or> i = q")
  case False
  have pair: "set_entry b a (entry (set_entry a b x m) a b) (set_entry a b x m) = set_entry b a x (set_entry a b x m)"
    if "symmetric n m" "a < n" "b < n" for a b x and m :: matrix
    using that entry_set [of n m a b a b x] by (simp add: symmetric_def)
  let ?x = "f64_sub (f64_mul c (entry m i p)) (f64_mul s (entry m i q))"
  note s1 = symmetric_pair [OF assms(1,4,2), of ?x]
  show ?thesis
    using False symmetric_pair [OF s1 assms(4,3)] assms
    by (simp add: rotate_index_def Let_def pair [OF assms(1,4,2)] pair [OF s1 assms(4,3)])
qed (use assms in \<open>simp add: rotate_index_def\<close>)

lemma symmetric_rotate_fold:
  assumes "p < n" and "q < n" and "\<forall>i \<in> set is. i < n"
  shows "symmetric n m \<Longrightarrow> symmetric n (fold (rotate_index c s p q) is m)"
  using assms(3) by (induction "is" arbitrary: m) (simp_all add: symmetric_rotate_index assms(1,2))

lemma symmetric_length: "symmetric n m \<Longrightarrow> length m = n"
  by (simp add: symmetric_def square_def)

lemma symmetric_rotate:
  assumes "symmetric n m" and "p < n" and "q < n"
  shows "symmetric n (rotate m p q)"
proof -
  obtain c s where cs: "rotation m p q = (c, s)" by fastforce
  have "symmetric n (fold (rotate_index c s p q) [0..<n] m)"
    by (rule symmetric_rotate_fold) (use assms in auto)
  then show ?thesis
    unfolding rotate_def cs Let_def prod.case symmetric_length [OF assms(1)]
    by (intro symmetric_pair symmetric_diag assms)
qed

lemma find_pivot_less:
  assumes "find_pivot m = (v, Some (p, q))"
  shows "p < length m \<and> q < length m \<and> p \<noteq> q"
proof -
  have "snd (fold (pivot_step m) rcs b) \<in> {snd b} \<union> Some ` set rcs" for rcs and b :: "f64 \<times> (nat \<times> nat) option"
    by (induction rcs arbitrary: b) (force simp: pivot_step_def Let_def split: if_splits)+
  from this [of "upper_indices (length m)" "(Zero False, None)"] assms
  have "(p, q) \<in> set (upper_indices (length m))" by (simp add: find_pivot_def image_iff)
  then show ?thesis by (auto simp: upper_indices_def)
qed

lemma symmetric_jacobi: "symmetric n m \<Longrightarrow> symmetric n (jacobi_loop k m)"
proof (induction k m rule: jacobi_loop.induct)
  case (2 k m)
  show ?case
  proof (cases "find_pivot m")
    case (Pair v o1)
    show ?thesis
    proof (cases o1)
      case (Some pq)
      obtain p q where pq: "pq = (p, q)" by fastforce
      with Pair Some 2 find_pivot_less [of m v p q] show ?thesis
        by (auto simp: symmetric_length intro: symmetric_rotate)
    qed (use 2 Pair in simp)
  qed
qed simp

lemma laplacian_symmetric:
  assumes "well_linked g" and "2 * length (edges g) < 2 ^ 53"
  shows "symmetric (length (nodes g)) (fst (laplacian_matrix g))"
proof -
  have "bm_keys (nodes g) ! i = fst (nodes g ! i)" if "i < length (nodes g)" for i using that by simp
  then show ?thesis
    by (auto simp: laplacian_closed_form [OF assms] symmetric_def square_def entry_def laplacian_value_def links_def add.commute)
qed

section \<open>Lemmas: bounds\<close>

lemma spectral_gap_cases:
  "spectral_gap g = Zero False \<or> f64_lt EPSILON (spectral_gap g)"
  by (auto simp: spectral_gap_def Let_def split: prod.splits option.splits simp: find_Some_iff)

lemma find_pivot_zero:
  assumes "\<forall>i < length m. \<forall>j < length m. \<not> f64_lt (Zero False) (f64_abs (entry m i j))"
  shows "find_pivot m = (Zero False, None)"
proof -
  have "fold (pivot_step m) rcs (Zero False, None) = (Zero False, None)"
    if "\<forall>(i, j) \<in> set rcs. i < length m \<and> j < length m" for rcs
    using that by (induction rcs) (auto simp: pivot_step_def Let_def assms)
  from this [of "upper_indices (length m)"] show ?thesis by (auto simp: find_pivot_def upper_indices_def)
qed

lemma randomized_bounds:
  "lower_interval config \<le> randomized_interval config gap x \<and> randomized_interval config gap x \<le> upper_interval config"
proof (cases "lower_interval config = upper_interval config")
  case False
  let ?lo = "lower_interval config" and ?hi = "upper_interval config"
  define b where "b = f64_to_bits (f64_add (f64_add gap x) (f64_of_nat (unat (seed config))))"
  have "?lo \<le> ?hi" by (simp add: upper_interval_def)
  then have le: "unat ?lo \<le> unat ?hi" by (simp add: word_le_nat_alt)
  have lo: "1 \<le> unat ?lo" by (simp add: lower_interval_def max_def word_le_nat_alt)
  have hi: "unat ?hi < 2 ^ 64" using unsigned_less [of ?hi] by simp
  have diff: "unat (?hi - ?lo) = unat ?hi - unat ?lo" using le by (simp add: unat_sub word_le_nat_alt)
  have span: "unat (?hi - ?lo + 1) = unat ?hi - unat ?lo + 1"
    using diff lo hi le by (subst unat_plus_if') auto
  then have r: "unat (b mod (?hi - ?lo + 1)) \<le> unat ?hi - unat ?lo"
    using mod_less_divisor [of "unat ?hi - unat ?lo + 1" "unat b"] by (simp add: unat_mod_distrib)
  then have sum: "unat (?lo + b mod (?hi - ?lo + 1)) = unat ?lo + unat (b mod (?hi - ?lo + 1))"
    using hi le by (subst unat_plus_if') auto
  show ?thesis
    using False r sum le by (simp add: randomized_interval_def Let_def b_def [symmetric] word_le_nat_alt)
qed (simp add: randomized_interval_def)


lemma edgeless_adjacency: "edges g = [] \<Longrightarrow> adjacency_matrix g = zero_matrix (length (nodes g))"
  by (simp add: adjacency_matrix_def)

lemma zero_row_sum: "0 < n \<Longrightarrow> f64_sum (replicate n (Zero False)) = Zero False"
  using f64_sum_nat [of "replicate n 0"] by (simp add: map_replicate_const [symmetric] sum_list_replicate f64_of_nat_0)

lemma edgeless_laplacian:
  assumes "edges g = []" and "i < length (nodes g)" and "j < length (nodes g)"
  shows "entry (fst (laplacian_matrix g)) i j = Zero (i \<noteq> j)"
proof -
  have "0 < length (nodes g)" using assms(2) by linarith
  from zero_row_sum [OF this] assms show ?thesis
    by (simp add: laplacian_matrix_def Let_def entry_def edgeless_adjacency zero_matrix_def)
qed

lemma edgeless_gap: "edges g = [] \<Longrightarrow> spectral_gap g = Zero False"
proof -
  assume e: "edges g = []"
  let ?m = "fst (laplacian_matrix g)" and ?n = "length (nodes g)"
  have len: "length ?m = ?n" by (simp add: laplacian_matrix_def Let_def)
  have "find_pivot ?m = (Zero False, None)"
    by (rule find_pivot_zero) (auto simp: len edgeless_laplacian [OF e] f64_lt_def f64_le_def)
  then have "jacobi_loop k ?m = ?m" for k by (cases k) simp_all
  then have "set (jacobi_eigenvalues ?m) \<subseteq> {Zero False}"
    by (auto simp: jacobi_eigenvalues_def Let_def len edgeless_laplacian [OF e])
  then have "set (f64_sort (jacobi_eigenvalues ?m)) \<subseteq> {Zero False}"
    using mset_f64_sort [of "jacobi_eigenvalues ?m"] by (metis set_mset_mset)
  moreover have "\<not> f64_lt EPSILON (Zero False)" by (rule EPSILON_ok)
  ultimately have "find (\<lambda>value. f64_lt EPSILON value) (f64_sort (jacobi_eigenvalues ?m)) = None"
    by (auto simp: find_None_iff)
  then show "spectral_gap g = Zero False"
    by (simp add: spectral_gap_def case_prod_beta)
qed

lemma localizability_unit:
  "is_nan (localizability_bound g cs)
     \<or> f64_le (Zero False) (localizability_bound g cs) \<and> f64_le (localizability_bound g cs) (Num 1)"
proof -
  let ?x = "f64_div (Num (1 / 2)) (consistency_vulnerability_bound g cs)"
  have "is_nan (f64_clamp ?x (Zero False) (Num 1))" if "is_nan ?x"
    using that by (simp add: f64_clamp_def f64_lt_def f64_le_def)
  with f64_clamp_between [of ?x "Zero False" "Num 1"] show ?thesis
    by (auto simp: localizability_bound_def Let_def f64_le_def)
qed

section \<open>Properties\<close>

text \<open>The Laplacian of a well-formed graph is exact in float arithmetic: the diagonal holds the
  degrees, every other entry minus the number of edges between its two nodes; and the matrix
  stays square and symmetric through any number of Jacobi rotations.\<close>

lemma laplacian_exact:
  assumes "well_linked g" and "2 * length (edges g) < 2 ^ 53"
  shows "laplacian_matrix g
      = (map (\<lambda>v. map (\<lambda>w. laplacian_value g v w) (bm_keys (nodes g))) (bm_keys (nodes g)), length (nodes g))
    \<and> symmetric (length (nodes g)) (jacobi_loop k (fst (laplacian_matrix g)))"
  using laplacian_closed_form [OF assms] symmetric_jacobi [OF laplacian_symmetric [OF assms]] by (rule conjI)

lemma laplacian_exact_witness:
  "laplacian_matrix sample_flow = ([[Num 1, Num (- 1)], [Num (- 1), Num 1]], 2)"
proof -
  have v: "laplacian_value sample_flow ''a'' ''a'' = Num 1" "laplacian_value sample_flow ''b'' ''b'' = Num 1"
      "laplacian_value sample_flow ''a'' ''b'' = Num (- 1)" "laplacian_value sample_flow ''b'' ''a'' = Num (- 1)"
    by (simp_all add: laplacian_value_def degree_def links_def arrows_def sample_flow_def f64_of_nat_exact)
  have "length (edges sample_flow) = 1" by (simp add: sample_flow_def)
  then have "laplacian_matrix sample_flow
      = (map (\<lambda>v. map (\<lambda>w. laplacian_value sample_flow v w) (bm_keys (nodes sample_flow))) (bm_keys (nodes sample_flow)),
         length (nodes sample_flow))"
    using conjunct1 [OF laplacian_exact [OF sample_flow_linked]] by simp
  with v show ?thesis by (simp add: sample_flow_def)
qed

text \<open>Whatever the rounding does, the spectral gap is zero or above the tolerance, it is zero on
  a graph without edges, and the localizability bound lies between zero and one unless it is
  not a number.\<close>

lemma spectral_bounds:
  "(spectral_gap g = Zero False \<or> f64_lt EPSILON (spectral_gap g))
    \<and> (edges g = [] \<longrightarrow> spectral_gap g = Zero False)
    \<and> (is_nan (localizability_bound g cs)
       \<or> f64_le (Zero False) (localizability_bound g cs) \<and> f64_le (localizability_bound g cs) (Num 1))"
  using spectral_gap_cases edgeless_gap localizability_unit by blast

lemma spectral_bounds_witness:
  "spectral_gap \<lparr>nodes = [(''a'', Binary ''a'' ''a'' [] Permit FirstMatch), (''b'', Binary ''b'' ''b'' [] Deny FirstMatch)],
     edges = []\<rparr> = Zero False"
  using spectral_bounds by (metis governance_graph.select_convs(2))

text \<open>The monitoring interval lies between the configured bounds, a minimum of zero counting as
  one and a maximum below the minimum as the minimum; the 64-bit arithmetic never wraps around.\<close>

lemma randomized_interval_bounds:
  "unat (lower_interval config) \<le> unat (randomized_interval config gap exposure)
    \<and> unat (randomized_interval config gap exposure) \<le> unat (upper_interval config)
    \<and> 0 < unat (randomized_interval config gap exposure)"
proof -
  have "1 \<le> unat (lower_interval config)" by (simp add: lower_interval_def max_def word_le_nat_alt)
  then show ?thesis using randomized_bounds [of config gap exposure] by (simp add: word_le_nat_alt)
qed

end
