(* ===== verification/Mechanism.thy ===== *)
theory Mechanism
  imports Kernel_Axioms
begin

text \<open>
  Strategyproofness, \<open>src/src/mechanism.rs\<close>: the search for a claimant who gains by reporting a
  scaled strength, over the decisions of a graph or of a single node. The claims, how a claim
  is identified and re-reported, and the evaluation are arguments of the generic search, as
  they are in the code. The property says what a verdict means.
\<close>

section \<open>Verdicts\<close>

record strategyproofness_witness =
  sw_claimant :: string
  sw_true_strength :: f64
  sw_reported :: f64
  sw_true_alloc :: f64
  sw_manipulated_alloc :: f64

datatype strategyproofness_verdict = Strategyproof | Manipulable strategyproofness_witness

fun strategyproofness_witness_of :: "strategyproofness_verdict \<Rightarrow> strategyproofness_witness option" where
  "strategyproofness_witness_of Strategyproof = None"
| "strategyproofness_witness_of (Manipulable w) = Some w"

definition strategyproofness_exposure :: "strategyproofness_verdict \<Rightarrow> f64" where
  "strategyproofness_exposure v = (if strategyproofness_witness_of v \<noteq> None then Num 1 else Zero False)"

section \<open>The search\<close>

definition MISREPORT_FACTORS :: "f64 list" where
  "MISREPORT_FACTORS = [round64 (1 / 2), round64 (4 / 5), round64 (6 / 5), round64 (3 / 2), round64 2]"

definition score_for :: "(string, f64) bmap \<Rightarrow> string \<Rightarrow> string \<Rightarrow> legitimacy_error + f64" where
  "score_for scores k context = option_ok (MissingAllocationShare k context) (bm_get scores k)"

definition strictly_improves :: "f64 \<Rightarrow> f64 \<Rightarrow> bool" where
  "strictly_improves candidate base =
     (let tolerance = f64_add EPSILON (f64_mul EPSILON (f64_add (f64_abs candidate) (f64_abs base)))
      in f64_lt (f64_add base tolerance) candidate)"

text \<open>The interface of \<open>StrategyproofnessClaim\<close>: identifier, strength, and the claim with another
  strength, which can fail.\<close>

record 'c strategic_claim =
  st_id :: "'c \<Rightarrow> string"
  st_strength :: "'c \<Rightarrow> f64"
  st_report :: "'c \<Rightarrow> f64 \<Rightarrow> legitimacy_error + 'c"

definition misreported ::
  "'c strategic_claim \<Rightarrow> nat \<Rightarrow> f64 \<Rightarrow> 'c list \<Rightarrow> legitimacy_error + 'c list" where
  "misreported sc index reported cs =
     rmap (\<lambda>(i, c). if i = index then st_report sc c reported else Inr c) (enumerate 0 cs)"

definition misreport_factor ::
  "'c strategic_claim \<Rightarrow> ('c list \<Rightarrow> legitimacy_error fault + (string, f64) bmap) \<Rightarrow> 'c list \<Rightarrow> nat \<Rightarrow> 'c \<Rightarrow> f64
     \<Rightarrow> unit \<Rightarrow> f64 \<Rightarrow> legitimacy_error fault + (strategyproofness_verdict + unit)" where
  "misreport_factor sc evaluate cs index c true_alloc u factor =
     (let reported = f64_mul (st_strength sc c) factor in
      rbind (raise (misreported sc index reported cs)) (\<lambda>manipulated_claims.
      rbind (evaluate manipulated_claims) (\<lambda>manipulated_scores.
      rbind (raise (score_for manipulated_scores (st_id sc c) ''strategyproofness misreport'')) (\<lambda>manipulated_alloc.
        if strictly_improves manipulated_alloc true_alloc then
          Inr (Inl (Manipulable \<lparr>sw_claimant = st_id sc c, sw_true_strength = st_strength sc c, sw_reported = reported,
                                 sw_true_alloc = true_alloc, sw_manipulated_alloc = manipulated_alloc\<rparr>))
        else Inr (Inr ())))))"

definition misreport_claim ::
  "'c strategic_claim \<Rightarrow> ('c list \<Rightarrow> legitimacy_error fault + (string, f64) bmap) \<Rightarrow> 'c list \<Rightarrow> (string, f64) bmap
     \<Rightarrow> unit \<Rightarrow> nat \<times> 'c \<Rightarrow> legitimacy_error fault + (strategyproofness_verdict + unit)" where
  "misreport_claim sc evaluate cs baseline_scores u ic =
     rbind (raise (score_for baseline_scores (st_id sc (snd ic)) ''strategyproofness baseline'')) (\<lambda>true_alloc.
       rloop (misreport_factor sc evaluate cs (fst ic) (snd ic) true_alloc) () MISREPORT_FACTORS)"

definition check_reported_strength_manipulations ::
  "'c strategic_claim \<Rightarrow> 'c list \<Rightarrow> (string, f64) bmap \<Rightarrow> ('c list \<Rightarrow> legitimacy_error fault + (string, f64) bmap)
     \<Rightarrow> legitimacy_error fault + strategyproofness_verdict" where
  "check_reported_strength_manipulations sc cs baseline_scores evaluate =
     rbind (rloop (misreport_claim sc evaluate cs baseline_scores) () (enumerate 0 cs)) (\<lambda>outcome.
       Inr (case outcome of Inl v \<Rightarrow> v | Inr u \<Rightarrow> Strategyproof))"

section \<open>Graphs and nodes\<close>

definition governance_strategic :: "governance_claim strategic_claim" where
  "governance_strategic =
     \<lparr>st_id = claimant_id, st_strength = strength, st_report = (\<lambda>c reported. Inr (c\<lparr>strength := reported\<rparr>))\<rparr>"

definition final_decision_scores :: "(string, decision) bmap \<Rightarrow> (string, f64) bmap" where
  "final_decision_scores decisions = map (\<lambda>(k, d). (k, f64_of_nat (decision_rank d))) decisions"

definition decision_scores :: "claim_decision list \<Rightarrow> (string, f64) bmap" where
  "decision_scores ds = fold (\<lambda>d. bm_insert (cd_claimant_id d) (f64_of_nat (decision_rank (cd_decision d)))) ds []"

definition graph_scores ::
  "regex_engine \<Rightarrow> governance_graph \<Rightarrow> governance_claim list \<Rightarrow> legitimacy_error fault + (string, f64) bmap" where
  "graph_scores rx g cs = rbind (traverse rx g cs) (\<lambda>r. Inr (final_decision_scores (final_decisions r)))"

definition check_graph_strategyproofness_verdict ::
  "regex_engine \<Rightarrow> governance_graph \<Rightarrow> governance_claim list \<Rightarrow> legitimacy_error fault + strategyproofness_verdict" where
  "check_graph_strategyproofness_verdict rx g cs =
     rbind (graph_scores rx g cs) (\<lambda>baseline_scores.
       check_reported_strength_manipulations governance_strategic cs baseline_scores (graph_scores rx g))"

definition node_scores ::
  "regex_engine \<Rightarrow> governance_node \<Rightarrow> governance_claim list \<Rightarrow> legitimacy_error fault + (string, f64) bmap" where
  "node_scores rx n cs = rbind (raise (evaluate_node rx n cs)) (\<lambda>ds. Inr (decision_scores ds))"

definition check_binary_strategyproofness ::
  "regex_engine \<Rightarrow> governance_node \<Rightarrow> governance_claim list \<Rightarrow> legitimacy_error fault + strategyproofness_verdict" where
  "check_binary_strategyproofness rx n cs =
     rbind (node_scores rx n cs) (\<lambda>baseline_scores.
       check_reported_strength_manipulations governance_strategic cs baseline_scores (node_scores rx n))"

section \<open>Lemmas\<close>

definition scaled_report :: "nat \<Rightarrow> f64 \<Rightarrow> governance_claim list \<Rightarrow> governance_claim list" where
  "scaled_report i factor cs = cs[i := (cs ! i)\<lparr>strength := f64_mul (strength (cs ! i)) factor\<rparr>]"

lemma misreported_from:
  "rmap (\<lambda>(j, c). if j = index then st_report governance_strategic c x else Inr c) (enumerate k cs)
    = Inr (if k \<le> index \<and> index < k + length cs then cs[index - k := (cs ! (index - k))\<lparr>strength := x\<rparr>] else cs)"
proof (induction cs arbitrary: k)
  case (Cons c cs)
  show ?case
  proof (cases "k = index")
    case True
    with Cons [of "Suc k"] show ?thesis by (simp add: governance_strategic_def)
  next
    case False
    show ?thesis
    proof (cases "k < index")
      case True
      then have "index - k = Suc (index - Suc k)" by simp
      with True False Cons [of "Suc k"] show ?thesis by (simp add: Suc_le_eq)
    next
      case less: False
      with False Cons [of "Suc k"] show ?thesis by simp
    qed
  qed
qed simp

lemma misreported_eq:
  assumes "i < length cs"
  shows "misreported governance_strategic i (f64_mul (strength (cs ! i)) factor) cs = Inr (scaled_report i factor cs)"
  using assms by (simp add: misreported_def misreported_from scaled_report_def)

text \<open>Small dyadic numbers are representable.\<close>

lemma round64_dyadic: "0 < m \<Longrightarrow> m < 2 ^ 53 \<Longrightarrow> k \<le> 1000 \<Longrightarrow> round64 (of_int m / 2 ^ k) = Num (of_int m / 2 ^ k)"
proof -
  assume m: "0 < m" "m < 2 ^ 53" "k \<le> 1000"
  have "(of_int m :: rat) < of_int (2 ^ 53)" using m(2) unfolding of_int_less_iff .
  then have "(of_int m :: rat) / 2 ^ k < 2 ^ 53 / 1" by (intro frac_less) (use m(1) in simp_all)
  also have "\<dots> \<le> 2 ^ 1024" by (simp add: power_increasing)
  finally show ?thesis
    by (intro round64_exact [of _ m "- int k"]) (use m in \<open>simp_all add: power_int_minus divide_inverse\<close>)
qed

lemma EPSILON_between: "\<exists>e. EPSILON = Num e \<and> 1 / 2 ^ 30 \<le> e \<and> e \<le> 1 / 2 ^ 29"
  unfolding EPSILON_def
  by (rule round64_between) (use round64_dyadic [of 1 30] round64_dyadic [of 1 29] in simp_all)

lemma rank_tolerance:
  assumes "a \<le> 2" and "b \<le> (2 :: nat)"
  shows "\<exists>t. f64_add EPSILON (f64_mul EPSILON (f64_add (f64_abs (f64_of_nat a)) (f64_abs (f64_of_nat b)))) = Num t
    \<and> 0 < t \<and> t \<le> 1 / 2"
proof -
  obtain e where e: "EPSILON = Num e" "1 / 2 ^ 30 \<le> e" "e \<le> 1 / 2 ^ 29" using EPSILON_between by blast
  have abs: "f64_abs (f64_of_nat n) = f64_of_nat n" if "n \<le> 2" for n
    using that by (cases "n = 0") (simp_all add: f64_of_nat_exact f64_of_nat_def [of 0] round64_def [of 0])
  have sum: "f64_add (f64_abs (f64_of_nat a)) (f64_abs (f64_of_nat b)) = (if a + b = 0 then Zero False else Num (of_nat (a + b)))"
  proof -
    have "f64_add (f64_of_nat a) (f64_of_nat b) = round64 (of_nat a + of_nat b) \<or> a = 0 \<or> b = 0"
      using assms by (cases "a = 0"; cases "b = 0") (simp_all add: f64_of_nat_exact)
    then show ?thesis
      using assms f64_of_nat_exact [of "a + b"]
      by (auto simp: abs f64_of_nat_exact f64_of_nat_def [of 0] f64_of_nat_def [of "a + b"] round64_def [of 0])
  qed
  show ?thesis
  proof (cases "a + b = 0")
    case True
    have "(0 :: rat) < 1 / 2 ^ 30" "(1 :: rat) / 2 ^ 29 \<le> 1 / 2" by simp_all
    with e(2,3) have "0 < e" "e \<le> 1 / 2" by linarith+
    then show ?thesis unfolding sum e(1) using True by simp
  next
    case False
    define n where "n = a + b"
    have n: "0 < n" "n \<le> 4" using False assms by (simp_all add: n_def)
    have d30: "round64 (1 / 2 ^ 30) = Num (1 / 2 ^ 30)" using round64_dyadic [of 1 30] by simp
    have d27: "round64 (1 / 2 ^ 27) = Num (1 / 2 ^ 27)" using round64_dyadic [of 1 27] by simp
    have d26: "round64 (1 / 2 ^ 26) = Num (1 / 2 ^ 26)" using round64_dyadic [of 1 26] by simp
    have n': "1 \<le> (of_nat n :: rat)" "(of_nat n :: rat) \<le> 4"
      using n of_nat_le_iff [of 1 n, where 'a = rat] of_nat_le_iff [of n 4, where 'a = rat] by simp_all
    have lo: "1 / 2 ^ 30 \<le> e * of_nat n" using mult_mono [OF e(2) n'(1)] e(2) by simp
    have hi: "e * of_nat n \<le> 1 / 2 ^ 27" using mult_mono [OF e(3) n'(2)] e(2) by simp
    obtain m where m: "round64 (e * of_nat n) = Num m" "1 / 2 ^ 30 \<le> m" "m \<le> 1 / 2 ^ 27"
      using round64_between [OF _ lo hi d30 d27] by auto
    have "1 / 2 ^ 30 \<le> e + m" "e + m \<le> 1 / 2 ^ 26" using e m by simp_all
    from round64_between [OF _ this d30 d26] obtain t where "round64 (e + m) = Num t" "1 / 2 ^ 30 \<le> t" "t \<le> 1 / 2 ^ 26"
      by auto
    moreover have "(0 :: rat) < 1 / 2 ^ 30" "(1 :: rat) / 2 ^ 26 \<le> 1 / 2" by simp_all
    ultimately have "round64 (e + m) = Num t" "0 < t" "t \<le> 1 / 2" by linarith+
    then show ?thesis unfolding sum e(1) if_not_P [OF False] using m(1) by (simp add: n_def)
  qed
qed

lemma rank_plus:
  assumes "n \<le> (2 :: nat)" and "0 < t" and "t \<le> 1 / 2"
  shows "\<exists>u. f64_add (f64_of_nat n) (Num t) = Num u \<and> of_nat n \<le> u \<and> u \<le> of_nat n + 1 / 2 \<and> 0 < u"
proof (cases "n = 0")
  case True
  with assms show ?thesis by (simp add: f64_of_nat_def round64_def)
next
  case False
  have r: "round64 (of_nat n) = Num (of_nat n)" using f64_of_nat_exact [of n] False assms(1) by (simp add: f64_of_nat_def)
  have h: "round64 (of_nat n + 1 / 2) = Num (of_nat n + 1 / 2)"
    using round64_dyadic [of "2 * int n + 1" 1] assms(1) by (simp add: add_divide_distrib)
  have "\<exists>u. round64 (of_nat n + t) = Num u \<and> of_nat n \<le> u \<and> u \<le> of_nat n + 1 / 2"
    by (rule round64_between) (use False assms r h in simp_all)
  then show ?thesis using False assms(1) by (auto simp: f64_of_nat_exact intro: less_le_trans)
qed

lemma rank_score:
  assumes "m \<le> 2" and "n \<le> 2"
  shows "strictly_improves (f64_of_nat m) (f64_of_nat n) \<longleftrightarrow> n < m"
proof -
  obtain t where t: "f64_add EPSILON (f64_mul EPSILON (f64_add (f64_abs (f64_of_nat m)) (f64_abs (f64_of_nat n)))) = Num t"
      "0 < t" "t \<le> 1 / 2"
    using rank_tolerance [OF assms] by blast
  obtain u where u: "f64_add (f64_of_nat n) (Num t) = Num u" "of_nat n \<le> u" "u \<le> of_nat n + 1 / 2" "0 < u"
    using rank_plus [OF assms(2) t(2,3)] by blast
  have val: "f64_val (f64_of_nat m) = of_nat m" "f64_class (f64_of_nat m) = 0" "\<not> is_nan (f64_of_nat m)"
    using assms(1) by (cases "m = 0"; simp add: f64_of_nat_exact f64_of_nat_def [of 0] round64_def [of 0])+
  have "f64_lt (Num u) (f64_of_nat m) \<longleftrightarrow> u < of_nat m"
    using val by (auto simp: f64_lt_def f64_le_def)
  also have "\<dots> \<longleftrightarrow> n < m"
  proof
    assume "u < of_nat m"
    with u(2) show "n < m" using of_nat_less_iff [of n m, where 'a = rat] by linarith
  next
    assume "n < m"
    then have "of_nat n + 1 \<le> (of_nat m :: rat)" using of_nat_le_iff [of "n + 1" m, where 'a = rat] by simp
    with u(3) show "u < of_nat m" by linarith
  qed
  finally show ?thesis by (simp add: strictly_improves_def t u)
qed

lemma rloop_total:
  "(\<And>x. x \<in> set xs \<Longrightarrow> \<exists>y. f () x = Inr y) \<Longrightarrow> \<exists>y. rloop f () xs = Inr y"
proof (induction xs)
  case (Cons x xs)
  then obtain y z where "f () x = Inr y" "rloop f () xs = Inr z" by (metis list.set_intros)
  then show ?case by (cases y) auto
qed simp

lemma rank_le_2: "decision_rank d \<le> 2"
  by (cases d) simp_all

definition rank_of :: "(string, decision) bmap \<Rightarrow> string \<Rightarrow> nat" where
  "rank_of decisions k = decision_rank (or_default Escalate decisions k)"

lemma score_for_decisions:
  "score_for (final_decision_scores f) k context = Inr x
     \<longleftrightarrow> (\<exists>d. bm_get f k = Some d \<and> x = f64_of_nat (decision_rank d))"
  by (induction f) (auto simp: score_for_def final_decision_scores_def result_simps bm_get_def)

lemma graph_scores_Inr:
  "graph_scores rx g cs = Inr sc \<longleftrightarrow> (\<exists>f. traverse_final_decisions rx g cs = Inr f \<and> sc = final_decision_scores f)"
  by (auto simp: graph_scores_def traverse_final_decisions_def traverse_def traverse_claims_uncaptured result_simps
      split: prod.splits)

lemma misreport_factor_Inr:
  assumes "i < length cs"
    and "misreport_factor governance_strategic (graph_scores rx g) cs i (cs ! i) (f64_of_nat (rank_of f (claimant_id (cs ! i)))) u factor
      = Inr outcome"
  shows "\<exists>f'. traverse_final_decisions rx g (scaled_report i factor cs) = Inr f'
    \<and> (case outcome of
         Inr _ \<Rightarrow> rank_of f' (claimant_id (cs ! i)) \<le> rank_of f (claimant_id (cs ! i))
       | Inl v \<Rightarrow> rank_of f (claimant_id (cs ! i)) < rank_of f' (claimant_id (cs ! i))
           \<and> (\<exists>w. v = Manipulable w \<and> sw_claimant w = claimant_id (cs ! i) \<and> sw_true_strength w = strength (cs ! i)
                 \<and> sw_reported w = f64_mul (strength (cs ! i)) factor))"
proof -
  have sel: "st_strength governance_strategic = strength" "st_id governance_strategic = claimant_id"
    by (simp_all add: governance_strategic_def)
  note m = misreported_eq [OF assms(1), of factor]
  from assms(2) obtain f' d where f': "traverse_final_decisions rx g (scaled_report i factor cs) = Inr f'"
      "bm_get f' (claimant_id (cs ! i)) = Some d"
    and out: "(if strictly_improves (f64_of_nat (decision_rank d)) (f64_of_nat (rank_of f (claimant_id (cs ! i)))) then
          Inr (Inl (Manipulable \<lparr>sw_claimant = claimant_id (cs ! i), sw_true_strength = strength (cs ! i),
            sw_reported = f64_mul (strength (cs ! i)) factor, sw_true_alloc = f64_of_nat (rank_of f (claimant_id (cs ! i))),
            sw_manipulated_alloc = f64_of_nat (decision_rank d)\<rparr>))
        else Inr (Inr ())) = (Inr outcome :: legitimacy_error fault + (strategyproofness_verdict + unit))"
    unfolding misreport_factor_def Let_def sel m raise.simps rbind.simps
    by (auto simp: rbind_Inr_iff graph_scores_Inr raise_Inr score_for_decisions)
  have "rank_of f' (claimant_id (cs ! i)) = decision_rank d" by (simp add: rank_of_def or_default_def f'(2))
  with out f'(1) show ?thesis
    using rank_score [OF rank_le_2 rank_le_2, of d "or_default Escalate f (claimant_id (cs ! i))"]
    by (auto simp: rank_of_def split: if_splits)
qed

section \<open>Properties\<close>

text \<open>C24: what a strategyproofness verdict on a graph means: \<open>Strategyproof\<close> says that no claimant
  gets a better decision by reporting its strength times any of the tested factors; a manipulation
  names a claimant of the batch, its strength and a report under which its decision is better.\<close>

theorem strategyproofness_decides:
  assumes link: "well_linked g" and f: "traverse_final_decisions rx g cs = Inr f"
    and v: "check_graph_strategyproofness_verdict rx g cs = Inr v"
  shows "case v of
      Strategyproof \<Rightarrow> \<forall>i < length cs. \<forall>factor \<in> set MISREPORT_FACTORS.
        \<exists>f'. traverse_final_decisions rx g (scaled_report i factor cs) = Inr f'
          \<and> rank_of f' (claimant_id (cs ! i)) \<le> rank_of f (claimant_id (cs ! i))
    | Manipulable w \<Rightarrow> \<exists>i < length cs. \<exists>factor \<in> set MISREPORT_FACTORS.
        \<exists>f'. traverse_final_decisions rx g (scaled_report i factor cs) = Inr f'
          \<and> rank_of f (claimant_id (cs ! i)) < rank_of f' (claimant_id (cs ! i))
          \<and> sw_claimant w = claimant_id (cs ! i) \<and> sw_true_strength w = strength (cs ! i)
          \<and> sw_reported w = f64_mul (strength (cs ! i)) factor"
proof -
  let ?step = "misreport_claim governance_strategic (graph_scores rx g) cs (final_decision_scores f)"
  have step: "?step u (i, cs ! i)
      = rloop (misreport_factor governance_strategic (graph_scores rx g) cs i (cs ! i) (f64_of_nat (rank_of f (claimant_id (cs ! i)))))
          () MISREPORT_FACTORS" if i: "i < length cs" for i u
  proof -
    obtain d where "bm_get f (claimant_id (cs ! i)) = Some d" using final_lookup [OF link f nth_mem [OF i]] by blast
    then have "score_for (final_decision_scores f) (claimant_id (cs ! i)) ''strategyproofness baseline''
        = Inr (f64_of_nat (rank_of f (claimant_id (cs ! i))))"
      by (simp add: score_for_decisions rank_of_def or_default_def)
    then show ?thesis by (simp add: misreport_claim_def governance_strategic_def)
  qed
  have "graph_scores rx g cs = Inr (final_decision_scores f)" using f by (simp add: graph_scores_Inr)
  with v obtain outcome where outcome: "rloop ?step () (enumerate 0 cs) = Inr outcome"
      "v = (case outcome of Inl v \<Rightarrow> v | Inr u \<Rightarrow> Strategyproof)"
    by (auto simp: check_graph_strategyproofness_verdict_def check_reported_strength_manipulations_def result_simps)
  show ?thesis
  proof (cases outcome)
    case (Inr u)
    have "\<exists>f'. traverse_final_decisions rx g (scaled_report i factor cs) = Inr f'
        \<and> rank_of f' (claimant_id (cs ! i)) \<le> rank_of f (claimant_id (cs ! i))"
      if i: "i < length cs" and factor: "factor \<in> set MISREPORT_FACTORS" for i factor
    proof -
      have "(i, cs ! i) \<in> set (enumerate 0 cs)" using i by (simp add: in_set_enumerate_eq)
      from rloop_continue [OF outcome(1) [unfolded Inr] this] step [OF i]
      obtain u' where "rloop (misreport_factor governance_strategic (graph_scores rx g) cs i (cs ! i)
          (f64_of_nat (rank_of f (claimant_id (cs ! i))))) () MISREPORT_FACTORS = Inr (Inr u')"
        by auto
      from rloop_continue [OF this factor] misreport_factor_Inr [OF i] show ?thesis by fastforce
    qed
    with outcome(2) Inr show ?thesis by simp
  next
    case (Inl w)
    from rloop_return [OF outcome(1) [unfolded Inl]] obtain i where i: "i < length cs" and "?step () (i, cs ! i) = Inr (Inl w)"
      by (auto simp: in_set_enumerate_eq)
    with step [OF i] have "rloop (misreport_factor governance_strategic (graph_scores rx g) cs i (cs ! i)
        (f64_of_nat (rank_of f (claimant_id (cs ! i))))) () MISREPORT_FACTORS = Inr (Inl w)"
      by simp
    from rloop_return [OF this] obtain factor u where factor: "factor \<in> set MISREPORT_FACTORS"
      and "misreport_factor governance_strategic (graph_scores rx g) cs i (cs ! i)
        (f64_of_nat (rank_of f (claimant_id (cs ! i)))) u factor = Inr (Inl w)"
      by blast
    from misreport_factor_Inr [OF i this(2)] obtain f' w' where
      "traverse_final_decisions rx g (scaled_report i factor cs) = Inr f'"
      "rank_of f (claimant_id (cs ! i)) < rank_of f' (claimant_id (cs ! i))" "w = Manipulable w'"
      "sw_claimant w' = claimant_id (cs ! i)" "sw_true_strength w' = strength (cs ! i)"
      "sw_reported w' = f64_mul (strength (cs ! i)) factor"
      by auto
    with outcome(2) Inl i factor show ?thesis by (simp, blast)
  qed
qed

lemma sample_strength_traverses:
  assumes "0 < r"
  shows "\<exists>t. traverse (\<lambda>_. None) sample_flow [(sample_claim ''x'')\<lparr>strength := Num r\<rparr>] = Inr t"
  by (rule traverse_total)
    (use assms sample_flow_acyclic in \<open>auto simp: validate_governance_graph_Inr validate_graph_node_def validate_graph_edge_def
      sample_flow_def sample_simps bm_wf_def\<close>)

lemma half_two: "round64 (1 / 2) = Num (1 / 2)" "round64 2 = Num 2"
  using round64_dyadic [of 1 1] round64_dyadic [of 2 0] by simp_all

lemma sample_factor: "factor \<in> set MISREPORT_FACTORS \<Longrightarrow> \<exists>r > 0. f64_mul (Num 1) factor = Num r"
proof -
  have mid: "\<exists>r. round64 q = Num r \<and> 1 / 2 \<le> r \<and> r \<le> 2" if "1 / 2 \<le> q" "q \<le> 2" for q
    using round64_between [OF _ that half_two] by simp
  assume "factor \<in> set MISREPORT_FACTORS"
  then obtain q where "factor = round64 q" "1 / 2 \<le> q" "q \<le> 2" by (auto simp: MISREPORT_FACTORS_def)
  then obtain r where "factor = Num r" "1 / 2 \<le> r" "r \<le> 2" using mid by blast
  with mid [of r] show ?thesis by (auto intro: less_le_trans [of 0 "1 / 2"])
qed

theorem strategyproofness_decides_witness:
  "check_graph_strategyproofness_verdict (\<lambda>_. None) sample_flow [sample_claim ''x''] = Inr Strategyproof"
proof -
  let ?cs = "[sample_claim ''x'']" and ?id = "''x''"
  have sel: "claimant_id (sample_claim ''x'') = ?id" "strength (sample_claim ''x'') = Num 1" by (simp_all add: sample_claim_def)
  note f = sample_flow_final
  have top: "rank_of [(?id, Permit)] ?id = 2" by (simp add: rank_of_def or_default_def bm_get_def)
  have factor: "\<exists>w. misreport_factor governance_strategic (graph_scores (\<lambda>_. None) sample_flow) ?cs 0 (sample_claim ''x'') (f64_of_nat 2) () factor
      = Inr w" if "factor \<in> set MISREPORT_FACTORS" for factor
  proof -
    obtain r where r: "0 < r" "f64_mul (Num 1) factor = Num r" using sample_factor [OF \<open>factor \<in> _\<close>] by blast
    obtain t where "traverse (\<lambda>_. None) sample_flow (scaled_report 0 factor ?cs) = Inr t"
      using sample_strength_traverses [OF r(1)] by (auto simp: scaled_report_def sel r(2))
    from traverse_final [OF this] obtain f' where f': "traverse_final_decisions (\<lambda>_. None) sample_flow (scaled_report 0 factor ?cs) = Inr f'"
      by blast
    then obtain d where d: "bm_get f' ?id = Some d"
      using final_lookup [OF sample_flow_linked f', of "(sample_claim ''x'')\<lparr>strength := Num r\<rparr>"]
      by (auto simp: scaled_report_def sel r(2))
    have "graph_scores (\<lambda>_. None) sample_flow (scaled_report 0 factor ?cs) = Inr (final_decision_scores f')"
      using f' by (simp add: graph_scores_Inr)
    moreover have "score_for (final_decision_scores f') ?id ctx = Inr (f64_of_nat (decision_rank d))" for ctx
      using d by (simp add: score_for_decisions)
    ultimately show ?thesis
      using misreported_eq [of 0 ?cs factor]
      by (simp add: misreport_factor_def Let_def governance_strategic_def sel)
  qed
  have "score_for (final_decision_scores [(?id, Permit)]) ?id ''strategyproofness baseline'' = Inr (f64_of_nat 2)"
    by (simp add: score_for_decisions bm_get_def)
  then have "\<exists>w. misreport_claim governance_strategic (graph_scores (\<lambda>_. None) sample_flow) ?cs (final_decision_scores [(?id, Permit)])
      () (0, sample_claim ''x'') = Inr w"
    using rloop_total [of MISREPORT_FACTORS "misreport_factor governance_strategic (graph_scores (\<lambda>_. None) sample_flow) ?cs 0
        (sample_claim ''x'') (f64_of_nat 2)", OF factor] by (simp add: misreport_claim_def governance_strategic_def sel)
  then obtain w where w: "misreport_claim governance_strategic (graph_scores (\<lambda>_. None) sample_flow) ?cs
      (final_decision_scores [(?id, Permit)]) () (0, sample_claim ''x'') = Inr w" by blast
  obtain v where v: "check_graph_strategyproofness_verdict (\<lambda>_. None) sample_flow ?cs = Inr v"
  proof -
    have "graph_scores (\<lambda>_. None) sample_flow ?cs = Inr (final_decision_scores [(?id, Permit)])" using f by (simp add: graph_scores_Inr)
    then show ?thesis using that w
      by (cases w) (simp_all add: check_graph_strategyproofness_verdict_def check_reported_strength_manipulations_def)
  qed
  have "v = Strategyproof"
  proof (cases v)
    case (Manipulable w)
    then obtain f' where "rank_of [(?id, Permit)] ?id < rank_of f' ?id"
      using strategyproofness_decides [OF sample_flow_linked f v] sel by auto
    then show ?thesis using top rank_le_2 [of "or_default Escalate f' ?id"] by (simp add: rank_of_def)
  qed
  with v show ?thesis by simp
qed

end
