(* ===== verification/Protocol_State.thy ===== *)
theory Protocol_State
  imports Kernel_Observable Protocol_Spectral Mechanism
begin

text \<open>
  The state of the governance protocol, \<open>src/src/protocol/state.rs\<close> and \<open>formats.rs\<close>, with the
  types it takes from \<open>src/src/sacrifice.rs\<close>, \<open>factor.rs\<close> and \<open>mechanism.rs\<close>: declarations,
  certificates, the ledger, supervisory interventions, the eight states and their validation.
  Serialization and hashing (\<open>serde_json\<close>, \<open>sha2\<close>) are a parameter \<open>hash\<close>, a function from the
  hashed payload to its digest or an error. The properties say what a validated ledger is and
  that its head commits to every certificate.
\<close>

section \<open>Governance properties\<close>

datatype governance_property =
    Consistency | Solidarity | Monotonicity | Strategyproofness | Certifiability
  | ObservableDeterminacy | Corrigibility | CompositionalSafetyProperty | NonVacuousProperty

fun as_str :: "governance_property \<Rightarrow> string" where
  "as_str Consistency = ''consistency''"
| "as_str Solidarity = ''solidarity''"
| "as_str Monotonicity = ''monotonicity''"
| "as_str Strategyproofness = ''strategyproofness''"
| "as_str Certifiability = ''certifiability''"
| "as_str ObservableDeterminacy = ''observable_determinacy''"
| "as_str Corrigibility = ''corrigibility''"
| "as_str CompositionalSafetyProperty = ''compositional_safety''"
| "as_str NonVacuousProperty = ''non_vacuous''"

definition property_parse :: "string \<Rightarrow> governance_property option" where
  "property_parse s =
     (if s = ''consistency'' then Some Consistency
      else if s = ''solidarity'' then Some Solidarity
      else if s = ''monotonicity'' then Some Monotonicity
      else if s = ''strategyproofness'' then Some Strategyproofness
      else if s = ''certifiability'' then Some Certifiability
      else if s = ''observable_determinacy'' then Some ObservableDeterminacy
      else if s = ''corrigibility'' then Some Corrigibility
      else if s = ''compositional_safety'' then Some CompositionalSafetyProperty
      else if s = ''non_vacuous'' \<or> s = ''nonvacuous'' then Some NonVacuousProperty
      else None)"

text \<open>The sets of properties of the code are ordered sets of their names.\<close>

definition property_names :: "governance_property list \<Rightarrow> string list" where
  "property_names ps = sorted_list_of_set (set (map as_str ps))"

definition default_monitored_properties :: "governance_property list" where
  "default_monitored_properties =
     [Consistency, Solidarity, Monotonicity, Strategyproofness, Certifiability, ObservableDeterminacy, Corrigibility,
      CompositionalSafetyProperty, NonVacuousProperty]"

section \<open>Data\<close>

record monitoring_spec =
  ms_metric :: string
  ms_threshold :: f64
  ms_frequency_seconds :: u64
  ms_alert_channel :: string

record declared_sacrifice =
  ds_property :: governance_property
  ds_justification :: string
  ds_monitoring_specs :: "monitoring_spec list"

record sacrifice_certificate =
  sc_property :: governance_property
  sc_impact_bound :: f64
  sc_source_axiom :: string
  sc_witness :: message
  sc_monitoring_specs :: "monitoring_spec list"

record factor_exposure =
  fe_consistency :: f64
  fe_solidarity :: f64
  fe_monotonicity :: f64
  fe_strategyproofness :: f64
  fe_nonvacuity :: f64

record governance_declaration =
  gd_protocol_version :: string
  gd_timestamp :: string
  gd_graph_name :: string
  gd_graph_version :: string
  gd_graph :: governance_graph
  gd_sacrifices :: "declared_sacrifice list"
  gd_spectral_gap :: f64
  gd_cv_bound :: f64

record promotion_certificate =
  pc_rule_name :: string
  pc_claimant_id :: string
  pc_decision :: decision
  pc_outcome_verified :: bool
  pc_evidence :: "(string, string) bmap"
  pc_compiled_rule_hash :: string
  pc_prev_cert_hash :: "string option"
  pc_timestamp :: string

record drift_alert =
  da_alert_type :: string
  da_property :: governance_property
  da_declared_bound :: f64
  da_actual_magnitude :: f64
  da_evidence :: "(string, message) bmap"
  da_recommended_action :: string

record risk_report =
  rr_factor_exposure :: factor_exposure
  rr_spectral_gap :: f64
  rr_cv_bound :: f64
  rr_localizability_bound :: f64

record compiled_graph =
  cg_name :: string
  cg_version :: string
  cg_graph :: governance_graph
  cg_axiom_verdicts :: "verdict list"
  cg_strategyproofness :: strategyproofness_verdict
  cg_compiled_rule_hash :: string
  cg_compiled_at :: string

record monitor_session =
  mo_compiled_graph :: compiled_graph
  mo_sacrifice_certs :: "sacrifice_certificate list"
  mo_monitored_properties :: "governance_property list"
  mo_representative_claims :: "governance_claim list"
  mo_interval_seconds :: u64
  mo_monitor_config :: monitor_config

record protocol_ledger =
  pl_certificates :: "promotion_certificate list"
  pl_drift_alerts :: "drift_alert list"
  pl_head_hash :: "string option"

datatype supervisory_action = PauseAction | DenyAction | Sandbox | Degrade | Rollback | Reroute | StopAction

datatype supervisory_postcondition =
    ClaimEvaluationPaused | UniversalDeny | GovernanceGraphSandboxed | GovernanceDegraded
  | PriorGovernanceStateRestored | ClaimsRerouted | PermanentlyShutdown

fun action_postcondition :: "supervisory_action \<Rightarrow> supervisory_postcondition" where
  "action_postcondition PauseAction = ClaimEvaluationPaused"
| "action_postcondition DenyAction = UniversalDeny"
| "action_postcondition Sandbox = GovernanceGraphSandboxed"
| "action_postcondition Degrade = GovernanceDegraded"
| "action_postcondition Rollback = PriorGovernanceStateRestored"
| "action_postcondition Reroute = ClaimsRerouted"
| "action_postcondition StopAction = PermanentlyShutdown"

record supervisory_intervention =
  si_action :: supervisory_action
  si_postcondition :: supervisory_postcondition
  si_issued_at :: string
  si_overlay_graph :: governance_graph
  si_overlay_graph_hash :: string
  si_reason :: "string option"

datatype protocol_state =
    Undeclared
  | Declared governance_graph "declared_sacrifice list" governance_declaration
  | Compiled compiled_graph "sacrifice_certificate list" governance_declaration
  | Measured risk_report factor_exposure compiled_graph "sacrifice_certificate list" governance_declaration
      "governance_claim list"
  | Live monitor_session protocol_ledger governance_declaration
  | Supervised supervisory_intervention monitor_session protocol_ledger governance_declaration
  | Drifted drift_alert monitor_session protocol_ledger governance_declaration
  | Recompiling governance_graph "declared_sacrifice list" governance_declaration

fun state_name :: "protocol_state \<Rightarrow> string" where
  "state_name Undeclared = ''undeclared''"
| "state_name (Declared _ _ _) = ''declared''"
| "state_name (Compiled _ _ _) = ''compiled''"
| "state_name (Measured _ _ _ _ _ _) = ''measured''"
| "state_name (Live _ _ _) = ''live''"
| "state_name (Supervised _ _ _ _) = ''supervised''"
| "state_name (Drifted _ _ _ _) = ''drifted''"
| "state_name (Recompiling _ _ _) = ''recompiling''"

datatype protocol_error =
    LegitimacyFailure legitimacy_error
  | MalformedSupervisoryDirectiveJson string
  | MalformedSupervisoryDirectiveNodeId string string legitimacy_error
  | UnknownSupervisoryDirectiveNodeId string string
  | InvalidStateTransition string string
  | UnsacrificedViolations "governance_property list"
  | PhantomSacrifice string
  | MissingDecision string
  | SkippedKernelCheck string string
  | MalformedState message

text \<open>\<open>?\<close> on a result whose error is a \<open>LegitimacyError\<close>.\<close>

fun fault_map :: "('e \<Rightarrow> 'f) \<Rightarrow> 'e fault \<Rightarrow> 'f fault" where
  "fault_map f (Raised e) = Raised (f e)"
| "fault_map f Panicked = Panicked"
| "fault_map f OutOfFuel = OutOfFuel"

definition lift_fault :: "legitimacy_error fault + 'a \<Rightarrow> protocol_error fault + 'a" where
  "lift_fault r = (case r of Inl e \<Rightarrow> Inl (fault_map LegitimacyFailure e) | Inr x \<Rightarrow> Inr x)"

definition lift_error :: "legitimacy_error + 'a \<Rightarrow> protocol_error + 'a" where
  "lift_error r = (case r of Inl e \<Rightarrow> Inl (LegitimacyFailure e) | Inr x \<Rightarrow> Inr x)"

section \<open>Equality of the payloads\<close>

text \<open>The derived \<open>PartialEq\<close> of graphs, sacrifices, exposures and alerts compares floats with the
  IEEE equality: a threshold that is not a number differs from itself, the zeros are equal.\<close>

fun gate_eq :: "gate \<Rightarrow> gate \<Rightarrow> bool" where
  "gate_eq (ThresholdGate f x d) (ThresholdGate f' x' d') = (f = f' \<and> f64_eq x x' \<and> d = d')"
| "gate_eq (PeerRelative f x d) (PeerRelative f' x' d') = (f = f' \<and> f64_eq x x' \<and> d = d')"
| "gate_eq gt gt' = (gt = gt')"

fun node_eq :: "governance_node \<Rightarrow> governance_node \<Rightarrow> bool" where
  "node_eq (Binary i n gates d l) (Binary i' n' gates' d' l') =
     (i = i' \<and> n = n' \<and> list_all2 gate_eq gates gates' \<and> d = d' \<and> l = l')"
| "node_eq (Threshold i n x f) (Threshold i' n' x' f') = (i = i' \<and> n = n' \<and> f64_eq x x' \<and> f = f')"
| "node_eq n n' = (n = n')"

fun transform_eq :: "edge_transform \<Rightarrow> edge_transform \<Rightarrow> bool" where
  "transform_eq (ClaimModification x) (ClaimModification x') = f64_eq x x'"
| "transform_eq t t' = (t = t')"

definition edge_eq :: "governance_edge \<Rightarrow> governance_edge \<Rightarrow> bool" where
  "edge_eq e e' \<longleftrightarrow> edge_from e = edge_from e' \<and> edge_to e = edge_to e'
     \<and> transform_eq (edge_transform e) (edge_transform e')"

definition graph_eq :: "governance_graph \<Rightarrow> governance_graph \<Rightarrow> bool" where
  "graph_eq g g' \<longleftrightarrow> list_all2 (\<lambda>(v, n) (v', n'). v = v' \<and> node_eq n n') (nodes g) (nodes g')
     \<and> list_all2 edge_eq (edges g) (edges g')"

definition spec_eq :: "monitoring_spec \<Rightarrow> monitoring_spec \<Rightarrow> bool" where
  "spec_eq s s' \<longleftrightarrow> ms_metric s = ms_metric s' \<and> f64_eq (ms_threshold s) (ms_threshold s')
     \<and> ms_frequency_seconds s = ms_frequency_seconds s' \<and> ms_alert_channel s = ms_alert_channel s'"

definition sacrifice_eq :: "declared_sacrifice \<Rightarrow> declared_sacrifice \<Rightarrow> bool" where
  "sacrifice_eq s s' \<longleftrightarrow> ds_property s = ds_property s' \<and> ds_justification s = ds_justification s'
     \<and> list_all2 spec_eq (ds_monitoring_specs s) (ds_monitoring_specs s')"

definition exposure_eq :: "factor_exposure \<Rightarrow> factor_exposure \<Rightarrow> bool" where
  "exposure_eq a b \<longleftrightarrow> f64_eq (fe_consistency a) (fe_consistency b) \<and> f64_eq (fe_solidarity a) (fe_solidarity b)
     \<and> f64_eq (fe_monotonicity a) (fe_monotonicity b) \<and> f64_eq (fe_strategyproofness a) (fe_strategyproofness b)
     \<and> f64_eq (fe_nonvacuity a) (fe_nonvacuity b)"

definition alert_eq :: "drift_alert \<Rightarrow> drift_alert \<Rightarrow> bool" where
  "alert_eq a b \<longleftrightarrow> da_alert_type a = da_alert_type b \<and> da_property a = da_property b
     \<and> f64_eq (da_declared_bound a) (da_declared_bound b) \<and> f64_eq (da_actual_magnitude a) (da_actual_magnitude b)
     \<and> da_evidence a = da_evidence b \<and> da_recommended_action a = da_recommended_action b"

section \<open>Hashes\<close>

datatype hash_payload =
    CompiledPayload governance_graph "governance_claim list" "verdict list" strategyproofness_verdict
  | GraphPayload governance_graph "governance_claim list"
  | CertificatePayload promotion_certificate

type_synonym hash_function = "hash_payload \<Rightarrow> legitimacy_error + string"

definition stable_hash :: "hash_function \<Rightarrow> hash_payload \<Rightarrow> protocol_error + string" where
  "stable_hash hash payload = lift_error (hash payload)"

definition canonical_compiled_rule_hash ::
  "hash_function \<Rightarrow> governance_graph \<Rightarrow> verdict list \<Rightarrow> strategyproofness_verdict \<Rightarrow> protocol_error + string" where
  "canonical_compiled_rule_hash hash g vs sp = stable_hash hash (CompiledPayload g (synthetic_claims g) vs sp)"

definition canonical_graph_hash :: "hash_function \<Rightarrow> governance_graph \<Rightarrow> protocol_error + string" where
  "canonical_graph_hash hash g = stable_hash hash (GraphPayload g (synthetic_claims g))"

definition protocol_certificate_hash :: "hash_function \<Rightarrow> promotion_certificate \<Rightarrow> protocol_error + string" where
  "protocol_certificate_hash hash cert = stable_hash hash (CertificatePayload cert)"

section \<open>Validation\<close>

definition malformed_state :: "string \<Rightarrow> fmt_arg list \<Rightarrow> protocol_error" where
  "malformed_state template args = MalformedState (Message template args)"

definition non_sacrificed_monitoring_properties :: "sacrifice_certificate list \<Rightarrow> governance_property list" where
  "non_sacrificed_monitoring_properties certs =
     filter (\<lambda>p. as_str p \<notin> set (map (as_str \<circ> sc_property) certs)) default_monitored_properties"

definition invalid_measure :: "f64 \<Rightarrow> bool" where
  "invalid_measure x \<longleftrightarrow> \<not> is_finite x \<or> f64_lt x (Zero False)"

definition validate_declaration_basics :: "governance_declaration \<Rightarrow> protocol_error + unit" where
  "validate_declaration_basics d =
     (if is_blank (gd_graph_name d) then Inl (malformed_state ''declaration graph_name must be non-empty'' [])
      else if is_blank (gd_graph_version d) then Inl (malformed_state ''declaration graph_version must be non-empty'' [])
      else if invalid_measure (gd_spectral_gap d) then
        Inl (malformed_state ''declaration spectral_gap must be finite and non-negative'' [])
      else if invalid_measure (gd_cv_bound d) then
        Inl (malformed_state ''declaration cv_bound must be finite and non-negative'' [])
      else Inr ())"

definition REQUIRED_AXIOMS :: "string list" where
  "REQUIRED_AXIOMS =
     [''graph consistency'', ''graph solidarity'', ''graph monotonicity'', ''graph certifiability'',
      ''graph observable determinacy'', ''graph corrigibility'', ''graph compositional safety'', ''graph nonvacuity'']"

definition validate_axiom_set :: "verdict list \<Rightarrow> protocol_error + unit" where
  "validate_axiom_set vs =
     (let seen = map verdict_axiom vs in
      if length seen \<noteq> length REQUIRED_AXIOMS then
        Inl (malformed_state ''compiled graph must carry exactly eight non-strategyproof graph axiom verdicts'' [])
      else rfold (\<lambda>_ axm.
        if count_list seen axm \<noteq> 1 then
          Inl (malformed_state ''compiled graph verdict set must contain exactly one '{}' verdict'' [AStr axm])
        else Inr ()) () REQUIRED_AXIOMS)"

definition validate_compiled_graph :: "hash_function \<Rightarrow> compiled_graph \<Rightarrow> governance_declaration \<Rightarrow> bool \<Rightarrow> protocol_error + unit" where
  "validate_compiled_graph hash cg d require_declared_graph_match =
     (if cg_name cg \<noteq> gd_graph_name d then
        Inl (malformed_state ''compiled graph name '{}' does not match declaration '{}' '' [AStr (cg_name cg), AStr (gd_graph_name d)])
      else if cg_version cg \<noteq> gd_graph_version d then
        Inl (malformed_state ''compiled graph version '{}' does not match declaration '{}' ''
          [AStr (cg_version cg), AStr (gd_graph_version d)])
      else if require_declared_graph_match \<and> \<not> graph_eq (cg_graph cg) (gd_graph d) then
        Inl (malformed_state ''compiled graph payload does not match declaration graph'' [])
      else
        rbind (canonical_compiled_rule_hash hash (cg_graph cg) (cg_axiom_verdicts cg) (cg_strategyproofness cg)) (\<lambda>expected_hash.
          if cg_compiled_rule_hash cg \<noteq> expected_hash then
            Inl (malformed_state ''compiled_rule_hash does not match the canonical compiled graph hash'' [])
          else validate_axiom_set (cg_axiom_verdicts cg)))"

definition validate_sacrifice_alignment ::
  "sacrifice_certificate list \<Rightarrow> declared_sacrifice list \<Rightarrow> protocol_error + unit" where
  "validate_sacrifice_alignment certs sacrifices =
     (let declared = property_names (map ds_property sacrifices); certified = property_names (map sc_property certs) in
      if declared \<noteq> certified then
        Inl (malformed_state ''sacrifice certificates do not match declared sacrifice properties'' [])
      else if length certs \<noteq> length certified then
        Inl (malformed_state ''sacrifice certificates must not contain duplicate properties'' [])
      else rfold (\<lambda>_ cert.
        if invalid_measure (sc_impact_bound cert) then
          Inl (malformed_state ''sacrifice certificate for '{}' has invalid impact bound'' [AStr (as_str (sc_property cert))])
        else Inr ()) () certs)"

definition validate_monitoring_coverage ::
  "governance_property list \<Rightarrow> sacrifice_certificate list \<Rightarrow> protocol_error + unit" where
  "validate_monitoring_coverage monitored_properties certs =
     (let monitored = property_names monitored_properties in
      if length monitored \<noteq> length monitored_properties then
        Inl (malformed_state ''monitoring coverage must not contain duplicate properties'' [])
      else
        let missing = map as_str (filter (\<lambda>p. as_str p \<notin> set monitored) (non_sacrificed_monitoring_properties certs)) in
        if missing \<noteq> [] then
          Inl (malformed_state ''monitoring coverage missing non-sacrificed properties {}'' [AList missing])
        else Inr ())"

definition validate_monitor_session ::
  "hash_function \<Rightarrow> monitor_session \<Rightarrow> governance_declaration \<Rightarrow> bool \<Rightarrow> protocol_error + unit" where
  "validate_monitor_session hash session d require_declared_graph_match =
     rbind (validate_compiled_graph hash (mo_compiled_graph session) d require_declared_graph_match) (\<lambda>_.
     rbind (validate_sacrifice_alignment (mo_sacrifice_certs session) (gd_sacrifices d)) (\<lambda>_.
     rbind (validate_monitoring_coverage (mo_monitored_properties session) (mo_sacrifice_certs session)) (\<lambda>_.
       let min_interval = lower_interval (mo_monitor_config session);
           max_interval = upper_interval (mo_monitor_config session) in
       if mo_interval_seconds session < min_interval \<or> max_interval < mo_interval_seconds session then
         Inl (malformed_state ''monitor interval {} is outside configured bounds [{min_interval}, {max_interval}]''
           [ANat (unat (mo_interval_seconds session)), ANat (unat min_interval), ANat (unat max_interval)])
       else Inr ())))"

definition validate_supervisory_intervention :: "hash_function \<Rightarrow> supervisory_intervention \<Rightarrow> protocol_error + unit" where
  "validate_supervisory_intervention hash i =
     rbind (canonical_graph_hash hash (si_overlay_graph i)) (\<lambda>expected_hash.
       if si_overlay_graph_hash i \<noteq> expected_hash then
         Inl (malformed_state ''supervisory overlay graph hash does not match the canonical graph hash'' [])
       else Inr ())"

definition validate_drift_alert :: "drift_alert \<Rightarrow> protocol_error + unit" where
  "validate_drift_alert a =
     (if invalid_measure (da_declared_bound a) then
        Inl (malformed_state ''drift alert declared_bound must be finite and non-negative'' [])
      else if invalid_measure (da_actual_magnitude a) then
        Inl (malformed_state ''drift alert actual_magnitude must be finite and non-negative'' [])
      else Inr ())"

text \<open>One step of the certificate loop; \<open>Inr (Inl ())\<close> is the early \<open>return Ok(())\<close> of an audit.\<close>

definition chain_step ::
  "hash_function \<Rightarrow> bool \<Rightarrow> string option \<Rightarrow> promotion_certificate \<Rightarrow> protocol_error + (unit + string option)" where
  "chain_step hash allow_tampered_ledger prev_hash cert =
     (if pc_prev_cert_hash cert \<noteq> prev_hash then
        (if allow_tampered_ledger then Inr (Inl ())
         else Inl (malformed_state ''protocol ledger certificate chain is inconsistent'' []))
      else rbind (protocol_certificate_hash hash cert) (\<lambda>h. Inr (Inr (Some h))))"

definition validate_ledger :: "hash_function \<Rightarrow> protocol_ledger \<Rightarrow> bool \<Rightarrow> protocol_error + unit" where
  "validate_ledger hash l allow_tampered_ledger =
     rbind (rloop (chain_step hash allow_tampered_ledger) None (pl_certificates l)) (\<lambda>outcome.
       case outcome of
         Inl u \<Rightarrow> Inr ()
       | Inr prev_hash \<Rightarrow>
           if pl_head_hash l \<noteq> prev_hash then
             (if allow_tampered_ledger then Inr ()
              else Inl (malformed_state ''protocol ledger head_hash does not match the certificate chain tail'' []))
           else rfold (\<lambda>_. validate_drift_alert) () (pl_drift_alerts l))"

definition validate_risk_report :: "risk_report \<Rightarrow> protocol_error + unit" where
  "validate_risk_report r =
     (if invalid_measure (rr_spectral_gap r) then
        Inl (malformed_state ''risk report spectral_gap must be finite and non-negative'' [])
      else if invalid_measure (rr_cv_bound r) then
        Inl (malformed_state ''risk report cv_bound must be finite and non-negative'' [])
      else if invalid_measure (rr_localizability_bound r) then
        Inl (malformed_state ''risk report localizability_bound must be finite and non-negative'' [])
      else Inr ())"

definition validate_declared_state ::
  "governance_graph \<Rightarrow> declared_sacrifice list \<Rightarrow> governance_declaration \<Rightarrow> protocol_error + unit" where
  "validate_declared_state g sacrifices d =
     (if \<not> graph_eq (gd_graph d) g then
        Inl (malformed_state ''declared state graph does not match declaration graph'' [])
      else if \<not> list_all2 sacrifice_eq (gd_sacrifices d) sacrifices then
        Inl (malformed_state ''declared sacrifices do not match declaration payload'' [])
      else Inr ())"

fun validate_with_options :: "hash_function \<Rightarrow> protocol_state \<Rightarrow> bool \<Rightarrow> protocol_error + unit" where
  "validate_with_options hash Undeclared allow = Inr ()"
| "validate_with_options hash (Declared g sacrifices d) allow =
     rbind (validate_declaration_basics d) (\<lambda>_. validate_declared_state g sacrifices d)"
| "validate_with_options hash (Compiled cg certs d) allow =
     rbind (validate_declaration_basics d) (\<lambda>_.
     rbind (validate_compiled_graph hash cg d True) (\<lambda>_.
       validate_sacrifice_alignment certs (gd_sacrifices d)))"
| "validate_with_options hash (Measured report exposure cg certs d cs) allow =
     rbind (validate_declaration_basics d) (\<lambda>_.
     rbind (validate_compiled_graph hash cg d True) (\<lambda>_.
     rbind (validate_sacrifice_alignment certs (gd_sacrifices d)) (\<lambda>_.
       if \<not> exposure_eq exposure (rr_factor_exposure report) then
         Inl (malformed_state ''measured state factor exposure does not match risk report'' [])
       else validate_risk_report report)))"
| "validate_with_options hash (Live session l d) allow =
     rbind (validate_declaration_basics d) (\<lambda>_.
     rbind (validate_monitor_session hash session d True) (\<lambda>_.
       validate_ledger hash l allow))"
| "validate_with_options hash (Supervised i session l d) allow =
     rbind (validate_declaration_basics d) (\<lambda>_.
     rbind (validate_monitor_session hash session d True) (\<lambda>_.
     rbind (validate_ledger hash l allow) (\<lambda>_.
       if si_postcondition i \<noteq> action_postcondition (si_action i) then
         Inl (malformed_state ''supervisory postcondition {:?} does not match action {:?}'' [])
       else validate_supervisory_intervention hash i)))"
| "validate_with_options hash (Drifted alert session l d) allow =
     rbind (validate_declaration_basics d) (\<lambda>_.
     rbind (validate_monitor_session hash session d True) (\<lambda>_.
     rbind (validate_ledger hash l allow) (\<lambda>_.
     rbind (validate_drift_alert alert) (\<lambda>_.
       if \<not> list_ex (\<lambda>a. alert_eq a alert) (pl_drift_alerts l) then
         Inl (malformed_state ''drifted state report is not present in the ledger drift history'' [])
       else Inr ()))))"
| "validate_with_options hash (Recompiling g sacrifices d) allow =
     rbind (validate_declaration_basics d) (\<lambda>_.
       let current = property_names (map ds_property sacrifices) in
       if length sacrifices \<noteq> length current then
         Inl (malformed_state ''recompiling sacrifices must not contain duplicate properties'' [])
       else Inr ())"

definition state_validate :: "hash_function \<Rightarrow> protocol_state \<Rightarrow> protocol_error + unit" where
  "state_validate hash st = validate_with_options hash st False"

definition validate_for_audit :: "hash_function \<Rightarrow> protocol_state \<Rightarrow> protocol_error + unit" where
  "validate_for_audit hash st = validate_with_options hash st True"

section \<open>Lemmas: the certificate chain\<close>

text \<open>A list of certificates that starts after \<open>prev\<close>, each naming the hash of the one before, and
  ends with the given head.\<close>

fun chained :: "hash_function \<Rightarrow> string option \<Rightarrow> promotion_certificate list \<Rightarrow> string option \<Rightarrow> bool" where
  "chained hash prev [] head \<longleftrightarrow> head = prev"
| "chained hash prev (c # cs) head \<longleftrightarrow> pc_prev_cert_hash c = prev
     \<and> (\<exists>h. hash (CertificatePayload c) = Inr h \<and> chained hash (Some h) cs head)"

lemma lift_error_Inr [result_simps]: "lift_error r = Inr x \<longleftrightarrow> r = Inr x"
  by (cases r) (simp_all add: lift_error_def)

lemma certificate_hash_Inr [result_simps]:
  "protocol_certificate_hash hash c = Inr h \<longleftrightarrow> hash (CertificatePayload c) = Inr h"
  by (simp add: protocol_certificate_hash_def stable_hash_def lift_error_Inr)

lemma chain_step_Inr:
  "chain_step hash False prev c = Inr r \<longleftrightarrow>
     pc_prev_cert_hash c = prev \<and> (\<exists>h. hash (CertificatePayload c) = Inr h \<and> r = Inr (Some h))"
  by (auto simp: chain_step_def result_simps)

lemma chain_loop:
  "rloop (chain_step hash False) prev cs = Inr (Inr head) \<longleftrightarrow> chained hash prev cs head"
proof (induction cs arbitrary: prev)
  case (Cons c cs)
  show ?case unfolding rloop_Cons_continue chained.simps Cons.IH [symmetric] chain_step_Inr by auto
qed auto

lemma chain_never_leaves: "rloop (chain_step hash False) prev cs \<noteq> Inr (Inl u)"
proof (induction cs arbitrary: prev)
  case (Cons c cs)
  then show ?case unfolding rloop_Cons_return chain_step_Inr by auto
qed simp

lemma validate_ledger_iff:
  "validate_ledger hash l False = Inr () \<longleftrightarrow>
     chained hash None (pl_certificates l) (pl_head_hash l)
     \<and> (\<forall>a \<in> set (pl_drift_alerts l). validate_drift_alert a = Inr ())"
proof (cases "rloop (chain_step hash False) None (pl_certificates l)")
  case (Inl e)
  then have "\<not> chained hash None (pl_certificates l) (pl_head_hash l)" by (simp flip: chain_loop)
  with Inl show ?thesis by (simp add: validate_ledger_def)
next
  case (Inr r)
  then obtain h where "r = Inr h" using chain_never_leaves [of hash None "pl_certificates l"] by (cases r) auto
  with Inr have "chained hash None (pl_certificates l) (pl_head_hash l) \<longleftrightarrow> pl_head_hash l = h" by (auto simp flip: chain_loop)
  with Inr \<open>r = Inr h\<close> show ?thesis by (simp add: validate_ledger_def rfold_unit_Inr)
qed

lemma chained_snoc:
  "chained hash prev (cs @ [c]) head \<longleftrightarrow>
     (\<exists>h h'. chained hash prev cs h \<and> pc_prev_cert_hash c = h \<and> hash (CertificatePayload c) = Inr h' \<and> head = Some h')"
  by (induction cs arbitrary: prev) auto

lemma chained_unique:
  assumes "inj_on (\<lambda>c. hash (CertificatePayload c)) (set cs \<union> set cs')"
    and "chained hash None cs head" and "chained hash None cs' head"
  shows "cs = cs'"
  using assms
proof (induction cs arbitrary: cs' head rule: rev_induct)
  case Nil
  then have "chained hash None cs' None" by simp
  then show ?case by (cases cs' rule: rev_cases) (auto simp: chained_snoc)
next
  case (snoc c cs)
  from snoc.prems(2) obtain h' where c: "chained hash None cs (pc_prev_cert_hash c)" "hash (CertificatePayload c) = Inr h'"
      "head = Some h'"
    by (auto simp: chained_snoc)
  with snoc.prems(3) have "cs' \<noteq> []" by auto
  then obtain ds d where cs': "cs' = ds @ [d]" by (cases cs' rule: rev_cases) auto
  with snoc.prems(3) c have d: "chained hash None ds (pc_prev_cert_hash d)" "hash (CertificatePayload d) = Inr h'"
    by (auto simp: chained_snoc)
  have "c = d"
    by (rule inj_onD [OF snoc.prems(1)]) (use c d cs' in auto)
  moreover have "cs = ds"
    by (rule snoc.IH [OF inj_on_subset [OF snoc.prems(1)] c(1)]) (use d \<open>c = d\<close> cs' in auto)
  ultimately show ?case by (simp add: cs')
qed

section \<open>Lemmas: names and coverage\<close>

lemma as_str_inject [simp]: "as_str p = as_str q \<longleftrightarrow> p = q"
  by (cases p; cases q; simp)

lemma parse_as_str: "property_parse (as_str p) = Some p"
  by (cases p) (simp_all add: property_parse_def)

lemma set_property_names [simp]: "set (property_names ps) = as_str ` set ps"
  by (simp add: property_names_def)

lemma length_property_names: "length (property_names ps) = card (set ps)"
proof -
  have "card (as_str ` set ps) = card (set ps)" by (rule card_image) (simp add: inj_on_def)
  then show ?thesis by (simp add: property_names_def)
qed

lemma property_names_distinct: "length (property_names ps) = length ps \<longleftrightarrow> distinct ps"
  by (metis length_property_names card_distinct distinct_card)

lemma property_names_eq: "property_names ps = property_names qs \<longleftrightarrow> set ps = set qs"
proof -
  have "as_str ` set ps = as_str ` set qs \<longleftrightarrow> set ps = set qs"
    by (rule inj_image_eq_iff) (simp add: inj_on_def)
  then show ?thesis by (simp add: property_names_def) (metis set_property_names property_names_def set_map list.set_map)
qed

lemma all_properties: "set default_monitored_properties = UNIV"
proof -
  have "p \<in> set default_monitored_properties" for p by (cases p) (simp_all add: default_monitored_properties_def)
  then show ?thesis by blast
qed

lemma set_non_sacrificed: "set (non_sacrificed_monitoring_properties certs) = - (sc_property ` set certs)"
  by (auto simp: non_sacrificed_monitoring_properties_def all_properties)

lemma monitoring_coverage_iff:
  "validate_monitoring_coverage ps certs = Inr () \<longleftrightarrow> distinct ps \<and> set ps \<union> sc_property ` set certs = UNIV"
proof -
  have "filter (\<lambda>p. as_str p \<notin> set (property_names ps)) (non_sacrificed_monitoring_properties certs) = []
      \<longleftrightarrow> - (sc_property ` set certs) \<subseteq> set ps"
    using set_non_sacrificed [of certs] by (auto simp: filter_empty_conv)
  then show ?thesis
    unfolding validate_monitoring_coverage_def Let_def property_names_distinct by (auto split: if_splits)
qed

lemma sacrifice_alignment_iff:
  "validate_sacrifice_alignment certs sacrifices = Inr () \<longleftrightarrow>
     sc_property ` set certs = ds_property ` set sacrifices \<and> distinct (map sc_property certs)
     \<and> (\<forall>c \<in> set certs. \<not> invalid_measure (sc_impact_bound c))"
proof -
  have loop: "rfold (\<lambda>_ cert. if invalid_measure (sc_impact_bound cert) then Inl (e cert) else Inr ()) () certs = Inr ()
      \<longleftrightarrow> (\<forall>c \<in> set certs. \<not> invalid_measure (sc_impact_bound c))" for e :: "sacrifice_certificate \<Rightarrow> protocol_error"
    by (simp add: rfold_unit_Inr)
  show ?thesis
    unfolding validate_sacrifice_alignment_def Let_def property_names_eq
    using property_names_distinct [of "map sc_property certs"]
    by (auto simp: loop split: if_splits)
qed

lemma axiom_set_iff: "validate_axiom_set vs = Inr () \<longleftrightarrow> mset (map verdict_axiom vs) = mset REQUIRED_AXIOMS"
proof -
  let ?seen = "map verdict_axiom vs"
  have d: "distinct REQUIRED_AXIOMS" by (simp add: REQUIRED_AXIOMS_def)
  have "validate_axiom_set vs = Inr () \<longleftrightarrow>
      length ?seen = length REQUIRED_AXIOMS \<and> (\<forall>axm \<in> set REQUIRED_AXIOMS. count_list ?seen axm = 1)"
    unfolding validate_axiom_set_def Let_def by (simp add: rfold_unit_Inr if_Inl_Inr)
  also have "\<dots> \<longleftrightarrow> mset ?seen = mset REQUIRED_AXIOMS"
  proof
    assume h: "length ?seen = length REQUIRED_AXIOMS \<and> (\<forall>axm \<in> set REQUIRED_AXIOMS. count_list ?seen axm = 1)"
    have "mset REQUIRED_AXIOMS \<subseteq># mset ?seen"
    proof (rule mset_subset_eqI)
      fix axm
      show "count (mset REQUIRED_AXIOMS) axm \<le> count (mset ?seen) axm"
        using h d by (cases "axm \<in> set REQUIRED_AXIOMS") (simp_all add: distinct_count_atmost_1 count_mset [symmetric])
    qed
    moreover have "size (mset ?seen) = size (mset REQUIRED_AXIOMS)" using h by simp
    ultimately show "mset ?seen = mset REQUIRED_AXIOMS" by (metis mset_subset_size subset_mset.le_less less_irrefl)
  next
    assume h: "mset ?seen = mset REQUIRED_AXIOMS"
    then have "count_list ?seen axm = count (mset REQUIRED_AXIOMS) axm" for axm by (simp only: count_mset [symmetric])
    with mset_eq_length [OF h] d show "length ?seen = length REQUIRED_AXIOMS \<and> (\<forall>axm \<in> set REQUIRED_AXIOMS. count_list ?seen axm = 1)"
      by (simp add: distinct_count_atmost_1)
  qed
  finally show ?thesis .
qed

section \<open>What validation accepts\<close>

definition declaration_ok :: "governance_declaration \<Rightarrow> bool" where
  "declaration_ok d \<longleftrightarrow> \<not> is_blank (gd_graph_name d) \<and> \<not> is_blank (gd_graph_version d)
     \<and> \<not> invalid_measure (gd_spectral_gap d) \<and> \<not> invalid_measure (gd_cv_bound d)"

definition compiled_ok :: "hash_function \<Rightarrow> compiled_graph \<Rightarrow> governance_declaration \<Rightarrow> bool" where
  "compiled_ok hash cg d \<longleftrightarrow> cg_name cg = gd_graph_name d \<and> cg_version cg = gd_graph_version d
     \<and> graph_eq (cg_graph cg) (gd_graph d)
     \<and> hash (CompiledPayload (cg_graph cg) (synthetic_claims (cg_graph cg)) (cg_axiom_verdicts cg) (cg_strategyproofness cg))
         = Inr (cg_compiled_rule_hash cg)
     \<and> mset (map verdict_axiom (cg_axiom_verdicts cg)) = mset REQUIRED_AXIOMS"

definition certificates_ok :: "sacrifice_certificate list \<Rightarrow> declared_sacrifice list \<Rightarrow> bool" where
  "certificates_ok certs sacrifices \<longleftrightarrow> sc_property ` set certs = ds_property ` set sacrifices
     \<and> distinct (map sc_property certs) \<and> (\<forall>c \<in> set certs. \<not> invalid_measure (sc_impact_bound c))"

definition session_ok :: "hash_function \<Rightarrow> monitor_session \<Rightarrow> governance_declaration \<Rightarrow> bool" where
  "session_ok hash s d \<longleftrightarrow> compiled_ok hash (mo_compiled_graph s) d
     \<and> certificates_ok (mo_sacrifice_certs s) (gd_sacrifices d)
     \<and> distinct (mo_monitored_properties s)
     \<and> set (mo_monitored_properties s) \<union> sc_property ` set (mo_sacrifice_certs s) = UNIV
     \<and> unat (lower_interval (mo_monitor_config s)) \<le> unat (mo_interval_seconds s)
     \<and> unat (mo_interval_seconds s) \<le> unat (upper_interval (mo_monitor_config s))"

definition alert_ok :: "drift_alert \<Rightarrow> bool" where
  "alert_ok a \<longleftrightarrow> \<not> invalid_measure (da_declared_bound a) \<and> \<not> invalid_measure (da_actual_magnitude a)"

definition ledger_ok :: "hash_function \<Rightarrow> protocol_ledger \<Rightarrow> bool" where
  "ledger_ok hash l \<longleftrightarrow> chained hash None (pl_certificates l) (pl_head_hash l) \<and> (\<forall>a \<in> set (pl_drift_alerts l). alert_ok a)"

lemma declaration_iff: "validate_declaration_basics d = Inr () \<longleftrightarrow> declaration_ok d"
  by (simp add: validate_declaration_basics_def declaration_ok_def)

lemma compiled_iff: "validate_compiled_graph hash cg d True = Inr () \<longleftrightarrow> compiled_ok hash cg d"
  unfolding validate_compiled_graph_def compiled_ok_def canonical_compiled_rule_hash_def stable_hash_def
  by (auto simp: result_simps axiom_set_iff split: if_splits)

lemma certificates_iff: "validate_sacrifice_alignment certs sacrifices = Inr () \<longleftrightarrow> certificates_ok certs sacrifices"
  by (simp add: sacrifice_alignment_iff certificates_ok_def)

lemma session_iff: "validate_monitor_session hash s d True = Inr () \<longleftrightarrow> session_ok hash s d"
proof -
  have "validate_monitor_session hash s d True = Inr () \<longleftrightarrow> compiled_ok hash (mo_compiled_graph s) d
      \<and> certificates_ok (mo_sacrifice_certs s) (gd_sacrifices d)
      \<and> validate_monitoring_coverage (mo_monitored_properties s) (mo_sacrifice_certs s) = Inr ()
      \<and> \<not> (mo_interval_seconds s < lower_interval (mo_monitor_config s) \<or> upper_interval (mo_monitor_config s) < mo_interval_seconds s)"
    unfolding validate_monitor_session_def Let_def rbind_Inr_iff if_Inl_Inr compiled_iff [symmetric] certificates_iff [symmetric] by auto
  then show ?thesis
    by (simp add: session_ok_def monitoring_coverage_iff word_less_nat_alt not_less conj_assoc)
qed

lemma alert_iff: "validate_drift_alert a = Inr () \<longleftrightarrow> alert_ok a"
  by (simp add: validate_drift_alert_def alert_ok_def)

lemma ledger_iff: "validate_ledger hash l False = Inr () \<longleftrightarrow> ledger_ok hash l"
  by (simp add: validate_ledger_iff ledger_ok_def alert_iff)

lemmas validation_iffs = declaration_iff compiled_iff certificates_iff session_iff alert_iff ledger_iff

section \<open>Properties\<close>

text \<open>A live state passes validation exactly when its declaration is well-formed, the compiled
  graph is the declared one under its canonical hash with one verdict for each of the eight
  axioms, every one of the nine properties is monitored or has its one certificate, the interval
  lies within the configured bounds, and the certificates form an unbroken hash chain up to the
  head of the ledger.\<close>

lemma live_state_valid:
  "state_validate hash (Live s l d) = Inr () \<longleftrightarrow> declaration_ok d \<and> session_ok hash s d \<and> ledger_ok hash l"
  by (auto simp: state_validate_def rbind_Inr_iff validation_iffs)

text \<open>C25: the head of a validated ledger commits to its certificates: two ledgers that validate with
  the same head hold the same certificates, as long as the hash does not collide on them.\<close>

theorem ledger_head_commits:
  assumes "validate_ledger hash l False = Inr ()" and "validate_ledger hash l' False = Inr ()"
    and "pl_head_hash l = pl_head_hash l'"
    and "inj_on (\<lambda>c. hash (CertificatePayload c)) (set (pl_certificates l) \<union> set (pl_certificates l'))"
  shows "pl_certificates l = pl_certificates l'"
  using chained_unique [OF assms(4), of "pl_head_hash l"] assms(1-3) by (simp add: validate_ledger_iff)

definition sample_certificate :: "string \<Rightarrow> string option \<Rightarrow> promotion_certificate" where
  "sample_certificate k prev =
     \<lparr>pc_rule_name = ''r'', pc_claimant_id = k, pc_decision = Permit, pc_outcome_verified = True, pc_evidence = [],
      pc_compiled_rule_hash = ''h'', pc_prev_cert_hash = prev, pc_timestamp = ''t''\<rparr>"

definition sample_hash :: hash_function where
  "sample_hash payload =
     (case payload of
        CertificatePayload c \<Rightarrow> Inr (pc_claimant_id c @ (case pc_prev_cert_hash c of None \<Rightarrow> [] | Some h \<Rightarrow> h))
      | _ \<Rightarrow> Inr ''h'')"

definition sample_ledger :: "drift_alert list \<Rightarrow> protocol_ledger" where
  "sample_ledger alerts =
     \<lparr>pl_certificates = [sample_certificate ''x'' None, sample_certificate ''y'' (Some ''x'')], pl_drift_alerts = alerts,
      pl_head_hash = Some ''yx''\<rparr>"

theorem ledger_head_commits_witness:
  "pl_certificates (sample_ledger []) = pl_certificates (sample_ledger
     [\<lparr>da_alert_type = ''t'', da_property = Consistency, da_declared_bound = Num 1, da_actual_magnitude = Num 2,
       da_evidence = [], da_recommended_action = ''r''\<rparr>])"
  by (rule ledger_head_commits [of sample_hash])
    (auto simp: validate_ledger_iff sample_ledger_def sample_certificate_def sample_hash_def validate_drift_alert_def
      invalid_measure_def f64_lt_def f64_le_def inj_on_def)

end
