(* ===== verification/Protocol_Clock.thy ===== *)
theory Protocol_Clock
  imports Legitimacy_Core "HOL-Library.Signed_Division"
begin

text \<open>
  The timestamps of the protocol, \<open>iso8601_timestamp\<close> and \<open>civil_from_days\<close> of
  \<open>src/src/protocol/transitions.rs\<close>. The reading of the system clock is an argument: the seconds
  since the Unix epoch, or the failure of \<open>duration_since\<close>. Signed integers are \<open>int\<close>; the casts
  that can lose bits are written out. The property compares the day arithmetic with the
  Gregorian calendar stated by months and leap years.
\<close>

section \<open>Timestamps\<close>

text \<open>Rust's \<open>/\<close> on signed integers truncates, \<open>div_euclid\<close> by a positive number rounds down.\<close>

definition civil_from_days :: "int \<Rightarrow> int \<times> int \<times> int" where
  "civil_from_days days_since_unix_epoch =
     (let shifted_days = days_since_unix_epoch + 719468;
          era = (if 0 \<le> shifted_days then shifted_days else shifted_days - 146096) sdiv 146097;
          day_of_era = shifted_days - era * 146097;
          year_of_era = (day_of_era - day_of_era sdiv 1460 + day_of_era sdiv 36524 - day_of_era sdiv 146096) sdiv 365;
          year = year_of_era + era * 400;
          day_of_year = day_of_era - (365 * year_of_era + year_of_era sdiv 4 - year_of_era sdiv 100);
          month_piece = (5 * day_of_year + 2) sdiv 153;
          day = day_of_year - (153 * month_piece + 2) sdiv 5 + 1;
          month = month_piece + (if month_piece < 10 then 3 else - 9);
          shown = year + (if month \<le> 2 then 1 else 0)
      in (signed_take_bit 31 shown, month, day))"

definition pad_int :: "nat \<Rightarrow> int \<Rightarrow> string" where
  "pad_int width i =
     (let digits = show_nat (nat \<bar>i\<bar>); sign = (if i < 0 then ''-'' else '''')
      in sign @ replicate (width - length digits - length sign) (CHR ''0'') @ digits)"

definition iso8601_of_seconds :: "int \<Rightarrow> string" where
  "iso8601_of_seconds seconds =
     (let days = seconds div 86400; seconds_of_day = seconds mod 86400;
          (year, month, day) = civil_from_days days;
          hour = seconds_of_day sdiv 3600; minute = (seconds_of_day mod 3600) sdiv 60; second = seconds_of_day mod 60
      in pad_int 4 year @ ''-'' @ pad_int 2 month @ ''-'' @ pad_int 2 day @ ''T''
         @ pad_int 2 hour @ '':'' @ pad_int 2 minute @ '':'' @ pad_int 2 second @ ''Z'')"

type_synonym clock = "u64 option"

definition iso8601_timestamp :: "clock \<Rightarrow> legitimacy_error + string" where
  "iso8601_timestamp now =
     (case now of None \<Rightarrow> Inl SystemClock | Some seconds \<Rightarrow> Inr (iso8601_of_seconds (sint seconds)))"

section \<open>The Gregorian calendar\<close>

definition leap_year :: "int \<Rightarrow> bool" where
  "leap_year y \<longleftrightarrow> y mod 4 = 0 \<and> (y mod 100 \<noteq> 0 \<or> y mod 400 = 0)"

definition month_length :: "int \<Rightarrow> int \<Rightarrow> int" where
  "month_length y m = (if m = 2 then (if leap_year y then 29 else 28) else if m \<in> {4, 6, 9, 11} then 30 else 31)"

text \<open>The days from the first of January of the year zero to the given date.\<close>

definition days_before_year :: "int \<Rightarrow> int" where
  "days_before_year y = 365 * y + (y + 3) div 4 - (y + 99) div 100 + (y + 399) div 400"

definition day_number :: "int \<Rightarrow> int \<Rightarrow> int \<Rightarrow> int" where
  "day_number y m d = days_before_year y + (\<Sum>k = 1..<m. month_length y k) + d - 1"

definition valid_date :: "int \<Rightarrow> int \<Rightarrow> int \<Rightarrow> bool" where
  "valid_date y m d \<longleftrightarrow> 1 \<le> m \<and> m \<le> 12 \<and> 1 \<le> d \<and> d \<le> month_length y m"

section \<open>Lemmas\<close>

lemma days_before_year_next:
  "days_before_year (y + 1) = 365 * y + y div 4 - y div 100 + y div 400 + 366"
proof -
  have "(y + 4) div 4 = y div 4 + 1" "(y + 100) div 100 = y div 100 + 1" "(y + 400) div 400 = y div 400 + 1" by simp_all
  then show ?thesis by (simp add: days_before_year_def add.assoc)
qed

lemma div_Suc_const: "0 < b \<Longrightarrow> (y + (b - 1)) div b = y div b + (if y mod b = 0 then 0 else 1)" for y b :: int
proof -
  assume b: "0 < b"
  let ?r = "y mod b"
  have "y + (b - 1) = (?r + (b - 1)) + y div b * b" by simp
  then have "(y + (b - 1)) div b = (?r + (b - 1)) div b + y div b" using b by (simp only: div_mult_self1)
  moreover have "(?r + (b - 1)) div b = (if ?r = 0 then 0 else 1)"
  proof (cases "?r = 0")
    case False
    then have "0 < ?r" "?r < b" 
      using b pos_mod_bound [OF b, of y] pos_mod_sign [OF b, of y] by linarith+
    then have "(?r - 1) div b = 0" by (intro div_pos_pos_trivial) linarith+
    then have "(?r - 1 + b) div b = 1" using b by simp
    with False show ?thesis by (simp add: algebra_simps)
  qed (use b in simp)
  ultimately show ?thesis by simp
qed

lemma century_mods: "y mod 400 = 0 \<Longrightarrow> y mod 100 = 0" "y mod 100 = 0 \<Longrightarrow> y mod 4 = 0" for y :: int
proof -
  have "(100 :: int) dvd 400" "(4 :: int) dvd 100" by simp_all
  then show "y mod 400 = 0 \<Longrightarrow> y mod 100 = 0" "y mod 100 = 0 \<Longrightarrow> y mod 4 = 0"
    unfolding dvd_eq_mod_eq_0 [symmetric] by (blast intro: dvd_trans)+
qed

lemma leap_terms:
  fixes a b c :: int
  assumes "a' = a + (if P then 0 else 1)" and "b' = b + (if Q then 0 else 1)" and "c' = c + (if R then 0 else 1)"
    and "R \<Longrightarrow> Q" and "Q \<Longrightarrow> P"
  shows "365 * y + a' - b' + c' + (if P \<and> (\<not> Q \<or> R) then 1 else 0) = 365 * y + a - b + c + 1"
  using assms by auto

lemma days_before_year_leap:
  "days_before_year y + (if leap_year y then 1 else 0) = 365 * y + y div 4 - y div 100 + y div 400 + 1"
proof -
  show ?thesis
    unfolding days_before_year_def leap_year_def
    by (rule leap_terms [OF div_Suc_const [of 4 y, simplified] div_Suc_const [of 100 y, simplified]
        div_Suc_const [of 400 y, simplified] century_mods])
qed

lemma floor_sdiv: "0 < b \<Longrightarrow> (if 0 \<le> x then x else x - (b - 1)) sdiv b = x div b" for x b :: int
proof (cases "0 \<le> x")
  case False
  assume b: "0 < b"
  let ?q = "x div b" and ?r = "x mod b"
  have "- x + (b - 1) = (b - 1 - ?r) + (- ?q) * b"
    using div_mult_mod_eq [of x b] unfolding mult_minus_left by linarith
  then have "(- x + (b - 1)) div b = - ?q"
    using b pos_mod_bound [OF b, of x] pos_mod_sign [OF b, of x] by (simp only: div_mult_self1) simp
  with False b show ?thesis by (simp add: signed_divide_int_def algebra_simps)
qed (simp add: signed_divide_int_def sgn_if)

lemma nonneg_sdiv: "0 \<le> x \<Longrightarrow> 0 < b \<Longrightarrow> x sdiv b = x div b" for x b :: int
  by (simp add: signed_divide_int_def sgn_if)

text \<open>The day of a 400-year era on which its years begin, and the year that the code finds for a day.\<close>

definition year_start :: "int \<Rightarrow> int" where
  "year_start y = 365 * y + y div 4 - y div 100"

definition linear_day :: "int \<Rightarrow> int" where
  "linear_day doe = doe - doe div 1460 + doe div 36524 - doe div 146096"

definition year_found :: "int \<Rightarrow> int" where
  "year_found doe = linear_day doe div 365"

lemma div_Suc: "0 < b \<Longrightarrow> (x + 1) div b = x div b + (if (x + 1) mod b = 0 then 1 else 0)" for x b :: int
proof -
  assume "0 < b"
  from div_Suc_const [OF this, of "x + 1 - b"] this show ?thesis
    using div_add_self2 [of b "x + 1 - b"] by (auto simp: algebra_simps mod_diff_eq split: if_splits)
qed

lemma linear_day_step: "0 \<le> x \<Longrightarrow> x + 1 \<le> 146096 \<Longrightarrow> linear_day x \<le> linear_day (x + 1)"
proof -
  assume x: "0 \<le> x" "x + 1 \<le> 146096"
  have "(x + 1) mod 1460 = 0 \<Longrightarrow> (x + 1) mod 146096 \<noteq> 0"
  proof
    assume "(x + 1) mod 146096 = 0"
    moreover have "x + 1 < 146096 \<Longrightarrow> (x + 1) mod 146096 = x + 1" using x by simp
    ultimately have "x + 1 = 146096" using x by (cases "x + 1 < 146096") auto
    moreover assume "(x + 1) mod 1460 = 0"
    ultimately show False by simp
  qed
  then show ?thesis
    unfolding linear_day_def
    using div_Suc [of 1460 x, simplified] div_Suc [of 36524 x, simplified] div_Suc [of 146096 x, simplified]
    by (cases "(x + 1) mod 1460 = 0"; cases "(x + 1) mod 36524 = 0"; cases "(x + 1) mod 146096 = 0";
      simp only: if_True if_False simp_thms; linarith)
qed

lemma linear_day_mono: "x \<le> y \<Longrightarrow> 0 \<le> x \<Longrightarrow> y \<le> 146096 \<Longrightarrow> linear_day x \<le> linear_day y"
proof (induction y rule: int_ge_induct)
  case (step y)
  with linear_day_step [of y] show ?case by simp
qed simp_all

lemma year_found_mono: "0 \<le> x \<Longrightarrow> x \<le> y \<Longrightarrow> y \<le> 146096 \<Longrightarrow> year_found x \<le> year_found y"
  unfolding year_found_def by (intro zdiv_mono1 linear_day_mono) auto

lemma div_const: "a = b * q + r \<Longrightarrow> 0 \<le> r \<Longrightarrow> r < b \<Longrightarrow> a div b = q" for a b q r :: int
  by (simp add: int_div_pos_eq)

lemma year_parts:
  fixes y :: int
  assumes "0 \<le> y"
  obtains c s t where "y = 100 * c + 4 * s + t" and "0 \<le> c" and "0 \<le> s" and "s \<le> 24" and "0 \<le> t" and "t \<le> 3"
    and "y div 4 = 25 * c + s" and "y div 100 = c" and "y mod 100 = 0 \<longleftrightarrow> s = 0 \<and> t = 0"
proof -
  define c where "c = y div 100"
  define r where "r = y mod 100"
  define s where "s = r div 4"
  define t where "t = r mod 4"
  have y: "y = 100 * c + r" "0 \<le> r" "r \<le> 99" by (simp_all add: c_def r_def)
  have r: "r = 4 * s + t" "0 \<le> t" "t \<le> 3" by (simp_all add: s_def t_def)
  have c: "0 \<le> c" using assms by (simp add: c_def pos_imp_zdiv_nonneg_iff)
  have s: "0 \<le> s" "s \<le> 24" using y r by linarith+
  show ?thesis
  proof (rule that)
    show split: "y = 100 * c + 4 * s + t" using y(1) r(1) by linarith
    show "y div 4 = 25 * c + s"
      by (rule div_const [of _ _ _ t]) (use split r in \<open>simp_all add: algebra_simps\<close>)
    show "y mod 100 = 0 \<longleftrightarrow> s = 0 \<and> t = 0"
      unfolding r_def [symmetric] using r s by auto
  qed (use c s r c_def in simp_all)
qed

lemma year_start_quotients:
  assumes "0 \<le> y" and "y \<le> 399"
  shows "year_start y div 1460 = y div 4" "year_start y div 36524 = y div 100"
    and "0 < y \<Longrightarrow> (year_start y - 1) div 1460 = y div 4"
    and "0 < y \<Longrightarrow> (year_start y - 1) div 36524 = (if y mod 100 = 0 then y div 100 - 1 else y div 100)"
proof -
  obtain c s t where y: "y = 100 * c + 4 * s + t" "0 \<le> c" "0 \<le> s" "s \<le> 24" "0 \<le> t" "t \<le> 3"
    and q: "y div 4 = 25 * c + s" "y div 100 = c" "y mod 100 = 0 \<longleftrightarrow> s = 0 \<and> t = 0"
    using year_parts [OF assms(1)] by blast
  have start: "year_start y = 36524 * c + 1461 * s + 365 * t" 
  proof -
    have "year_start y = 365 * y + (25 * c + s) - c" unfolding year_start_def q(1,2) ..
    then show ?thesis using y(1) by linarith
  qed
  have c3: "c \<le> 3" using y assms(2) by linarith
  show "year_start y div 1460 = y div 4"
    unfolding q start by (rule div_const [of _ _ _ "24 * c + s + 365 * t"]) (simp add: algebra_simps, (use y c3 in linarith)+)
  show "year_start y div 36524 = y div 100"
    unfolding q start by (rule div_const [of _ _ _ "1461 * s + 365 * t"]) (simp add: algebra_simps, (use y in linarith)+)
  assume pos: "0 < y"
  then have some: "0 < c \<or> 0 < s \<or> 0 < t" using y by linarith
  show "(year_start y - 1) div 1460 = y div 4"
    unfolding q start by (rule div_const [of _ _ _ "24 * c + s + 365 * t - 1"]) (simp add: algebra_simps, (use y c3 some in linarith)+)
  show "(year_start y - 1) div 36524 = (if y mod 100 = 0 then y div 100 - 1 else y div 100)"
  proof (cases "s = 0 \<and> t = 0")
    case True
    then have "(year_start y - 1) div 36524 = c - 1"
      unfolding start by (intro div_const [of _ _ _ 36523]) auto
    with True q show ?thesis by simp
  next
    case False
    then have "0 < s \<or> 0 < t" using y by linarith
    then have "(year_start y - 1) div 36524 = c"
      unfolding start by (intro div_const [of _ _ _ "1461 * s + 365 * t - 1"]) (simp add: algebra_simps, (use y in linarith)+)
    with False q show ?thesis by simp
  qed
qed

lemma month_cases:
  fixes doy :: int
  assumes "0 \<le> doy" and "doy \<le> 365"
  defines "mp \<equiv> (5 * doy + 2) div 153"
  shows "153 * mp \<le> 5 * doy + 2" and "5 * doy + 2 < 153 * mp + 153" and "mp \<in> {0, 1, 2, 3, 4, 5, 6, 7, 8, 9, 10, 11}"
proof -
  have "5 * doy + 2 = 153 * mp + (5 * doy + 2) mod 153" "0 \<le> (5 * doy + 2) mod 153" "(5 * doy + 2) mod 153 < 153"
    by (simp_all add: mp_def)
  then show lo: "153 * mp \<le> 5 * doy + 2" and hi: "5 * doy + 2 < 153 * mp + 153" by linarith+
  with assms(1,2) have "0 \<le> mp" "mp \<le> 11" by linarith+
  then show "mp \<in> {0, 1, 2, 3, 4, 5, 6, 7, 8, 9, 10, 11}" unfolding insert_iff empty_iff by presburger
qed

lemma march_months: "list_all (\<lambda>mp. (\<Sum>k = 3..<mp + 3. month_length 1 k) = (153 * mp + 2) div 5) [0..9]"
  by code_simp

lemma year_start_bounds: "0 \<le> y \<Longrightarrow> y \<le> 399 \<Longrightarrow> 0 \<le> year_start y \<and> year_start y \<le> 145734"
proof -
  assume y: "0 \<le> y" "y \<le> 399"
  show ?thesis
  proof (rule year_parts [OF y(1)])
    fix c s t :: int
    assume p: "y = 100 * c + 4 * s + t" "0 \<le> c" "0 \<le> s" "s \<le> 24" "0 \<le> t" "t \<le> 3"
      and "y div 4 = 25 * c + s" "y div 100 = c"
    then have "year_start y = 365 * y + (25 * c + s) - c" by (simp only: year_start_def)
    with p y show ?thesis by linarith
  qed
qed

lemma year_found_at:
  assumes "0 \<le> y" and "y \<le> 399"
  shows "year_found (year_start y) = y" and "y = 0 \<or> year_found (year_start y - 1) = y - 1"
proof -
  note quot = year_start_quotients [OF assms]
  have range: "0 \<le> year_start y" "year_start y \<le> 145734" using year_start_bounds [OF assms] by simp_all
  have "year_start y div 146096 = 0" using range by (intro div_pos_pos_trivial) auto
  then have "linear_day (year_start y) = 365 * y" unfolding linear_day_def quot(1,2) by (simp add: year_start_def)
  then show "year_found (year_start y) = y" by (simp add: year_found_def)
  show "y = 0 \<or> year_found (year_start y - 1) = y - 1"
  proof (cases "y = 0")
    case False
    with assms(1) have pos: "0 < y" by simp
    have "0 \<le> y div 4 - y div 100" 
      by (rule year_parts [OF assms(1)]) linarith
    then have "1 \<le> year_start y" using pos unfolding year_start_def by linarith
    then have "(year_start y - 1) div 146096 = 0" using range by (intro div_pos_pos_trivial) auto
    then have "linear_day (year_start y - 1) = 365 * y - (if y mod 100 = 0 then 2 else 1)"
      unfolding linear_day_def quot(3,4) [OF pos] by (simp add: year_start_def)
    then have "linear_day (year_start y - 1) div 365 = y - 1"
      by (intro div_const [of _ _ _ "if y mod 100 = 0 then 363 else 364"]) auto
    then show ?thesis by (simp add: year_found_def)
  qed simp
qed

text \<open>The year found is the one in which the day lies.\<close>

lemma year_found_spec:
  assumes "0 \<le> doe" and "doe \<le> 146096"
  defines "y \<equiv> year_found doe"
  shows "0 \<le> y \<and> y \<le> 399 \<and> year_start y \<le> doe \<and> (y < 399 \<longrightarrow> doe < year_start (y + 1))"
proof -
  have "year_found 0 = 0" "year_found 146096 = 399" by (simp_all add: year_found_def linear_day_def)
  then have y: "0 \<le> y" "y \<le> 399"
    using year_found_mono [of 0 doe] year_found_mono [of doe 146096] assms by (auto simp: y_def)
  have "year_start y \<le> doe"
  proof (rule ccontr)
    assume "\<not> year_start y \<le> doe"
    then have le: "doe \<le> year_start y - 1" by simp
    have "year_start 0 = 0" by (simp add: year_start_def)
    with le assms(1) have "y \<noteq> 0" by auto
    then have "year_found (year_start y - 1) = y - 1" using year_found_at(2) [OF y] by simp
    moreover have "year_found doe \<le> year_found (year_start y - 1)"
      using le assms(1) year_start_bounds [OF y] by (intro year_found_mono) auto
    ultimately show False by (simp add: y_def)
  qed
  moreover have "doe < year_start (y + 1)" if "y < 399"
  proof (rule ccontr)
    assume "\<not> doe < year_start (y + 1)"
    then have "year_found (year_start (y + 1)) \<le> year_found doe"
      using assms(2) year_start_bounds [of "y + 1"] y that by (intro year_found_mono) auto
    with year_found_at(1) [of "y + 1"] y that show False by (simp add: y_def)
  qed
  ultimately show ?thesis using y by blast
qed

lemma year_start_step:
  "year_start (y + 1) - year_start y = 365 + (if (y + 1) mod 4 = 0 then 1 else 0) - (if (y + 1) mod 100 = 0 then 1 else 0)"
proof -
  have "365 * (y + 1) + (a + p) - (b + q) - (365 * y + a - b) = 365 + p - q" for a b p q :: int by simp
  then show ?thesis
    unfolding year_start_def div_Suc [of 4 y, simplified] div_Suc [of 100 y, simplified] .
qed

lemma day_of_year_bounds:
  assumes "0 \<le> doe" and "doe \<le> 146096"
  shows "0 \<le> doe - year_start (year_found doe)" and "doe - year_start (year_found doe) \<le> 365"
proof -
  define y where "y = year_found doe"
  note spec = year_found_spec [OF assms, folded y_def]
  then show "0 \<le> doe - year_start (year_found doe)" by (simp add: y_def)
  have step: "year_start (y + 1) - year_start y \<le> 366"
  proof -
    have "365 + (if P then 1 else 0) - (if Q then 1 else 0) \<le> (366 :: int)" for P Q by simp
    then show ?thesis unfolding year_start_step .
  qed
  show "doe - year_start (year_found doe) \<le> 365"
  proof (cases "y = 399")
    case True
    have "year_start 399 = 145731" by (simp add: year_start_def)
    with True assms(2) show ?thesis unfolding y_def [symmetric] by simp
  next
    case False
    with spec step show ?thesis unfolding y_def [symmetric] by linarith
  qed
qed

definition march_day :: "int \<Rightarrow> int \<Rightarrow> int" where
  "march_day mp d = (153 * mp + 2) div 5 + d - 1"

text \<open>The month and day found for a day of the year that begins in March.\<close>

lemma month_found:
  assumes "0 \<le> doy" and "doy \<le> 365"
  defines "mp \<equiv> (5 * doy + 2) div 153"
  defines "d \<equiv> doy - (153 * mp + 2) div 5 + 1"
  shows "0 \<le> mp \<and> mp \<le> 11 \<and> 1 \<le> d \<and> march_day mp d = doy"
    and "mp < 10 \<Longrightarrow> d \<le> month_length 0 (mp + 3)" and "10 \<le> mp \<Longrightarrow> d \<le> month_length 0 (mp - 9)"
proof -
  note range = month_cases [OF assms(1,2), folded mp_def]
  have "march_day mp d = doy" by (simp add: march_day_def d_def)
  moreover have "1 \<le> d" using range d_def by auto
  ultimately show "0 \<le> mp \<and> mp \<le> 11 \<and> 1 \<le> d \<and> march_day mp d = doy" using range(3) by auto
  show "mp < 10 \<Longrightarrow> d \<le> month_length 0 (mp + 3)"
    using range d_def by (auto simp: month_length_def)
  show "10 \<le> mp \<Longrightarrow> d \<le> month_length 0 (mp - 9)"
    using range d_def assms(2) by (auto simp: month_length_def leap_year_def)
qed

lemma month_length_late: "3 \<le> m \<Longrightarrow> month_length y m = month_length 1 m"
  by (simp add: month_length_def)

lemma sum_months:
  assumes "3 \<le> m" and "m \<le> 12"
  shows "(\<Sum>k = 1..<m. month_length y k) = 59 + (if leap_year y then 1 else 0) + (153 * (m - 3) + 2) div 5"
proof -
  have split: "{1..<m} = insert 1 (insert 2 {3..<m})" using assms(1) by auto
  have "(\<Sum>k = 1..<m. month_length y k) = month_length y 1 + month_length y 2 + (\<Sum>k = 3..<m. month_length y k)"
  proof -
    have "1 \<notin> insert 2 {3..<m}" "2 \<notin> {3..<m}" by auto
    then show ?thesis
      unfolding split by (simp only: sum.insert finite_insert finite_atLeastLessThan_int add.assoc not_False_eq_True simp_thms)
  qed
  also have "(\<Sum>k = 3..<m. month_length y k) = (\<Sum>k = 3..<m. month_length 1 k)"
    by (rule sum.cong [OF refl], rule month_length_late, simp)
  also have "\<dots> = (153 * (m - 3) + 2) div 5"
  proof -
    have mem: "m - 3 \<in> set [0..9]" using assms by simp
    have "m - 3 + 3 = m" by simp
    with march_months [unfolded list_all_iff, THEN bspec, OF mem] show ?thesis by (simp only:)
  qed
  finally show ?thesis by (simp add: month_length_def)
qed

text \<open>A date counted from March of year \<open>y\<close>.\<close>

lemma day_number_march:
  assumes "0 \<le> mp" and "mp \<le> 9"
  shows "day_number y (mp + 3) d = 365 * y + y div 4 - y div 100 + y div 400 + 60 + march_day mp d"
  using sum_months [of "mp + 3" y] assms days_before_year_leap [of y]
  by (simp add: day_number_def march_day_def)

lemma day_number_january:
  assumes "mp \<in> {10, 11}"
  shows "day_number (y + 1) (mp - 9) d = 365 * y + y div 4 - y div 100 + y div 400 + 60 + march_day mp d"
proof -
  have "{1..<2} = {1 :: int}" by auto
  then show ?thesis
    using assms by (auto simp: day_number_def days_before_year_next march_day_def month_length_def)
qed

lemma era_day: "365 * (y + 400 * e) + (y + 400 * e) div 4 - (y + 400 * e) div 100 + (y + 400 * e) div 400
    = 146097 * e + year_start y + y div 400" for y e :: int
proof -
  have "(y + 400 * e) div 4 = y div 4 + 100 * e" "(y + 400 * e) div 100 = y div 100 + 4 * e"
      "(y + 400 * e) div 400 = y div 400 + e"
    using div_mult_self1 [of 4 y "100 * e"] div_mult_self1 [of 100 y "4 * e"] by simp_all
  then show ?thesis by (simp add: year_start_def)
qed

lemma february:
  assumes "0 \<le> y" and "y \<le> 399" and "y < 399 \<longrightarrow> year_start y + march_day 11 d < year_start (y + 1)"
    and "march_day 11 d \<le> 365"
  shows "d \<le> month_length (y + 400 * e + 1) 2"
proof -
  have day: "march_day 11 d = 336 + d" by (simp add: march_day_def)
  have leap: "leap_year (y + 400 * e + 1) \<longleftrightarrow> leap_year (y + 1)"
  proof -
    have "(y + 1 + 400 * e) mod 4 = (y + 1) mod 4" "(y + 1 + 400 * e) mod 100 = (y + 1) mod 100"
        "(y + 1 + 400 * e) mod 400 = (y + 1) mod 400"
      using mod_mult_self1 [of "y + 1" "100 * e" 4] mod_mult_self1 [of "y + 1" "4 * e" 100] by (simp_all add: mult.commute)
    then show ?thesis by (simp add: leap_year_def algebra_simps)
  qed
  show ?thesis
  proof (cases "y = 399")
    case True
    then have "leap_year (y + 1)" by (simp add: leap_year_def)
    with assms(4) day leap show ?thesis by (simp add: month_length_def)
  next
    case False
    have "(y + 1) mod 400 \<noteq> 0" using assms(1,2) False by simp
    then have "year_start (y + 1) - year_start y = 365 + (if leap_year (y + 1) then 1 else 0)"
    proof -
      have "365 + (if P then 1 else 0) - (if Q then 1 else 0) = (365 :: int) + (if P \<and> (\<not> Q \<or> R) then 1 else 0)"
        if "Q \<Longrightarrow> P" and "\<not> R" for P Q R
        using that by simp
      then show ?thesis unfolding year_start_step leap_year_def using \<open>(y + 1) mod 400 \<noteq> 0\<close> century_mods(2) by blast
    qed
    moreover have "year_start y + march_day 11 d < year_start (y + 1)" using assms(2,3) False by linarith
    ultimately have "336 + d < 365 + (if leap_year (y + 1) then 1 else 0)" using day by linarith
    then show ?thesis unfolding month_length_def leap by (cases "leap_year (y + 1)") (simp_all only: if_True if_False, simp_all)
  qed
qed

section \<open>Properties\<close>

lemma civil_from_days_date:
  fixes n :: int
  defines "shifted \<equiv> n + 719468"
  defines "e \<equiv> shifted div 146097" and "doe \<equiv> shifted mod 146097"
  defines "y \<equiv> year_found doe"
  defines "doy \<equiv> doe - year_start y"
  defines "mp \<equiv> (5 * doy + 2) div 153"
  defines "d \<equiv> doy - (153 * mp + 2) div 5 + 1"
  shows "civil_from_days n
    = (if mp < 10 then (signed_take_bit 31 (y + 400 * e), mp + 3, d) else (signed_take_bit 31 (y + 400 * e + 1), mp - 9, d))"
proof -
  have doe: "0 \<le> doe" "doe \<le> 146096" by (simp_all add: doe_def)
  note spec = year_found_spec [OF doe, folded y_def]
  have era: "(if 0 \<le> shifted then shifted else shifted - 146096) sdiv 146097 = e"
  proof -
    have "(146097 :: int) - 1 = 146096" by simp
    from floor_sdiv [of 146097 shifted, unfolded this] show ?thesis by (simp add: e_def)
  qed
  have rest: "shifted - e * 146097 = doe" unfolding e_def doe_def by (rule minus_div_mult_eq_mod)
  have lin: "doe - doe sdiv 1460 + doe sdiv 36524 - doe sdiv 146096 = linear_day doe"
    using doe(1) by (simp add: linear_day_def nonneg_sdiv)
  have "0 \<le> linear_day doe" using linear_day_mono [of 0 doe] doe by (simp add: linear_day_def)
  then have yoe: "linear_day doe sdiv 365 = y" by (simp add: nonneg_sdiv y_def year_found_def)
  have start: "365 * y + y sdiv 4 - y sdiv 100 = year_start y" using spec by (simp add: nonneg_sdiv year_start_def)
  have doy: "0 \<le> doy" "doy \<le> 365" using day_of_year_bounds [OF doe] by (simp_all add: doy_def y_def)
  then have mp: "(5 * doy + 2) sdiv 153 = mp" "0 \<le> mp" "mp \<le> 11"
    using month_found(1) [OF doy] by (simp_all add: nonneg_sdiv mp_def)
  then have d: "doy - (153 * mp + 2) sdiv 5 + 1 = d" by (simp add: nonneg_sdiv d_def)
  show ?thesis
    unfolding civil_from_days_def shifted_def [symmetric] Let_def era rest lin yoe start doy_def [symmetric] mp(1) d
    using mp(2,3) by (auto simp: mult.commute [of e])
qed

text \<open>The timestamps follow the Gregorian calendar: for every number of days whose year fits the
  32-bit result, the date found is a valid one and exactly that many days after 1970-01-01.\<close>

lemma civil_from_days_correct:
  assumes "civil_from_days n = (y, m, d)" and "\<bar>n\<bar> \<le> 700000000000"
  shows "valid_date y m d \<and> day_number y m d = day_number 1970 1 1 + n"
proof -
  define shifted where "shifted = n + 719468"
  define e where "e = shifted div 146097"
  define doe where "doe = shifted mod 146097"
  define yf where "yf = year_found doe"
  define doy where "doy = doe - year_start yf"
  define mp where "mp = (5 * doy + 2) div 153"
  define dd where "dd = doy - (153 * mp + 2) div 5 + 1"
  have doe: "0 \<le> doe" "doe \<le> 146096" by (simp_all add: doe_def)
  note yf = year_found_spec [OF doe, folded yf_def]
  have shifted: "shifted = 146097 * e + doe" by (simp add: e_def doe_def)
  have range: "- 2147483648 \<le> yf + 400 * e" "yf + 400 * e + 1 < 2147483648"
    using shifted doe yf assms(2) unfolding shifted_def by linarith+
  have doy: "0 \<le> doy" "doy \<le> 365" using day_of_year_bounds [OF doe] by (simp_all add: doy_def yf_def)
  note month = month_found [OF doy, folded mp_def, folded dd_def]
  have found: "civil_from_days n
      = (if mp < 10 then (signed_take_bit 31 (yf + 400 * e), mp + 3, dd) else (signed_take_bit 31 (yf + 400 * e + 1), mp - 9, dd))"
    using civil_from_days_date [of n]
    by (simp only: shifted_def [symmetric] e_def [symmetric] doe_def [symmetric] yf_def [symmetric] doy_def [symmetric]
        mp_def [symmetric] dd_def [symmetric])
  have fits: "signed_take_bit 31 (yf + 400 * e) = yf + 400 * e" "signed_take_bit 31 (yf + 400 * e + 1) = yf + 400 * e + 1"
    using range by (intro signed_take_bit_int_eq_self; simp)+
  have start: "day_number 1970 1 1 = 719528" by (simp add: day_number_def days_before_year_def)
  have total: "146097 * e + year_start yf + yf div 400 + doy = n + 719468"
    using shifted yf by (simp add: doy_def shifted_def)
  show ?thesis
  proof (cases "mp < 10")
    case True
    with found assms(1) fits have eq: "y = yf + 400 * e" "m = mp + 3" "d = dd" by auto
    have "dd \<le> month_length y (mp + 3)"
      using month(2) True month_length_late [of "mp + 3" y] month_length_late [of "mp + 3" 0] month(1) by simp
    then show ?thesis
      using day_number_march [of mp y dd] True month(1) era_day [of yf e] total
      by (simp add: eq valid_date_def start)
  next
    case False
    with found assms(1) fits have eq: "y = yf + 400 * e + 1" "m = mp - 9" "d = dd" by auto
    have two: "mp = 10 \<or> mp = 11" using False month(1) by linarith
    have "dd \<le> month_length y (mp - 9)"
    proof (cases "mp = 10")
      case True
      then show ?thesis using month(3) by (simp add: month_length_def)
    next
      case False
      with two have "mp = 11" by simp
      moreover have "yf < 399 \<longrightarrow> year_start yf + march_day 11 dd < year_start (yf + 1)"
        using yf month(1) \<open>mp = 11\<close> by (auto simp: doy_def)
      ultimately show ?thesis
        using february [of yf dd e] yf month(1) doy(2) by (simp add: eq)
    qed
    then show ?thesis
      using day_number_january [of mp "yf + 400 * e" dd] two month(1) era_day [of yf e] total
      by (auto simp: eq valid_date_def start)
  qed
qed

lemma civil_from_days_correct_witness: "valid_date 2024 2 29 \<and> day_number 2024 2 29 = day_number 1970 1 1 + 19782"
  by (rule civil_from_days_correct) (code_simp, simp)

end
