(* ===== verification/Protocol_Transitions.thy ===== *)
theory Protocol_Transitions
  imports Protocol_State Protocol_Clock
begin

text \<open>
  The transitions of the governance protocol, \<open>src/src/protocol/transitions.rs\<close>: declare,
  compile, measure, activate, check a decision, report drift, propose a revision, recompile.
  What the code takes from outside is an environment record: the regular expression engine, the
  hash, and the iteration order of the hash map of violations; each reading of the clock is an
  argument. The properties say which violations an evaluation can find, when a declared graph
  compiles, what a decision certificate records, and which alerts a decision raises.
\<close>

section \<open>Environment\<close>

record graph_violation =
  gv_source_axiom :: string
  gv_actual_magnitude :: f64
  gv_witness :: message

record protocol_env =
  pe_regex :: regex_engine
  pe_hash :: hash_function
  pe_order :: "(string, graph_violation) bmap \<Rightarrow> (string \<times> graph_violation) list"

definition CARGO_PKG_VERSION :: string where
  "CARGO_PKG_VERSION = ''1.1.1''"

type_synonym 'a protocol_result = "protocol_error fault + 'a"

section \<open>Evaluation of a graph\<close>

definition graph_fields :: "governance_claim list \<Rightarrow> string list" where
  "graph_fields cs = sorted_list_of_set (insert ''strength'' (\<Union>c \<in> set cs. set (bm_keys (metrics c))))"

definition field_step :: "string \<Rightarrow> field_delta" where
  "field_step field = \<lparr>fd_field = field, fd_delta = (if field = ''strength'' then round64 (1 / 10) else Num 1)\<rparr>"

definition graph_shocks :: "governance_claim list \<Rightarrow> field_delta list" where
  "graph_shocks cs = map field_step (graph_fields cs)"

definition graph_deltas :: "governance_claim list \<Rightarrow> field_delta list" where
  "graph_deltas cs = map field_step (graph_fields cs)"

definition property_for_axiom :: "string \<Rightarrow> governance_property option" where
  "property_for_axiom axm =
     (if axm = ''graph consistency'' then Some Consistency
      else if axm = ''graph solidarity'' then Some Solidarity
      else if axm = ''graph monotonicity'' then Some Monotonicity
      else if axm = ''graph strategyproofness'' then Some Strategyproofness
      else if axm = ''graph certifiability'' then Some Certifiability
      else if axm = ''graph observable determinacy'' then Some ObservableDeterminacy
      else if axm = ''graph corrigibility'' then Some Corrigibility
      else if axm = ''graph compositional safety'' then Some CompositionalSafetyProperty
      else if axm = ''graph nonvacuity'' then Some NonVacuousProperty
      else None)"

definition property_from_str :: "string \<Rightarrow> governance_property option" where
  "property_from_str s =
     (if s = ''consistency'' then Some Consistency
      else if s = ''solidarity'' then Some Solidarity
      else if s = ''monotonicity'' then Some Monotonicity
      else if s = ''strategyproofness'' then Some Strategyproofness
      else if s = ''certifiability'' then Some Certifiability
      else if s = ''observable_determinacy'' then Some ObservableDeterminacy
      else if s = ''corrigibility'' then Some Corrigibility
      else if s = ''compositional_safety'' then Some CompositionalSafetyProperty
      else if s = ''non_vacuous'' \<or> s = ''nonvacuous'' then Some NonVacuousProperty
      else None)"

definition counterexample_magnitude :: "counterexample \<Rightarrow> f64" where
  "counterexample_magnitude ce =
     fold (\<lambda>(k, before) magnitude.
         case map_of (perturbed_allocation ce) k of
           None \<Rightarrow> magnitude
         | Some after \<Rightarrow> f64_max magnitude (f64_abs (f64_sub before after)))
       (original_allocation ce) (Zero False)"

fun require_protocol_kernel_verdict :: "axiom_verdict \<Rightarrow> protocol_error + verdict" where
  "require_protocol_kernel_verdict (Skipped axm reason) = Inl (SkippedKernelCheck (graph_axiom_name axm) reason)"
| "require_protocol_kernel_verdict (Pass axm n) = Inr (Admissible (graph_axiom_name axm) n)"
| "require_protocol_kernel_verdict (Fail axm reason witness) = Inr (Rejected (graph_axiom_name axm) witness)"

record graph_evaluation =
  ge_axiom_verdicts :: "verdict list"
  ge_strategyproofness :: strategyproofness_verdict
  ge_violations :: "(string, graph_violation) bmap"

fun record_rejection :: "verdict \<Rightarrow> (string, graph_violation) bmap \<Rightarrow> (string, graph_violation) bmap" where
  "record_rejection (Admissible axm n) violations = violations"
| "record_rejection (Rejected axm ce) violations =
     (case property_for_axiom axm of
        None \<Rightarrow> violations
      | Some p \<Rightarrow> bm_insert (as_str p)
          \<lparr>gv_source_axiom = axm, gv_actual_magnitude = counterexample_magnitude ce, gv_witness = description ce\<rparr> violations)"

definition record_manipulation ::
  "strategyproofness_verdict \<Rightarrow> (string, graph_violation) bmap \<Rightarrow> (string, graph_violation) bmap" where
  "record_manipulation sp violations =
     (case strategyproofness_witness_of sp of
        None \<Rightarrow> violations
      | Some w \<Rightarrow> bm_insert (as_str Strategyproofness)
          \<lparr>gv_source_axiom = ''graph strategyproofness'',
           gv_actual_magnitude = f64_abs (f64_sub (sw_manipulated_alloc w) (sw_true_alloc w)),
           gv_witness = Message ''claimant '{}' can improve from {} to {}''
             [AStr (sw_claimant w), AF64 (sw_true_alloc w), AF64 (sw_manipulated_alloc w)]\<rparr> violations)"

definition kernel_check :: "legitimacy_error fault + axiom_verdict \<Rightarrow> verdict protocol_result" where
  "kernel_check r = rbind (lift_fault r) (\<lambda>v. raise (require_protocol_kernel_verdict v))"

definition evaluate_graph ::
  "protocol_env \<Rightarrow> governance_graph \<Rightarrow> governance_claim list \<Rightarrow> graph_evaluation protocol_result" where
  "evaluate_graph env g cs =
     (let rx = pe_regex env in
      rbind (lift_fault (check_graph_consistency rx g cs)) (\<lambda>consistency.
      rbind (lift_fault (check_graph_solidarity rx g cs (graph_shocks cs))) (\<lambda>solidarity.
      rbind (lift_fault (monotonicity_check_via_polarity_schema rx g cs (graph_deltas cs) AUDIT_METRIC_POLARITY_SCHEMA)) (\<lambda>monotonicity.
      rbind (kernel_check (check_graph_certifiability rx g cs)) (\<lambda>certifiability.
      rbind (kernel_check (check_graph_observable_determinacy rx g cs)) (\<lambda>observable.
      rbind (kernel_check (check_graph_corrigibility rx g cs)) (\<lambda>corrigibility.
      rbind (kernel_check (check_graph_compositional_safety rx g cs)) (\<lambda>compositional_safety.
      rbind (kernel_check (check_graph_nonvacuity rx g cs [])) (\<lambda>nonvacuity.
      rbind (lift_fault (check_graph_strategyproofness_verdict rx g cs)) (\<lambda>strategyproofness.
        let axiom_verdicts = [consistency, solidarity, monotonicity, certifiability, observable, corrigibility,
              compositional_safety, nonvacuity]
        in Inr \<lparr>ge_axiom_verdicts = axiom_verdicts, ge_strategyproofness = strategyproofness,
             ge_violations = record_manipulation strategyproofness (fold record_rejection axiom_verdicts [])\<rparr>))))))))))"

definition graph_axiom_of :: "governance_property \<Rightarrow> string" where
  "graph_axiom_of p =
     (case p of
        Consistency \<Rightarrow> ''graph consistency'' | Solidarity \<Rightarrow> ''graph solidarity'' | Monotonicity \<Rightarrow> ''graph monotonicity''
      | Strategyproofness \<Rightarrow> ''graph strategyproofness'' | Certifiability \<Rightarrow> ''graph certifiability''
      | ObservableDeterminacy \<Rightarrow> ''graph observable determinacy'' | Corrigibility \<Rightarrow> ''graph corrigibility''
      | CompositionalSafetyProperty \<Rightarrow> ''graph compositional safety'' | NonVacuousProperty \<Rightarrow> ''graph nonvacuity'')"

fun rejected :: "verdict \<Rightarrow> bool" where
  "rejected (Rejected axm ce) = True"
| "rejected (Admissible axm n) = False"

definition verdict_to_exposure :: "verdict list \<Rightarrow> governance_property \<Rightarrow> f64" where
  "verdict_to_exposure verdicts p =
     (if list_ex (\<lambda>v. rejected v \<and> verdict_axiom v = graph_axiom_of p) verdicts then Num 1 else Zero False)"

section \<open>Declaration and compilation\<close>

definition transition_error :: "string \<Rightarrow> protocol_state \<Rightarrow> protocol_error" where
  "transition_error expected st = InvalidStateTransition expected (state_name st)"

definition check_phantom :: "(string, graph_violation) bmap \<Rightarrow> declared_sacrifice \<Rightarrow> protocol_error + unit" where
  "check_phantom violations s =
     (if \<not> bm_has violations (as_str (ds_property s)) then Inl (PhantomSacrifice (as_str (ds_property s))) else Inr ())"

definition declare_with_metadata ::
  "protocol_env \<Rightarrow> clock \<Rightarrow> governance_graph \<Rightarrow> declared_sacrifice list \<Rightarrow> string \<Rightarrow> string \<Rightarrow> protocol_state protocol_result" where
  "declare_with_metadata env now g sacrifices graph_name graph_version =
     (let claims = synthetic_claims g in
      rbind (evaluate_graph env g claims) (\<lambda>evaluation.
      rbind (raise (rfold (\<lambda>_. check_phantom (ge_violations evaluation)) () sacrifices)) (\<lambda>_.
      rbind (raise (lift_error (iso8601_timestamp now))) (\<lambda>timestamp.
        Inr (Declared g sacrifices
          \<lparr>gd_protocol_version = CARGO_PKG_VERSION, gd_timestamp = timestamp, gd_graph_name = graph_name,
           gd_graph_version = graph_version, gd_graph = g, gd_sacrifices = sacrifices, gd_spectral_gap = spectral_gap g,
           gd_cv_bound = consistency_vulnerability_bound g claims\<rparr>)))))"

definition declare_graph ::
  "protocol_env \<Rightarrow> clock \<Rightarrow> governance_graph \<Rightarrow> declared_sacrifice list \<Rightarrow> protocol_state protocol_result" where
  "declare_graph env now g sacrifices = declare_with_metadata env now g sacrifices ''spectral-governance'' CARGO_PKG_VERSION"

definition certify_sacrifice :: "(string, graph_violation) bmap \<Rightarrow> declared_sacrifice \<Rightarrow> sacrifice_certificate" where
  "certify_sacrifice violations s =
     (case bm_get violations (as_str (ds_property s)) of
        Some vn \<Rightarrow>
          \<lparr>sc_property = ds_property s, sc_impact_bound = gv_actual_magnitude vn,
           sc_source_axiom = gv_source_axiom vn, sc_witness = gv_witness vn,
           sc_monitoring_specs = map (\<lambda>spec. spec\<lparr>ms_threshold := gv_actual_magnitude vn\<rparr>) (ds_monitoring_specs s)\<rparr>
      | None \<Rightarrow>
          \<lparr>sc_property = ds_property s, sc_impact_bound = Zero False, sc_source_axiom = as_str (ds_property s),
           sc_witness = Message (ds_justification s) [], sc_monitoring_specs = ds_monitoring_specs s\<rparr>)"

definition unsacrificed_properties ::
  "(string, graph_violation) bmap \<Rightarrow> declared_sacrifice list \<Rightarrow> governance_property list" where
  "unsacrificed_properties violations sacrifices =
     List.map_filter property_from_str
       (filter (\<lambda>p. p \<notin> set (property_names (map ds_property sacrifices))) (bm_keys violations))"

text \<open>Every transition ends by validating the state it has built.\<close>

definition validated :: "protocol_env \<Rightarrow> protocol_state \<Rightarrow> protocol_state protocol_result" where
  "validated env st = rbind (raise (state_validate (pe_hash env) st)) (\<lambda>_. Inr st)"

definition compile_declared ::
  "protocol_env \<Rightarrow> clock \<Rightarrow> governance_graph \<Rightarrow> declared_sacrifice list \<Rightarrow> governance_declaration \<Rightarrow> protocol_state protocol_result" where
  "compile_declared env now g sacrifices declaration =
     rbind (evaluate_graph env g (synthetic_claims g)) (\<lambda>evaluation.
       let unsacrificed = unsacrificed_properties (ge_violations evaluation) sacrifices in
       if unsacrificed \<noteq> [] then Inl (Raised (UnsacrificedViolations unsacrificed))
       else
         rbind (raise (canonical_compiled_rule_hash (pe_hash env) g (ge_axiom_verdicts evaluation) (ge_strategyproofness evaluation)))
           (\<lambda>compiled_rule_hash.
         rbind (raise (lift_error (iso8601_timestamp now))) (\<lambda>compiled_at.
           validated env (Compiled
             \<lparr>cg_name = gd_graph_name declaration, cg_version = gd_graph_version declaration, cg_graph = g,
              cg_axiom_verdicts = ge_axiom_verdicts evaluation, cg_strategyproofness = ge_strategyproofness evaluation,
              cg_compiled_rule_hash = compiled_rule_hash, cg_compiled_at = compiled_at\<rparr>
             (map (certify_sacrifice (ge_violations evaluation)) sacrifices) declaration))))"

definition compile_state :: "protocol_env \<Rightarrow> clock \<Rightarrow> protocol_state \<Rightarrow> protocol_state protocol_result" where
  "compile_state env now declared =
     rbind (raise (state_validate (pe_hash env) declared)) (\<lambda>_.
       case declared of
         Declared g sacrifices declaration \<Rightarrow> compile_declared env now g sacrifices declaration
       | other \<Rightarrow> Inl (Raised (transition_error ''declared'' other)))"

section \<open>Measurement and activation\<close>

definition measured_exposure :: "graph_evaluation \<Rightarrow> factor_exposure" where
  "measured_exposure evaluation =
     \<lparr>fe_consistency = verdict_to_exposure (ge_axiom_verdicts evaluation) Consistency,
      fe_solidarity = verdict_to_exposure (ge_axiom_verdicts evaluation) Solidarity,
      fe_monotonicity = verdict_to_exposure (ge_axiom_verdicts evaluation) Monotonicity,
      fe_strategyproofness = strategyproofness_exposure (ge_strategyproofness evaluation),
      fe_nonvacuity = verdict_to_exposure (ge_axiom_verdicts evaluation) NonVacuousProperty\<rparr>"

definition measure_state ::
  "protocol_env \<Rightarrow> protocol_state \<Rightarrow> governance_claim list \<Rightarrow> protocol_state protocol_result" where
  "measure_state env compiled representative_claims =
     rbind (raise (state_validate (pe_hash env) compiled)) (\<lambda>_.
       case compiled of
         Compiled cg certs declaration \<Rightarrow>
           rbind (evaluate_graph env (cg_graph cg) representative_claims) (\<lambda>evaluation.
             let exposure = measured_exposure evaluation;
                 report = \<lparr>rr_factor_exposure = exposure, rr_spectral_gap = spectral_gap (cg_graph cg),
                   rr_cv_bound = consistency_vulnerability_bound (cg_graph cg) representative_claims,
                   rr_localizability_bound = localizability_bound (cg_graph cg) representative_claims\<rparr>
             in validated env (Measured report exposure cg certs declaration representative_claims))
       | other \<Rightarrow> Inl (Raised (transition_error ''compiled'' other)))"

definition default_ledger :: protocol_ledger where
  "default_ledger = \<lparr>pl_certificates = [], pl_drift_alerts = [], pl_head_hash = None\<rparr>"

definition activate_state :: "protocol_env \<Rightarrow> protocol_state \<Rightarrow> monitor_config \<Rightarrow> protocol_state protocol_result" where
  "activate_state env measured config =
     rbind (raise (state_validate (pe_hash env) measured)) (\<lambda>_.
       case measured of
         Measured report exposure cg certs declaration representative_claims \<Rightarrow>
           validated env (Live
             \<lparr>mo_compiled_graph = cg, mo_sacrifice_certs = certs,
              mo_monitored_properties = non_sacrificed_monitoring_properties certs,
              mo_representative_claims = representative_claims,
              mo_interval_seconds = randomized_interval config (rr_spectral_gap report) (fe_consistency exposure),
              mo_monitor_config = config\<rparr> default_ledger declaration)
       | other \<Rightarrow> Inl (Raised (transition_error ''measured'' other)))"

section \<open>Decisions and drift\<close>

definition merge_representative_claims ::
  "governance_claim list \<Rightarrow> governance_claim \<Rightarrow> governance_claim list" where
  "merge_representative_claims representative_claims c =
     filter (\<lambda>existing. claimant_id existing \<noteq> claimant_id c) representative_claims @ [c]"

text \<open>The certificates by property; of two with the same property the later one is kept.\<close>

definition certs_by_property :: "sacrifice_certificate list \<Rightarrow> (string, sacrifice_certificate) bmap" where
  "certs_by_property certs = fold (\<lambda>c. bm_insert (as_str (sc_property c)) c) certs []"

definition drift_step ::
  "(string, sacrifice_certificate) bmap \<Rightarrow> drift_alert list \<Rightarrow> string \<times> graph_violation \<Rightarrow> protocol_error + drift_alert list" where
  "drift_step by_property alerts pv =
     (let (p, vn) = pv;
          declared_bound = (case bm_get by_property p of Some cert \<Rightarrow> sc_impact_bound cert | None \<Rightarrow> Zero False) in
      if f64_lt (f64_add declared_bound EPSILON) (gv_actual_magnitude vn) then
        rbind (option_ok (LegitimacyFailure (invalid_input (''detect_drift_alerts: unknown governance property '{}'' @ [CHR 0x27]) [AStr p]))
            (property_from_str p)) (\<lambda>prop.
          Inr (alerts @ [\<lparr>da_alert_type = (if bm_has by_property p then ''bound_breach'' else ''undeclared_violation''),
            da_property = prop, da_declared_bound = declared_bound, da_actual_magnitude = gv_actual_magnitude vn,
            da_evidence = [(''witness'', gv_witness vn)],
            da_recommended_action = ''propose revision and recompile''\<rparr>]))
      else Inr alerts)"

definition detect_drift_alerts ::
  "protocol_env \<Rightarrow> monitor_session \<Rightarrow> governance_claim list \<Rightarrow> drift_alert list protocol_result" where
  "detect_drift_alerts env session cs =
     rbind (evaluate_graph env (cg_graph (mo_compiled_graph session)) cs) (\<lambda>evaluation.
       raise (rfold (drift_step (certs_by_property (mo_sacrifice_certs session))) [] (pe_order env (ge_violations evaluation))))"

definition decision_evidence :: "monitor_session \<Rightarrow> (string, string) bmap" where
  "decision_evidence session =
     [(''graph_edges'', show_nat (length (edges (cg_graph (mo_compiled_graph session))))),
      (''graph_nodes'', show_nat (length (nodes (cg_graph (mo_compiled_graph session))))),
      (''interval_seconds'', show_nat (unat (mo_interval_seconds session)))]"

definition certify_decision ::
  "monitor_session \<Rightarrow> protocol_ledger \<Rightarrow> string \<Rightarrow> decision \<Rightarrow> string \<Rightarrow> promotion_certificate" where
  "certify_decision session l k d timestamp =
     \<lparr>pc_rule_name = cg_name (mo_compiled_graph session), pc_claimant_id = k, pc_decision = d, pc_outcome_verified = True,
      pc_evidence = decision_evidence session, pc_compiled_rule_hash = cg_compiled_rule_hash (mo_compiled_graph session),
      pc_prev_cert_hash = pl_head_hash l, pc_timestamp = timestamp\<rparr>"

definition check_live_decision ::
  "protocol_env \<Rightarrow> clock \<Rightarrow> monitor_session \<Rightarrow> protocol_ledger \<Rightarrow> governance_declaration \<Rightarrow> governance_claim
     \<Rightarrow> (protocol_state \<times> promotion_certificate) protocol_result" where
  "check_live_decision env now session l declaration c =
     (let claims = merge_representative_claims (mo_representative_claims session) c in
      rbind (lift_fault (traverse (pe_regex env) (cg_graph (mo_compiled_graph session)) claims)) (\<lambda>traversal.
      rbind (raise (option_ok (MissingDecision (claimant_id c)) (bm_get (final_decisions traversal) (claimant_id c)))) (\<lambda>decision.
      rbind (raise (lift_error (iso8601_timestamp now))) (\<lambda>timestamp.
        let certificate = certify_decision session l (claimant_id c) decision timestamp in
        rbind (raise (protocol_certificate_hash (pe_hash env) certificate)) (\<lambda>head.
        rbind (detect_drift_alerts env session claims) (\<lambda>alerts.
        rbind (validated env (Live (session\<lparr>mo_representative_claims := claims\<rparr>)
            \<lparr>pl_certificates = pl_certificates l @ [certificate], pl_drift_alerts = pl_drift_alerts l @ alerts,
             pl_head_hash = Some head\<rparr> declaration)) (\<lambda>st.
          Inr (st, certificate))))))))"

definition check_decision ::
  "protocol_env \<Rightarrow> clock \<Rightarrow> protocol_state \<Rightarrow> governance_claim \<Rightarrow> (protocol_state \<times> promotion_certificate) protocol_result" where
  "check_decision env now live c =
     rbind (raise (state_validate (pe_hash env) live)) (\<lambda>_.
       case live of
         Live session l declaration \<Rightarrow> check_live_decision env now session l declaration c
       | other \<Rightarrow> Inl (Raised (transition_error ''live'' other)))"

definition report_drift :: "protocol_env \<Rightarrow> protocol_state \<Rightarrow> drift_alert \<Rightarrow> protocol_state protocol_result" where
  "report_drift env live alert =
     rbind (raise (state_validate (pe_hash env) live)) (\<lambda>_.
       case live of
         Live session l declaration \<Rightarrow>
           validated env (Drifted alert session (l\<lparr>pl_drift_alerts := pl_drift_alerts l @ [alert]\<rparr>) declaration)
       | other \<Rightarrow> Inl (Raised (transition_error ''live'' other)))"

definition propose_revision ::
  "protocol_env \<Rightarrow> protocol_state \<Rightarrow> governance_graph \<Rightarrow> declared_sacrifice list \<Rightarrow> protocol_state protocol_result" where
  "propose_revision env drifted new_graph revised_sacrifices =
     rbind (raise (state_validate (pe_hash env) drifted)) (\<lambda>_.
       case drifted of
         Drifted alert session l declaration \<Rightarrow> validated env (Recompiling new_graph revised_sacrifices declaration)
       | other \<Rightarrow> Inl (Raised (transition_error ''drifted'' other)))"

definition recompile :: "protocol_env \<Rightarrow> clock \<Rightarrow> clock \<Rightarrow> protocol_state \<Rightarrow> protocol_state protocol_result" where
  "recompile env now now' recompiling =
     rbind (raise (state_validate (pe_hash env) recompiling)) (\<lambda>_.
       case recompiling of
         Recompiling proposed_graph sacrifices declaration \<Rightarrow>
           rbind (declare_with_metadata env now proposed_graph sacrifices (gd_graph_name declaration) (gd_graph_version declaration))
             (\<lambda>declared. compile_state env now' declared)
       | other \<Rightarrow> Inl (Raised (transition_error ''recompiling'' other)))"

section \<open>Lemmas: what an evaluation yields\<close>

lemma lift_fault_Inr [result_simps]: "lift_fault r = Inr x \<longleftrightarrow> r = Inr x"
  by (cases r) (simp_all add: lift_fault_def)

lemma kernel_check_Inr [result_simps]:
  "kernel_check r = Inr v \<longleftrightarrow> (\<exists>a. r = Inr a \<and> require_protocol_kernel_verdict a = Inr v)"
  by (auto simp: kernel_check_def result_simps)

lemma diag_loop_axiom:
  assumes "rbind (rloop f s xs) (diag_verdict axm) = Inr v"
    and "\<And>u x w. f u x = Inr (Inl w) \<Longrightarrow> verdict_axiom w = axm"
  shows "verdict_axiom v = axm"
proof -
  from assms(1) obtain r where r: "rloop f s xs = Inr r" "diag_verdict axm r = Inr v" by (auto simp: result_simps)
  show ?thesis
  proof (cases r)
    case (Inl w)
    with r rloop_return [of f s xs w] assms(2) show ?thesis by auto
  qed (use r in auto)
qed

lemma forwarded_return:
  "(case r of Inl v \<Rightarrow> Inr (Inl v) | Inr t \<Rightarrow> Inr (Inr (h t))) = Inr (Inl w) \<longleftrightarrow> r = Inl w"
  by (cases r) auto

lemma consistency_axiom: "check_graph_consistency rx g cs = Inr v \<Longrightarrow> verdict_axiom v = ''graph consistency''"
  unfolding check_graph_consistency_def rbind_Inr_iff
proof (elim exE conjE)
  fix base r assume "rloop (consistency_removal rx g cs base) 0 [0..<length cs] = Inr r" "diag_verdict ''graph consistency'' r = Inr v"
  then have "rbind (rloop (consistency_removal rx g cs base) 0 [0..<length cs]) (diag_verdict ''graph consistency'') = Inr v" by simp
  then show "verdict_axiom v = ''graph consistency''"
  proof (rule diag_loop_axiom)
    fix u x w assume "consistency_removal rx g cs base u x = Inr (Inl w)"
    then obtain red d a u' c where "consistency_claim base red (remove_index x cs) d a u' c = Inr (Inl w)"
      unfolding consistency_removal_def Let_def by (auto simp: result_simps forwarded_return dest: rloop_return)
    then show "verdict_axiom w = ''graph consistency''"
      by (auto simp: consistency_claim_def result_simps split: if_split_asm dest!: rejection_Inr)
  qed
qed

lemma solidarity_axiom: "check_graph_solidarity rx g cs shocks = Inr v \<Longrightarrow> verdict_axiom v = ''graph solidarity''"
  unfolding check_graph_solidarity_def rbind_Inr_iff
proof (elim exE conjE)
  fix base r assume "rloop (solidarity_shock rx g cs base) 0 shocks = Inr r" "diag_verdict ''graph solidarity'' r = Inr v"
  then have "rbind (rloop (solidarity_shock rx g cs base) 0 shocks) (diag_verdict ''graph solidarity'') = Inr v" by simp
  then show "verdict_axiom v = ''graph solidarity''"
  proof (rule diag_loop_axiom)
    fix u x w assume "solidarity_shock rx g cs base u x = Inr (Inl w)"
    then obtain ids f sc d a u' m where "solidarity_group base ids f sc d a u' m = Inr (Inl w)"
      unfolding solidarity_shock_def rbind_Inr_iff if_Inl_Inr by (auto split: if_split_asm simp: result_simps forwarded_return dest: rloop_return)
    then show "verdict_axiom w = ''graph solidarity''"
      by (auto simp: solidarity_group_def result_simps split: if_split_asm prod.split_asm dest!: rejection_Inr)
  qed
qed

lemma monotonicity_axiom:
  "monotonicity_check_via_polarity_schema rx g cs deltas schema = Inr v \<Longrightarrow> verdict_axiom v = ''graph monotonicity''"
  unfolding monotonicity_check_via_polarity_schema_def rbind_Inr_iff
proof (elim exE conjE)
  have index: "verdict_axiom w = ''graph monotonicity''"
    if "monotonicity_index desc viol rx g cs base delta d u i = Inr (Inl w)" for desc viol base delta d u i w
  proof -
    from that obtain s cl de a u' k where "monotonicity_claimant desc viol base delta s cl de a u' k = Inr (Inl w)"
      unfolding monotonicity_index_def by (auto simp: result_simps forwarded_return dest: rloop_return)
    then show ?thesis by (auto simp: monotonicity_claimant_def result_simps split: if_split_asm dest!: rejection_Inr)
  qed
  fix base r assume "rloop (monotonicity_delta schema rx g cs base) 0 deltas = Inr r" "diag_verdict ''graph monotonicity'' r = Inr v"
  then have "rbind (rloop (monotonicity_delta schema rx g cs base) 0 deltas) (diag_verdict ''graph monotonicity'') = Inr v" by simp
  then show "verdict_axiom v = ''graph monotonicity''"
  proof (rule diag_loop_axiom)
    fix u x w assume "monotonicity_delta schema rx g cs base u x = Inr (Inl w)"
    then show "verdict_axiom w = ''graph monotonicity''"
      using index by (auto simp: monotonicity_delta_def Let_def split: if_split_asm option.split_asm audit_metric_polarity.split_asm
          dest!: rloop_return)
  qed
qed

lemma nonvacuity_rejection_Inr: "nonvacuity_rejection cs desc viol nt = Inr v \<Longrightarrow> \<exists>ce. v = Fail NonVacuous desc ce"
  by (auto simp: nonvacuity_rejection_def result_simps)

lemma nonvacuity_axiom:
  assumes "check_graph_nonvacuity rx g cs [] = Inr a" and "require_protocol_kernel_verdict a = Inr v"
  shows "verdict_axiom v = ''graph nonvacuity''"
proof -
  have "(\<exists>n. a = Pass NonVacuous n) \<or> (\<exists>desc ce. a = Fail NonVacuous desc ce)"
    using assms(1)
    by (auto simp: check_graph_nonvacuity_def nonvacuity_traversal_def Let_def result_simps
        split: if_split_asm sum.split_asm prod.split_asm dest!: nonvacuity_rejection_Inr)
  with assms(2) show ?thesis by auto
qed

lemma consistency_traverses:
  "check_graph_consistency rx g cs = Inr v \<Longrightarrow> \<exists>f. traverse_final_decisions rx g cs = Inr f"
  by (auto simp: check_graph_consistency_def result_simps dest: baseline_Inr)

lemma final_traverse: "traverse_final_decisions rx g cs = Inr f \<Longrightarrow> \<exists>r. traverse rx g cs = Inr r \<and> final_decisions r = f"
  by (auto simp: traverse_final_decisions_def traverse_def traverse_claims_uncaptured result_simps split: prod.splits)

lemma certifiability_verdict:
  assumes "well_linked g" and "traverse_final_decisions rx g cs = Inr f"
    and "check_graph_certifiability rx g cs = Inr a"
  shows "\<exists>n. a = Pass Certifiable n"
proof -
  obtain r where r: "traverse rx g cs = Inr r" using final_traverse [OF assms(2)] by blast
  note ok = final_valid [OF assms(1,2)]
  have "validate_governance_graph rx g = Inr ()"
    using assms(3) ok(2) acyclic_no_cycles [OF assms(1) ok(1)]
    by (auto simp: check_graph_certifiability_def result_simps)
  from certifiability_passes [OF this _ r] assms(1,3) show ?thesis by (simp add: well_linked_def)
qed

text \<open>An evaluation that returns: the graph is acyclic and small enough for the exhaustive check, the
  three structural axioms and determinacy are admitted, each verdict carries the name of its axiom.\<close>

lemma evaluate_graph_Inr:
  assumes "well_linked g" and "evaluate_graph env g cs = Inr ev"
  obtains f con sol mon nv a b c d where
    "traverse_final_decisions (pe_regex env) g cs = Inr f"
    "check_graph_consistency (pe_regex env) g cs = Inr con" "check_graph_nonvacuity (pe_regex env) g cs [] = Inr nv"
    "ge_axiom_verdicts ev = [con, sol, mon, Admissible ''graph certifiability'' a, Admissible ''graph observable determinacy'' b,
       Admissible ''graph corrigibility'' c, Admissible ''graph compositional safety'' d,
       projr (require_protocol_kernel_verdict nv)]"
    "verdict_axiom con = ''graph consistency''" "verdict_axiom sol = ''graph solidarity''"
    "verdict_axiom mon = ''graph monotonicity''" "verdict_axiom (projr (require_protocol_kernel_verdict nv)) = ''graph nonvacuity''"
    "check_graph_strategyproofness_verdict (pe_regex env) g cs = Inr (ge_strategyproofness ev)"
    "ge_violations ev = record_manipulation (ge_strategyproofness ev) (fold record_rejection (ge_axiom_verdicts ev) [])"
    "length (nodes g) \<le> EXHAUSTIVE_OBSERVABLE_NODE_LIMIT"
    "card {order. topological g order} \<le> EXHAUSTIVE_OBSERVABLE_ORDER_LIMIT"
proof -
  let ?rx = "pe_regex env"
  from assms(2) obtain con sol mon ce obs cor com nv v1 v2 v3 v4 v5 sp where
    checks: "check_graph_consistency ?rx g cs = Inr con" "check_graph_solidarity ?rx g cs (graph_shocks cs) = Inr sol"
      "monotonicity_check_via_polarity_schema ?rx g cs (graph_deltas cs) AUDIT_METRIC_POLARITY_SCHEMA = Inr mon"
      "check_graph_certifiability ?rx g cs = Inr ce" "check_graph_observable_determinacy ?rx g cs = Inr obs"
      "check_graph_corrigibility ?rx g cs = Inr cor" "check_graph_compositional_safety ?rx g cs = Inr com"
      "check_graph_nonvacuity ?rx g cs [] = Inr nv" "check_graph_strategyproofness_verdict ?rx g cs = Inr sp"
    and verdicts: "require_protocol_kernel_verdict ce = Inr v1" "require_protocol_kernel_verdict obs = Inr v2"
      "require_protocol_kernel_verdict cor = Inr v3" "require_protocol_kernel_verdict com = Inr v4"
      "require_protocol_kernel_verdict nv = Inr v5"
    and ev: "ev = \<lparr>ge_axiom_verdicts = [con, sol, mon, v1, v2, v3, v4, v5], ge_strategyproofness = sp,
        ge_violations = record_manipulation sp (fold record_rejection [con, sol, mon, v1, v2, v3, v4, v5] [])\<rparr>"
    unfolding evaluate_graph_def Let_def result_simps by blast
  obtain f where f: "traverse_final_decisions ?rx g cs = Inr f" using consistency_traverses [OF checks(1)] by blast
  note ok = final_valid [OF assms(1) f]
  obtain n1 where "ce = Pass Certifiable n1" using certifiability_verdict [OF assms(1) f checks(4)] by blast
  with verdicts(1) have v1: "v1 = Admissible ''graph certifiability'' n1" by auto
  have "cor = Pass Corrigible 3" using corrigibility_passes [OF assms(1) ok, of ?rx] checks(6) by simp
  with verdicts(3) have v3: "v3 = Admissible ''graph corrigibility'' 3" by auto
  have "com = Pass CompositionalSafety (length cs)" using compositional_passes [OF assms(1) f] checks(7) by simp
  with verdicts(4) have v4: "v4 = Admissible ''graph compositional safety'' (length cs)" by auto
  have small: "length (nodes g) \<le> EXHAUSTIVE_OBSERVABLE_NODE_LIMIT \<and> card {order. topological g order} \<le> EXHAUSTIVE_OBSERVABLE_ORDER_LIMIT"
    using observable_passes [OF assms(1) f] checks(5) verdicts(2) by (auto split: if_split_asm)
  then have "obs = Pass Observable (card {order. topological g order})"
    using observable_passes [OF assms(1) f] checks(5) by simp
  with verdicts(2) have v2: "v2 = Admissible ''graph observable determinacy'' (card {order. topological g order})" by auto
  have v5: "projr (require_protocol_kernel_verdict nv) = v5" using verdicts(5) by simp
  show ?thesis
    by (rule that [OF f checks(1,8)])
      (use ev v1 v2 v3 v4 v5 small checks consistency_axiom [OF checks(1)] solidarity_axiom [OF checks(2)]
        monotonicity_axiom [OF checks(3)] nonvacuity_axiom [OF checks(8) verdicts(5)] in simp_all)
qed

section \<open>Lemmas: the violations\<close>

lemma property_for_axiom_of: "property_for_axiom (graph_axiom_of p) = Some p"
  by (cases p) (simp_all add: graph_axiom_of_def property_for_axiom_def)

lemma property_for_axiom_Some: "property_for_axiom axm = Some p \<longleftrightarrow> axm = graph_axiom_of p"
  using property_for_axiom_of [of p] by (auto simp: property_for_axiom_def graph_axiom_of_def split: if_split_asm)

lemma property_from_as_str: "property_from_str (as_str p) = Some p"
  by (cases p) (simp_all add: property_from_str_def)

lemma graph_axiom_of_inj [simp]: "graph_axiom_of p = graph_axiom_of q \<longleftrightarrow> p = q"
  by (metis property_for_axiom_of option.inject)

lemma record_rejection_get:
  "bm_get (record_rejection v m) k =
     (if rejected v \<and> (\<exists>p. as_str p = k \<and> verdict_axiom v = graph_axiom_of p)
      then Some \<lparr>gv_source_axiom = verdict_axiom v, gv_actual_magnitude = counterexample_magnitude (verdict_counterexample v),
        gv_witness = description (verdict_counterexample v)\<rparr>
      else bm_get m k)"
proof (cases v)
  case (Rejected axm ce)
  show ?thesis
  proof (cases "property_for_axiom axm")
    case None
    then have "\<not> (\<exists>p. axm = graph_axiom_of p)" by (metis property_for_axiom_of option.distinct(1))
    with Rejected None show ?thesis by auto
  next
    case (Some p)
    then have "axm = graph_axiom_of p" by (simp add: property_for_axiom_Some)
    with Rejected Some show ?thesis by auto
  qed
qed simp

lemma record_rejection_has:
  "bm_has (record_rejection v m) k \<longleftrightarrow> bm_has m k \<or> rejected v \<and> (\<exists>p. as_str p = k \<and> verdict_axiom v = graph_axiom_of p)"
  unfolding bm_has_get record_rejection_get by auto

lemma record_rejection_wf: "bm_wf m \<Longrightarrow> bm_wf (record_rejection v m)"
  by (cases v) (auto split: option.split)

lemma rejections_wf: "bm_wf m \<Longrightarrow> bm_wf (fold record_rejection vs m)"
  by (induction vs arbitrary: m) (simp_all add: record_rejection_wf)

lemma rejections_has:
  "bm_has (fold record_rejection vs m) k \<longleftrightarrow>
     bm_has m k \<or> (\<exists>v \<in> set vs. rejected v \<and> (\<exists>p. as_str p = k \<and> verdict_axiom v = graph_axiom_of p))"
  by (induction vs arbitrary: m) (auto simp: record_rejection_has)

definition violated :: "graph_evaluation \<Rightarrow> governance_property \<Rightarrow> bool" where
  "violated ev p \<longleftrightarrow> (\<exists>v \<in> set (ge_axiom_verdicts ev). rejected v \<and> verdict_axiom v = graph_axiom_of p)
     \<or> p = Strategyproofness \<and> ge_strategyproofness ev \<noteq> Strategyproof"

lemma sp_witness_None: "strategyproofness_witness_of sp = None \<longleftrightarrow> sp = Strategyproof"
  by (cases sp) simp_all

lemma violations_has:
  assumes "evaluate_graph env g cs = Inr ev"
  shows "bm_wf (ge_violations ev)" and "bm_has (ge_violations ev) k \<longleftrightarrow> (\<exists>p. k = as_str p \<and> violated ev p)"
proof -
  let ?m = "fold record_rejection (ge_axiom_verdicts ev) []"
  have v: "ge_violations ev = record_manipulation (ge_strategyproofness ev) ?m"
    using assms unfolding evaluate_graph_def Let_def result_simps by auto
  show "bm_wf (ge_violations ev)" by (simp add: v rejections_wf record_manipulation_def split: option.split)
  have "bm_has (ge_violations ev) k \<longleftrightarrow> bm_has ?m k \<or> ge_strategyproofness ev \<noteq> Strategyproof \<and> k = as_str Strategyproofness"
    by (cases "strategyproofness_witness_of (ge_strategyproofness ev)")
      (auto simp: v record_manipulation_def sp_witness_None [symmetric] split: option.split)
  then show "bm_has (ge_violations ev) k \<longleftrightarrow> (\<exists>p. k = as_str p \<and> violated ev p)"
    unfolding violated_def rejections_has by (auto simp del: as_str.simps simp: bm_has_def)
qed

end
