(* ===== verification/Protocol_Properties.thy ===== *)
theory Protocol_Properties
  imports Protocol_Transitions
begin

text \<open>
  What the transitions of the protocol guarantee: which properties an evaluation can find
  violated, when a declared graph compiles and what its certificates bound, and which drift
  alerts a decision raises. The alerts are exact for any iteration order of the hash map of
  violations; one violation, a graph that denies everything, never raises one.
\<close>

section \<open>The violations of an evaluation\<close>

lemma violated_names:
  assumes "well_linked g" and "evaluate_graph env g cs = Inr ev"
  shows "map verdict_axiom (ge_axiom_verdicts ev) = REQUIRED_AXIOMS"
    and "violated ev p \<Longrightarrow> p \<in> {Consistency, Solidarity, Monotonicity, NonVacuousProperty, Strategyproofness}"
proof -
  show "map verdict_axiom (ge_axiom_verdicts ev) = REQUIRED_AXIOMS"
    by (rule evaluate_graph_Inr [OF assms]) (simp add: REQUIRED_AXIOMS_def)
  have admitted: "\<not> rejected v" if "v \<in> set (ge_axiom_verdicts ev)" "verdict_axiom v \<in> {''graph certifiability'',
      ''graph observable determinacy'', ''graph corrigibility'', ''graph compositional safety''}" for v
    by (rule evaluate_graph_Inr [OF assms]) (use that in auto)
  assume "violated ev p"
  with admitted show "p \<in> {Consistency, Solidarity, Monotonicity, NonVacuousProperty, Strategyproofness}"
    by (cases p) (auto simp: violated_def graph_axiom_of_def)
qed

text \<open>On a well-formed graph an evaluation that returns carries one verdict for each of the eight
  axioms, in their order, and its violations are exactly the rejected axioms and the
  manipulations. Of the nine properties only five can be violated: certifiability,
  determinacy, corrigibility and compositional safety are admitted whenever an evaluation
  returns at all.\<close>

lemma evaluation_violations:
  assumes "well_linked g" and "evaluate_graph env g cs = Inr ev"
  shows "map verdict_axiom (ge_axiom_verdicts ev) = REQUIRED_AXIOMS
    \<and> (\<forall>k. bm_has (ge_violations ev) k \<longleftrightarrow> (\<exists>p. k = as_str p \<and> violated ev p))
    \<and> {p. violated ev p} \<subseteq> {Consistency, Solidarity, Monotonicity, NonVacuousProperty, Strategyproofness}"
  using violated_names [OF assms] violations_has [OF assms(2)] by blast

section \<open>Declaring and compiling\<close>

lemma unsacrificed_none:
  assumes "bm_wf m" and "\<And>k. bm_has m k \<Longrightarrow> \<exists>p. k = as_str p"
  shows "unsacrificed_properties m ss = [] \<longleftrightarrow> (\<forall>p. bm_has m (as_str p) \<longrightarrow> p \<in> ds_property ` set ss)"
proof -
  have "unsacrificed_properties m ss = [] \<longleftrightarrow>
      (\<forall>k. bm_has m k \<and> k \<notin> as_str ` ds_property ` set ss \<longrightarrow> property_from_str k = None)"
    by (auto simp: unsacrificed_properties_def List.map_filter_def filter_empty_conv bm_has_def)
  also have "\<dots> \<longleftrightarrow> (\<forall>p. bm_has m (as_str p) \<longrightarrow> as_str p \<in> as_str ` ds_property ` set ss)"
    using assms(2) property_from_as_str by (metis option.distinct(1))
  finally show ?thesis by (simp add: inj_image_mem_iff inj_def)
qed

lemma declared_evaluates:
  assumes "declare_with_metadata env now g ss nm ver = Inr st"
  obtains ev d where "evaluate_graph env g (synthetic_claims g) = Inr ev" "st = Declared g ss d" "gd_sacrifices d = ss"
    "gd_graph d = g" "gd_graph_name d = nm" "gd_graph_version d = ver"
    "\<forall>s \<in> set ss. bm_has (ge_violations ev) (as_str (ds_property s))"
  using assms unfolding declare_with_metadata_def Let_def
  by (auto simp: result_simps rfold_unit_Inr check_phantom_def split: if_split_asm)

lemma validated_Inr [result_simps]: "validated env st = Inr st' \<longleftrightarrow> st' = st \<and> state_validate (pe_hash env) st = Inr ()"
  by (auto simp: validated_def result_simps)

lemma compile_declared_Inr:
  assumes "evaluate_graph env g (synthetic_claims g) = Inr ev" and "compile_declared env now g ss d = Inr st"
  obtains cg where "st = Compiled cg (map (certify_sacrifice (ge_violations ev)) ss) d"
    "cg_graph cg = g" "cg_name cg = gd_graph_name d" "cg_version cg = gd_graph_version d"
    "cg_axiom_verdicts cg = ge_axiom_verdicts ev" "cg_strategyproofness cg = ge_strategyproofness ev"
    "unsacrificed_properties (ge_violations ev) ss = []" "state_validate (pe_hash env) st = Inr ()"
  using assms(2) unfolding compile_declared_def assms(1) Let_def
  by (auto simp: result_simps split: if_split_asm)

lemma sacrifice_property [simp]: "sc_property (certify_sacrifice m s) = ds_property s"
  by (simp add: certify_sacrifice_def split: option.split)

lemma sacrifice_magnitude:
  "bm_get m (as_str (ds_property s)) = Some vn \<Longrightarrow> sc_impact_bound (certify_sacrifice m s) = gv_actual_magnitude vn"
  by (simp add: certify_sacrifice_def)

lemma compile_sacrifices:
  assumes "declare_with_metadata env now g ss nm ver = Inr declared" and "compile_state env now' declared = Inr st"
  obtains ev cg certs d where "evaluate_graph env g (synthetic_claims g) = Inr ev" "st = Compiled cg certs d"
    "cg_graph cg = g" "gd_sacrifices d = ss" "map sc_property certs = map ds_property ss" "distinct (map ds_property ss)"
    "ds_property ` set ss = {p. violated ev p}"
    "\<forall>s \<in> set certs. \<exists>vn. bm_get (ge_violations ev) (as_str (sc_property s)) = Some vn
       \<and> sc_impact_bound s = gv_actual_magnitude vn \<and> \<not> invalid_measure (sc_impact_bound s)"
proof -
  obtain ev d where ev: "evaluate_graph env g (synthetic_claims g) = Inr ev" "declared = Declared g ss d"
      "gd_sacrifices d = ss" and used: "\<forall>s \<in> set ss. bm_has (ge_violations ev) (as_str (ds_property s))"
    by (rule declared_evaluates [OF assms(1)])
  from assms(2) have "compile_declared env now' g ss d = Inr st" by (simp add: compile_state_def ev(2) result_simps)
  from compile_declared_Inr [OF ev(1) this] obtain cg where
    st: "st = Compiled cg (map (certify_sacrifice (ge_violations ev)) ss) d" "cg_graph cg = g"
    and none: "unsacrificed_properties (ge_violations ev) ss = []" and ok: "state_validate (pe_hash env) st = Inr ()"
    by blast
  let ?certs = "map (certify_sacrifice (ge_violations ev)) ss"
  have certs: "certificates_ok ?certs ss"
    using ok by (simp add: st(1) state_validate_def rbind_Inr_iff validation_iffs ev(3))
  note has = violations_has [OF ev(1)]
  have all: "ds_property ` set ss = {p. violated ev p}"
    using none used unsacrificed_none [OF has(1), of ss] has(2) by auto
  have names: "map sc_property ?certs = map ds_property ss" by simp
  have "distinct (map ds_property ss)" using certs unfolding certificates_ok_def names by simp
  moreover have "\<exists>vn. bm_get (ge_violations ev) (as_str (sc_property c)) = Some vn
       \<and> sc_impact_bound c = gv_actual_magnitude vn \<and> \<not> invalid_measure (sc_impact_bound c)" if c: "c \<in> set ?certs" for c
  proof -
    from c obtain s where s: "s \<in> set ss" "c = certify_sacrifice (ge_violations ev) s" by auto
    then obtain vn where "bm_get (ge_violations ev) (as_str (ds_property s)) = Some vn" using used by (auto simp: bm_has_get)
    then show ?thesis using s c certs sacrifice_magnitude by (auto simp: certificates_ok_def)
  qed
  ultimately show ?thesis using that [OF ev(1) st ev(3) names _ all] by blast
qed

text \<open>C7: a graph compiles only with exactly the sacrifices it needs: after a declaration, compilation
  succeeds only if the declared properties are, each once, the properties the evaluation of the
  probes finds violated, and each certificate bounds its property by the magnitude measured.\<close>

theorem compiled_sacrifices_exact:
  assumes "declare_with_metadata env now g ss nm ver = Inr declared" and "compile_state env now' declared = Inr st"
  shows "\<exists>ev cg certs d. evaluate_graph env g (synthetic_claims g) = Inr ev \<and> st = Compiled cg certs d \<and> cg_graph cg = g
    \<and> map sc_property certs = map ds_property ss \<and> distinct (map ds_property ss)
    \<and> ds_property ` set ss = {p. violated ev p}
    \<and> (\<forall>c \<in> set certs. \<exists>vn. bm_get (ge_violations ev) (as_str (sc_property c)) = Some vn
         \<and> sc_impact_bound c = gv_actual_magnitude vn \<and> \<not> invalid_measure (sc_impact_bound c))"
  by (rule compile_sacrifices [OF assms]) blast

section \<open>Drift alerts\<close>

definition declared_bound :: "sacrifice_certificate list \<Rightarrow> governance_property \<Rightarrow> f64" where
  "declared_bound certs p = (case bm_get (certs_by_property certs) (as_str p) of Some c \<Rightarrow> sc_impact_bound c | None \<Rightarrow> Zero False)"

definition exceeds :: "sacrifice_certificate list \<Rightarrow> governance_property \<Rightarrow> graph_violation \<Rightarrow> bool" where
  "exceeds certs p vn \<longleftrightarrow> f64_lt (f64_add (declared_bound certs p) EPSILON) (gv_actual_magnitude vn)"

definition alert_for :: "sacrifice_certificate list \<Rightarrow> governance_property \<times> graph_violation \<Rightarrow> drift_alert" where
  "alert_for certs pv =
     \<lparr>da_alert_type = (if bm_has (certs_by_property certs) (as_str (fst pv)) then ''bound_breach'' else ''undeclared_violation''),
      da_property = fst pv, da_declared_bound = declared_bound certs (fst pv), da_actual_magnitude = gv_actual_magnitude (snd pv),
      da_evidence = [(''witness'', gv_witness (snd pv))], da_recommended_action = ''propose revision and recompile''\<rparr>"

lemma declared_bound_certificate:
  assumes "distinct (map sc_property certs)" and "c \<in> set certs"
  shows "declared_bound certs (sc_property c) = sc_impact_bound c"
proof -
  have "bm_get (fold (\<lambda>c. bm_insert (as_str (sc_property c)) c) certs m) (as_str p)
      = (if p \<in> sc_property ` set certs then Some (THE c. c \<in> set certs \<and> sc_property c = p) else bm_get m (as_str p))" for m p
    using assms(1)
  proof (induction certs arbitrary: m)
    case (Cons d certs)
    have "(THE c. c \<in> set (d # certs) \<and> sc_property c = p) =
        (if p \<in> sc_property ` set certs then THE c. c \<in> set certs \<and> sc_property c = p else d)" if "p \<in> sc_property ` set (d # certs)"
    proof -
      have "(c \<in> set (d # certs) \<and> sc_property c = p) = (if p \<in> sc_property ` set certs then c \<in> set certs \<and> sc_property c = p else c = d)" for c
        using Cons.prems that by (auto simp: image_iff)
      then show ?thesis by simp
    qed
    then show ?case using Cons by auto
  qed simp
  moreover have "(THE d. d \<in> set certs \<and> sc_property d = sc_property c) = c"
    by (rule the_equality) (use assms in \<open>auto simp: distinct_map inj_on_def\<close>)
  ultimately show ?thesis using assms(2) by (simp add: declared_bound_def certs_by_property_def)
qed

lemma declared_bound_none: "p \<notin> sc_property ` set certs \<Longrightarrow> declared_bound certs p = Zero False"
proof -
  assume p: "p \<notin> sc_property ` set certs"
  have "bm_get (fold (\<lambda>c. bm_insert (as_str (sc_property c)) c) cs m) (as_str p) = bm_get m (as_str p)"
    if "p \<notin> sc_property ` set cs" for cs and m :: "(string, sacrifice_certificate) bmap"
    using that by (induction cs arbitrary: m) auto
  from this [OF p] show ?thesis by (simp add: declared_bound_def certs_by_property_def)
qed

lemma drift_step_named:
  "drift_step (certs_by_property certs) alerts (as_str p, vn) =
     Inr (if exceeds certs p vn then alerts @ [alert_for certs (p, vn)] else alerts)"
  by (simp add: drift_step_def declared_bound_def exceeds_def property_from_as_str alert_for_def)

lemma drift_loop:
  "rfold (drift_step (certs_by_property certs)) acc (map (\<lambda>(p, vn). (as_str p, vn)) pvs) =
     Inr (acc @ map (alert_for certs) (filter (\<lambda>(p, vn). exceeds certs p vn) pvs))"
  by (induction pvs arbitrary: acc) (auto simp: drift_step_named)

lemma violation_pairs:
  assumes "evaluate_graph env g cs = Inr ev" and "mset (pe_order env (ge_violations ev)) = mset (ge_violations ev)"
  obtains pvs where "pe_order env (ge_violations ev) = map (\<lambda>(p, vn). (as_str p, vn)) pvs" "distinct (map fst pvs)"
    "\<And>p vn. (p, vn) \<in> set pvs \<longleftrightarrow> bm_get (ge_violations ev) (as_str p) = Some vn"
proof -
  let ?m = "ge_violations ev" and ?l = "pe_order env (ge_violations ev)"
  let ?parse = "\<lambda>(k, vn). (the (property_from_str k), vn)"
  note has = violations_has [OF assms(1)]
  have set: "set ?l = set ?m" using assms(2) by (rule mset_eq_setD)
  have "mset (map fst ?l) = mset (bm_keys ?m)" by (simp add: assms(2))
  then have dist: "distinct (map fst ?l)" using bm_wf_distinct [OF has(1)] by (metis mset_eq_imp_distinct_iff)
  have key: "\<exists>p. k = as_str p" if "(k, vn) \<in> set ?l" for k vn
  proof -
    have "bm_has ?m k" using that unfolding set bm_has_def by force
    then show ?thesis using has(2) by blast
  qed
  have inverse: "map (\<lambda>(p, vn). (as_str p, vn)) (map ?parse ?l) = ?l"
    using key by (auto intro!: map_idI simp: property_from_as_str dest!: key)
  have "map fst ?l = map as_str (map fst (map ?parse ?l))" using arg_cong [OF inverse, of "map fst"] by (simp add: comp_def case_prod_beta)
  then have "distinct (map fst (map ?parse ?l))" using dist by (metis distinct_map)
  moreover have "(p, vn) \<in> set (map ?parse ?l) \<longleftrightarrow> bm_get ?m (as_str p) = Some vn" for p vn
  proof -
    have "(p, vn) \<in> set (map ?parse ?l) \<longleftrightarrow> (as_str p, vn) \<in> set ?l"
      using key by (force simp: property_from_as_str)
    then show ?thesis by (simp add: set bm_get_mem [OF has(1)])
  qed
  ultimately show ?thesis by (rule that [OF inverse [symmetric]])
qed

lemma drift_alerts:
  assumes "evaluate_graph env (cg_graph (mo_compiled_graph s)) cs = Inr ev"
    and "mset (pe_order env (ge_violations ev)) = mset (ge_violations ev)"
  shows "\<exists>alerts. detect_drift_alerts env s cs = Inr alerts \<and> distinct (map da_property alerts)
    \<and> set alerts = {alert_for (mo_sacrifice_certs s) (p, vn) | p vn. bm_get (ge_violations ev) (as_str p) = Some vn
         \<and> exceeds (mo_sacrifice_certs s) p vn}"
proof (rule violation_pairs [OF assms])
  fix pvs
  assume order: "pe_order env (ge_violations ev) = map (\<lambda>(p, vn). (as_str p, vn)) pvs" and dist: "distinct (map fst pvs)"
    and mem: "\<And>p vn. (p, vn) \<in> set pvs \<longleftrightarrow> bm_get (ge_violations ev) (as_str p) = Some vn"
  let ?alerts = "map (alert_for (mo_sacrifice_certs s)) (filter (\<lambda>(p, vn). exceeds (mo_sacrifice_certs s) p vn) pvs)"
  have "detect_drift_alerts env s cs = Inr ?alerts"
    unfolding detect_drift_alerts_def assms(1) rbind.simps order drift_loop by simp
  moreover have names: "map da_property ?alerts = map fst (filter (\<lambda>(p, vn). exceeds (mo_sacrifice_certs s) p vn) pvs)"
    by (simp add: alert_for_def comp_def)
  have "distinct (map da_property ?alerts)" unfolding names by (rule distinct_map_filter [OF dist])
  ultimately show ?thesis using mem by (intro exI [of _ ?alerts]) auto
qed

text \<open>C8: drift detection is exact whatever the iteration order of the hash map: it fails exactly as the
  evaluation of the graph on the batch fails, and on an evaluation that returns it succeeds and raises one
  alert for each violated property whose measured magnitude exceeds the bound of its certificate, or
  zero when it has none, by more than the tolerance.\<close>

theorem drift_alerts_exact:
  assumes "\<And>m. mset (pe_order env m) = mset m"
  shows "case evaluate_graph env (cg_graph (mo_compiled_graph s)) cs of
      Inl e \<Rightarrow> detect_drift_alerts env s cs = Inl e
    | Inr ev \<Rightarrow> \<exists>alerts. detect_drift_alerts env s cs = Inr alerts \<and> distinct (map da_property alerts)
        \<and> set alerts = {alert_for (mo_sacrifice_certs s) (p, vn) | p vn. bm_get (ge_violations ev) (as_str p) = Some vn
             \<and> exceeds (mo_sacrifice_certs s) p vn}"
proof (cases "evaluate_graph env (cg_graph (mo_compiled_graph s)) cs")
  case (Inl e)
  then show ?thesis by (simp add: detect_drift_alerts_def)
next
  case (Inr ev)
  then show ?thesis using drift_alerts [OF Inr assms] by simp
qed

section \<open>Denial without drift\<close>

definition zero_shares :: "allocation \<Rightarrow> bool" where
  "zero_shares a \<longleftrightarrow> (\<forall>kv \<in> set a. snd kv = Zero False)"

lemma zero_shares_fold:
  "zero_shares m \<Longrightarrow> zero_shares (fold (\<lambda>c. bm_insert (claimant_id c) (Zero False)) cs m)"
proof (induction cs arbitrary: m)
  case (Cons c cs)
  then have "zero_shares (bm_insert (claimant_id c) (Zero False) m)"
    using set_bm_insert_subset [of "claimant_id c" "Zero False" m] by (auto simp: zero_shares_def)
  with Cons.IH show ?case by simp
qed simp

lemma zero_magnitude:
  assumes "zero_shares (original_allocation ce)" and "zero_shares (perturbed_allocation ce)"
  shows "counterexample_magnitude ce = Zero False"
proof -
  have "fold (\<lambda>(k, before) magnitude.
         case map_of (perturbed_allocation ce) k of None \<Rightarrow> magnitude
         | Some after \<Rightarrow> f64_max magnitude (f64_abs (f64_sub before after))) a (Zero False) = Zero False"
    if "zero_shares a" for a
    using that
  proof (induction a)
    case (Cons kv a)
    moreover have "snd kv = Zero False" "map_of (perturbed_allocation ce) (fst kv) \<in> {None, Some (Zero False)}"
      using Cons.prems assms(2)
      by (cases "map_of (perturbed_allocation ce) (fst kv)"; force simp: zero_shares_def dest: map_of_SomeD)+
    ultimately show ?case by (auto simp: zero_shares_def f64_sub_def f64_max_def case_prod_beta)
  qed simp
  from this [OF assms(1)] show ?thesis by (simp add: counterexample_magnitude_def)
qed

lemma nonvacuity_rejection_zero:
  assumes "nonvacuity_rejection cs desc viol [] = Inr v"
  obtains ce where "v = Fail NonVacuous desc ce" "counterexample_magnitude ce = Zero False"
proof -
  have "zero_shares (fold (\<lambda>c. bm_insert (claimant_id c) (Zero False)) cs [])"
    by (rule zero_shares_fold) (simp add: zero_shares_def)
  with assms that zero_magnitude show ?thesis
    by (auto simp: nonvacuity_rejection_def zero_decision_allocation_def nonvacuity_liveness_allocation_def
        valid_allocation_new_def result_simps)
qed

lemma denial_violation:
  assumes link: "well_linked g" and ev: "evaluate_graph env g cs = Inr ev"
    and f: "traverse_final_decisions (pe_regex env) g cs = Inr f"
    and deny: "\<forall>c \<in> set cs. bm_get f (claimant_id c) = Some Deny"
  obtains vn where "bm_get (ge_violations ev) (as_str NonVacuousProperty) = Some vn" "gv_actual_magnitude vn = Zero False"
proof (rule evaluate_graph_Inr [OF link ev])
  fix f' con sol mon nv a b c d
  assume nv: "check_graph_nonvacuity (pe_regex env) g cs [] = Inr nv"
    and verdicts: "ge_axiom_verdicts ev = [con, sol, mon, Admissible ''graph certifiability'' a, Admissible ''graph observable determinacy'' b,
       Admissible ''graph corrigibility'' c, Admissible ''graph compositional safety'' d, projr (require_protocol_kernel_verdict nv)]"
    and viol: "ge_violations ev = record_manipulation (ge_strategyproofness ev) (fold record_rejection (ge_axiom_verdicts ev) [])"
  obtain r where r: "traverse (pe_regex env) g cs = Inr r" "final_decisions r = f" using final_traverse [OF f] by blast
  have "nonterminal_claimants cs f = []" using deny by (simp add: nonterminal_claimants_def filter_empty_conv)
  moreover have "\<not> permits_some cs f" using deny by (auto simp: permits_some_def list_ex_iff)
  ultimately obtain desc v where "nonvacuity_rejection cs desc v [] = Inr nv"
    using nv final_valid(2) [OF link f] r
    by (auto simp: check_graph_nonvacuity_def nonvacuity_traversal_def Let_def result_simps)
  then obtain ce where ce: "nv = Fail NonVacuous desc ce" "counterexample_magnitude ce = Zero False"
    by (rule nonvacuity_rejection_zero)
  have last: "projr (require_protocol_kernel_verdict nv) = Rejected ''graph nonvacuity'' ce" by (simp add: ce(1))
  have "bm_get (fold record_rejection (ge_axiom_verdicts ev) []) (as_str NonVacuousProperty)
      = Some \<lparr>gv_source_axiom = ''graph nonvacuity'', gv_actual_magnitude = Zero False, gv_witness = description ce\<rparr>"
    unfolding verdicts last by (simp add: property_for_axiom_def ce(2) bm_get_insert)
  moreover have "bm_get (record_manipulation sp m) (as_str NonVacuousProperty) = bm_get m (as_str NonVacuousProperty)" for sp m
    by (simp add: record_manipulation_def split: option.split)
  ultimately show ?thesis using that viol by simp
qed

lemma add_not_negative:
  assumes "is_finite x" "\<not> f64_lt x (Zero False)" "is_finite y" "\<not> f64_lt y (Zero False)"
  shows "\<not> f64_lt (f64_add x y) (Zero False)"
proof -
  have round: "\<not> f64_lt (round64 r) (Zero False)" if "0 \<le> r" for r
    using that round_mag_nonneg [of r] by (auto simp: round64_def Let_def f64_lt_def f64_le_def)
  have pos: "\<not> f64_lt (Num r) (Zero False) \<longleftrightarrow> 0 \<le> r" for r by (auto simp: f64_lt_def f64_le_def)
  show ?thesis using assms
    by (cases x; cases y) (auto simp: pos round intro!: round, auto simp: f64_lt_def f64_le_def)
qed

text \<open>C26: a graph that denies everything is never reported: where every claim is denied, the evaluation
  finds non-vacuity violated, but with magnitude zero, as its counterexample compares a zero
  allocation with itself; with at most one certificate per property, each with a valid bound, no alert
  about it is raised, declared or not.\<close>

theorem denial_never_alerts:
  assumes "well_linked (cg_graph (mo_compiled_graph s))"
    and "traverse_final_decisions (pe_regex env) (cg_graph (mo_compiled_graph s)) cs = Inr f"
    and "\<forall>c \<in> set cs. bm_get f (claimant_id c) = Some Deny"
    and "\<forall>c \<in> set (mo_sacrifice_certs s). \<not> invalid_measure (sc_impact_bound c)"
    and "distinct (map sc_property (mo_sacrifice_certs s))"
    and "evaluate_graph env (cg_graph (mo_compiled_graph s)) cs = Inr ev"
    and "mset (pe_order env (ge_violations ev)) = mset (ge_violations ev)"
    and "detect_drift_alerts env s cs = Inr alerts"
  shows "violated ev NonVacuousProperty
    \<and> (\<exists>vn. bm_get (ge_violations ev) (as_str NonVacuousProperty) = Some vn \<and> gv_actual_magnitude vn = Zero False)
    \<and> (\<forall>a \<in> set alerts. da_property a \<noteq> NonVacuousProperty)"
proof -
  let ?certs = "mo_sacrifice_certs s"
  obtain vn where vn: "bm_get (ge_violations ev) (as_str NonVacuousProperty) = Some vn" "gv_actual_magnitude vn = Zero False"
    by (rule denial_violation [OF assms(1,6,2,3)])
  have "bm_has (ge_violations ev) (as_str NonVacuousProperty)" using vn(1) unfolding bm_has_get by simp
  then have violated: "violated ev NonVacuousProperty" using violations_has(2) [OF assms(6)] as_str_inject by metis
  have "is_finite (declared_bound ?certs p) \<and> \<not> f64_lt (declared_bound ?certs p) (Zero False)" for p
  proof (cases "p \<in> sc_property ` set ?certs")
    case True
    then show ?thesis using declared_bound_certificate [OF assms(5)] assms(4) by (auto simp: invalid_measure_def)
  next
    case False
    then show ?thesis by (simp add: declared_bound_none f64_lt_def)
  qed
  then have "\<not> exceeds ?certs NonVacuousProperty vn"
    using add_not_negative EPSILON_ok by (simp add: exceeds_def vn(2))
  moreover have "set alerts = {alert_for ?certs (p, vn) | p vn. bm_get (ge_violations ev) (as_str p) = Some vn \<and> exceeds ?certs p vn}"
    using drift_alerts [OF assms(6,7)] assms(8) by auto
  ultimately have "da_property a \<noteq> NonVacuousProperty" if "a \<in> set alerts" for a
    using that vn(1) by (auto simp: alert_for_def)
  with violated vn show ?thesis by blast
qed

section \<open>A sample run\<close>

text \<open>A graph of one gate that decides every claim by its default, and the one probe of such a graph.
  With the default \<open>Deny\<close> it goes through the states from its declaration with the sacrifice of
  non-vacuity to a live session; with the default \<open>Escalate\<close> it raises an alert.\<close>

definition gate_graph :: "decision \<Rightarrow> governance_graph" where
  "gate_graph d = \<lparr>nodes = [(''gate'', Binary ''gate'' ''Gate'' [] d FirstMatch)], edges = []\<rparr>"

definition probe :: "rat \<Rightarrow> governance_claim" where
  "probe r = (baseline_claim [])\<lparr>strength := Num r\<rparr>"

lemma gate_order:
  "first_cycle_error (gate_graph d) () = Inr ()" "entry_node_list (gate_graph d) = [''gate'']"
  "topological_order (gate_graph d) (incoming_counts (gate_graph d)) = Inr [''gate'']" "outgoing_edges (gate_graph d) = []"
  "synthetic_claims (gate_graph d) = [baseline_claim []]"
  by code_simp+

lemma gate_linked: "well_linked (gate_graph d)"
  by (simp add: well_linked_def gate_graph_def bm_wf_def)

lemma probe_one: "baseline_claim [] = probe 1"
  by (simp add: probe_def baseline_claim_def)

lemma probe_sel [simp]: "claimant_id (probe r) = ''baseline''" "strength (probe r) = Num r" "priority_class (probe r) = Some ''extracted''" "metrics (probe r) = []"
  by (simp_all add: probe_def baseline_claim_def)

lemma probe_names: "\<not> is_blank ''baseline''" "\<not> is_blank ''extracted''"
  by code_simp+

lemma probe_valid: "0 < r \<Longrightarrow> validate_governance_claims [probe r] = Inr ()"
  by (simp add: validate_governance_claims_def validate_governance_claim_def probe_names f64_le_def del: is_blank.simps)

lemma gate_final:
  "traverse_final_decisions rx (gate_graph d) [] = Inr []"
  "0 < r \<Longrightarrow> traverse_final_decisions rx (gate_graph d) [probe r] = Inr [(''baseline'', d)]"
proof -
  have node: "bm_get (nodes (gate_graph d)) ''gate'' = Some (Binary ''gate'' ''Gate'' [] d FirstMatch)" "nodes (gate_graph d) \<noteq> []"
    by (simp_all add: gate_graph_def bm_get_def)
  note run = traverse_final_decisions_def traverse_claims_def gate_order traverse_node_def or_default_def bm_get_Cons bm_remove_def
    evaluate_binary_node_def decide_def record_final_decisions_def record_final_decision_def forwarded_shared_claims_def node
  show "traverse_final_decisions rx (gate_graph d) [] = Inr []"
    by (simp add: run validate_governance_claims_def)
  show "0 < r \<Longrightarrow> traverse_final_decisions rx (gate_graph d) [probe r] = Inr [(''baseline'', d)]"
    by (simp add: run probe_valid evaluate_combination_def)
qed

lemma tenth: "\<exists>q. round64 (1 / 10) = Num q \<and> 1 / 16 \<le> q \<and> q \<le> 1 / 8"
  by (rule round64_between) (use round64_dyadic [of 1 4] round64_dyadic [of 1 3] in simp_all)

lemma one_plus: "0 < q \<Longrightarrow> q \<le> 1 \<Longrightarrow> \<exists>r. f64_add (Num 1) (Num q) = Num r \<and> 0 < r"
proof -
  assume q: "0 < q" "q \<le> 1"
  have "\<exists>r. round64 (1 + q) = Num r \<and> 1 \<le> r \<and> r \<le> 2"
    by (rule round64_between) (use q round64_dyadic [of 1 0] round64_dyadic [of 2 0] in simp_all)
  then show ?thesis by (force simp: round64_def)
qed

lemma gate_fields: "graph_fields [probe r] = [''strength'']"
  by (simp add: graph_fields_def)

lemma probe_strengthened: "(probe 1)\<lparr>strength := Num r\<rparr> = probe r"
  by (simp add: probe_def)

lemma gate_delta:
  obtains q r where "graph_shocks [probe 1] = [\<lparr>fd_field = ''strength'', fd_delta = Num q\<rparr>]"
    "graph_deltas [probe 1] = [\<lparr>fd_field = ''strength'', fd_delta = Num q\<rparr>]" "0 < q" "0 < r"
    "apply_field_delta (probe 1) ''strength'' (Num q) = Inr (probe r)"
proof -
  obtain q where q: "round64 (1 / 10) = Num q" "1 / 16 \<le> q" "q \<le> 1 / 8" using tenth by blast
  then obtain r where r: "f64_add (Num 1) (Num q) = Num r" "0 < r" using one_plus [of q] by auto
  from r q show ?thesis
    by (intro that [of q r])
      (auto simp: graph_shocks_def graph_deltas_def gate_fields field_step_def apply_field_delta_def f64_le_def probe_strengthened)
qed

lemma gate_base:
  "0 < r \<Longrightarrow> \<exists>a. raise (diag_decision_allocation [probe r] f) = (Inr a :: legitimacy_error fault + allocation)"
  using decision_allocation_ok [OF probe_valid, of r f] by (auto simp: diag_allocation_eq raise_Inr)

lemma gate_solidarity: "check_graph_solidarity rx (gate_graph d) [probe 1] (graph_shocks [probe 1]) = Inr (Admissible ''graph solidarity'' 1)"
proof (rule gate_delta)
  fix q r
  assume shocks: "graph_shocks [probe 1] = [\<lparr>fd_field = ''strength'', fd_delta = Num q\<rparr>]"
    and q: "0 < q" "0 < r" "apply_field_delta (probe 1) ''strength'' (Num q) = Inr (probe r)"
  obtain base where base: "diag_baseline_of rx (gate_graph d) [probe 1] = Inr base"
    using baseline_ok [OF gate_linked gate_final(2) [of 1 rx]] by auto
  obtain a where "raise (diag_decision_allocation [probe r] [(''baseline'', d)]) = (Inr a :: legitimacy_error fault + allocation)"
    using gate_base [OF q(2)] by blast
  then show ?thesis
    using q by (simp add: check_graph_solidarity_def base shocks solidarity_shock_def f64_eq_def f64_le_def diag_final_decisions_def
        gate_final same_class_groups_def or_default_def)
qed

lemma gate_monotonicity: "monotonicity_check_via_polarity_schema rx (gate_graph d) [probe 1] (graph_deltas [probe 1]) AUDIT_METRIC_POLARITY_SCHEMA
    = Inr (Admissible ''graph monotonicity'' 1)"
proof (rule gate_delta)
  fix q r
  assume deltas: "graph_deltas [probe 1] = [\<lparr>fd_field = ''strength'', fd_delta = Num q\<rparr>]"
    and q: "0 < q" "0 < r" "apply_field_delta (probe 1) ''strength'' (Num q) = Inr (probe r)"
  obtain base where base: "diag_baseline_of rx (gate_graph d) [probe 1] = Inr base" "base_decisions base = [(''baseline'', d)]"
    using baseline_ok [OF gate_linked gate_final(2) [of 1 rx]] by auto
  obtain a where a: "raise (diag_decision_allocation [probe r] [(''baseline'', d)]) = (Inr a :: legitimacy_error fault + allocation)"
    using gate_base [OF q(2)] by blast
  have polarity: "polarity_for AUDIT_METRIC_POLARITY_SCHEMA ''strength'' = Some HigherBetter" by code_simp
  show ?thesis
    using q a by (simp add: monotonicity_check_via_polarity_schema_def base deltas monotonicity_delta_def f64_le_def polarity
        monotonicity_index_def diag_final_decisions_def gate_final claimant_ids_def monotonicity_claimant_def lookup_decision_def
        bm_get_Cons decision_direction_def)
qed


lemma singleton_order: "distinct xs \<and> set xs = {a} \<longleftrightarrow> xs = [a]"
  by (cases xs rule: remdups_adj.cases) auto

lemma gate_orders: "{order. topological (gate_graph d) order} = {[''gate'']}"
proof -
  have "topological (gate_graph d) order \<longleftrightarrow> distinct order \<and> set order = {''gate''}" for order
    by (simp add: topological_def respects_edges_def gate_graph_def)
  then show ?thesis unfolding singleton_order by simp
qed

lemma gate_acyclic: "acyclic (edge_rel (gate_graph d))"
  by (simp add: acyclic_def edge_rel_def gate_graph_def)

lemma gate_consistency: "check_graph_consistency rx (gate_graph d) [probe 1] = Inr (Admissible ''graph consistency'' 1)"
proof -
  have "peer_free (gate_graph d)" by (simp add: peer_free_def gate_graph_def)
  from consistency_admissible [OF gate_linked peer_free_stable [OF gate_linked this gate_final(2)]] show ?thesis by simp
qed

lemma gate_strategyproofness: "check_graph_strategyproofness_verdict rx (gate_graph d) [probe 1] = Inr Strategyproof"
proof -
  let ?cs = "[probe 1]"
  have scores: "graph_scores rx (gate_graph d) [probe r] = Inr [(''baseline'', f64_of_nat (decision_rank d))]" if "0 < r" for r
    unfolding graph_scores_Inr using gate_final(2) [OF that, of rx d] by (auto simp: final_decision_scores_def)
  have improves: "\<not> strictly_improves (f64_of_nat (decision_rank d)) (f64_of_nat (decision_rank d))"
    using rank_score [of "decision_rank d" "decision_rank d"] by (cases d) simp_all
  have step: "misreport_factor governance_strategic (graph_scores rx (gate_graph d)) ?cs 0 (probe 1) (f64_of_nat (decision_rank d)) () factor = Inr (Inr ())"
    if factor: "factor \<in> set MISREPORT_FACTORS" for factor
  proof -
    obtain r where r: "0 < r" "f64_mul (Num 1) factor = Num r" using sample_factor [OF factor] by blast
    have "misreported governance_strategic 0 (Num r) ?cs = Inr [probe r]"
      using misreported_eq [of 0 ?cs factor] by (simp add: scaled_report_def r(2) probe_strengthened)
    then show ?thesis
      by (simp add: misreport_factor_def Let_def governance_strategic_def r(2) scores [OF r(1)] score_for_def bm_get_Cons improves)
  qed
  have "rloop f () xs = Inr (Inr ())" if "\<And>x. x \<in> set xs \<Longrightarrow> f () x = Inr (Inr ())" for f :: "unit \<Rightarrow> f64 \<Rightarrow> legitimacy_error fault + (strategyproofness_verdict + unit)" and xs
    using that by (induction xs) simp_all
  from this [of MISREPORT_FACTORS "misreport_factor governance_strategic (graph_scores rx (gate_graph d)) ?cs 0 (probe 1) (f64_of_nat (decision_rank d))", OF step]
  show ?thesis
    by (simp add: check_graph_strategyproofness_verdict_def check_reported_strength_manipulations_def scores misreport_claim_def
        governance_strategic_def score_for_def bm_get_Cons)
qed

text \<open>The evaluation of a gate whose non-vacuity is rejected: the other seven axioms are admitted.\<close>

lemma gate_evaluation:
  assumes nv: "check_graph_nonvacuity (pe_regex env) (gate_graph d) [probe 1] [] = Inr (Fail NonVacuous desc ce)"
  obtains ev vn where "evaluate_graph env (gate_graph d) [probe 1] = Inr ev" "ge_violations ev = [(''non_vacuous'', vn)]"
    "gv_actual_magnitude vn = counterexample_magnitude ce" "{p. violated ev p} = {NonVacuousProperty}"
proof -
  let ?rx = "pe_regex env"
  note f = gate_final(2) [of 1 ?rx d]
  obtain r where r: "traverse ?rx (gate_graph d) [probe 1] = Inr r" using final_traverse [OF f] by auto
  have "validate_governance_graph ?rx (gate_graph d) = Inr ()"
    by (auto simp: validate_governance_graph_Inr validate_graph_node_def gate_graph_def sample_simps)
  from certifiability_passes [OF this _ r] obtain a where certifiable:
      "check_graph_certifiability ?rx (gate_graph d) [probe 1] = Inr (Pass Certifiable a)"
    using gate_linked by (simp add: well_linked_def)
  have corrigible: "check_graph_corrigibility ?rx (gate_graph d) [probe 1] = Inr (Pass Corrigible 3)"
    using corrigibility_passes [OF gate_linked gate_acyclic _ probe_valid, of d 1 ?rx] by (simp add: gate_graph_def)
  have compositional: "check_graph_compositional_safety ?rx (gate_graph d) [probe 1] = Inr (Pass CompositionalSafety 1)"
    using compositional_passes [OF gate_linked f] by simp
  have orders: "{order. topological (gate_graph d) order} = {[''gate'']}"
    by (rule gate_orders)
  have observable: "check_graph_observable_determinacy ?rx (gate_graph d) [probe 1] = Inr (Pass Observable 1)"
    using observable_passes [OF gate_linked f] unfolding orders
    by (simp add: EXHAUSTIVE_OBSERVABLE_NODE_LIMIT_def EXHAUSTIVE_OBSERVABLE_ORDER_LIMIT_def gate_graph_def)
  let ?vn = "\<lparr>gv_source_axiom = ''graph nonvacuity'', gv_actual_magnitude = counterexample_magnitude ce, gv_witness = description ce\<rparr>"
  let ?ev = "\<lparr>ge_axiom_verdicts = [Admissible ''graph consistency'' 1, Admissible ''graph solidarity'' 1, Admissible ''graph monotonicity'' 1,
      Admissible ''graph certifiability'' a, Admissible ''graph observable determinacy'' 1, Admissible ''graph corrigibility'' 3,
      Admissible ''graph compositional safety'' 1, Rejected ''graph nonvacuity'' ce], ge_strategyproofness = Strategyproof,
      ge_violations = [(''non_vacuous'', ?vn)]\<rparr>"
  have run: "evaluate_graph env (gate_graph d) [probe 1] = Inr ?ev"
    by (simp add: evaluate_graph_def Let_def gate_consistency gate_solidarity gate_monotonicity kernel_check_def lift_fault_def
        certifiable observable corrigible compositional nv gate_strategyproofness property_for_axiom_def record_manipulation_def)
  have viol: "{p. violated ?ev p} = {NonVacuousProperty}"
  proof -
    have "violated ?ev p \<longleftrightarrow> p = NonVacuousProperty" for p by (cases p) (simp_all add: violated_def graph_axiom_of_def)
    then show ?thesis by blast
  qed
  show ?thesis by (rule that [of ?ev ?vn, OF run _ _ viol]) simp_all
qed


definition stop_graph :: governance_graph where
  "stop_graph = \<lparr>nodes = [(''gate'', Binary ''gate'' ''Gate'' [] Deny FirstMatch)], edges = []\<rparr>"

lemma stop_gate: "stop_graph = gate_graph Deny"
  by (simp add: stop_graph_def gate_graph_def)

lemmas stop_order = gate_order [where d = Deny, folded stop_gate]
lemmas stop_linked = gate_linked [where d = Deny, folded stop_gate]
lemmas stop_final = gate_final [where d = Deny, folded stop_gate]
lemmas stop_acyclic = gate_acyclic [where d = Deny, folded stop_gate]

definition stop_denial :: message where
  "stop_denial = Message ''all examined claims reached Deny; the graph refused every governed claim'' []"

lemma stop_nonvacuity:
  obtains ce where "check_graph_nonvacuity rx stop_graph [probe 1] [] = Inr (Fail NonVacuous stop_denial ce)"
    "counterexample_magnitude ce = Zero False"
proof -
  obtain r where r: "traverse rx stop_graph [probe 1] = Inr r" "final_decisions r = [(''baseline'', Deny)]"
    using final_traverse [OF stop_final(2) [of 1 rx]] by auto
  obtain ce where ce: "nonvacuity_rejection [probe 1] stop_denial
      (Message ''NON-VACUOUS requires at least one examined claim to reach Permit'' []) [] = Inr (Fail NonVacuous stop_denial ce)"
    using nonvacuity_rejection_ok [OF probe_valid, of 1 "[]"] by fastforce
  then have "counterexample_magnitude ce = Zero False" by (rule nonvacuity_rejection_zero) simp
  moreover have "nodes stop_graph \<noteq> []" by (simp add: stop_graph_def)
  ultimately show ?thesis
    using r ce by (intro that [of ce])
      (simp_all add: check_graph_nonvacuity_def nonvacuity_traversal_def Let_def nonterminal_claimants_def permits_some_def bm_get_Cons
        flip: stop_denial_def)
qed


text \<open>The evaluation of the closed gate: seven axioms admitted, non-vacuity rejected with magnitude zero.\<close>

lemma stop_evaluation:
  obtains ev vn where "evaluate_graph env stop_graph [probe 1] = Inr ev" "ge_violations ev = [(''non_vacuous'', vn)]"
    "gv_actual_magnitude vn = Zero False" "{p. violated ev p} = {NonVacuousProperty}"
proof (rule stop_nonvacuity [of "pe_regex env"])
  fix ce
  assume nv: "check_graph_nonvacuity (pe_regex env) stop_graph [probe 1] [] = Inr (Fail NonVacuous stop_denial ce)"
    and ce: "counterexample_magnitude ce = Zero False"
  show ?thesis
    by (rule gate_evaluation [OF nv [unfolded stop_gate], folded stop_gate]) (rule that, simp_all add: ce)
qed

definition sample_env :: protocol_env where
  "sample_env = \<lparr>pe_regex = (\<lambda>_. None), pe_hash = (\<lambda>_. Inr ''h''), pe_order = id\<rparr>"

definition stop_sacrifice :: declared_sacrifice where
  "stop_sacrifice = \<lparr>ds_property = NonVacuousProperty, ds_justification = ''closed gate'', ds_monitoring_specs = []\<rparr>"

definition stop_declaration :: governance_declaration where
  "stop_declaration = \<lparr>gd_protocol_version = CARGO_PKG_VERSION, gd_timestamp = iso8601_of_seconds 0,
     gd_graph_name = ''spectral-governance'', gd_graph_version = CARGO_PKG_VERSION, gd_graph = stop_graph,
     gd_sacrifices = [stop_sacrifice], gd_spectral_gap = Zero False, gd_cv_bound = Zero False\<rparr>"

lemma stop_signals: "spectral_gap stop_graph = Zero False" "signal_range [probe 1] = Zero False"
  "consistency_vulnerability_bound stop_graph [probe 1] = Zero False" "localizability_bound stop_graph [probe 1] = Num 1"
proof -
  show gap: "spectral_gap stop_graph = Zero False" by (simp add: spectral_gap_def laplacian_matrix_def stop_graph_def Let_def)
  show range: "signal_range [probe 1] = Zero False"
    by (simp add: signal_range_def f64_min_def f64_max_def f64_lt_def f64_le_def f64_sub_def round64_def)
  have eps: "\<not> f64_lt EPSILON (Zero False)" "f64_le (Zero False) EPSILON" 
  proof -
    obtain e where e: "EPSILON = Num e" "0 < e" using EPSILON_between by (auto intro: less_le_trans [of 0 "1 / 2 ^ 30"])
    from e(2) show "\<not> f64_lt EPSILON (Zero False)" "f64_le (Zero False) EPSILON" unfolding e(1) by (simp_all add: f64_lt_def f64_le_def)
  qed
  show cv: "consistency_vulnerability_bound stop_graph [probe 1] = Zero False"
    by (simp add: consistency_vulnerability_bound_def gap range eps)
  show "localizability_bound stop_graph [probe 1] = Num 1" by (simp add: localizability_bound_def cv eps)
qed

lemma zero_measure: "\<not> invalid_measure (Zero False)" "\<not> invalid_measure (Num 1)"
  by (simp_all add: invalid_measure_def f64_lt_def f64_le_def)

lemma stop_names: "\<not> is_blank ''spectral-governance''" "\<not> is_blank CARGO_PKG_VERSION"
  by code_simp+

lemma stop_declared: "declare_graph sample_env (Some 0) stop_graph [stop_sacrifice] = Inr (Declared stop_graph [stop_sacrifice] stop_declaration)"
proof (rule stop_evaluation [of sample_env])
  fix ev vn
  assume "evaluate_graph sample_env stop_graph [probe 1] = Inr ev" "ge_violations ev = [(''non_vacuous'', vn)]"
  then show ?thesis
    by (simp add: declare_graph_def declare_with_metadata_def stop_order probe_one check_phantom_def stop_sacrifice_def bm_has_def
        iso8601_timestamp_def lift_error_def stop_signals stop_declaration_def)
qed

lemma stop_declaration_ok: "declaration_ok stop_declaration"
  by (simp add: declaration_ok_def stop_declaration_def stop_names zero_measure del: is_blank.simps)

definition stop_certificate :: "graph_violation \<Rightarrow> sacrifice_certificate" where
  "stop_certificate vn = \<lparr>sc_property = NonVacuousProperty, sc_impact_bound = gv_actual_magnitude vn,
     sc_source_axiom = gv_source_axiom vn, sc_witness = gv_witness vn, sc_monitoring_specs = []\<rparr>"

lemma stop_compiled:
  obtains cg vn where "compile_state sample_env (Some 0) (Declared stop_graph [stop_sacrifice] stop_declaration)
      = Inr (Compiled cg [stop_certificate vn] stop_declaration)"
    "cg_graph cg = stop_graph" "compiled_ok (pe_hash sample_env) cg stop_declaration" "gv_actual_magnitude vn = Zero False"
proof (rule stop_evaluation [of sample_env])
  fix ev vn
  assume ev: "evaluate_graph sample_env stop_graph [probe 1] = Inr ev" "ge_violations ev = [(''non_vacuous'', vn)]"
    "gv_actual_magnitude vn = Zero False"
  let ?cg = "\<lparr>cg_name = gd_graph_name stop_declaration, cg_version = gd_graph_version stop_declaration, cg_graph = stop_graph,
       cg_axiom_verdicts = ge_axiom_verdicts ev, cg_strategyproofness = ge_strategyproofness ev,
       cg_compiled_rule_hash = ''h'', cg_compiled_at = iso8601_of_seconds 0\<rparr>"
  have sels: "gd_graph stop_declaration = stop_graph" "gd_sacrifices stop_declaration = [stop_sacrifice]"
    by (simp_all add: stop_declaration_def)
  have eq: "graph_eq stop_graph stop_graph" by (simp add: graph_eq_def stop_graph_def)
  have ok: "compiled_ok (pe_hash sample_env) ?cg stop_declaration"
    using violated_names(1) [OF stop_linked ev(1)] by (simp add: compiled_ok_def sels eq sample_env_def)
  have certs: "certificates_ok [stop_certificate vn] [stop_sacrifice]"
    by (simp add: certificates_ok_def stop_certificate_def stop_sacrifice_def ev(3) zero_measure)
  have declared: "state_validate (pe_hash sample_env) (Declared stop_graph [stop_sacrifice] stop_declaration) = Inr ()"
    by (simp add: state_validate_def validation_iffs stop_declaration_ok validate_declared_state_def sels eq sacrifice_eq_def stop_sacrifice_def
        rbind_Inr_iff)
  have compiled: "state_validate (pe_hash sample_env) (Compiled ?cg [stop_certificate vn] stop_declaration) = Inr ()"
    using ok certs by (simp add: state_validate_def rbind_Inr_iff validation_iffs stop_declaration_ok sels)
  have none: "unsacrificed_properties (ge_violations ev) [stop_sacrifice] = []"
    by (simp add: unsacrificed_properties_def ev(2) property_names_def stop_sacrifice_def List.map_filter_def)
  have cert: "certify_sacrifice (ge_violations ev) stop_sacrifice = stop_certificate vn"
    by (simp add: certify_sacrifice_def stop_sacrifice_def stop_certificate_def ev(2) bm_get_Cons)
  have hash: "canonical_compiled_rule_hash (pe_hash sample_env) g vs sp = Inr ''h''" for g vs sp
    by (simp add: canonical_compiled_rule_hash_def stable_hash_def sample_env_def lift_error_def)
  have "compile_state sample_env (Some 0) (Declared stop_graph [stop_sacrifice] stop_declaration)
      = Inr (Compiled ?cg [stop_certificate vn] stop_declaration)"
    by (simp add: compile_state_def declared compile_declared_def stop_order probe_one ev(1) Let_def none cert hash
        iso8601_timestamp_def lift_error_def validated_def compiled)
  then show ?thesis by (rule that) (simp_all add: ok ev(3))
qed


text \<open>The gate that escalates everything, in a session without certificates: its claimant never reaches
  a terminal decision, so non-vacuity is violated with the whole batch stuck.\<close>

lemma open_nonvacuity:
  obtains desc ce where "check_graph_nonvacuity rx (gate_graph Escalate) [probe 1] [] = Inr (Fail NonVacuous desc ce)"
    "counterexample_magnitude ce = Num 1"
proof -
  let ?nt = "[''baseline'']"
  let ?desc = "Message ''{} examined claims remained in Escalate after traversal: {}'' [ANat 1, AList ?nt]"
  obtain r where r: "traverse rx (gate_graph Escalate) [probe 1] = Inr r" "final_decisions r = [(''baseline'', Escalate)]"
    using final_traverse [OF gate_final(2) [of 1 rx Escalate]] by auto
  then have nt: "nonterminal_claimants [probe 1] (final_decisions r) = ?nt"
    by (simp add: nonterminal_claimants_def bm_get_Cons)
  obtain ce where ce: "nonvacuity_rejection [probe 1] ?desc
      (Message ''NON-VACUOUS requires every governed claim to reach a terminal Permit or Deny disposition'' []) ?nt
      = Inr (Fail NonVacuous ?desc ce)"
    using nonvacuity_rejection_ok [OF probe_valid, of 1 ?nt] by fastforce
  have one: "f64_of_nat (Suc 0) = Num 1" using f64_of_nat_exact [of 1] by simp
  have "stuck_fraction [probe 1] ?nt = Num 1"
    using round64_dyadic [of 1 0] by (simp add: stuck_fraction_def one)
  then have "original_allocation ce = [(''baseline'', Zero False)]" "perturbed_allocation ce = [(''baseline'', Num 1)]"
    using ce by (auto simp: nonvacuity_rejection_def zero_decision_allocation_def nonvacuity_liveness_allocation_def
        valid_allocation_new_def result_simps bm_insert.simps)
  then have "counterexample_magnitude ce = Num 1"
    by (simp add: counterexample_magnitude_def f64_max_def f64_sub_def f64_lt_def f64_le_def)
  moreover have "nodes (gate_graph Escalate) \<noteq> []" by (simp add: gate_graph_def)
  ultimately show ?thesis
    using r(1) nt ce by (intro that [of ?desc ce]) (simp_all add: check_graph_nonvacuity_def nonvacuity_traversal_def raise_Inr)
qed

lemma open_evaluation:
  obtains ev vn where "evaluate_graph env (gate_graph Escalate) [probe 1] = Inr ev" "ge_violations ev = [(''non_vacuous'', vn)]"
    "gv_actual_magnitude vn = Num 1"
proof (rule open_nonvacuity [of "pe_regex env"])
  fix desc ce
  assume nv: "check_graph_nonvacuity (pe_regex env) (gate_graph Escalate) [probe 1] [] = Inr (Fail NonVacuous desc ce)"
    and "counterexample_magnitude ce = Num 1"
  then show ?thesis using gate_evaluation [OF nv] that by metis
qed

definition open_compiled :: compiled_graph where
  "open_compiled = \<lparr>cg_name = ''open gate'', cg_version = CARGO_PKG_VERSION, cg_graph = gate_graph Escalate,
     cg_axiom_verdicts = [], cg_strategyproofness = Strategyproof, cg_compiled_rule_hash = ''h'',
     cg_compiled_at = iso8601_of_seconds 0\<rparr>"

definition open_session :: monitor_session where
  "open_session = \<lparr>mo_compiled_graph = open_compiled, mo_sacrifice_certs = [], mo_monitored_properties = [],
     mo_representative_claims = [probe 1], mo_interval_seconds = 60,
     mo_monitor_config = \<lparr>min_interval_seconds = 60, max_interval_seconds = 60, seed = 0\<rparr>\<rparr>"

lemma EPSILON_below_one: "f64_lt (f64_add (Zero False) EPSILON) (Num 1)"
proof -
  obtain e where e: "EPSILON = Num e" "0 < e" "e < 1"
    using EPSILON_between by (auto intro: less_le_trans [of 0 "1 / 2 ^ 30"] le_less_trans [of _ "1 / 2 ^ 29"])
  from e(2,3) show ?thesis unfolding e(1) by (simp add: f64_lt_def f64_le_def)
qed

definition stop_config :: monitor_config where
  "stop_config = \<lparr>min_interval_seconds = 60, max_interval_seconds = 60, seed = 0\<rparr>"

definition stop_session :: "compiled_graph \<Rightarrow> graph_violation \<Rightarrow> monitor_session" where
  "stop_session cg vn = \<lparr>mo_compiled_graph = cg, mo_sacrifice_certs = [stop_certificate vn],
     mo_monitored_properties = non_sacrificed_monitoring_properties [stop_certificate vn],
     mo_representative_claims = [probe 1], mo_interval_seconds = 60, mo_monitor_config = stop_config\<rparr>"

lemma stop_interval: "lower_interval stop_config = 60" "upper_interval stop_config = 60" "randomized_interval stop_config x y = 60"
proof -
  have order: "\<not> (60 :: u64) \<le> 1" by (simp add: word_le_nat_alt)
  show "lower_interval stop_config = 60" "upper_interval stop_config = 60" "randomized_interval stop_config x y = 60"
    by (simp_all add: stop_config_def lower_interval_def upper_interval_def randomized_interval_def max_def order)
qed

lemma stop_session_ok:
  assumes "compiled_ok hash cg stop_declaration" and "gv_actual_magnitude vn = Zero False"
  shows "session_ok hash (stop_session cg vn) stop_declaration"
proof -
  have "certificates_ok [stop_certificate vn] [stop_sacrifice]"
    by (simp add: certificates_ok_def stop_certificate_def stop_sacrifice_def assms(2) zero_measure)
  moreover have "gd_sacrifices stop_declaration = [stop_sacrifice]" by (simp add: stop_declaration_def)
  moreover have "distinct (non_sacrificed_monitoring_properties [stop_certificate vn])"
    by (simp add: non_sacrificed_monitoring_properties_def default_monitored_properties_def)
  ultimately show ?thesis
    by (auto simp: session_ok_def stop_session_def assms(1) set_non_sacrificed stop_interval)
qed

lemma stop_activated:
  obtains st cg vn where "compile_state sample_env (Some 0) (Declared stop_graph [stop_sacrifice] stop_declaration)
      = Inr (Compiled cg [stop_certificate vn] stop_declaration)"
    "measure_state sample_env (Compiled cg [stop_certificate vn] stop_declaration) [probe 1] = Inr st"
    "activate_state sample_env st stop_config = Inr (Live (stop_session cg vn) default_ledger stop_declaration)"
    "cg_graph cg = stop_graph" "compiled_ok (pe_hash sample_env) cg stop_declaration" "gv_actual_magnitude vn = Zero False"
proof (rule stop_compiled)
  fix cg vn
  assume compile: "compile_state sample_env (Some 0) (Declared stop_graph [stop_sacrifice] stop_declaration)
      = Inr (Compiled cg [stop_certificate vn] stop_declaration)"
    and cg: "cg_graph cg = stop_graph" "compiled_ok (pe_hash sample_env) cg stop_declaration" and vn: "gv_actual_magnitude vn = Zero False"
  obtain ev where ev: "evaluate_graph sample_env stop_graph [probe 1] = Inr ev"
    using stop_evaluation [of sample_env] by blast
  let ?x = "measured_exposure ev"
  let ?r = "\<lparr>rr_factor_exposure = ?x, rr_spectral_gap = Zero False, rr_cv_bound = Zero False, rr_localizability_bound = Num 1\<rparr>"
  let ?m = "Measured ?r ?x cg [stop_certificate vn] stop_declaration [probe 1]"
  have certs: "certificates_ok [stop_certificate vn] [stop_sacrifice]"
    by (simp add: certificates_ok_def stop_certificate_def stop_sacrifice_def vn zero_measure)
  have sacr: "gd_sacrifices stop_declaration = [stop_sacrifice]" by (simp add: stop_declaration_def)
  have unit: "f64_eq x x" if "x = Num 1 \<or> x = Zero False" for x using that by (auto simp: f64_eq_def f64_le_def)
  have eq: "exposure_eq ?x ?x"
    by (simp add: exposure_eq_def measured_exposure_def verdict_to_exposure_def strategyproofness_exposure_def unit)
  have compiled: "state_validate (pe_hash sample_env) (Compiled cg [stop_certificate vn] stop_declaration) = Inr ()"
    using cg(2) certs by (simp add: state_validate_def rbind_Inr_iff validation_iffs stop_declaration_ok sacr)
  have measured: "state_validate (pe_hash sample_env) ?m = Inr ()"
    using cg(2) certs by (simp add: state_validate_def rbind_Inr_iff validation_iffs stop_declaration_ok sacr eq
        validate_risk_report_def zero_measure)
  have live: "state_validate (pe_hash sample_env) (Live (stop_session cg vn) default_ledger stop_declaration) = Inr ()"
    using stop_session_ok [OF cg(2) vn]
    by (simp add: state_validate_def rbind_Inr_iff validation_iffs stop_declaration_ok ledger_ok_def default_ledger_def)
  have "measure_state sample_env (Compiled cg [stop_certificate vn] stop_declaration) [probe 1] = Inr ?m"
    by (simp add: measure_state_def compiled cg(1) ev Let_def stop_signals validated_def measured)
  moreover have "activate_state sample_env ?m stop_config = Inr (Live (stop_session cg vn) default_ledger stop_declaration)"
    using live by (simp add: activate_state_def measured validated_def stop_interval stop_session_def)
  ultimately show ?thesis by (rule that [OF compile _ _ cg vn])
qed


section \<open>Witnesses\<close>

lemma evaluation_violations_witness: "\<exists>ev. evaluate_graph sample_env stop_graph [probe 1] = Inr ev
    \<and> map verdict_axiom (ge_axiom_verdicts ev) = REQUIRED_AXIOMS"
proof -
  obtain ev where ev: "evaluate_graph sample_env stop_graph [probe 1] = Inr ev" using stop_evaluation [of sample_env] by blast
  with evaluation_violations [OF stop_linked ev] show ?thesis by blast
qed

theorem compiled_sacrifices_exact_witness: "\<exists>ev. evaluate_graph sample_env stop_graph [probe 1] = Inr ev
    \<and> {p. violated ev p} = {NonVacuousProperty}"
proof (rule stop_compiled)
  fix cg :: compiled_graph and vn :: graph_violation
  assume "compile_state sample_env (Some 0) (Declared stop_graph [stop_sacrifice] stop_declaration)
      = Inr (Compiled cg [stop_certificate vn] stop_declaration)"
  from compiled_sacrifices_exact [OF stop_declared [unfolded declare_graph_def] this] obtain ev where
    "evaluate_graph sample_env stop_graph (synthetic_claims stop_graph) = Inr ev" "ds_property ` set [stop_sacrifice] = {p. violated ev p}"
    by blast
  then have "evaluate_graph sample_env stop_graph [probe 1] = Inr ev" "{p. violated ev p} = {NonVacuousProperty}"
    by (simp_all add: stop_order probe_one) (simp flip: probe_one add: stop_sacrifice_def)
  then show ?thesis by blast
qed

theorem drift_alerts_exact_witness: "\<exists>s alerts a. detect_drift_alerts sample_env s [probe 1] = Inr alerts \<and> a \<in> set alerts
    \<and> da_property a = NonVacuousProperty \<and> da_alert_type a = ''undeclared_violation'' \<and> da_actual_magnitude a = Num 1"
proof (rule open_evaluation [of sample_env])
  fix ev vn
  assume ev: "evaluate_graph sample_env (gate_graph Escalate) [probe 1] = Inr ev" "ge_violations ev = [(''non_vacuous'', vn)]"
    and vn: "gv_actual_magnitude vn = Num 1"
  let ?a = "alert_for [] (NonVacuousProperty, vn)"
  have "mset (pe_order sample_env m) = mset m" for m by (simp add: sample_env_def)
  from drift_alerts_exact [OF this, where s = open_session and cs = "[probe 1]"] obtain alerts where
    "detect_drift_alerts sample_env open_session [probe 1] = Inr alerts"
    "set alerts = {alert_for [] (p, vn') | p vn'. bm_get (ge_violations ev) (as_str p) = Some vn' \<and> exceeds [] p vn'}"
    by (auto simp: open_session_def open_compiled_def ev(1))
  moreover have "bm_get (ge_violations ev) (as_str NonVacuousProperty) = Some vn" by (simp add: ev(2) bm_get_Cons)
  moreover have "exceeds [] NonVacuousProperty vn"
    using EPSILON_below_one by (simp add: exceeds_def declared_bound_none vn)
  ultimately have "?a \<in> set alerts" by blast
  moreover have "da_property ?a = NonVacuousProperty" "da_alert_type ?a = ''undeclared_violation''" "da_actual_magnitude ?a = Num 1"
    by (simp_all add: alert_for_def certs_by_property_def bm_has_def vn)
  ultimately show ?thesis using \<open>detect_drift_alerts sample_env open_session [probe 1] = Inr alerts\<close> by blast
qed

theorem denial_never_alerts_witness:
  "\<exists>s ev alerts. evaluate_graph sample_env (cg_graph (mo_compiled_graph s)) [probe 1] = Inr ev \<and> violated ev NonVacuousProperty
     \<and> (\<exists>vn. bm_get (ge_violations ev) (as_str NonVacuousProperty) = Some vn \<and> gv_actual_magnitude vn = Zero False)
     \<and> detect_drift_alerts sample_env s [probe 1] = Inr alerts \<and> (\<forall>a \<in> set alerts. da_property a \<noteq> NonVacuousProperty)"
proof (rule stop_compiled)
  fix cg :: compiled_graph and vn :: graph_violation
  assume cg: "cg_graph cg = stop_graph" and vn: "gv_actual_magnitude vn = Zero False"
  let ?s = "stop_session cg vn"
  have g: "cg_graph (mo_compiled_graph ?s) = stop_graph" and certs: "mo_sacrifice_certs ?s = [stop_certificate vn]"
    by (simp_all add: stop_session_def cg)
  obtain ev where ev: "evaluate_graph sample_env (cg_graph (mo_compiled_graph ?s)) [probe 1] = Inr ev"
    unfolding g using stop_evaluation [of sample_env] by blast
  have order: "mset (pe_order sample_env (ge_violations ev)) = mset (ge_violations ev)" by (simp add: sample_env_def)
  obtain alerts where alerts: "detect_drift_alerts sample_env ?s [probe 1] = Inr alerts" using drift_alerts [OF ev order] by blast
  have "violated ev NonVacuousProperty
      \<and> (\<exists>vn. bm_get (ge_violations ev) (as_str NonVacuousProperty) = Some vn \<and> gv_actual_magnitude vn = Zero False)
      \<and> (\<forall>a \<in> set alerts. da_property a \<noteq> NonVacuousProperty)"
    by (rule denial_never_alerts [OF _ _ _ _ _ ev order alerts, of "[(''baseline'', Deny)]"])
      (simp_all add: g certs stop_linked stop_final bm_get_Cons stop_certificate_def vn zero_measure)
  with ev alerts show ?thesis by blast
qed

end
