(* ===== verification/Protocol_Supervision.thy ===== *)
theory Protocol_Supervision
  imports Protocol_Properties
begin

text \<open>
  Supervision of a live session, \<open>src/src/protocol/supervision.rs\<close>: an action rewrites an overlay
  of the compiled graph, and the session becomes supervised. The JSON parser of a directive is
  a parameter, \<open>json\<close>, as the directive is free text; the search for an unused node identifier,
  unbounded in the code, is shown to end.
\<close>

section \<open>Directives\<close>

record supervisory_directive =
  sd_sandbox_nodes :: "string list"
  sd_degradation_factor :: "f64 option"
  sd_reroute_to :: "string list"

definition default_directive :: supervisory_directive where
  "default_directive = \<lparr>sd_sandbox_nodes = [], sd_degradation_factor = None, sd_reroute_to = []\<rparr>"

text \<open>\<open>value.trim_start()\<close> over the UTF-8 bytes.\<close>

fun trim_start :: "string \<Rightarrow> string" where
  "trim_start [] = []"
| "trim_start [a] = (if ws1 a then [] else [a])"
| "trim_start [a, b] = (if ws1 a then trim_start [b] else if ws2 a b then [] else [a, b])"
| "trim_start (a # b # c # s) =
     (if ws1 a then trim_start (b # c # s) else if ws2 a b then trim_start (c # s)
      else if ws3 a b c then trim_start s else a # b # c # s)"

type_synonym directive_parser = "string \<Rightarrow> string + supervisory_directive"

definition parse_directive :: "directive_parser \<Rightarrow> string option \<Rightarrow> protocol_error + supervisory_directive" where
  "parse_directive json reason =
     (case reason of
        None \<Rightarrow> Inr default_directive
      | Some text \<Rightarrow>
          if take 1 (trim_start text) = ''{'' then
            (case json text of
               Inl e \<Rightarrow> Inl (MalformedSupervisoryDirectiveJson e)
             | Inr directive \<Rightarrow> Inr directive)
          else Inr default_directive)"

section \<open>Actions on the overlay\<close>

fun node_name :: "governance_node \<Rightarrow> string" where
  "node_name (Binary i n gates d l) = n"
| "node_name (Proportional i n r classes) = n"
| "node_name (Threshold i n threshold field) = n"

definition node_identity :: "governance_node \<Rightarrow> node_id \<times> string" where
  "node_identity n = (node_id_for_node n, node_name n)"

definition constant_node :: "decision \<Rightarrow> governance_node \<Rightarrow> governance_node" where
  "constant_node d n = (let (i, name) = node_identity n in Binary i name [] d FirstMatch)"

definition rewrite_as_constant :: "decision \<Rightarrow> governance_graph \<Rightarrow> governance_graph" where
  "rewrite_as_constant d g = g\<lparr>nodes := map (\<lambda>(v, n). (v, constant_node d n)) (nodes g)\<rparr>"

definition parse_existing_node_id :: "governance_graph \<Rightarrow> string \<Rightarrow> string \<Rightarrow> protocol_error + node_id" where
  "parse_existing_node_id g field raw =
     (case node_id_new raw of
        Inl e \<Rightarrow> Inl (MalformedSupervisoryDirectiveNodeId field raw e)
      | Inr node_id \<Rightarrow>
          if \<not> bm_has (nodes g) node_id then Inl (UnknownSupervisoryDirectiveNodeId field node_id) else Inr node_id)"

definition parse_existing_node_ids ::
  "governance_graph \<Rightarrow> string list \<Rightarrow> string \<Rightarrow> protocol_error + node_id list" where
  "parse_existing_node_ids g raw_ids field =
     rbind (rmap (parse_existing_node_id g field) raw_ids) (\<lambda>ids. Inr (sorted_list_of_set (set ids)))"

definition supervised_entries :: "governance_graph \<Rightarrow> node_id list" where
  "supervised_entries g =
     (let incoming = fold (\<lambda>e m. bm_insert (edge_to e) (or_default 0 m (edge_to e) + 1) m) (edges g)
                       (fold (\<lambda>k. bm_insert k (0 :: nat)) (bm_keys (nodes g)) [])
      in sort (filter (\<lambda>v. or_default 0 incoming v = 0) (bm_keys (nodes g))))"

definition keep_nodes :: "node_id set \<Rightarrow> governance_graph \<Rightarrow> governance_graph" where
  "keep_nodes allowed g =
     \<lparr>nodes = filter (\<lambda>e. fst e \<in> allowed) (nodes g),
      edges = filter (\<lambda>e. edge_from e \<in> allowed \<and> edge_to e \<in> allowed) (edges g)\<rparr>"

definition sandbox_graph :: "supervisory_directive \<Rightarrow> governance_graph \<Rightarrow> protocol_error + governance_graph" where
  "sandbox_graph directive g =
     rbind (parse_existing_node_ids g (sd_sandbox_nodes directive) ''sandbox_nodes'') (\<lambda>allowed.
       Inr (keep_nodes (set (if allowed = [] then supervised_entries g else allowed)) g))"

definition DEFAULT_DEGRADATION_FACTOR :: f64 where
  "DEFAULT_DEGRADATION_FACTOR = round64 (3 / 2)"

fun degrade_gate :: "f64 \<Rightarrow> gate \<Rightarrow> gate" where
  "degrade_gate factor (ThresholdGate field mn d) = ThresholdGate field (f64_mul mn factor) d"
| "degrade_gate factor g = g"

fun degrade_node :: "f64 \<Rightarrow> governance_node \<Rightarrow> governance_node" where
  "degrade_node factor (Binary i n gates d l) = Binary i n (map (degrade_gate factor) gates) d l"
| "degrade_node factor (Threshold i n threshold field) = Threshold i n (f64_mul threshold factor) field"
| "degrade_node factor (Proportional i n r classes) = Proportional i n r classes"

definition degradation_factor :: "supervisory_directive \<Rightarrow> f64" where
  "degradation_factor directive =
     (case sd_degradation_factor directive of
        Some factor \<Rightarrow> if is_finite factor \<and> f64_lt (Zero False) factor then factor else DEFAULT_DEGRADATION_FACTOR
      | None \<Rightarrow> DEFAULT_DEGRADATION_FACTOR)"

definition degrade_graph :: "supervisory_directive \<Rightarrow> governance_graph \<Rightarrow> governance_graph" where
  "degrade_graph directive g = g\<lparr>nodes := map (\<lambda>(v, n). (v, degrade_node (degradation_factor directive) n)) (nodes g)\<rparr>"

section \<open>Rerouting\<close>

definition downstream_targets :: "governance_graph \<Rightarrow> node_id list \<Rightarrow> node_id list" where
  "downstream_targets g entries =
     sorted_list_of_set (edge_to ` {e \<in> set (edges g). edge_from e \<in> set entries \<and> edge_to e \<notin> set entries})"

definition reroute_candidate :: "string \<Rightarrow> nat \<Rightarrow> string" where
  "reroute_candidate base suffix = (if suffix = 0 then base else base @ ''_'' @ show_nat suffix)"

lemma reroute_candidate_inj: "inj (reroute_candidate base)"
proof (rule injI)
  fix a b
  assume "reroute_candidate base a = reroute_candidate base b"
  then show "a = b" by (auto simp: reroute_candidate_def split: if_split_asm)
qed

lemma finite_taken: "finite {k. n \<le> k \<and> bm_has (nodes g) (reroute_candidate base k)}"
proof (rule finite_subset)
  show "{k. n \<le> k \<and> bm_has (nodes g) (reroute_candidate base k)} \<subseteq> reroute_candidate base -` set (bm_keys (nodes g))"
    by (auto simp: bm_has_def)
  show "finite (reroute_candidate base -` set (bm_keys (nodes g)))"
    by (rule finite_vimageI [OF _ reroute_candidate_inj]) simp
qed

text \<open>The loop \<open>for suffix in 0..\<close>. It passes only suffixes whose identifier is taken, and the graph
  has finitely many nodes (fewer than the loop variable can count).\<close>

function next_available_node_id :: "governance_graph \<Rightarrow> string \<Rightarrow> nat \<Rightarrow> legitimacy_error + node_id" where
  "next_available_node_id g base suffix =
     (case node_id_new (reroute_candidate base suffix) of
        Inl e \<Rightarrow> Inl e
      | Inr node_id \<Rightarrow> if \<not> bm_has (nodes g) node_id then Inr node_id else next_available_node_id g base (suffix + 1))"
  by pat_completeness auto

termination
proof (relation "measure (\<lambda>(g, base, n). card {k. n \<le> k \<and> bm_has (nodes g) (reroute_candidate base k)})")
  fix g :: governance_graph and base n i
  assume "node_id_new (reroute_candidate base n) = Inr i" and "\<not> \<not> bm_has (nodes g) i"
  then have "bm_has (nodes g) (reroute_candidate base n)" by (auto simp: node_id_new_def split: if_split_asm)
  then have "{k. n + 1 \<le> k \<and> bm_has (nodes g) (reroute_candidate base k)}
      \<subset> {k. n \<le> k \<and> bm_has (nodes g) (reroute_candidate base k)}"
    by (auto simp: Suc_le_eq)
  from psubset_card_mono [OF finite_taken this]
  show "((g, base, n + 1), (g, base, n)) \<in> measure (\<lambda>(g, base, n). card {k. n \<le> k \<and> bm_has (nodes g) (reroute_candidate base k)})"
    by simp
qed simp

declare next_available_node_id.simps [simp del]

definition REROUTE_NODE_ID :: string where
  "REROUTE_NODE_ID = ''__supervision_reroute__''"

definition reroute_node :: "node_id \<Rightarrow> governance_node" where
  "reroute_node i = Binary i ''supervision-reroute'' [] Escalate FirstMatch"

definition reroute_targets :: "governance_graph \<Rightarrow> node_id list \<Rightarrow> node_id list \<Rightarrow> node_id list" where
  "reroute_targets g entries requested =
     (let targets = filter (\<lambda>v. v \<notin> set entries) requested;
          targets = (if targets = [] then downstream_targets g entries else targets)
      in if targets = [] then filter (\<lambda>v. v \<notin> set entries) (bm_keys (nodes g)) else targets)"

definition reroute_graph :: "supervisory_directive \<Rightarrow> governance_graph \<Rightarrow> protocol_error + governance_graph" where
  "reroute_graph directive g =
     (let entries = supervised_entries g in
      rbind (parse_existing_node_ids g (sd_reroute_to directive) ''reroute_to'') (\<lambda>requested.
        let targets = reroute_targets g entries requested in
        if targets = [] then Inr (rewrite_as_constant Deny g)
        else
          let kept = keep_nodes (- set entries) g in
          rbind (lift_error (next_available_node_id kept REROUTE_NODE_ID 0)) (\<lambda>reroute_id.
            Inr \<lparr>nodes = bm_insert reroute_id (reroute_node reroute_id) (nodes kept),
                 edges = edges kept @ map (\<lambda>target. \<lparr>edge_from = reroute_id, edge_to = target, edge_transform = PassThrough\<rparr>) targets\<rparr>)))"

section \<open>Supervision\<close>

definition apply_supervisory_action ::
  "governance_declaration \<Rightarrow> supervisory_action \<Rightarrow> supervisory_directive \<Rightarrow> governance_graph
     \<Rightarrow> protocol_error + governance_graph" where
  "apply_supervisory_action declaration act directive g =
     (case act of
        PauseAction \<Rightarrow> Inr (rewrite_as_constant Escalate g)
      | DenyAction \<Rightarrow> Inr (rewrite_as_constant Deny g)
      | StopAction \<Rightarrow> Inr (rewrite_as_constant Deny g)
      | Sandbox \<Rightarrow> sandbox_graph directive g
      | Degrade \<Rightarrow> Inr (degrade_graph directive g)
      | Rollback \<Rightarrow> Inr (gd_graph declaration)
      | Reroute \<Rightarrow> reroute_graph directive g)"

text \<open>What \<open>supervise\<close> takes from its argument: the session and the graph the action starts from.\<close>

fun supervised_parts ::
  "protocol_state \<Rightarrow> protocol_error + monitor_session \<times> protocol_ledger \<times> governance_declaration \<times> governance_graph" where
  "supervised_parts (Live session l declaration) = Inr (session, l, declaration, cg_graph (mo_compiled_graph session))"
| "supervised_parts (Supervised i session l declaration) = Inr (session, l, declaration, si_overlay_graph i)"
| "supervised_parts other = Inl (transition_error ''live|supervised'' other)"

definition supervise ::
  "protocol_env \<Rightarrow> directive_parser \<Rightarrow> clock \<Rightarrow> protocol_state \<Rightarrow> supervisory_action \<Rightarrow> string option \<Rightarrow> protocol_error + protocol_state" where
  "supervise env json now live act reason =
     rbind (state_validate (pe_hash env) live) (\<lambda>_.
     rbind (supervised_parts live) (\<lambda>(session, l, declaration, overlay).
     rbind (parse_directive json reason) (\<lambda>directive.
     rbind (apply_supervisory_action declaration act directive overlay) (\<lambda>overlay_graph.
     rbind (canonical_graph_hash (pe_hash env) overlay_graph) (\<lambda>overlay_graph_hash.
     rbind (lift_error (iso8601_timestamp now)) (\<lambda>issued_at.
       let st = Supervised
             \<lparr>si_action = act, si_postcondition = action_postcondition act, si_issued_at = issued_at,
              si_overlay_graph = overlay_graph, si_overlay_graph_hash = overlay_graph_hash, si_reason = reason\<rparr>
             session l declaration
       in rbind (state_validate (pe_hash env) st) (\<lambda>_. Inr st)))))))"

section \<open>Lemmas: the next free identifier\<close>

lemma next_available:
  assumes "\<And>k. \<not> is_blank (reroute_candidate base k)"
  shows "\<exists>k \<ge> n. next_available_node_id g base n = Inr (reroute_candidate base k) \<and> \<not> bm_has (nodes g) (reroute_candidate base k)
    \<and> (\<forall>j. n \<le> j \<and> j < k \<longrightarrow> bm_has (nodes g) (reroute_candidate base j))"
  using assms
proof (induction g base n rule: next_available_node_id.induct)
  case (1 g base n)
  have i: "node_id_new (reroute_candidate base n) = Inr (reroute_candidate base n)" by (simp add: node_id_new_def 1)
  show ?case
  proof (cases "bm_has (nodes g) (reroute_candidate base n)")
    case True
    with 1 i obtain k where k: "k \<ge> n + 1" "next_available_node_id g base (n + 1) = Inr (reroute_candidate base k)"
        "\<not> bm_has (nodes g) (reroute_candidate base k)" "\<forall>j. n + 1 \<le> j \<and> j < k \<longrightarrow> bm_has (nodes g) (reroute_candidate base j)"
      by blast
    then have "\<forall>j. n \<le> j \<and> j < k \<longrightarrow> bm_has (nodes g) (reroute_candidate base j)" using True by (metis Suc_eq_plus1 le_antisym not_less_eq_eq)
    with k True i show ?thesis by (intro exI [of _ k]) (simp add: next_available_node_id.simps [of g base n])
  next
    case False
    with i show ?thesis by (intro exI [of _ n]) (auto simp: next_available_node_id.simps [of g base n])
  qed
qed

lemma reroute_not_blank: "\<not> is_blank (reroute_candidate REROUTE_NODE_ID k)"
proof -
  have "CHR ''_'' \<in> set (reroute_candidate REROUTE_NODE_ID k)" by (simp add: reroute_candidate_def REROUTE_NODE_ID_def)
  moreover have "code_of (CHR ''_'') = 95" by simp
  ultimately show ?thesis using blank_chars [of "reroute_candidate REROUTE_NODE_ID k" "CHR ''_''"] by linarith
qed

lemma reroute_id:
  obtains i where "next_available_node_id g REROUTE_NODE_ID 0 = Inr i" "\<not> bm_has (nodes g) i"
  using next_available [OF reroute_not_blank, of 0 g] by blast

section \<open>Lemmas: overlays stay graphs\<close>

definition overlay_ok :: "governance_graph \<Rightarrow> bool" where
  "overlay_ok g \<longleftrightarrow> well_linked g \<and> acyclic (edge_rel g) \<and> nodes g \<noteq> []"

lemma map_nodes_keys: "bm_keys (map (\<lambda>(v, n). (v, f n)) m) = bm_keys m"
  by (simp add: case_prod_beta comp_def)

lemma map_nodes_has: "bm_has (map (\<lambda>(v, n). (v, f n)) m) k \<longleftrightarrow> bm_has m k"
  unfolding bm_has_def by (force simp: case_prod_beta image_image)

lemma map_nodes_wf: "bm_wf (map (\<lambda>(v, n). (v, f n)) m) \<longleftrightarrow> bm_wf m"
  by (simp add: bm_wf_def case_prod_beta comp_def)

lemma map_nodes_ok:
  assumes "overlay_ok g"
  shows "overlay_ok (g\<lparr>nodes := map (\<lambda>(v, n). (v, f n)) (nodes g)\<rparr>)"
  using assms by (simp add: overlay_ok_def well_linked_def map_nodes_wf map_nodes_has edge_rel_def)

lemma keep_has: "bm_has (nodes (keep_nodes A g)) v \<longleftrightarrow> bm_has (nodes g) v \<and> v \<in> A"
  by (auto simp: keep_nodes_def bm_has_def)

lemma keep_linked: "well_linked g \<Longrightarrow> well_linked (keep_nodes A g)"
  unfolding well_linked_def keep_has
  by (auto simp: keep_nodes_def bm_wf_def sorted_wrt_filter filter_map comp_def intro!: sorted_wrt_filter [of "(<)" "map fst _" "\<lambda>v. v \<in> A", unfolded filter_map comp_def])

lemma keep_acyclic: "acyclic (edge_rel g) \<Longrightarrow> acyclic (edge_rel (keep_nodes A g))"
  by (rule acyclic_subset) (auto simp: edge_rel_def keep_nodes_def)

lemma acyclic_source:
  assumes "acyclic r" and "v \<notin> Range r" and "v \<notin> T"
  shows "acyclic (r \<union> {v} \<times> T)"
proof -
  have "b \<noteq> v \<and> (a = v \<or> (a, b) \<in> r\<^sup>+)" if "(a, b) \<in> (r \<union> {v} \<times> T)\<^sup>+" for a b
    using that
  proof (induction rule: trancl_induct)
    case (step y z)
    then show ?case using assms(2,3) by (auto intro: trancl_into_trancl)
  qed (use assms(2,3) in auto)
  then show ?thesis using assms(1) by (auto simp: acyclic_def)
qed

lemma supervised_entries_eq: "supervised_entries g = entry_node_list g"
  unfolding supervised_entries_def entry_node_list_def incoming_counts_def Let_def
  by (intro arg_cong [where f = sort] filter_cong refl) (simp add: zero_count_def)

lemma set_supervised_entries: "set (supervised_entries g) = {v \<in> set (bm_keys (nodes g)). is_entry g v}"
  unfolding supervised_entries_eq by (rule set_entry_nodes)

lemma entries_nonempty: "overlay_ok g \<Longrightarrow> supervised_entries g \<noteq> []"
  unfolding supervised_entries_eq overlay_ok_def by (elim conjE) (rule entry_exists)

lemma existing_ids:
  assumes "parse_existing_node_ids g raw field = Inr ids"
  shows "set ids \<subseteq> set (bm_keys (nodes g))"
proof -
  from assms obtain xs where xs: "rmap (parse_existing_node_id g field) raw = Inr xs" "set ids = set xs"
    by (auto simp: parse_existing_node_ids_def result_simps)
  have "x \<in> set (bm_keys (nodes g))" if "parse_existing_node_id g field r = Inr x" for r x
    using that by (auto simp: parse_existing_node_id_def bm_has_def split: sum.split_asm if_split_asm)
  moreover have "list_all2 (\<lambda>r x. parse_existing_node_id g field r = Inr x) raw xs" using xs(1) by (simp add: rmap_Inr_iff)
  then have "\<forall>x \<in> set xs. \<exists>r. parse_existing_node_id g field r = Inr x" by (induction rule: list_all2_induct) auto
  ultimately show ?thesis using xs(2) by blast
qed

lemma sandbox_ok:
  assumes "overlay_ok g" and "sandbox_graph directive g = Inr g'"
  shows "overlay_ok g'"
proof -
  from assms(2) obtain ids where ids: "parse_existing_node_ids g (sd_sandbox_nodes directive) ''sandbox_nodes'' = Inr ids"
    and g': "g' = keep_nodes (set (if ids = [] then supervised_entries g else ids)) g"
    by (auto simp: sandbox_graph_def result_simps)
  have "set (if ids = [] then supervised_entries g else ids) \<inter> set (bm_keys (nodes g)) \<noteq> {}"
  proof (cases "ids = []")
    case True
    obtain v where "v \<in> set (supervised_entries g)" using entries_nonempty [OF assms(1)] by (meson list.set_sel(1))
    with True show ?thesis using set_supervised_entries [of g] by auto
  next
    case False
    then show ?thesis using existing_ids [OF ids] by (cases ids) auto
  qed
  then have "nodes g' \<noteq> []" by (force simp: g' keep_nodes_def filter_empty_conv)
  with assms(1) show ?thesis unfolding overlay_ok_def by (simp add: g' keep_linked keep_acyclic)
qed

lemma insert_not_empty: "bm_insert k v m \<noteq> []"
  by (cases m) auto

lemma reroute_ok:
  assumes "overlay_ok g" and "reroute_graph directive g = Inr g'"
  shows "overlay_ok g'"
proof -
  let ?es = "supervised_entries g" and ?k = "keep_nodes (- set (supervised_entries g)) g"
  from assms(2) obtain ids where ids: "parse_existing_node_ids g (sd_reroute_to directive) ''reroute_to'' = Inr ids"
    by (auto simp: reroute_graph_def Let_def result_simps)
  let ?ts = "reroute_targets g ?es ids"
  show ?thesis
  proof (cases "?ts = []")
    case True
    with assms(2) ids have "g' = rewrite_as_constant Deny g" by (simp add: reroute_graph_def)
    then show ?thesis using map_nodes_ok [OF assms(1)] by (simp add: rewrite_as_constant_def)
  next
    case False
    obtain i where i: "next_available_node_id ?k REROUTE_NODE_ID 0 = Inr i" "\<not> bm_has (nodes ?k) i" by (rule reroute_id)
    with assms(2) ids False have g': "g' = \<lparr>nodes = bm_insert i (reroute_node i) (nodes ?k),
        edges = edges ?k @ map (\<lambda>target. \<lparr>edge_from = i, edge_to = target, edge_transform = PassThrough\<rparr>) ?ts\<rparr>"
      by (simp add: reroute_graph_def lift_error_def Let_def)
    have ts: "set ?ts \<subseteq> {v. bm_has (nodes ?k) v}"
      using existing_ids [OF ids] assms(1) unfolding keep_has reroute_targets_def Let_def
      by (auto simp: downstream_targets_def overlay_ok_def well_linked_def bm_has_def split: if_split_asm)
    have k: "well_linked ?k" "acyclic (edge_rel ?k)" using assms(1) by (auto simp: overlay_ok_def keep_linked keep_acyclic)
    have "well_linked g'" using k(1) ts by (auto simp: g' well_linked_def)
    moreover have "edge_rel g' = edge_rel ?k \<union> {i} \<times> set ?ts" by (force simp: g' edge_rel_def)
    moreover have "i \<notin> Range (edge_rel ?k)" using k(1) i(2) by (auto simp: edge_rel_def well_linked_def)
    moreover have "i \<notin> set ?ts" using ts i(2) by auto
    ultimately show ?thesis using acyclic_source [OF k(2)] by (simp add: overlay_ok_def) (simp add: g' insert_not_empty)
  qed
qed


section \<open>Lemmas: constant overlays\<close>

definition constant_overlay :: "decision \<Rightarrow> governance_graph \<Rightarrow> bool" where
  "constant_overlay d g \<longleftrightarrow> (\<forall>(v, n) \<in> set (nodes g). \<exists>name. n = Binary v name [] d FirstMatch)"

lemma rewrite_constant:
  assumes "validate_governance_graph rx g = Inr ()"
  shows "constant_overlay d (rewrite_as_constant d g)" and "validate_governance_graph rx (rewrite_as_constant d g) = Inr ()"
proof -
  have id: "node_id_for_node n = v" if "(v, n) \<in> set (nodes g)" for v n
    using assms that by (auto simp: validate_governance_graph_Inr validate_graph_node_def split: if_split_asm)
  then show "constant_overlay d (rewrite_as_constant d g)"
    by (force simp: constant_overlay_def rewrite_as_constant_def constant_node_def node_identity_def)
  have has: "bm_has (nodes (rewrite_as_constant d g)) v \<longleftrightarrow> bm_has (nodes g) v" for v
    by (simp add: rewrite_as_constant_def map_nodes_has)
  show "validate_governance_graph rx (rewrite_as_constant d g) = Inr ()"
    unfolding validate_governance_graph_Inr
  proof (intro conjI ballI)
    fix e assume "e \<in> set (nodes (rewrite_as_constant d g))"
    then show "validate_graph_node rx e = Inr ()"
      using id by (auto simp: rewrite_as_constant_def constant_node_def node_identity_def validate_graph_node_def)
  next
    fix e assume "e \<in> set (edges (rewrite_as_constant d g))"
    then show "validate_graph_edge (rewrite_as_constant d g) e = Inr ()"
      using assms has by (simp add: validate_governance_graph_Inr validate_graph_edge_Inr) (simp add: rewrite_as_constant_def)
  qed
qed

lemma constant_dec_at:
  assumes "constant_overlay d g" and "bm_wf (nodes g)" and "v \<in> set (bm_keys (nodes g))"
  shows "dec_at rx g v b c = d"
proof -
  obtain n where n: "(v, n) \<in> set (nodes g)" using assms(3) by auto
  then have "bm_get (nodes g) v = Some n" using bm_get_mem [OF assms(2)] by blast
  moreover obtain name where "n = Binary v name [] d FirstMatch" using assms(1) n by (auto simp: constant_overlay_def)
  ultimately show ?thesis by (simp add: dec_at_def evaluate_combination_def)
qed

lemma constant_traverses:
  assumes "constant_overlay d g" and "validate_governance_graph rx g = Inr ()" and "overlay_ok g"
    and "validate_governance_claims cs = Inr ()"
  shows "\<exists>r. traverse rx g cs = Inr r \<and> (\<forall>c \<in> set cs. bm_get (final_decisions r) (claimant_id c) = Some d)"
proof -
  have ok: "well_linked g" "acyclic (edge_rel g)" "nodes g \<noteq> []" "bm_wf (nodes g)"
    using assms(3) by (auto simp: overlay_ok_def well_linked_def)
  have nodes: "\<exists>name. n = Binary v name [] d FirstMatch" if "(v, n) \<in> set (nodes g)" for v n
    using assms(1) that by (auto simp: constant_overlay_def)
  have "\<forall>(v, n) \<in> set (nodes g). node_kind n \<noteq> ''Proportional''"
    "\<forall>(v, n) \<in> set (nodes g). \<forall>c \<in> set cs. \<forall>field \<in> node_fields n. provides c field"
    using nodes by fastforce+
  from traverse_total [OF assms(2) ok(4,2,3) this(1) assms(4) this(2)] obtain r where r: "traverse rx g cs = Inr r" by blast
  obtain B where B: "flow rx g cs B"
      "\<And>k. bm_get (final_decisions r) k = strictest (decided rx g B (set (bm_keys (nodes g))) k)"
    using traverse_final_flow [OF ok(1) traverse_final [OF r]] by blast
  have "decided rx g B (set (bm_keys (nodes g))) k \<subseteq> {d}" for k
    using constant_dec_at [OF assms(1) ok(4)] by (auto simp: decided_def)
  moreover have "\<exists>d'. bm_get (final_decisions r) (claimant_id c) = Some d'" if "c \<in> set cs" for c
    using final_lookup [OF ok(1) traverse_final [OF r] that] .
  ultimately have "bm_get (final_decisions r) (claimant_id c) = Some d" if "c \<in> set cs" for c
    using that B(2) [of "claimant_id c"] by (fastforce simp: strictest_def subset_singleton_iff split: if_splits)
  with r show ?thesis by blast
qed

lemma supervise_Inr:
  assumes "supervise env json now live act reason = Inr st"
  obtains session l d g g' directive i where "supervised_parts live = Inr (session, l, d, g)"
    "parse_directive json reason = Inr directive" "apply_supervisory_action d act directive g = Inr g'"
    "st = Supervised i session l d" "si_overlay_graph i = g'" "si_action i = act" "si_postcondition i = action_postcondition act"
    "state_validate (pe_hash env) st = Inr ()"
  using assms unfolding supervise_def Let_def by (auto simp: result_simps split: prod.split_asm)

lemma apply_overlay_ok:
  assumes "overlay_ok g" and "overlay_ok (gd_graph d)" and "apply_supervisory_action d act directive g = Inr g'"
  shows "overlay_ok g'"
proof -
  have "overlay_ok (rewrite_as_constant x g)" "overlay_ok (degrade_graph directive g)" for x
    using map_nodes_ok [OF assms(1)] by (simp_all add: rewrite_as_constant_def degrade_graph_def)
  moreover have "overlay_ok g'" if "sandbox_graph directive g = Inr g' \<or> reroute_graph directive g = Inr g'"
    using that sandbox_ok [OF assms(1)] reroute_ok [OF assms(1)] by blast
  ultimately show ?thesis using assms(2,3) by (cases act) (auto simp add: apply_supervisory_action_def)
qed

lemma stop_rollback:
  assumes "supervise env json now live StopAction reason = Inr st" and "supervised_parts live = Inr (session, l, d, g)"
    and "pe_hash env (GraphPayload (gd_graph d) (synthetic_claims (gd_graph d))) = Inr h"
  shows "\<exists>i. supervise env json (Some t) st Rollback None = Inr (Supervised i session l d) \<and> si_overlay_graph i = gd_graph d"
proof (rule supervise_Inr [OF assms(1)])
  fix session' l' d' g0 g' directive i
  assume parts: "supervised_parts live = Inr (session', l', d', g0)" and st: "st = Supervised i session' l' d'"
    and ok: "state_validate (pe_hash env) st = Inr ()"
  have same: "session' = session" "l' = l" "d' = d" using parts assms(2) by auto
  have hash: "canonical_graph_hash (pe_hash env) (gd_graph d) = Inr h"
    by (simp add: canonical_graph_hash_def stable_hash_def assms(3) lift_error_def)
  let ?i = "\<lparr>si_action = Rollback, si_postcondition = action_postcondition Rollback, si_issued_at = iso8601_of_seconds (sint t),
      si_overlay_graph = gd_graph d, si_overlay_graph_hash = h, si_reason = None\<rparr>"
  have "state_validate (pe_hash env) (Supervised ?i session l d) = Inr ()"
  proof -
    have "validate_declaration_basics d = Inr ()" "validate_monitor_session (pe_hash env) session d True = Inr ()"
      "validate_ledger (pe_hash env) l False = Inr ()"
      using ok unfolding st same state_validate_def validate_with_options.simps rbind_Inr_iff by auto
    then show ?thesis by (simp add: state_validate_def validate_supervisory_intervention_def hash)
  qed
  then have "supervise env json (Some t) st Rollback None = Inr (Supervised ?i session l d)"
    using ok unfolding st same
    by (simp add: supervise_def parse_directive_def apply_supervisory_action_def hash iso8601_timestamp_def lift_error_def)
  then show ?thesis by (intro exI [of _ ?i]) simp
qed

section \<open>Properties\<close>

text \<open>C27: a pause escalates, and a denial or a stop denies, every claim: whatever session or earlier
  overlay the action starts from, the overlay it installs still evaluates every valid batch and
  gives each claim the one decision.\<close>

theorem overlay_decides_constant:
  assumes "supervise env json now live act reason = Inr st" and "act \<in> {PauseAction, DenyAction, StopAction}"
    and "supervised_parts live = Inr (session, l, d, g)" and "validate_governance_graph rx g = Inr ()" and "overlay_ok g"
    and "validate_governance_claims cs = Inr ()"
  shows "\<exists>i r. st = Supervised i session l d \<and> traverse rx (si_overlay_graph i) cs = Inr r
    \<and> (\<forall>c \<in> set cs. bm_get (final_decisions r) (claimant_id c) = Some (if act = PauseAction then Escalate else Deny))"
proof (rule supervise_Inr [OF assms(1)])
  fix session' l' d' g0 g' directive i
  assume parts: "supervised_parts live = Inr (session', l', d', g0)" and act: "apply_supervisory_action d' act directive g0 = Inr g'"
    and st: "st = Supervised i session' l' d'" "si_overlay_graph i = g'"
  let ?d = "if act = PauseAction then Escalate else Deny"
  have same: "session' = session" "l' = l" "d' = d" "g0 = g" using parts assms(3) by auto
  have g': "g' = rewrite_as_constant ?d g" using assms(2) act by (auto simp: apply_supervisory_action_def same)
  have "overlay_ok g'" using map_nodes_ok [OF assms(5)] by (simp add: g' rewrite_as_constant_def)
  from constant_traverses [OF rewrite_constant [OF assms(4), of ?d] this [unfolded g'] assms(6)] obtain r where
    "traverse rx g' cs = Inr r" "\<forall>c \<in> set cs. bm_get (final_decisions r) (claimant_id c) = Some ?d" unfolding g' by blast
  then show ?thesis using st same by (intro exI [of _ i] exI [of _ r]) simp
qed

text \<open>C28: supervision keeps a graph: whatever sequence of actions has produced an overlay, the next
  one again links its edges to its nodes, has no cycle and is not empty, and the session, the
  ledger and the declaration are not touched.\<close>

theorem overlays_stay_acyclic:
  assumes "supervise env json now live act reason = Inr st" and "supervised_parts live = Inr (session, l, d, g)"
    and "overlay_ok g" and "overlay_ok (gd_graph d)"
  shows "\<exists>i. st = Supervised i session l d \<and> overlay_ok (si_overlay_graph i) \<and> si_postcondition i = action_postcondition act"
proof (rule supervise_Inr [OF assms(1)])
  fix session' l' d' g0 g' directive i
  assume parts: "supervised_parts live = Inr (session', l', d', g0)" and act: "apply_supervisory_action d' act directive g0 = Inr g'"
    and st: "st = Supervised i session' l' d'" "si_overlay_graph i = g'" "si_postcondition i = action_postcondition act"
  have "session' = session" "l' = l" "d' = d" "g0 = g" using parts assms(2) by auto
  with apply_overlay_ok [OF assms(3,4)] act st show ?thesis by blast
qed

text \<open>A stop is not final: although it records the postcondition \<open>permanently_shutdown\<close>, a rollback
  of the stopped session succeeds and puts the declared graph back.\<close>

lemma stop_can_be_rolled_back:
  assumes "supervise env json now live StopAction reason = Inr st" and "supervised_parts live = Inr (session, l, d, g)"
    and "pe_hash env (GraphPayload (gd_graph d) (synthetic_claims (gd_graph d))) = Inr h"
  shows "\<exists>i. supervise env json (Some t) st Rollback None = Inr (Supervised i session l d) \<and> si_overlay_graph i = gd_graph d"
  using assms by (rule stop_rollback)

section \<open>The entries of a rerouted graph\<close>

lemma reroute_shape:
  assumes "reroute_graph directive g = Inr g'" and "parse_existing_node_ids g (sd_reroute_to directive) ''reroute_to'' = Inr ids"
    and "reroute_targets g (supervised_entries g) ids \<noteq> []"
  obtains i where "\<not> bm_has (nodes (keep_nodes (- set (supervised_entries g)) g)) i"
    "g' = \<lparr>nodes = bm_insert i (reroute_node i) (nodes (keep_nodes (- set (supervised_entries g)) g)),
       edges = edges (keep_nodes (- set (supervised_entries g)) g)
         @ map (\<lambda>target. \<lparr>edge_from = i, edge_to = target, edge_transform = PassThrough\<rparr>)
             (reroute_targets g (supervised_entries g) ids)\<rparr>"
proof (rule reroute_id)
  fix i
  assume i: "next_available_node_id (keep_nodes (- set (supervised_entries g)) g) REROUTE_NODE_ID 0 = Inr i"
    and fresh: "\<not> bm_has (nodes (keep_nodes (- set (supervised_entries g)) g)) i"
  show ?thesis using assms by (intro that [OF fresh]) (simp add: reroute_graph_def lift_error_def Let_def i)
qed

lemma targets_kept:
  assumes "well_linked g" and "set ids \<subseteq> set (bm_keys (nodes g))"
  shows "set (reroute_targets g (supervised_entries g) ids) \<subseteq> {v. bm_has (nodes g) v \<and> \<not> is_entry g v}"
proof -
  have "bm_has (nodes g) v \<and> \<not> is_entry g v \<longleftrightarrow> bm_has (nodes g) v \<and> v \<notin> set (supervised_entries g)" for v
    by (auto simp: set_supervised_entries bm_has_def)
  then show ?thesis
    using assms unfolding reroute_targets_def Let_def
    by (auto simp: downstream_targets_def well_linked_def bm_has_def split: if_split_asm)
qed

lemma reroute_entry_set:
  assumes "well_linked g" and "reroute_graph directive g = Inr g'"
    and "parse_existing_node_ids g (sd_reroute_to directive) ''reroute_to'' = Inr ids"
    and "reroute_targets g (supervised_entries g) ids \<noteq> []"
  shows "\<exists>i. bm_get (nodes g') i = Some (reroute_node i) \<and> set (entry_node_list g') = insert i
    {v \<in> set (bm_keys (nodes g)). \<not> is_entry g v \<and> v \<notin> set (reroute_targets g (supervised_entries g) ids)
       \<and> (\<forall>e \<in> set (edges g). edge_to e = v \<longrightarrow> is_entry g (edge_from e))}"
proof (rule reroute_shape [OF assms(2-4)])
  fix i
  let ?k = "keep_nodes (- set (supervised_entries g)) g" and ?ts = "reroute_targets g (supervised_entries g) ids"
  assume fresh: "\<not> bm_has (nodes ?k) i"
    and g': "g' = \<lparr>nodes = bm_insert i (reroute_node i) (nodes ?k),
       edges = edges ?k @ map (\<lambda>target. \<lparr>edge_from = i, edge_to = target, edge_transform = PassThrough\<rparr>) ?ts\<rparr>"
  have ent: "v \<in> set (supervised_entries g) \<longleftrightarrow> bm_has (nodes g) v \<and> is_entry g v" for v
    by (auto simp: set_supervised_entries bm_has_def)
  have kept: "bm_has (nodes ?k) v \<longleftrightarrow> bm_has (nodes g) v \<and> \<not> is_entry g v" for v
    unfolding keep_has by (auto simp: ent)
  have edges: "e \<in> set (edges ?k) \<longleftrightarrow> e \<in> set (edges g) \<and> \<not> is_entry g (edge_from e)" for e
    using assms(1) by (auto simp: keep_nodes_def ent well_linked_def is_entry_def)
  have ts: "set ?ts \<subseteq> {v. bm_has (nodes ?k) v}"
    using targets_kept [OF assms(1) existing_ids [OF assms(3)]] unfolding kept .
  have entry: "is_entry g' v \<longleftrightarrow> v \<notin> set ?ts \<and> (\<forall>e \<in> set (edges g). edge_to e = v \<longrightarrow> is_entry g (edge_from e))" for v
    proof -
    have "is_entry g' v \<longleftrightarrow> (\<forall>e \<in> set (edges ?k). edge_to e \<noteq> v) \<and> v \<notin> set ?ts"
      unfolding is_entry_def [of g'] unfolding g' by (simp add: ball_Un) blast
    then show ?thesis using edges by blast
  qed
  have "is_entry g' i"
    unfolding entry
  proof (intro conjI ballI impI)
    show "i \<notin> set ?ts" using ts fresh by auto
    fix e assume e: "e \<in> set (edges g)" "edge_to e = i"
    then have "bm_has (nodes g) i" "\<not> is_entry g i" using assms(1) by (auto simp: well_linked_def is_entry_def)
    with fresh kept show "is_entry g (edge_from e)" by blast
  qed
  moreover have mem: "v \<in> set (bm_keys m) \<longleftrightarrow> bm_has m v" for v and m :: "(node_id, governance_node) bmap" by (simp add: bm_has_def)
  moreover have "set (entry_node_list g') = {v. (v = i \<or> bm_has (nodes ?k) v) \<and> is_entry g' v}"
    unfolding set_entry_nodes mem by (simp add: g')
  ultimately have "set (entry_node_list g') = insert i {v \<in> set (bm_keys (nodes g)). \<not> is_entry g v \<and> v \<notin> set ?ts
       \<and> (\<forall>e \<in> set (edges g). edge_to e = v \<longrightarrow> is_entry g (edge_from e))}"
    unfolding mem using kept entry by blast
  moreover have "bm_get (nodes g') i = Some (reroute_node i)" by (simp add: g')
  ultimately show ?thesis by blast
qed

lemma default_targets:
  assumes "well_linked g" and "v \<in> set (bm_keys (nodes g))" and "\<not> is_entry g v"
    and "\<forall>e \<in> set (edges g). edge_to e = v \<longrightarrow> is_entry g (edge_from e)"
  shows "v \<in> set (reroute_targets g (supervised_entries g) [])"
proof -
  obtain e where e: "e \<in> set (edges g)" "edge_to e = v" using assms(3) by (auto simp: is_entry_def)
  then have "is_entry g (edge_from e)" using assms(4) by blast
  then have "v \<in> set (downstream_targets g (supervised_entries g))"
    using e assms(1,3) by (auto simp: downstream_targets_def set_supervised_entries well_linked_def bm_has_def)
  then show ?thesis by (auto simp: reroute_targets_def Let_def)
qed

text \<open>C29: what a reroute lets claims enter by. The rerouted graph has a new escalating entry; without
  requested targets it is the only one. With them, every other node that was fed only by the
  old entries becomes an entry of its own, and claims reach it around the new one.\<close>

theorem reroute_entries:
  assumes "well_linked g" and "reroute_graph directive g = Inr g'"
    and "parse_existing_node_ids g (sd_reroute_to directive) ''reroute_to'' = Inr ids"
    and "reroute_targets g (supervised_entries g) ids \<noteq> []"
  shows "\<exists>i. bm_get (nodes g') i = Some (reroute_node i)
    \<and> (sd_reroute_to directive = [] \<longrightarrow> set (entry_node_list g') = {i})
    \<and> set (entry_node_list g') = insert i
    {v \<in> set (bm_keys (nodes g)). \<not> is_entry g v \<and> v \<notin> set (reroute_targets g (supervised_entries g) ids)
       \<and> (\<forall>e \<in> set (edges g). edge_to e = v \<longrightarrow> is_entry g (edge_from e))}"
proof -
  have "ids = []" if "sd_reroute_to directive = []" using assms(3) that by (simp add: parse_existing_node_ids_def)
  then have none: "{v \<in> set (bm_keys (nodes g)). \<not> is_entry g v \<and> v \<notin> set (reroute_targets g (supervised_entries g) ids)
       \<and> (\<forall>e \<in> set (edges g). edge_to e = v \<longrightarrow> is_entry g (edge_from e))} = {}" if "sd_reroute_to directive = []"
    using that default_targets [OF assms(1)] by blast
  obtain i where i: "bm_get (nodes g') i = Some (reroute_node i)" "set (entry_node_list g') = insert i
    {v \<in> set (bm_keys (nodes g)). \<not> is_entry g v \<and> v \<notin> set (reroute_targets g (supervised_entries g) ids)
       \<and> (\<forall>e \<in> set (edges g). edge_to e = v \<longrightarrow> is_entry g (edge_from e))}"
    using reroute_entry_set [OF assms] by blast
  moreover have "set (entry_node_list g') = {i}" if "sd_reroute_to directive = []" by (simp only: i(2) none [OF that])
  ultimately show ?thesis by blast
qed

section \<open>Witnesses\<close>

lemma stop_graph_ok: "overlay_ok stop_graph"
  by (simp add: overlay_ok_def stop_linked stop_acyclic) (simp add: stop_graph_def)

lemma stop_graph_valid: "validate_governance_graph rx stop_graph = Inr ()"
  by (auto simp: validate_governance_graph_Inr validate_graph_node_def stop_graph_def sample_simps)

lemma sample_graph_hash: "canonical_graph_hash (pe_hash sample_env) g = Inr ''h''"
  by (simp add: canonical_graph_hash_def stable_hash_def sample_env_def lift_error_def)

lemma stop_supervised:
  assumes "act \<in> {PauseAction, DenyAction, StopAction}"
  obtains session i where "cg_graph (mo_compiled_graph session) = stop_graph"
    "supervise sample_env json (Some 0) (Live session default_ledger stop_declaration) act None
      = Inr (Supervised i session default_ledger stop_declaration)"
proof (rule stop_compiled)
  fix cg :: compiled_graph and vn :: graph_violation
  assume cg: "cg_graph cg = stop_graph" "compiled_ok (pe_hash sample_env) cg stop_declaration" and vn: "gv_actual_magnitude vn = Zero False"
  let ?s = "stop_session cg vn" and ?g = "rewrite_as_constant (if act = PauseAction then Escalate else Deny) stop_graph"
  let ?i = "\<lparr>si_action = act, si_postcondition = action_postcondition act, si_issued_at = iso8601_of_seconds 0,
      si_overlay_graph = ?g, si_overlay_graph_hash = ''h'', si_reason = None\<rparr>"
  have g: "cg_graph (mo_compiled_graph ?s) = stop_graph" by (simp add: stop_session_def cg)
  have parts: "validate_declaration_basics stop_declaration = Inr ()"
    "validate_monitor_session (pe_hash sample_env) ?s stop_declaration True = Inr ()"
    "validate_ledger (pe_hash sample_env) default_ledger False = Inr ()"
    using stop_session_ok [OF cg(2) vn] stop_declaration_ok unfolding validation_iffs by (simp_all add: ledger_ok_def default_ledger_def)
  have act: "apply_supervisory_action stop_declaration act directive stop_graph = Inr ?g" for directive
    using assms by (auto simp: apply_supervisory_action_def)
  have "state_validate (pe_hash sample_env) (Live ?s default_ledger stop_declaration) = Inr ()"
    "state_validate (pe_hash sample_env) (Supervised ?i ?s default_ledger stop_declaration) = Inr ()"
    by (simp_all add: state_validate_def parts validate_supervisory_intervention_def sample_graph_hash)
  then have "supervise sample_env json (Some 0) (Live ?s default_ledger stop_declaration) act None
      = Inr (Supervised ?i ?s default_ledger stop_declaration)"
    by (simp add: supervise_def parse_directive_def g act sample_graph_hash iso8601_timestamp_def lift_error_def Let_def)
  with g show ?thesis by (rule that)
qed

theorem overlay_decides_constant_witness:
  "\<exists>(i :: supervisory_intervention) r. traverse (\<lambda>_. None) (si_overlay_graph i) [probe 1] = Inr r \<and> bm_get (final_decisions r) ''baseline'' = Some Escalate
     \<and> si_action i = PauseAction"
proof -
  obtain session i where s: "cg_graph (mo_compiled_graph session) = stop_graph" "supervise sample_env (\<lambda>_. Inl ''json'') (Some 0)
      (Live session default_ledger stop_declaration) PauseAction None = Inr (Supervised i session default_ledger stop_declaration)"
    by (rule stop_supervised [of PauseAction]) simp
  have "supervised_parts (Live session default_ledger stop_declaration) = Inr (session, default_ledger, stop_declaration, stop_graph)"
    by (simp add: s(1))
  from overlay_decides_constant [OF s(2) _ this stop_graph_valid stop_graph_ok probe_valid, of 1 "\<lambda>_. None"]
  obtain r where "traverse (\<lambda>_. None) (si_overlay_graph i) [probe 1] = Inr r" "bm_get (final_decisions r) ''baseline'' = Some Escalate"
    by auto
  moreover have "si_action i = PauseAction" by (rule supervise_Inr [OF s(2)]) simp
  ultimately show ?thesis by blast
qed

theorem overlays_stay_acyclic_witness: "\<exists>i :: supervisory_intervention. overlay_ok (si_overlay_graph i) \<and> si_postcondition i = UniversalDeny"
proof -
  obtain session i where s: "cg_graph (mo_compiled_graph session) = stop_graph" "supervise sample_env (\<lambda>_. Inl ''json'') (Some 0)
      (Live session default_ledger stop_declaration) DenyAction None = Inr (Supervised i session default_ledger stop_declaration)"
    by (rule stop_supervised [of DenyAction]) simp
  have "supervised_parts (Live session default_ledger stop_declaration) = Inr (session, default_ledger, stop_declaration, stop_graph)"
    by (simp add: s(1))
  moreover have "overlay_ok (gd_graph stop_declaration)" by (simp add: stop_declaration_def stop_graph_ok)
  ultimately show ?thesis using overlays_stay_acyclic [OF s(2) _ stop_graph_ok] by auto
qed

lemma stop_can_be_rolled_back_witness: "\<exists>st session i. supervise sample_env (\<lambda>_. Inl ''json'') (Some 0) st Rollback None
    = Inr (Supervised i session default_ledger stop_declaration) \<and> si_overlay_graph i = stop_graph"
proof -
  obtain session i where s: "cg_graph (mo_compiled_graph session) = stop_graph" "supervise sample_env (\<lambda>_. Inl ''json'') (Some 0)
      (Live session default_ledger stop_declaration) StopAction None = Inr (Supervised i session default_ledger stop_declaration)"
    by (rule stop_supervised [of StopAction]) simp
  have "supervised_parts (Live session default_ledger stop_declaration) = Inr (session, default_ledger, stop_declaration, stop_graph)"
    by (simp add: s(1))
  moreover have "pe_hash sample_env (GraphPayload (gd_graph stop_declaration) (synthetic_claims (gd_graph stop_declaration))) = Inr ''h''"
    by (simp add: sample_env_def)
  moreover have "gd_graph stop_declaration = stop_graph" by (simp add: stop_declaration_def)
  ultimately show ?thesis using stop_can_be_rolled_back [OF s(2)] by metis
qed

definition forked_graph :: governance_graph where
  "forked_graph =
     \<lparr>nodes = map (\<lambda>v. (v, Binary v v [] Escalate FirstMatch)) [''a'', ''b'', ''c''],
      edges = map (\<lambda>v. \<lparr>edge_from = ''a'', edge_to = v, edge_transform = PassThrough\<rparr>) [''b'', ''c'']\<rparr>"

definition to_b :: supervisory_directive where
  "to_b = \<lparr>sd_sandbox_nodes = [], sd_degradation_factor = None, sd_reroute_to = [''b'']\<rparr>"

theorem reroute_entries_witness:
  "\<exists>g' i. reroute_graph to_b forked_graph = Inr g' \<and> bm_get (nodes g') i = Some (reroute_node i) \<and> {i, ''c''} \<subseteq> set (entry_node_list g')"
proof -
  have link: "well_linked forked_graph" by (auto simp: well_linked_def forked_graph_def bm_wf_def bm_has_def)
  have ids: "parse_existing_node_ids forked_graph (sd_reroute_to to_b) ''reroute_to'' = Inr [''b'']" by code_simp
  have ts: "reroute_targets forked_graph (supervised_entries forked_graph) [''b''] = [''b'']" by code_simp
  then have some: "reroute_targets forked_graph (supervised_entries forked_graph) [''b''] \<noteq> []" by simp
  have c: "''c'' \<in> set (bm_keys (nodes forked_graph)) \<and> \<not> is_entry forked_graph ''c''
      \<and> (\<forall>e \<in> set (edges forked_graph). edge_to e = ''c'' \<longrightarrow> is_entry forked_graph (edge_from e))"
    by (auto simp: forked_graph_def is_entry_def)
  obtain g' where g': "reroute_graph to_b forked_graph = Inr g'"
  proof (rule reroute_id)
    fix i assume "next_available_node_id (keep_nodes (- set (supervised_entries forked_graph)) forked_graph) REROUTE_NODE_ID 0 = Inr i"
    then show thesis using that by (simp add: reroute_graph_def Let_def lift_error_def ids ts)
  qed
  from reroute_entries [OF link g' ids some] obtain i where i: "bm_get (nodes g') i = Some (reroute_node i)"
    "set (entry_node_list g') = insert i {v \<in> set (bm_keys (nodes forked_graph)). \<not> is_entry forked_graph v
       \<and> v \<notin> set (reroute_targets forked_graph (supervised_entries forked_graph) [''b''])
       \<and> (\<forall>e \<in> set (edges forked_graph). edge_to e = v \<longrightarrow> is_entry forked_graph (edge_from e))}"
    by blast
  have "''c'' \<notin> set (reroute_targets forked_graph (supervised_entries forked_graph) [''b''])" unfolding ts by simp
  then have "{i, ''c''} \<subseteq> set (entry_node_list g')" unfolding i(2) using c by blast
  with g' i(1) show ?thesis by blast
qed

end
