(* ===== verification/Protocol_Runs.thy ===== *)
theory Protocol_Runs
  imports Protocol_Supervision
begin

text \<open>
  The protocol as a whole: the states reachable from an undeclared one by any order of
  transitions and supervisory actions, each with any arguments and clock readings.
\<close>

section \<open>Steps\<close>

inductive protocol_step :: "protocol_env \<Rightarrow> directive_parser \<Rightarrow> protocol_state \<Rightarrow> protocol_state \<Rightarrow> bool"
  for env :: protocol_env and json :: directive_parser where
  declares: "declare_with_metadata env now g ss name version = Inr st \<Longrightarrow> protocol_step env json Undeclared st"
| compiles: "compile_state env now st = Inr st' \<Longrightarrow> protocol_step env json st st'"
| measures: "measure_state env st cs = Inr st' \<Longrightarrow> protocol_step env json st st'"
| activates: "activate_state env st config = Inr st' \<Longrightarrow> protocol_step env json st st'"
| decides: "check_decision env now st c = Inr (st', certificate) \<Longrightarrow> protocol_step env json st st'"
| drifts: "report_drift env st alert = Inr st' \<Longrightarrow> protocol_step env json st st'"
| revises: "propose_revision env st g ss = Inr st' \<Longrightarrow> protocol_step env json st st'"
| recompiles: "recompile env now now' st = Inr st' \<Longrightarrow> protocol_step env json st st'"
| supervises: "supervise env json now st act reason = Inr st' \<Longrightarrow> protocol_step env json st st'"

inductive protocol_reachable :: "protocol_env \<Rightarrow> directive_parser \<Rightarrow> protocol_state \<Rightarrow> bool"
  for env :: protocol_env and json :: directive_parser where
  undeclared: "protocol_reachable env json Undeclared"
| step: "protocol_reachable env json st \<Longrightarrow> protocol_step env json st st' \<Longrightarrow> protocol_reachable env json st'"

section \<open>The invariant\<close>

text \<open>A compiled graph is its declaration's graph with the verdicts of its own evaluation, and its
  certificates are exactly for the properties that evaluation found violated.\<close>

definition compiled_inv :: "protocol_env \<Rightarrow> compiled_graph \<Rightarrow> sacrifice_certificate list \<Rightarrow> governance_declaration \<Rightarrow> bool" where
  "compiled_inv env cg certs d \<longleftrightarrow>
     (\<exists>ev. evaluate_graph env (cg_graph cg) (synthetic_claims (cg_graph cg)) = Inr ev
       \<and> cg_axiom_verdicts cg = ge_axiom_verdicts ev \<and> cg_strategyproofness cg = ge_strategyproofness ev
       \<and> distinct (map sc_property certs) \<and> sc_property ` set certs = {p. violated ev p})
     \<and> cg_graph cg = gd_graph d"

definition ledger_inv :: "compiled_graph \<Rightarrow> protocol_ledger \<Rightarrow> bool" where
  "ledger_inv cg l \<longleftrightarrow> (\<forall>c \<in> set (pl_certificates l). pc_rule_name c = cg_name cg
     \<and> pc_compiled_rule_hash c = cg_compiled_rule_hash cg \<and> pc_outcome_verified c)"

definition session_inv :: "protocol_env \<Rightarrow> monitor_session \<Rightarrow> protocol_ledger \<Rightarrow> governance_declaration \<Rightarrow> bool" where
  "session_inv env s l d \<longleftrightarrow> compiled_inv env (mo_compiled_graph s) (mo_sacrifice_certs s) d
     \<and> ledger_inv (mo_compiled_graph s) l
     \<and> set (mo_monitored_properties s) = - (sc_property ` set (mo_sacrifice_certs s))"

fun state_inv :: "protocol_env \<Rightarrow> protocol_state \<Rightarrow> bool" where
  "state_inv env Undeclared \<longleftrightarrow> True"
| "state_inv env (Declared g ss d) \<longleftrightarrow> gd_graph d = g \<and> gd_sacrifices d = ss
     \<and> (\<exists>ev. evaluate_graph env g (synthetic_claims g) = Inr ev \<and> (\<forall>s \<in> set ss. bm_has (ge_violations ev) (as_str (ds_property s))))"
| "state_inv env (Compiled cg certs d) \<longleftrightarrow> compiled_inv env cg certs d"
| "state_inv env (Measured r x cg certs d cs) \<longleftrightarrow> compiled_inv env cg certs d"
| "state_inv env (Live s l d) \<longleftrightarrow> session_inv env s l d"
| "state_inv env (Supervised i s l d) \<longleftrightarrow> session_inv env s l d"
| "state_inv env (Drifted a s l d) \<longleftrightarrow> session_inv env s l d"
| "state_inv env (Recompiling g ss d) \<longleftrightarrow> True"

lemma declared_inv:
  assumes "declare_with_metadata env now g ss name version = Inr st"
  shows "state_inv env st"
  by (rule declared_evaluates [OF assms]) auto

lemma compiles_inv:
  assumes "state_inv env st" and "compile_state env now st = Inr st'"
  shows "state_inv env st'"
proof -
  obtain g ss d where st: "st = Declared g ss d" and run: "compile_declared env now g ss d = Inr st'"
    using assms(2) by (cases st) (auto simp: compile_state_def result_simps)
  from assms(1) st obtain ev where ev: "evaluate_graph env g (synthetic_claims g) = Inr ev" "gd_graph d = g" "gd_sacrifices d = ss"
    and used: "\<forall>s \<in> set ss. bm_has (ge_violations ev) (as_str (ds_property s))" by auto
  obtain cg where cg: "st' = Compiled cg (map (certify_sacrifice (ge_violations ev)) ss) d" "cg_graph cg = g"
      "cg_axiom_verdicts cg = ge_axiom_verdicts ev" "cg_strategyproofness cg = ge_strategyproofness ev"
    and none: "unsacrificed_properties (ge_violations ev) ss = []" and ok: "state_validate (pe_hash env) st' = Inr ()"
    by (rule compile_declared_Inr [OF ev(1) run])
  let ?certs = "map (certify_sacrifice (ge_violations ev)) ss"
  have "certificates_ok ?certs ss"
    using ok by (simp add: cg(1) state_validate_def rbind_Inr_iff validation_iffs ev(3))
  then have "distinct (map sc_property ?certs)" unfolding certificates_ok_def by blast
  moreover have "ds_property ` set ss = {p. violated ev p}"
    using none used unsacrificed_none [OF violations_has(1) [OF ev(1)], of ss] violations_has(2) [OF ev(1)] by auto
  then have "sc_property ` set ?certs = {p. violated ev p}" by (simp add: image_image)
  ultimately show ?thesis unfolding cg(1) state_inv.simps compiled_inv_def using ev cg by auto
qed

lemma measures_inv:
  assumes "state_inv env st" and "measure_state env st cs = Inr st'"
  shows "state_inv env st'"
  using assms by (cases st) (auto simp: measure_state_def Let_def result_simps)

lemma activates_inv:
  assumes "state_inv env st" and "activate_state env st config = Inr st'"
  shows "state_inv env st'"
  using assms by (cases st)
    (auto simp: activate_state_def Let_def result_simps session_inv_def ledger_inv_def default_ledger_def set_non_sacrificed)

text \<open>A decision: the new state, and the certificate of the traversal over the merged claims.\<close>

lemma check_decision_Inr:
  assumes "check_decision env now st c = Inr (st', certificate)"
  obtains s l d f head alerts where "st = Live s l d"
    "traverse_final_decisions (pe_regex env) (cg_graph (mo_compiled_graph s)) (merge_representative_claims (mo_representative_claims s) c) = Inr f"
    "bm_get f (claimant_id c) = Some (pc_decision certificate)" "pc_claimant_id certificate = claimant_id c"
    "pc_prev_cert_hash certificate = pl_head_hash l" "pc_rule_name certificate = cg_name (mo_compiled_graph s)"
    "pc_compiled_rule_hash certificate = cg_compiled_rule_hash (mo_compiled_graph s)" "pc_outcome_verified certificate"
    "pe_hash env (CertificatePayload certificate) = Inr head"
    "detect_drift_alerts env s (merge_representative_claims (mo_representative_claims s) c) = Inr alerts"
    "st' = Live (s\<lparr>mo_representative_claims := merge_representative_claims (mo_representative_claims s) c\<rparr>)
       \<lparr>pl_certificates = pl_certificates l @ [certificate], pl_drift_alerts = pl_drift_alerts l @ alerts, pl_head_hash = Some head\<rparr> d"
    "state_validate (pe_hash env) st = Inr ()" "state_validate (pe_hash env) st' = Inr ()"
proof -
  obtain s l d where st: "st = Live s l d" and run: "check_live_decision env now s l d c = Inr (st', certificate)"
    and ok: "state_validate (pe_hash env) st = Inr ()"
    using assms by (cases st) (auto simp: check_decision_def result_simps)
  let ?cs = "merge_representative_claims (mo_representative_claims s) c"
  from run obtain r dec time head alerts where
    r: "traverse (pe_regex env) (cg_graph (mo_compiled_graph s)) ?cs = Inr r" "bm_get (final_decisions r) (claimant_id c) = Some dec"
    and cert: "certificate = certify_decision s l (claimant_id c) dec time" "pe_hash env (CertificatePayload certificate) = Inr head"
    and alerts: "detect_drift_alerts env s ?cs = Inr alerts"
    and st': "st' = Live (s\<lparr>mo_representative_claims := ?cs\<rparr>)
       \<lparr>pl_certificates = pl_certificates l @ [certificate], pl_drift_alerts = pl_drift_alerts l @ alerts, pl_head_hash = Some head\<rparr> d"
      "state_validate (pe_hash env) st' = Inr ()"
    unfolding check_live_decision_def Let_def by (auto simp: result_simps)
  show ?thesis
    by (rule that [OF st traverse_final [OF r(1)] _ _ _ _ _ _ cert(2) alerts st'(1) ok st'(2)])
      (simp_all add: r(2) cert(1) certify_decision_def)
qed

lemma decides_inv:
  assumes "state_inv env st" and "check_decision env now st c = Inr (st', certificate)"
  shows "state_inv env st'"
  by (rule check_decision_Inr [OF assms(2)]) (use assms(1) in \<open>auto simp: session_inv_def ledger_inv_def\<close>)

lemma drifts_inv:
  assumes "state_inv env st" and "report_drift env st alert = Inr st'"
  shows "state_inv env st'"
  using assms by (cases st) (auto simp: report_drift_def result_simps session_inv_def ledger_inv_def)

lemma revises_inv: "propose_revision env st g ss = Inr st' \<Longrightarrow> state_inv env st'"
  by (cases st) (auto simp: propose_revision_def result_simps)

lemma recompile_Inr:
  assumes "recompile env now now' st = Inr st'"
  obtains g ss d declared where "st = Recompiling g ss d"
    "declare_with_metadata env now g ss (gd_graph_name d) (gd_graph_version d) = Inr declared" "compile_state env now' declared = Inr st'"
proof (cases st)
  case (Recompiling g ss d)
  with assms show ?thesis by (auto simp: recompile_def result_simps intro: that)
qed (use assms in \<open>auto simp: recompile_def result_simps\<close>)

lemma recompiles_inv:
  assumes "recompile env now now' st = Inr st'"
  shows "state_inv env st'"
  by (rule recompile_Inr [OF assms]) (rule compiles_inv [OF declared_inv])

lemma supervises_inv:
  assumes "state_inv env st" and "supervise env json now st act reason = Inr st'"
  shows "state_inv env st'"
proof (rule supervise_Inr [OF assms(2)])
  fix session l d g g' directive i
  assume "supervised_parts st = Inr (session, l, d, g)" and "st' = Supervised i session l d"
  with assms(1) show ?thesis by (cases st) auto
qed

lemma step_keeps_sessions: "protocol_step env json st st' \<Longrightarrow> state_inv env st \<Longrightarrow> state_inv env st'"
  by (induction rule: protocol_step.induct)
    (blast intro: declared_inv compiles_inv measures_inv activates_inv decides_inv drifts_inv revises_inv recompiles_inv supervises_inv)+

lemma reachable_inv: "protocol_reachable env json st \<Longrightarrow> state_inv env st"
  by (induction rule: protocol_reachable.induct) (simp, blast intro: step_keeps_sessions)

section \<open>Every transition validates\<close>

fun unvalidated :: "protocol_state \<Rightarrow> bool" where
  "unvalidated (Declared g ss d) \<longleftrightarrow> True"
| "unvalidated _ \<longleftrightarrow> False"

lemma compile_validates:
  assumes "compile_state env now st = Inr st'"
  shows "state_validate (pe_hash env) st' = Inr ()"
proof -
  obtain g ss d where "compile_declared env now g ss d = Inr st'"
    using assms by (cases st) (auto simp: compile_state_def result_simps)
  then show ?thesis by (auto simp: compile_declared_def Let_def result_simps split: if_split_asm)
qed

lemma step_validates: "protocol_step env json st st' \<Longrightarrow> unvalidated st' \<or> state_validate (pe_hash env) st' = Inr ()"
proof (induction rule: protocol_step.induct)
  case (declares now g ss name version st)
  then show ?case by (rule declared_evaluates) simp
next
  case (compiles now st st')
  then show ?case using compile_validates by blast
next
  case (measures st cs st')
  then show ?case by (cases st) (auto simp: measure_state_def Let_def result_simps)
next
  case (activates st config st')
  then show ?case by (cases st) (auto simp: activate_state_def Let_def result_simps)
next
  case (decides now st c st' certificate)
  then show ?case by (rule check_decision_Inr) simp
next
  case (drifts st alert st')
  then show ?case by (cases st) (auto simp: report_drift_def result_simps)
next
  case (revises st g ss st')
  then show ?case by (cases st) (auto simp: propose_revision_def result_simps)
next
  case (recompiles now now' st st')
  then show ?case by (rule recompile_Inr) (use compile_validates in blast)
next
  case (supervises now st act reason st')
  then show ?case by (rule supervise_Inr) simp
qed


fun live_session :: "protocol_state \<Rightarrow> (monitor_session \<times> protocol_ledger \<times> governance_declaration) option" where
  "live_session (Live s l d) = Some (s, l, d)"
| "live_session (Supervised i s l d) = Some (s, l, d)"
| "live_session (Drifted a s l d) = Some (s, l, d)"
| "live_session _ = None"

lemma reachable_session:
  assumes "protocol_reachable env json st" and "live_session st = Some (s, l, d)"
  shows "session_inv env s l d" and "session_ok (pe_hash env) s d" and "ledger_ok (pe_hash env) l"
proof -
  show "session_inv env s l d" using reachable_inv [OF assms(1)] assms(2) by (cases st) auto
  have "state_validate (pe_hash env) st = Inr ()"
    using assms by (cases rule: protocol_reachable.cases) (auto dest!: step_validates elim: unvalidated.elims)
  then show "session_ok (pe_hash env) s d" "ledger_ok (pe_hash env) l"
    using assms(2) by (cases st; auto simp: state_validate_def rbind_Inr_iff validation_iffs split: if_split_asm)+
qed

section \<open>Properties\<close>

text \<open>C5: the invariant of the protocol: in every state reachable by any order of transitions and
  supervisory actions that holds a session, the compiled graph is the declared one with the
  verdicts of its own evaluation, the certificates are, each once, for exactly the properties that
  evaluation found violated, every other property is monitored, and every entry of the ledger
  carries the name and the hash of the compiled graph, in one unbroken hash chain.\<close>

theorem reachable_sessions:
  assumes "protocol_reachable env json st" and "live_session st = Some (s, l, d)"
  shows "compiled_inv env (mo_compiled_graph s) (mo_sacrifice_certs s) d
    \<and> set (mo_monitored_properties s) = - (sc_property ` set (mo_sacrifice_certs s))
    \<and> ledger_inv (mo_compiled_graph s) l \<and> chained (pe_hash env) None (pl_certificates l) (pl_head_hash l)
    \<and> lower_interval (mo_monitor_config s) \<le> mo_interval_seconds s \<and> mo_interval_seconds s \<le> upper_interval (mo_monitor_config s)"
  using reachable_session [OF assms] by (simp add: session_inv_def session_ok_def ledger_ok_def word_le_nat_alt)

text \<open>Supervision cannot be left: every step from a supervised state leads to a supervised state with
  the same session, ledger and declaration. No decision is certified under an overlay, and no
  action, not even a rollback, makes the session live again.\<close>

lemma supervised_absorbing:
  assumes "protocol_step env json (Supervised i s l d) st"
  shows "\<exists>i'. st = Supervised i' s l d"
  using assms
proof (cases rule: protocol_step.cases)
  case (supervises now act reason)
  then show ?thesis by (elim supervise_Inr) auto
next
  case (recompiles now now')
  then show ?thesis by (elim recompile_Inr) simp
next
  case (decides now c certificate)
  then show ?thesis by (elim check_decision_Inr) simp
qed (auto simp: compile_state_def measure_state_def activate_state_def report_drift_def propose_revision_def result_simps)

section \<open>Runs of decisions\<close>

fun decide_run :: "protocol_env \<Rightarrow> (clock \<times> governance_claim) list \<Rightarrow> protocol_state
    \<Rightarrow> (protocol_state \<times> promotion_certificate list) protocol_result" where
  "decide_run env [] st = Inr (st, [])"
| "decide_run env ((now, c) # requests) st =
     rbind (check_decision env now st c) (\<lambda>(st', certificate).
     rbind (decide_run env requests st') (\<lambda>(st'', certificates). Inr (st'', certificate # certificates)))"

definition claims_after :: "governance_claim list \<Rightarrow> (clock \<times> governance_claim) list \<Rightarrow> governance_claim list" where
  "claims_after cs requests = fold (\<lambda>(now, c) cs. merge_representative_claims cs c) requests cs"

text \<open>The i-th certificate records what the traversal decides for the i-th claim among the
  representative claims with the claims of the requests so far.\<close>

definition records_traversals ::
  "regex_engine \<Rightarrow> governance_graph \<Rightarrow> governance_claim list \<Rightarrow> (clock \<times> governance_claim) list \<Rightarrow> promotion_certificate list \<Rightarrow> bool" where
  "records_traversals rx g cs requests certificates \<longleftrightarrow>
     map pc_claimant_id certificates = map (\<lambda>r. claimant_id (snd r)) requests
     \<and> (\<forall>i < length requests. \<exists>f. traverse_final_decisions rx g (claims_after cs (take (Suc i) requests)) = Inr f
          \<and> bm_get f (claimant_id (snd (requests ! i))) = Some (pc_decision (certificates ! i)))"

lemma records_traversals_Cons:
  assumes "traverse_final_decisions rx g (merge_representative_claims cs c) = Inr f"
    and "bm_get f (claimant_id c) = Some (pc_decision certificate)" and "pc_claimant_id certificate = claimant_id c"
    and "records_traversals rx g (merge_representative_claims cs c) requests certificates"
  shows "records_traversals rx g cs ((now, c) # requests) (certificate # certificates)"
  using assms by (auto simp: records_traversals_def claims_after_def less_Suc_eq_0_disj)

lemma decide_run_Inr:
  assumes "decide_run env requests (Live s l d) = Inr (st, certificates)"
  shows "\<exists>s' l'. st = Live s' l' d \<and> s' = s\<lparr>mo_representative_claims := claims_after (mo_representative_claims s) requests\<rparr>
    \<and> pl_certificates l' = pl_certificates l @ certificates
    \<and> (\<exists>alerts. pl_drift_alerts l' = pl_drift_alerts l @ alerts)
    \<and> records_traversals (pe_regex env) (cg_graph (mo_compiled_graph s)) (mo_representative_claims s) requests certificates"
  using assms
proof (induction requests arbitrary: s l st certificates)
  case Nil
  then show ?case by (auto simp: claims_after_def records_traversals_def)
next
  case (Cons request requests)
  obtain now c where request: "request = (now, c)" by (cases request)
  from Cons.prems obtain st1 certificate rest where
    one: "check_decision env now (Live s l d) c = Inr (st1, certificate)" and run: "decide_run env requests st1 = Inr (st, rest)"
    and certificates: "certificates = certificate # rest"
    by (auto simp: request result_simps)
  let ?cs = "merge_representative_claims (mo_representative_claims s) c"
  obtain f head alerts where
    f: "traverse_final_decisions (pe_regex env) (cg_graph (mo_compiled_graph s)) ?cs = Inr f"
      "bm_get f (claimant_id c) = Some (pc_decision certificate)" "pc_claimant_id certificate = claimant_id c"
    and st1: "st1 = Live (s\<lparr>mo_representative_claims := ?cs\<rparr>)
       \<lparr>pl_certificates = pl_certificates l @ [certificate], pl_drift_alerts = pl_drift_alerts l @ alerts, pl_head_hash = Some head\<rparr> d"
  proof (rule check_decision_Inr [OF one])
    fix s0 l0 d0 f head alerts
    assume "Live s l d = Live s0 l0 d0"
    then have "s0 = s" "l0 = l" "d0 = d" by simp_all
    moreover assume "traverse_final_decisions (pe_regex env) (cg_graph (mo_compiled_graph s0))
        (merge_representative_claims (mo_representative_claims s0) c) = Inr f"
      "bm_get f (claimant_id c) = Some (pc_decision certificate)" "pc_claimant_id certificate = claimant_id c"
      "st1 = Live (s0\<lparr>mo_representative_claims := merge_representative_claims (mo_representative_claims s0) c\<rparr>)
       \<lparr>pl_certificates = pl_certificates l0 @ [certificate], pl_drift_alerts = pl_drift_alerts l0 @ alerts, pl_head_hash = Some head\<rparr> d0"
    ultimately show thesis using that by blast
  qed
  from Cons.IH [OF run [unfolded st1]] obtain s' l' alerts' where
    "st = Live s' l' d" "s' = s\<lparr>mo_representative_claims := claims_after ?cs requests\<rparr>"
    "pl_certificates l' = (pl_certificates l @ [certificate]) @ rest" "pl_drift_alerts l' = (pl_drift_alerts l @ alerts) @ alerts'"
    "records_traversals (pe_regex env) (cg_graph (mo_compiled_graph s)) ?cs requests rest"
    by auto
  with records_traversals_Cons [OF f] show ?case
    by (auto simp: certificates request claims_after_def)
qed

text \<open>C6: what a run of decisions records: from a live session, any sequence of checked decisions leaves
  the compiled graph and the certificates of sacrifice alone, appends to the ledger exactly one
  certificate per request, in order, and each records the decision of the traversal on the
  latest claim of every claimant so far.\<close>

theorem decisions_recorded:
  assumes "decide_run env requests (Live s l d) = Inr (st, certificates)"
  shows "\<exists>s' l'. st = Live s' l' d \<and> s' = s\<lparr>mo_representative_claims := claims_after (mo_representative_claims s) requests\<rparr>
    \<and> pl_certificates l' = pl_certificates l @ certificates
    \<and> (\<exists>alerts. pl_drift_alerts l' = pl_drift_alerts l @ alerts)
    \<and> records_traversals (pe_regex env) (cg_graph (mo_compiled_graph s)) (mo_representative_claims s) requests certificates"
  using assms by (rule decide_run_Inr)

section \<open>Witnesses\<close>

lemma stop_reaches:
  obtains cg vn where "protocol_reachable sample_env json (Live (stop_session cg vn) default_ledger stop_declaration)"
    "cg_graph cg = stop_graph" "compiled_ok (pe_hash sample_env) cg stop_declaration" "gv_actual_magnitude vn = Zero False"
proof (rule stop_activated)
  fix st :: protocol_state and cg :: compiled_graph and vn :: graph_violation
  assume c: "compile_state sample_env (Some 0) (Declared stop_graph [stop_sacrifice] stop_declaration)
      = Inr (Compiled cg [stop_certificate vn] stop_declaration)"
    and m: "measure_state sample_env (Compiled cg [stop_certificate vn] stop_declaration) [probe 1] = Inr st"
    and a: "activate_state sample_env st stop_config = Inr (Live (stop_session cg vn) default_ledger stop_declaration)"
    and cg: "cg_graph cg = stop_graph" "compiled_ok (pe_hash sample_env) cg stop_declaration" "gv_actual_magnitude vn = Zero False"
  note path = undeclared declares [OF stop_declared [unfolded declare_graph_def]] compiles [OF c] measures [OF m] activates [OF a]
  have "protocol_reachable sample_env json (Live (stop_session cg vn) default_ledger stop_declaration)"
    by (rule step [OF step [OF step [OF step [OF path(1,2)] path(3)] path(4)] path(5)])
  then show ?thesis by (rule that [OF _ cg])
qed

theorem reachable_sessions_witness: "\<exists>s :: monitor_session. compiled_inv sample_env (mo_compiled_graph s) (mo_sacrifice_certs s) stop_declaration
    \<and> cg_graph (mo_compiled_graph s) = stop_graph"
proof -
  obtain cg vn where r: "protocol_reachable sample_env (\<lambda>_. Inl ''json'') (Live (stop_session cg vn) default_ledger stop_declaration)"
    and g: "cg_graph cg = stop_graph" by (rule stop_reaches)
  from reachable_sessions [OF r live_session.simps(1)] g show ?thesis
    by (intro exI [of _ "stop_session cg vn"]) (simp add: stop_session_def)
qed

lemma stop_decides:
  assumes cg: "cg_graph cg = stop_graph" "compiled_ok (pe_hash sample_env) cg stop_declaration" "gv_actual_magnitude vn = Zero False"
  shows "\<exists>st certificate. check_decision sample_env (Some 0) (Live (stop_session cg vn) default_ledger stop_declaration) (probe 1)
    = Inr (st, certificate)"
proof -
  let ?s = "stop_session cg vn"
  have sel: "cg_graph (mo_compiled_graph ?s) = stop_graph" "mo_representative_claims ?s = [probe 1]" "mo_sacrifice_certs ?s = [stop_certificate vn]"
    by (simp_all add: stop_session_def cg)
  have merged: "merge_representative_claims [probe 1] (probe 1) = [probe 1]" by (simp add: merge_representative_claims_def)
  obtain r where r: "traverse (\<lambda>_. None) stop_graph [probe 1] = Inr r" "final_decisions r = [(''baseline'', Deny)]"
    using final_traverse [OF stop_final(2) [of 1 "\<lambda>_. None"]] by auto
  have alerts: "detect_drift_alerts sample_env ?s [probe 1] = Inr []"
  proof (rule stop_evaluation [of sample_env])
    fix ev vn'
    assume ev: "evaluate_graph sample_env stop_graph [probe 1] = Inr ev" "ge_violations ev = [(''non_vacuous'', vn')]"
      "gv_actual_magnitude vn' = Zero False"
    have "\<not> exceeds [stop_certificate vn] p vn'" for p
    proof -
      have "declared_bound [stop_certificate vn] p = Zero False"
        by (simp add: declared_bound_def certs_by_property_def stop_certificate_def cg(3) bm_get_Cons)
      then show ?thesis using EPSILON_ok add_not_negative [of "Zero False" EPSILON] by (simp add: exceeds_def ev(3) f64_lt_def)
    qed
    moreover have "v = vn'" if "bm_get (ge_violations ev) k = Some v" for k v
      using that by (simp add: ev(2) bm_get_Cons split: if_split_asm)
    moreover have "mset (pe_order sample_env (ge_violations ev)) = mset (ge_violations ev)" by (simp add: sample_env_def)
    from drift_alerts [of sample_env ?s "[probe 1]" ev, unfolded sel, OF ev(1) this] obtain alerts where
      "detect_drift_alerts sample_env ?s [probe 1] = Inr alerts"
      "set alerts = {alert_for [stop_certificate vn] (p, vn') | p vn'. bm_get (ge_violations ev) (as_str p) = Some vn'
         \<and> exceeds [stop_certificate vn] p vn'}" by blast
    ultimately show ?thesis by (cases alerts) auto
  qed
  let ?c = "certify_decision ?s default_ledger ''baseline'' Deny (iso8601_of_seconds 0)"
  let ?l = "\<lparr>pl_certificates = [?c], pl_drift_alerts = [], pl_head_hash = Some ''h''\<rparr>"
  have hash: "pe_hash sample_env x = Inr ''h''" for x by (simp add: sample_env_def)
  have session: "session_ok (pe_hash sample_env) ?s stop_declaration" by (rule stop_session_ok [OF cg(2,3)])
  have ledger: "ledger_ok (pe_hash sample_env) ?l" "ledger_ok (pe_hash sample_env) default_ledger"
    by (simp_all add: ledger_ok_def hash certify_decision_def default_ledger_def)
  have valid: "state_validate (pe_hash sample_env) (Live ?s default_ledger stop_declaration) = Inr ()"
    "state_validate (pe_hash sample_env) (Live ?s ?l stop_declaration) = Inr ()"
    using session ledger by (simp_all add: state_validate_def rbind_Inr_iff validation_iffs stop_declaration_ok)
  have empty: "pl_certificates default_ledger = []" "pl_drift_alerts default_ledger = []" by (simp_all add: default_ledger_def)
  have rx: "pe_regex sample_env = (\<lambda>_. None)" by (simp add: sample_env_def)
  have same: "?s\<lparr>mo_representative_claims := [probe 1]\<rparr> = ?s" by (simp add: stop_session_def)
  have "check_decision sample_env (Some 0) (Live ?s default_ledger stop_declaration) (probe 1) = Inr (Live ?s ?l stop_declaration, ?c)"
    using r valid by (simp add: check_decision_def check_live_decision_def sel merged lift_fault_def bm_get_Cons iso8601_timestamp_def lift_error_def
        protocol_certificate_hash_def stable_hash_def hash alerts same validated_def empty rx Let_def)
  then show ?thesis by blast
qed

theorem decisions_recorded_witness: "\<exists>(s :: monitor_session) d st certificate. decide_run sample_env [(Some 0, probe 1)] (Live s default_ledger d) = Inr (st, [certificate])
    \<and> records_traversals (\<lambda>_. None) stop_graph [probe 1] [(Some 0, probe 1)] [certificate]"
proof -
  obtain cg vn where "protocol_reachable sample_env (\<lambda>_. Inl ''json'') (Live (stop_session cg vn) default_ledger stop_declaration)"
    and g: "cg_graph cg = stop_graph" "compiled_ok (pe_hash sample_env) cg stop_declaration" "gv_actual_magnitude vn = Zero False"
    by (rule stop_reaches)
  obtain st certificate where "check_decision sample_env (Some 0) (Live (stop_session cg vn) default_ledger stop_declaration) (probe 1)
      = Inr (st, certificate)" using stop_decides [OF g] by blast
  then have run: "decide_run sample_env [(Some 0, probe 1)] (Live (stop_session cg vn) default_ledger stop_declaration) = Inr (st, [certificate])"
    by simp
  moreover have "pe_regex sample_env = (\<lambda>_. None)" by (simp add: sample_env_def)
  moreover have "cg_graph (mo_compiled_graph (stop_session cg vn)) = stop_graph" "mo_representative_claims (stop_session cg vn) = [probe 1]"
    by (simp_all add: stop_session_def g)
  ultimately show ?thesis using decisions_recorded [OF run] by metis
qed

lemma supervised_absorbing_witness: "\<exists>session i i' st. protocol_step sample_env (\<lambda>_. Inl ''json'') (Supervised i session default_ledger stop_declaration) st
    \<and> st = Supervised i' session default_ledger stop_declaration"
proof -
  obtain session i where s: "cg_graph (mo_compiled_graph session) = stop_graph" "supervise sample_env (\<lambda>_. Inl ''json'') (Some 0)
      (Live session default_ledger stop_declaration) StopAction None = Inr (Supervised i session default_ledger stop_declaration)"
    by (rule stop_supervised [of StopAction]) simp
  have "pe_hash sample_env (GraphPayload (gd_graph stop_declaration) (synthetic_claims (gd_graph stop_declaration))) = Inr ''h''"
    by (simp add: sample_env_def)
  from stop_rollback [OF s(2) supervised_parts.simps(1) this] obtain i' where
    "supervise sample_env (\<lambda>_. Inl ''json'') (Some 0) (Supervised i session default_ledger stop_declaration) Rollback None
      = Inr (Supervised i' session default_ledger stop_declaration)" by blast
  from supervises [OF this] have step: "protocol_step sample_env (\<lambda>_. Inl ''json'') (Supervised i session default_ledger stop_declaration)
      (Supervised i' session default_ledger stop_declaration)" .
  with supervised_absorbing [OF step] show ?thesis by blast
qed

end
