(* ===== verification/F64_Order.thy ===== *)
theory F64_Order
  imports F64_Functions
begin

text \<open>
  Order facts of double arithmetic: rounding is idempotent, and sums, products and quotients of
  values that are not negative are monotone.
\<close>

section \<open>Representable numbers\<close>

definition representable :: "rat \<Rightarrow> bool" where
  "representable r \<longleftrightarrow> round64 r = Num r"

lemma round_mag_idem:
  assumes "0 < x" and "0 < round_mag x"
  shows "round_mag (round_mag x) = round_mag x"
proof -
  define n where "n = round_even (x / 2 powi quantum x)"
  have v: "round_mag x = of_int n * 2 powi quantum x" by (simp add: round_mag_def n_def)
  with assms(2) have n0: "0 < n" by (metis powi_pos zero_less_mult_pos2 of_int_0_less_iff)
  have q: "- 1074 \<le> quantum x" by (simp add: quantum_def)
  have "x < 2 powi (ilog2 x + 1)" by (rule ilog2_bounds(2) [OF assms(1)])
  also have "\<dots> \<le> 2 powi (quantum x + 53)" by (rule powi_mono) (simp add: quantum_def)
  also have "\<dots> = of_int (2 ^ 53) * 2 powi quantum x" by (simp add: powi_split)
  finally have "x / 2 powi quantum x \<le> of_int (2 ^ 53)" by (simp add: pos_divide_le_eq less_imp_le)
  then have "n \<le> round_even (of_int (2 ^ 53))" unfolding n_def by (rule round_even_mono)
  then have "n \<le> 2 ^ 53" unfolding round_even_of_int .
  then consider "n < 2 ^ 53" | "n = 2 ^ 53" by linarith
  then show ?thesis
  proof cases
    case 1
    then show ?thesis using round_mag_exact [OF v n0 _ q] by simp
  next
    case 2
    then have "round_mag x = of_int 1 * 2 powi (quantum x + 53)" by (simp add: v powi_split)
    then show ?thesis by (rule round_mag_exact) (use q in simp_all)
  qed
qed

lemma round64_representable:
  assumes "round64 r = Num v"
  shows "representable v"
proof -
  let ?m = "round_mag \<bar>r\<bar>"
  have r: "r \<noteq> 0" "?m \<noteq> 0" "\<not> 2 ^ 1024 \<le> ?m" "v = (if r < 0 then - ?m else ?m)"
    using assms by (auto simp: round64_def Let_def split: if_splits)
  then have pos: "0 < ?m" using round_mag_nonneg [of "\<bar>r\<bar>"] by simp
  then have "round_mag ?m = ?m" using round_mag_idem [of "\<bar>r\<bar>"] r(1) by simp
  moreover have "\<bar>v\<bar> = ?m" using r(4) pos by auto
  ultimately show ?thesis using r pos by (auto simp: representable_def round64_def Let_def)
qed

lemma f64_le_round:
  assumes "0 < a" and "a \<le> x" and "representable a"
  shows "f64_le (Num a) (round64 x)"
  using round64_mono_pos [OF assms(1,2)] assms(3) by (simp add: representable_def)

lemma round_f64_le:
  assumes "0 < x" and "x \<le> b" and "representable b"
  shows "f64_le (round64 x) (Num b)"
  using round64_mono_pos [OF assms(1,2)] assms(3) by (simp add: representable_def)

section \<open>Values that are not negative\<close>

text \<open>Non-negative values as the arithmetic produces them: a zero, infinity, or a positive
  representable number.\<close>

fun nonneg64 :: "f64 \<Rightarrow> bool" where
  "nonneg64 NaN = False"
| "nonneg64 (Infinite neg) = (\<not> neg)"
| "nonneg64 (Zero neg) = True"
| "nonneg64 (Num r) = (0 < r \<and> representable r)"

lemma nonneg64_not_nan: "nonneg64 a \<Longrightarrow> \<not> is_nan a"
  by (cases a) auto

lemma nonneg64_zero_le: "nonneg64 a \<Longrightarrow> f64_le (Zero s) a"
  by (cases a) (auto simp: f64_le_def)

lemma nonneg64_round: "0 \<le> x \<Longrightarrow> nonneg64 (round64 x)"
proof (cases "round64 x")
  case (Num v)
  assume "0 \<le> x"
  with Num have "0 < v" using round_mag_nonneg [of x] by (auto simp: round64_def Let_def split: if_splits)
  with round64_representable [OF Num] show ?thesis by (simp add: Num)
qed (auto simp: round64_def Let_def split: if_splits)

lemma nonneg64_add: "nonneg64 a \<Longrightarrow> nonneg64 b \<Longrightarrow> nonneg64 (f64_add a b)"
  by (cases a; cases b) (auto intro: nonneg64_round)

lemma nonneg64_div: "nonneg64 a \<Longrightarrow> nonneg64 (Num r) \<Longrightarrow> nonneg64 (f64_div a (Num r))"
  by (cases a) (auto intro: nonneg64_round)

lemma round64_mono_nonneg: "0 \<le> x \<Longrightarrow> x \<le> y \<Longrightarrow> f64_le (round64 x) (round64 y)"
proof (cases "x = 0")
  case True
  assume "0 \<le> x" "x \<le> y"
  then show ?thesis using True nonneg64_zero_le [OF nonneg64_round [of y]] by (simp add: round64_def)
qed (simp add: round64_mono_pos)

lemma f64_add_mono:
  assumes a: "nonneg64 a" and b: "nonneg64 b" and c: "nonneg64 c" and le: "f64_le a b"
  shows "f64_le (f64_add a c) (f64_add b c)"
proof -
  have n: "nonneg64 (f64_add b c)" by (rule nonneg64_add [OF b c])
  show ?thesis
  proof (cases "f64_add b c = Infinite False")
    case True
    then show ?thesis using nonneg64_add [OF a c] by (cases "f64_add a c") (auto simp: f64_le_def)
  next
    case False
    have val: "f64_add x y = round64 (f64_val x + f64_val y) \<or> (f64_val x + f64_val y = 0 \<and> (\<exists>s. f64_add x y = Zero s))"
      if "nonneg64 x" "nonneg64 y" "x \<noteq> Infinite False" "y \<noteq> Infinite False" for x y
      using that by (cases x; cases y) (auto simp: representable_def)
    have fin: "b \<noteq> Infinite False" "c \<noteq> Infinite False" using False b c by (cases b; cases c; auto)+
    then have "a \<noteq> Infinite False" using le b by (cases b) (auto simp: f64_le_def)
    note va = val [OF a c this fin(2)] and vb = val [OF b c fin]
    have "0 \<le> f64_val x" if "nonneg64 x" for x using that by (cases x) auto
    then have "0 \<le> f64_val a + f64_val c" using a c by (simp add: add_nonneg_nonneg)
    moreover have "f64_val a \<le> f64_val b" using le a b fin(1) \<open>a \<noteq> Infinite False\<close>
      by (cases a; cases b) (auto simp: f64_le_def)
    ultimately have le': "f64_le (round64 (f64_val a + f64_val c)) (round64 (f64_val b + f64_val c))"
      by (intro round64_mono_nonneg) auto
    show ?thesis using va vb le' \<open>0 \<le> f64_val a + f64_val c\<close> \<open>f64_val a \<le> f64_val b\<close> nonneg64_zero_le [OF n]
      by (auto simp: round64_def [of 0] f64_le_def)
  qed
qed

lemma f64_le_add_right: "nonneg64 a \<Longrightarrow> nonneg64 c \<Longrightarrow> f64_le a (f64_add a c)"
proof -
  assume a: "nonneg64 a" and c: "nonneg64 c"
  show ?thesis
  proof (cases a)
    case (Num r)
    show ?thesis
    proof (cases c)
      case (Num r')
      then show ?thesis using a c \<open>a = Num r\<close> by (auto intro: f64_le_round)
    qed (use a c Num in \<open>auto simp: f64_le_def\<close>)
  qed (use a c in \<open>cases c; auto simp: f64_le_def\<close>)+
qed

lemma f64_le_add_left: "nonneg64 a \<Longrightarrow> nonneg64 c \<Longrightarrow> f64_le c (f64_add a c)"
proof -
  assume a: "nonneg64 a" and c: "nonneg64 c"
  show ?thesis
  proof (cases c)
    case (Num r)
    show ?thesis
    proof (cases a)
      case (Num r')
      then show ?thesis using a c \<open>c = Num r\<close> by (auto intro: f64_le_round)
    qed (use a c Num in \<open>auto simp: f64_le_def\<close>)
  qed (use a c in \<open>cases a; auto simp: f64_le_def\<close>)+
qed

lemma f64_lt_le_trans: "f64_lt a b \<Longrightarrow> f64_le b c \<Longrightarrow> f64_lt a c"
  unfolding f64_lt_def by (blast intro: f64_le_trans)

lemma f64_le_lt_trans: "f64_le a b \<Longrightarrow> f64_lt b c \<Longrightarrow> f64_lt a c"
  unfolding f64_lt_def by (blast intro: f64_le_trans)

lemma f64_not_lt: "\<not> is_nan a \<Longrightarrow> \<not> is_nan b \<Longrightarrow> \<not> f64_lt a b \<longleftrightarrow> f64_le b a"
  using f64_le_total [of a b] by (auto simp: f64_lt_def)

lemma f64_of_nat_nonneg: "nonneg64 (f64_of_nat n)"
  unfolding f64_of_nat_def by (rule nonneg64_round) simp

lemma f64_of_nat_mono: "m \<le> n \<Longrightarrow> f64_le (f64_of_nat m) (f64_of_nat n)"
  unfolding f64_of_nat_def by (rule round64_mono_nonneg) simp_all

end
