(* ===== verification/Allocation_Rules.thy ===== *)
theory Allocation_Rules
  imports F64_Order Mechanism Protocol_Spectral
begin

unbundle bit_operations_syntax

text \<open>
  Allocation rules: the rule type of \<open>src/src/lib.rs\<close>, the built-in rules of \<open>src/src/rules.rs\<close> and
  the apportionment rules of \<open>src/src/rules/divisor.rs\<close>. A programmatic rule is a function of the
  claims and the estate. The properties say how the highest-averages rules hand out their seats.
\<close>

section \<open>Rules\<close>

type_synonym allocate_rule = "claim list \<Rightarrow> estate \<Rightarrow> legitimacy_error + allocation"

datatype rule_spec = Programmatic allocate_rule | Declarative declarative_rule_kind

record rule =
  rule_name :: string
  rule_version :: string
  rule_payload :: rule_spec
  priority_classes :: "string list"

definition collect_allocation :: "(string \<times> f64) list \<Rightarrow> allocation" where
  "collect_allocation entries = fold (\<lambda>e. bm_insert (fst e) (snd e)) entries []"

section \<open>Proportional rule\<close>

definition MIN_POSITIVE :: f64 where
  "MIN_POSITIVE = Num (2 powi (- 1022))"

text \<open>\<open>f64::from_bits\<close>, and \<open>2.0_f64.powi(n)\<close>: a power of two, exact wherever it is representable.\<close>

definition f64_from_bits :: "u64 \<Rightarrow> f64" where
  "f64_from_bits bits =
     (let neg = bit bits 63;
          e = uint (drop_bit 52 bits AND 2047);
          m = uint (bits AND (push_bit 52 1 - 1));
          signed = (\<lambda>x. Num (if neg then - x else x))
      in if e = 2047 then (if m = 0 then Infinite neg else NaN)
         else if e = 0 then (if m = 0 then Zero neg else signed (of_int m * 2 powi (- 1074)))
         else signed (of_int (2 ^ 52 + m) * 2 powi (e - 1075)))"

definition two_powi :: "int \<Rightarrow> f64" where
  "two_powi n = round64 (2 powi n)"

definition positive_binary_parts :: "f64 \<Rightarrow> f64 \<times> int" where
  "positive_binary_parts value =
     (let (normal, adjustment) =
            (if f64_lt value MIN_POSITIVE then (f64_mul value (Num 4503599627370496), - 52) else (value, 0));
          bits = f64_to_bits normal;
          exponent = uint (drop_bit 52 bits AND 0x7ff) - 1023 + adjustment;
          mantissa = f64_from_bits ((bits AND (push_bit 52 1 - 1)) OR push_bit 52 1023)
      in (mantissa, exponent))"

definition scaled_proportional_share :: "f64 \<Rightarrow> f64 \<Rightarrow> f64 \<Rightarrow> f64 \<Rightarrow> f64" where
  "scaled_proportional_share st scale scaled_total est =
     (if f64_eq est (Zero False) then Zero False
      else
        let (strength_mantissa, strength_exponent) = positive_binary_parts st;
            (scale_mantissa, scale_exponent) = positive_binary_parts scale;
            (estate_mantissa, estate_exponent) = positive_binary_parts est;
            mantissa = f64_mul (f64_div (f64_div strength_mantissa scale_mantissa) scaled_total) estate_mantissa;
            exponent = strength_exponent - scale_exponent + estate_exponent
        in if exponent < - 1022 then f64_mul (f64_mul mantissa (two_powi (exponent + 1022))) MIN_POSITIVE
           else f64_mul mantissa (two_powi exponent))"

definition add_scaled :: "f64 \<Rightarrow> claim \<Rightarrow> f64 \<times> f64 \<Rightarrow> f64 \<times> f64" where
  "add_scaled scale c acc =
     (let (scaled_total, correction) = acc;
          term = f64_sub (f64_div (clm_strength c) scale) correction;
          next = f64_add scaled_total term
      in (next, f64_sub (f64_sub next scaled_total) term))"

definition proportional_allocate :: allocate_rule where
  "proportional_allocate cs est =
     rbind (validate_all cs) (\<lambda>_.
       if cs = [] then Inr []
       else
         let scale = foldl (\<lambda>acc c. f64_max acc (clm_strength c)) (Zero False) cs;
             (scaled_total, correction) = fold (add_scaled scale) cs (Zero False, Zero False)
         in Inr (fold (\<lambda>c alloc. bm_insert (clm_id c)
                         (scaled_proportional_share (clm_strength c) scale scaled_total (total est)) alloc) cs []))"

definition proportional_rule :: rule where
  "proportional_rule = \<lparr>rule_name = ''proportional'', rule_version = ''1.0.0'',
     rule_payload = Declarative ProportionalRule, priority_classes = [''standard'']\<rparr>"

section \<open>Agent permissions and hooks\<close>

definition DEFAULT_APPROVAL_THRESHOLD :: f64 where
  "DEFAULT_APPROVAL_THRESHOLD = round64 (4 / 5)"

definition at_least_half :: "claim \<Rightarrow> string \<Rightarrow> bool" where
  "at_least_half c name \<longleftrightarrow> f64_le (round64 (1 / 2)) (metric c name)"

definition clamp01 :: "f64 \<Rightarrow> f64" where
  "clamp01 value = f64_clamp value (Zero False) (Num 1)"

definition permission_share :: "claim \<Rightarrow> f64" where
  "permission_share c =
     (let listed = at_least_half c ''listed'';
          available = at_least_half c ''available'';
          denied = at_least_half c ''denied'';
          base_authorization = clamp01 (metric c ''base_authorization'')
      in if available \<and> listed \<and> \<not> denied then base_authorization else Zero False)"

definition claude_agent_sdk_permissions_allocate :: allocate_rule where
  "claude_agent_sdk_permissions_allocate cs est =
     rbind (validate_all cs) (\<lambda>_. Inr (collect_allocation (map (\<lambda>c. (clm_id c, permission_share c)) cs)))"

definition hook_share :: "claim \<Rightarrow> f64" where
  "hook_share c =
     (let baseline_allow = clamp01 (metric c ''baseline_allow'');
          dangerous_pattern = at_least_half c ''dangerous_pattern'';
          sensitive_path = at_least_half c ''sensitive_path'';
          block_threshold = (if f64_lt (Zero False) (metric c ''block_threshold'') then metric c ''block_threshold''
                             else DEFAULT_APPROVAL_THRESHOLD);
          blocked = (dangerous_pattern \<or> sensitive_path \<and> f64_le block_threshold (clm_strength c))
      in if blocked then Zero False else baseline_allow)"

definition claude_agent_sdk_hooks_allocate :: allocate_rule where
  "claude_agent_sdk_hooks_allocate cs est =
     rbind (validate_all cs) (\<lambda>_. Inr (collect_allocation (map (\<lambda>c. (clm_id c, hook_share c)) cs)))"

definition claude_agent_sdk_permissions_rule :: rule where
  "claude_agent_sdk_permissions_rule = \<lparr>rule_name = ''claude-agent-sdk-permissions'', rule_version = ''1.0.0'',
     rule_payload = Declarative (Custom ''claude_agent_sdk_permissions''),
     priority_classes = [''always_allow'', ''ask_user'', ''always_deny'']\<rparr>"

definition claude_agent_sdk_hooks_rule :: rule where
  "claude_agent_sdk_hooks_rule = \<lparr>rule_name = ''claude-agent-sdk-hooks'', rule_version = ''1.0.0'',
     rule_payload = Declarative (Custom ''claude_agent_sdk_hooks''), priority_classes = [''tool_invocation'']\<rparr>"

definition custom_allocate :: "string \<Rightarrow> allocate_rule" where
  "custom_allocate name cs est =
     (if name = ''claude_agent_sdk_permissions'' then claude_agent_sdk_permissions_allocate cs est
      else if name = ''claude_agent_sdk_hooks'' then claude_agent_sdk_hooks_allocate cs est
      else Inl (invalid_input (''unknown custom declarative rule kind '' @ [CHR 0x27] @ ''{}'' @ [CHR 0x27]) [AStr name]))"

section \<open>Composite rule\<close>

definition diversity_score :: "claim \<Rightarrow> f64" where
  "diversity_score c =
     (let base_diversity = metric c ''diversity'';
          specialization_floor = metric c ''specialization_floor'';
          specialization_penalty = metric c ''specialization_penalty'';
          overspecialization = f64_max (f64_sub (clm_strength c) specialization_floor) (Zero False)
      in clamp01 (f64_sub base_diversity (f64_mul specialization_penalty overspecialization)))"

definition peer_relative_score :: "claim \<Rightarrow> estate \<Rightarrow> f64" where
  "peer_relative_score c est =
     (let base_peer_relative = metric c ''peer_relative'';
          scarcity_bonus = metric c ''scarcity_bonus'';
          scarcity = f64_div (f64_max (f64_sub (Num 100) (total est)) (Zero False)) (Num 100)
      in clamp01 (f64_add base_peer_relative (f64_mul scarcity_bonus scarcity)))"

definition essay_composite_score :: "claim \<Rightarrow> estate \<Rightarrow> f64" where
  "essay_composite_score c est =
     (let reliability = clamp01 (clm_strength c);
          diversity = diversity_score c;
          peer_relative = peer_relative_score c est
      in f64_add (f64_add (f64_mul (round64 (2 / 5)) reliability) (f64_mul (round64 (3 / 10)) diversity))
           (f64_mul (round64 (3 / 10)) peer_relative))"

text \<open>
  \<open>f64::total_cmp\<close>: negative zero comes before positive zero and a NaN, positive here, last. The
  scores are sorted by it; insertion sort, like any stable sort, gives the list the code gets.
\<close>

definition total_le :: "f64 \<Rightarrow> f64 \<Rightarrow> bool" where
  "total_le a b \<longleftrightarrow> is_nan b \<or> f64_lt a b \<or> f64_eq a b \<and> (a = Zero False \<longrightarrow> b \<noteq> Zero True)"

fun insert_score :: "f64 \<Rightarrow> f64 list \<Rightarrow> f64 list" where
  "insert_score x [] = [x]"
| "insert_score x (y # ys) = (if total_le x y then x # y # ys else y # insert_score x ys)"

definition sort_scores :: "f64 list \<Rightarrow> f64 list" where
  "sort_scores xs = foldr insert_score xs []"

definition median_score :: "f64 list \<Rightarrow> f64" where
  "median_score scores =
     (if scores = [] then Zero False
      else
        let sorted_scores = sort_scores scores;
            middle = length sorted_scores div 2
        in if length sorted_scores mod 2 = 1 then sorted_scores ! middle
           else f64_div (f64_add (sorted_scores ! (middle - 1)) (sorted_scores ! middle)) (Num 2))"

definition zero_allocation :: "claim list \<Rightarrow> allocation" where
  "zero_allocation cs = fold (\<lambda>c. bm_insert (clm_id c) (Zero False)) cs []"

definition essay_composite_allocate :: allocate_rule where
  "essay_composite_allocate cs est =
     rbind (validate_all cs) (\<lambda>_.
       let scored = map (\<lambda>c. (clm_id c, essay_composite_score c est)) cs;
           median = median_score (map snd scored);
           promoted = filter (\<lambda>e. f64_lt (f64_add median EPSILON) (snd e)) scored;
           promoted_total = f64_sum (map snd promoted);
           alloc = zero_allocation cs
       in if f64_le promoted_total EPSILON then Inr alloc
          else Inr (fold (\<lambda>e. bm_insert (fst e) (f64_div (f64_mul (total est) (snd e)) promoted_total)) promoted alloc))"

definition essay_composite_rule :: rule where
  "essay_composite_rule = \<lparr>rule_name = ''essay-composite-median'', rule_version = ''0.1.0'',
     rule_payload = Programmatic essay_composite_allocate, priority_classes = [''standard'']\<rparr>"

section \<open>Highest averages\<close>

datatype divisor_family = Jefferson | Webster

text \<open>\<open>value.floor() as usize\<close>: the cast of a float to an unsigned integer saturates.\<close>

fun floor_as_usize :: "f64 \<Rightarrow> nat" where
  "floor_as_usize NaN = 0"
| "floor_as_usize (Infinite neg) = (if neg then 0 else 2 ^ 64 - 1)"
| "floor_as_usize (Zero neg) = 0"
| "floor_as_usize (Num r) = min (nat \<lfloor>r\<rfloor>) (2 ^ 64 - 1)"

definition seat_quotient :: "f64 \<Rightarrow> nat \<Rightarrow> divisor_family \<Rightarrow> f64" where
  "seat_quotient st awarded family =
     (case family of
        Jefferson \<Rightarrow> f64_div st (f64_of_nat (awarded + 1))
      | Webster \<Rightarrow> f64_div st (f64_of_nat (2 * awarded + 1)))"

definition consider_claim ::
  "divisor_family \<Rightarrow> nat list \<Rightarrow> nat \<times> claim \<Rightarrow> nat option \<times> f64 \<Rightarrow> nat option \<times> f64" where
  "consider_claim family awarded ic best =
     (let (best_index, best_quotient) = best;
          quotient = seat_quotient (clm_strength (snd ic)) (awarded ! fst ic) family
      in if f64_lt (f64_add best_quotient EPSILON) quotient then (Some (fst ic), quotient) else best)"

definition best_claim :: "divisor_family \<Rightarrow> claim list \<Rightarrow> nat list \<Rightarrow> nat option \<times> f64" where
  "best_claim family cs awarded = fold (consider_claim family awarded) (enumerate 0 cs) (None, Infinite True)"

definition award_seat :: "divisor_family \<Rightarrow> claim list \<Rightarrow> nat list \<Rightarrow> nat list" where
  "award_seat family cs awarded =
     (case fst (best_claim family cs awarded) of
        Some best_index \<Rightarrow> awarded[best_index := awarded ! best_index + 1]
      | None \<Rightarrow> awarded)"

definition award_seats :: "divisor_family \<Rightarrow> claim list \<Rightarrow> nat \<Rightarrow> nat list" where
  "award_seats family cs seats = (award_seat family cs ^^ seats) (replicate (length cs) 0)"

definition highest_averages_allocate :: "claim list \<Rightarrow> estate \<Rightarrow> divisor_family \<Rightarrow> legitimacy_error + allocation" where
  "highest_averages_allocate cs est family =
     rbind (validate_all cs) (\<lambda>_.
       let awarded = award_seats family cs (floor_as_usize (total est))
       in Inr (collect_allocation (map (\<lambda>(index, c). (clm_id c, f64_of_nat (awarded ! index))) (enumerate 0 cs))))"

definition jefferson_allocate :: allocate_rule where
  "jefferson_allocate cs est = highest_averages_allocate cs est Jefferson"

definition webster_allocate :: allocate_rule where
  "webster_allocate cs est = highest_averages_allocate cs est Webster"

definition jefferson_rule :: rule where
  "jefferson_rule = \<lparr>rule_name = ''jefferson'', rule_version = ''1.0.0'',
     rule_payload = Programmatic jefferson_allocate, priority_classes = [''standard'']\<rparr>"

definition webster_rule :: rule where
  "webster_rule = \<lparr>rule_name = ''webster'', rule_version = ''1.0.0'',
     rule_payload = Programmatic webster_allocate, priority_classes = [''standard'']\<rparr>"

section \<open>Evaluation of a rule\<close>

definition spec_allocate :: "rule_spec \<Rightarrow> allocate_rule" where
  "spec_allocate spec cs est =
     (case spec of
        Programmatic allocate \<Rightarrow> allocate cs est
      | Declarative ProportionalRule \<Rightarrow> proportional_allocate cs est
      | Declarative (Custom name) \<Rightarrow> custom_allocate name cs est)"

fun requires_feasible_allocation :: "rule_spec \<Rightarrow> bool" where
  "requires_feasible_allocation (Programmatic allocate) = True"
| "requires_feasible_allocation (Declarative ProportionalRule) = True"
| "requires_feasible_allocation (Declarative (Custom name)) = False"

definition rule_allocate :: "rule \<Rightarrow> allocate_rule" where
  "rule_allocate r cs est =
     rbind (spec_allocate (rule_payload r) cs est) (\<lambda>alloc.
     rbind (valid_allocation_new alloc cs) (\<lambda>valid.
     rbind (if requires_feasible_allocation (rule_payload r) then validate_feasible valid est else Inr ()) (\<lambda>_.
       Inr valid)))"

definition evaluate_rule :: "rule \<Rightarrow> allocate_rule" where
  "evaluate_rule r cs est = rbind (validate_all cs) (\<lambda>_. rule_allocate r cs est)"

section \<open>The best quotient\<close>

definition quotient_at :: "divisor_family \<Rightarrow> claim list \<Rightarrow> nat list \<Rightarrow> nat \<Rightarrow> f64" where
  "quotient_at family cs awarded i = seat_quotient (clm_strength (cs ! i)) (awarded ! i) family"

definition divisor :: "divisor_family \<Rightarrow> nat \<Rightarrow> nat" where
  "divisor family n = (case family of Jefferson \<Rightarrow> n + 1 | Webster \<Rightarrow> 2 * n + 1)"

lemma seat_quotient_divisor: "seat_quotient st n family = f64_div st (f64_of_nat (divisor family n))"
  by (cases family) (simp_all add: seat_quotient_def divisor_def)

lemma EPSILON_nonneg: "nonneg64 EPSILON"
  unfolding EPSILON_def by (rule nonneg64_round) simp

definition sound_strength :: "f64 \<Rightarrow> bool" where
  "sound_strength st \<longleftrightarrow> (\<exists>r. st = Num r \<and> 0 < r)"

lemma seat_quotient_nonneg:
  assumes "sound_strength st"
  shows "nonneg64 (seat_quotient st n family)"
proof -
  obtain r where r: "st = Num r" "0 < r" using assms by (auto simp: sound_strength_def)
  show ?thesis unfolding seat_quotient_divisor r(1)
  proof (cases "f64_of_nat (divisor family n)")
    case (Zero neg)
    then show "nonneg64 (f64_div (Num r) (f64_of_nat (divisor family n)))" using r(2) f64_of_nat_nonneg [of "divisor family n"]
      by (auto simp: f64_of_nat_def round64_def Let_def split: if_splits)
  next
    case (Num v)
    then show "nonneg64 (f64_div (Num r) (f64_of_nat (divisor family n)))"
      using r(2) f64_of_nat_nonneg [of "divisor family n"] by (auto intro: nonneg64_round)
  qed (use f64_of_nat_nonneg [of "divisor family n"] in \<open>auto\<close>)
qed

lemma valid_strengths:
  assumes "validate_all cs = Inr ()" and "i < length cs"
  shows "sound_strength (clm_strength (cs ! i))"
proof -
  have "claim_validate (cs ! i) = Inr ()"
    using assms by (auto simp: validate_all_def validate_all_from_Inr)
  then have "is_finite (clm_strength (cs ! i))" "\<not> f64_le (clm_strength (cs ! i)) (Zero False)"
    by (auto simp: claim_validate_def validate_claim_strength_def result_simps)
  then show ?thesis by (cases "clm_strength (cs ! i)") (auto simp: sound_strength_def f64_le_def)
qed

lemma consider_claim_pair:
  "consider_claim family awarded (i, c) (bi, bq)
     = (let quotient = seat_quotient (clm_strength c) (awarded ! i) family
        in if f64_lt (f64_add bq EPSILON) quotient then (Some i, quotient) else (bi, bq))"
  by (simp add: consider_claim_def Let_def)

definition near_best :: "divisor_family \<Rightarrow> claim list \<Rightarrow> nat list \<Rightarrow> nat \<Rightarrow> nat \<times> f64 \<Rightarrow> bool" where
  "near_best family cs awarded n best \<longleftrightarrow> fst best < n \<and> snd best = quotient_at family cs awarded (fst best)
     \<and> (\<forall>j < n. f64_le (quotient_at family cs awarded j) (f64_add (snd best) EPSILON))"

lemma best_claim_near:
  assumes str: "\<And>i. i < length cs \<Longrightarrow> sound_strength (clm_strength (cs ! i))" and n: "0 < n" "n \<le> length cs"
  shows "\<exists>best. fold (consider_claim family awarded) (take n (enumerate 0 cs)) (None, Infinite True) = (Some (fst best), snd best)
    \<and> near_best family cs awarded n best"
  using n
proof (induction n)
  case (Suc n)
  let ?q = "quotient_at family cs awarded"
  have nth: "enumerate 0 cs ! n = (n, cs ! n)" using Suc.prems by (simp add: nth_enumerate_eq)
  have tk: "take (Suc n) (enumerate 0 cs) = take n (enumerate 0 cs) @ [(n, cs ! n)]"
    using Suc.prems nth by (simp add: take_Suc_conv_app_nth)
  have q: "nonneg64 (?q i)" if "i < length cs" for i
    unfolding quotient_at_def by (rule seat_quotient_nonneg [OF str [OF that]])
  have up: "f64_le (?q i) (f64_add (?q i) EPSILON)" if "i < length cs" for i
    by (rule f64_le_add_right [OF q [OF that] EPSILON_nonneg])
  show ?case
  proof (cases "n = 0")
    case True
    obtain e where e: "EPSILON = Num e" using EPSILON_between by blast
    have inf: "f64_add (Infinite True) EPSILON = Infinite True" unfolding e by simp
    have "0 < length cs" using Suc.prems by linarith
    then have "nonneg64 (?q 0)" by (rule q)
    then have "f64_lt (f64_add (Infinite True) EPSILON) (?q 0)"
      unfolding inf by (cases "?q 0") (auto simp: f64_lt_def f64_le_def)
    then have "fold (consider_claim family awarded) (take (Suc n) (enumerate 0 cs)) (None, Infinite True) = (Some 0, ?q 0)"
      unfolding tk using True by (simp add: consider_claim_pair quotient_at_def)
    then show ?thesis using True up [OF \<open>0 < length cs\<close>] by (intro exI [of _ "(0, ?q 0)"]) (simp add: near_best_def)
  next
    case False
    with Suc obtain best where best: "fold (consider_claim family awarded) (take n (enumerate 0 cs)) (None, Infinite True)
        = (Some (fst best), snd best)" "near_best family cs awarded n best" by auto
    have b: "fst best < length cs" "snd best = ?q (fst best)" using best(2) Suc.prems by (auto simp: near_best_def)
    have nn: "nonneg64 (f64_add (snd best) EPSILON)" using nonneg64_add [OF q [OF b(1)] EPSILON_nonneg] by (simp add: b(2))
    show ?thesis
    proof (cases "f64_lt (f64_add (snd best) EPSILON) (?q n)")
      case True
      have "f64_le (?q j) (f64_add (?q n) EPSILON)" if "j < Suc n" for j
      proof (cases "j = n")
        case False
        then have "j < n" using that by simp
        then have "f64_le (?q j) (f64_add (snd best) EPSILON)" using best(2) unfolding near_best_def by blast
        then show ?thesis using True up [of n] Suc.prems unfolding f64_lt_def by (metis Suc_le_lessD f64_le_trans)
      qed (use up Suc.prems in simp)
      then show ?thesis unfolding tk using best(1) True
        by (intro exI [of _ "(n, ?q n)"]) (simp add: consider_claim_pair near_best_def quotient_at_def)
    next
      case False
      then have "f64_le (?q n) (f64_add (snd best) EPSILON)"
        using f64_not_lt nonneg64_not_nan [OF nn] nonneg64_not_nan [OF q [of n]] Suc.prems by simp
      then have "near_best family cs awarded (Suc n) best" using best(2) by (auto simp: near_best_def less_Suc_eq)
      moreover have "fold (consider_claim family awarded) (take (Suc n) (enumerate 0 cs)) (None, Infinite True)
          = (Some (fst best), snd best)"
        unfolding tk using best(1) False by (simp add: consider_claim_pair quotient_at_def)
      ultimately show ?thesis by blast
    qed
  qed
qed simp

section \<open>Seats\<close>

lemma award_seat_at:
  assumes "\<And>i. i < length cs \<Longrightarrow> sound_strength (clm_strength (cs ! i))" and "cs \<noteq> []"
  obtains b where "b < length cs" and "award_seat family cs awarded = awarded[b := awarded ! b + 1]"
    and "\<forall>j < length cs. f64_le (quotient_at family cs awarded j) (f64_add (quotient_at family cs awarded b) EPSILON)"
proof -
  have "\<exists>best. fold (consider_claim family awarded) (take (length cs) (enumerate 0 cs)) (None, Infinite True)
      = (Some (fst best), snd best) \<and> near_best family cs awarded (length cs) best"
    by (rule best_claim_near) (use assms in auto)
  then obtain best where "best_claim family cs awarded = (Some (fst best), snd best)" "near_best family cs awarded (length cs) best"
    by (auto simp: best_claim_def)
  then show ?thesis using that [of "fst best"] by (auto simp: award_seat_def near_best_def)
qed

lemma award_seat_length [simp]: "length (award_seat family cs awarded) = length awarded"
  by (simp add: award_seat_def split: option.split)

lemma award_seats_Suc: "award_seats family cs (Suc n) = award_seat family cs (award_seats family cs n)"
  by (simp add: award_seats_def)

lemma award_seats_length [simp]: "length (award_seats family cs n) = length cs"
  by (induction n) (simp_all add: award_seats_Suc, simp add: award_seats_def)

lemma sum_list_bump: "b < length xs \<Longrightarrow> sum_list (xs[b := Suc (xs ! b)]) = Suc (sum_list xs)"
  by (induction xs arbitrary: b) (auto split: nat.split)

lemma award_seats_sum:
  assumes "\<And>i. i < length cs \<Longrightarrow> sound_strength (clm_strength (cs ! i))" and "cs \<noteq> []"
  shows "sum_list (award_seats family cs n) = n"
proof (induction n)
  case 0
  show ?case by (simp add: award_seats_def sum_list_replicate)
next
  case (Suc n)
  obtain b where "b < length cs" "award_seat family cs (award_seats family cs n)
      = (award_seats family cs n)[b := award_seats family cs n ! b + 1]"
    using award_seat_at [OF assms] by blast
  with Suc show ?case by (simp add: award_seats_Suc sum_list_bump)
qed

lemma award_seat_grows:
  "i < length awarded \<Longrightarrow> awarded ! i \<le> award_seat family cs awarded ! i"
  "i < length awarded \<Longrightarrow> award_seat family cs awarded ! i \<le> Suc (awarded ! i)"
proof -
  have "i < length awarded \<Longrightarrow> awarded ! i \<le> awarded[b := Suc (awarded ! b)] ! i \<and> awarded[b := Suc (awarded ! b)] ! i \<le> Suc (awarded ! i)" for b
    by (cases "b = i") simp_all
  then show "i < length awarded \<Longrightarrow> awarded ! i \<le> award_seat family cs awarded ! i"
    "i < length awarded \<Longrightarrow> award_seat family cs awarded ! i \<le> Suc (awarded ! i)"
    by (auto simp: award_seat_def split: option.split)
qed

lemma award_seats_mono: "m \<le> n \<Longrightarrow> i < length cs \<Longrightarrow> award_seats family cs m ! i \<le> award_seats family cs n ! i"
proof (induction n rule: dec_induct)
  case (step n)
  then show ?case using award_seat_grows(1) [of i "award_seats family cs n" family cs] by (simp add: award_seats_Suc)
qed simp

lemma award_seats_bound: "i < length cs \<Longrightarrow> award_seats family cs n ! i \<le> n"
proof (induction n)
  case 0
  then show ?case by (simp add: award_seats_def)
next
  case (Suc n)
  then show ?case using award_seat_grows(2) [of i "award_seats family cs n" family cs] by (simp add: award_seats_Suc)
qed

lemma get_collect:
  assumes "distinct (map fst entries)"
  shows "bm_get (collect_allocation entries) k = map_of entries k"
proof -
  have "map_of (rev entries) k = map_of entries k"
    using assms by (metis map_of_is_SomeI map_of_SomeD set_rev rev_map distinct_rev option.exhaust)
  then show ?thesis using bm.get_put_fold [of entries "[]" k] by (simp add: collect_allocation_def split: option.split)
qed

lemma get_collect_nth:
  assumes "distinct (map fst entries)" and "i < length entries"
  shows "bm_get (collect_allocation entries) (fst (entries ! i)) = Some (snd (entries ! i))"
  using assms by (simp add: get_collect map_of_eq_Some_iff)

lemma collect_wf: "bm_wf (collect_allocation entries)"
  unfolding collect_allocation_def using bm.wf_put_fold [of "[]" entries] by simp

lemma fst_collect: "fst ` set (collect_allocation entries) = fst ` set entries"
proof -
  have "fst ` set (fold (\<lambda>e. bm_insert (fst e) (snd e)) entries m) = fst ` set m \<union> fst ` set entries" for m
    by (induction entries arbitrary: m) (auto simp: set_keys_insert)
  then show ?thesis by (simp add: collect_allocation_def)
qed

definition seat_entries :: "divisor_family \<Rightarrow> claim list \<Rightarrow> nat \<Rightarrow> (string \<times> f64) list" where
  "seat_entries family cs n
     = map (\<lambda>(index, c). (clm_id c, f64_of_nat (award_seats family cs n ! index))) (enumerate 0 cs)"

lemma seat_entries_nth:
  "length (seat_entries family cs n) = length cs"
  "i < length cs \<Longrightarrow> seat_entries family cs n ! i = (clm_id (cs ! i), f64_of_nat (award_seats family cs n ! i))"
  "map fst (seat_entries family cs n) = map clm_id cs"
proof -
  show len: "length (seat_entries family cs n) = length cs" by (simp add: seat_entries_def)
  show nth: "seat_entries family cs n ! i = (clm_id (cs ! i), f64_of_nat (award_seats family cs n ! i))" if "i < length cs" for i
    using that by (simp add: seat_entries_def nth_enumerate_eq)
  show "map fst (seat_entries family cs n) = map clm_id cs" by (rule nth_equalityI) (simp_all add: len nth)
qed

lemma highest_averages_Inr:
  assumes "validate_all cs = Inr ()"
  shows "highest_averages_allocate cs est family
      = Inr (collect_allocation (seat_entries family cs (floor_as_usize (total est))))"
    and "i < length cs \<Longrightarrow> bm_get (collect_allocation (seat_entries family cs n)) (clm_id (cs ! i))
      = Some (f64_of_nat (award_seats family cs n ! i))"
proof -
  show "highest_averages_allocate cs est family
      = Inr (collect_allocation (seat_entries family cs (floor_as_usize (total est))))"
    using assms by (simp add: highest_averages_allocate_def seat_entries_def)
  have "distinct (map fst (seat_entries family cs n))"
    using assms by (simp add: seat_entries_nth(3) validate_all_def validate_all_from_Inr)
  from get_collect_nth [OF this, of i] show "i < length cs \<Longrightarrow>
      bm_get (collect_allocation (seat_entries family cs n)) (clm_id (cs ! i)) = Some (f64_of_nat (award_seats family cs n ! i))"
    by (simp add: seat_entries_nth)
qed

lemma floor_as_usize_mono: "f64_le a b \<Longrightarrow> floor_as_usize a \<le> floor_as_usize b"
proof (cases a)
  case (Num r)
  assume le: "f64_le a b"
  show ?thesis
  proof (cases b)
    case (Num r')
    then have "\<lfloor>r\<rfloor> \<le> \<lfloor>r'\<rfloor>" using le \<open>a = Num r\<close> by (intro floor_mono) (simp add: f64_le_def)
    then have "nat \<lfloor>r\<rfloor> \<le> nat \<lfloor>r'\<rfloor>" by (rule nat_mono)
    then show ?thesis unfolding Num \<open>a = Num r\<close> floor_as_usize.simps by (intro min.mono) simp_all
  next
    case (Zero neg)
    then have "r \<le> 0" using le Num by (simp add: f64_le_def)
    then have "\<lfloor>r\<rfloor> \<le> 0" by simp
    then show ?thesis by (simp add: Num)
  qed (use le Num in \<open>auto simp: f64_le_def split: if_splits\<close>)
next
  case (Infinite neg)
  assume "f64_le a b"
  then show ?thesis using Infinite by (cases b; cases neg) (auto simp: f64_le_def split: if_splits)
qed simp_all

section \<open>Small claims\<close>

lemma quotient_le_strength:
  assumes "sound_strength st" and "representable (f64_val st)"
  shows "f64_le (seat_quotient st n family) st"
proof -
  obtain r where r: "st = Num r" "0 < r" using assms by (auto simp: sound_strength_def)
  have d: "1 \<le> divisor family n" by (cases family) (simp_all add: divisor_def)
  have "f64_le (Num 1) (f64_of_nat (divisor family n))"
    using f64_of_nat_mono [OF d] by (simp add: f64_of_nat_exact)
  then consider v where "f64_of_nat (divisor family n) = Num v" "1 \<le> v" | "f64_of_nat (divisor family n) = Infinite False"
    by (cases "f64_of_nat (divisor family n)") (auto simp: f64_le_def split: if_splits)
  then show ?thesis
  proof cases
    case 1
    then have "r / v \<le> r" "0 < r / v" using r(2) by (simp_all add: pos_divide_le_eq mult_le_cancel_left1)
    then show ?thesis unfolding seat_quotient_divisor r(1) 1(1) using assms(2) r(1) by (simp add: round_f64_le)
  next
    case 2
    then show ?thesis unfolding seat_quotient_divisor r(1) 2 using r(2) by (simp add: f64_le_def)
  qed
qed

definition small_strength :: "f64 \<Rightarrow> bool" where
  "small_strength st \<longleftrightarrow> sound_strength st \<and> representable (f64_val st) \<and> f64_le st EPSILON"

lemma small_claims_first:
  assumes small: "\<And>i. i < length cs \<Longrightarrow> small_strength (clm_strength (cs ! i))" and n: "0 < n" "n \<le> length cs"
  shows "fold (consider_claim family awarded) (take n (enumerate 0 cs)) (None, Infinite True)
    = (Some 0, quotient_at family cs awarded 0)"
  using n
proof (induction n)
  case (Suc n)
  let ?q = "quotient_at family cs awarded"
  have str: "sound_strength (clm_strength (cs ! i))" if "i < length cs" for i
    using small [OF that] by (simp add: small_strength_def)
  have nth: "enumerate 0 cs ! n = (n, cs ! n)" using Suc.prems by (simp add: nth_enumerate_eq)
  have tk: "take (Suc n) (enumerate 0 cs) = take n (enumerate 0 cs) @ [(n, cs ! n)]"
    using Suc.prems nth by (simp add: take_Suc_conv_app_nth)
  show ?case
  proof (cases "n = 0")
    case True
    with best_claim_near [OF str, of 1 family awarded] Suc.prems show ?thesis
      by (auto simp: near_best_def)
  next
    case False
    have n: "n < length cs" using Suc.prems by simp
    have "0 < length cs" using n by linarith
    then have q0: "nonneg64 (?q 0)" unfolding quotient_at_def by (intro seat_quotient_nonneg str)
    have "f64_le (?q n) (clm_strength (cs ! n))"
      unfolding quotient_at_def by (rule quotient_le_strength) (use small [OF n] in \<open>auto simp: small_strength_def\<close>)
    moreover have "f64_le (clm_strength (cs ! n)) EPSILON" using small [OF n] by (simp add: small_strength_def)
    moreover have "f64_le EPSILON (f64_add (?q 0) EPSILON)" by (rule f64_le_add_left [OF q0 EPSILON_nonneg])
    ultimately have "f64_le (?q n) (f64_add (?q 0) EPSILON)" by (metis f64_le_trans)
    then have "\<not> f64_lt (f64_add (?q 0) EPSILON) (?q n)" by (simp add: f64_lt_def)
    with False Suc show ?thesis unfolding tk by (simp add: consider_claim_pair quotient_at_def)
  qed
qed simp

lemma small_claims_take_all:
  assumes small: "\<And>i. i < length cs \<Longrightarrow> small_strength (clm_strength (cs ! i))" and "cs \<noteq> []"
  shows "award_seats family cs n = (replicate (length cs) 0)[0 := n]"
proof (induction n)
  case 0
  have "(replicate (length cs) 0)[0 := 0] = replicate (length cs) (0 :: nat)"
    using \<open>cs \<noteq> []\<close> by (cases cs) simp_all
  then show ?case by (simp add: award_seats_def)
next
  case (Suc n)
  have "best_claim family cs (award_seats family cs n) = (Some 0, quotient_at family cs (award_seats family cs n) 0)"
    using small_claims_first [OF small, of "length cs" family] \<open>cs \<noteq> []\<close> by (simp add: best_claim_def)
  then have "award_seats family cs (Suc n) = (award_seats family cs n)[0 := award_seats family cs n ! 0 + 1]"
    by (simp add: award_seats_Suc award_seat_def)
  with Suc \<open>cs \<noteq> []\<close> show ?case by simp
qed

section \<open>Whole rules\<close>

lemma f64_sum_nats:
  assumes "sum_list ns < 2 ^ 53"
  shows "f64_sum (map f64_of_nat ns) = (if ns = [] then Zero True else f64_of_nat (sum_list ns))"
proof -
  have fold: "foldl f64_add (f64_of_nat a) (map f64_of_nat xs) = f64_of_nat (a + sum_list xs)"
    if "a + sum_list xs < 2 ^ 53" for a xs
    using that
  proof (induction xs arbitrary: a)
    case (Cons x xs)
    then show ?case by (simp add: f64_of_nat_add add.assoc)
  qed simp
  have first: "f64_add (Zero True) (f64_of_nat n) = f64_of_nat n" for n
    using f64_of_nat_nonneg [of n] by (cases "f64_of_nat n") (auto simp: f64_of_nat_def round64_def Let_def split: if_splits)
  show ?thesis using assms first fold by (cases ns) (auto simp: f64_sum_def)
qed

lemma sum_values_collect:
  assumes "distinct (map fst entries)"
  shows "\<exists>vs. mset vs = mset (map snd entries) \<and> bm_values (collect_allocation entries) = vs"
proof -
  have "mset (fold (\<lambda>e. bm_insert (fst e) (snd e)) entries m) = mset m + mset entries"
    if "distinct (map fst entries)" "fst ` set m \<inter> fst ` set entries = {}" for m
    using that
  proof (induction entries arbitrary: m)
    case (Cons e entries)
    have "mset (bm_insert k v m) = add_mset (k, v) (mset m)" if "k \<notin> fst ` set m" for k v
      using that by (induction m) auto
    moreover have "fst ` set (bm_insert (fst e) (snd e) m) \<inter> fst ` set entries = {}"
      using Cons.prems by (auto simp: set_keys_insert)
    ultimately show ?case using Cons by auto
  qed simp
  from this [of "[]"] assms have "mset (collect_allocation entries) = mset entries" by (simp add: collect_allocation_def)
  then show ?thesis by (metis mset_map)
qed

lemma nonneg64_mul: "nonneg64 a \<Longrightarrow> nonneg64 b \<Longrightarrow> is_finite a \<Longrightarrow> is_finite b \<Longrightarrow> nonneg64 (f64_mul a b)"
  by (cases a; cases b) (auto intro: nonneg64_round)

lemma nonneg64_abs: "nonneg64 a \<Longrightarrow> nonneg64 (f64_abs a)"
  by (cases a) auto

lemma seats_fit:
  assumes "total est = Num e" and "0 < e" and "e < 2 ^ 53"
  shows "floor_as_usize (total est) = nat \<lfloor>e\<rfloor>" and "(of_nat (nat \<lfloor>e\<rfloor>) :: rat) \<le> e" and "nat \<lfloor>e\<rfloor> < 2 ^ 53"
proof -
  have "\<lfloor>e\<rfloor> < 2 ^ 53" using assms(3) by (simp add: floor_less_iff)
  then show lt: "nat \<lfloor>e\<rfloor> < 2 ^ 53" using assms(2) by (simp add: nat_less_iff less_imp_le)
  then show "floor_as_usize (total est) = nat \<lfloor>e\<rfloor>" by (simp add: assms(1))
  show "(of_nat (nat \<lfloor>e\<rfloor>) :: rat) \<le> e" using assms(2) by (simp add: of_nat_nat)
qed

lemma seats_feasible:
  assumes "total est = Num e" and "0 < e" and "representable e" and "(of_nat n :: rat) \<le> e" and "n < 2 ^ 53"
    and "f64_sum (bm_values alloc) = f64_of_nat n"
  shows "validate_feasible alloc est = Inr ()"
proof -
  have fin: "is_finite (f64_of_nat n)" by (cases "n = 0") (use assms(5) in \<open>simp_all add: f64_of_nat_0 f64_of_nat_exact\<close>)
  have eps: "is_finite EPSILON" by (rule EPSILON_ok)
  let ?tol = "f64_add (f64_add EPSILON (f64_mul EPSILON (f64_abs (f64_of_nat n)))) (f64_mul EPSILON (f64_abs (total est)))"
  have finabs: "is_finite (f64_abs x)" if "is_finite x" for x using that by (cases x) auto
  have "nonneg64 (total est)" using assms(1-3) by simp
  then have "nonneg64 ?tol"
    by (intro nonneg64_add nonneg64_mul EPSILON_nonneg nonneg64_abs f64_of_nat_nonneg eps finabs fin) (simp_all add: assms(1))
  then have tol: "f64_le (Zero False) ?tol" by (rule nonneg64_zero_le)
  have "f64_le (f64_sub (f64_of_nat n) (total est)) (Zero False)"
  proof (cases "n = 0")
    case True
    then show ?thesis using assms(1,2) by (simp add: f64_sub_def f64_of_nat_0 f64_le_def)
  next
    case False
    then have "f64_sub (f64_of_nat n) (total est) = round64 (of_nat n - e)"
      using assms(1,5) by (simp add: f64_sub_def f64_of_nat_exact)
    moreover have "f64_le (round64 x) (Zero False)" if "x \<le> 0" for x
      using that round_mag_nonneg [of "\<bar>x\<bar>"] by (auto simp: round64_def Let_def f64_le_def)
    ultimately show ?thesis using assms(4) by simp
  qed
  then show ?thesis using tol fin unfolding validate_feasible_def assms(6) Let_def by (metis f64_le_trans)
qed

definition apportionment_rule :: "divisor_family \<Rightarrow> rule" where
  "apportionment_rule family = (case family of Jefferson \<Rightarrow> jefferson_rule | Webster \<Rightarrow> webster_rule)"

lemma apportionment_allocate:
  "spec_allocate (rule_payload (apportionment_rule family)) cs est = highest_averages_allocate cs est family"
  "requires_feasible_allocation (rule_payload (apportionment_rule family))"
  by (cases family; simp add: apportionment_rule_def jefferson_rule_def webster_rule_def spec_allocate_def
      jefferson_allocate_def webster_allocate_def)+

lemma mset_map_split: "mset ys = mset (map f xs) \<Longrightarrow> \<exists>zs. ys = map f zs \<and> mset zs = mset xs"
proof (induction ys arbitrary: xs)
  case (Cons y ys)
  then have "y \<in> set (map f xs)" by (metis list.set_intros(1) set_mset_mset)
  then obtain as x bs where xs: "xs = as @ x # bs" "y = f x" by (auto simp: in_set_conv_decomp)
  with Cons.prems have "mset ys = mset (map f (as @ bs))" by simp
  with Cons.IH obtain zs where "ys = map f zs" "mset zs = mset (as @ bs)" by blast
  with xs show ?case by (intro exI [of _ "x # zs"]) simp
qed simp

lemma seat_entries_sum:
  assumes valid: "validate_all cs = Inr ()" and "cs \<noteq> []" and "n < 2 ^ 53"
  shows "f64_sum (bm_values (collect_allocation (seat_entries family cs n))) = f64_of_nat n"
proof -
  let ?ns = "award_seats family cs n"
  have snds: "map snd (seat_entries family cs n) = map f64_of_nat ?ns"
    by (rule nth_equalityI) (simp_all add: seat_entries_nth)
  have "distinct (map fst (seat_entries family cs n))"
    using valid by (simp add: seat_entries_nth(3) validate_all_def validate_all_from_Inr)
  then have "mset (bm_values (collect_allocation (seat_entries family cs n))) = mset (map f64_of_nat ?ns)"
    using sum_values_collect snds by metis
  then obtain ms where ms: "bm_values (collect_allocation (seat_entries family cs n)) = map f64_of_nat ms" "mset ms = mset ?ns"
    using mset_map_split by blast
  have "sum_list ms = n"
    using award_seats_sum [OF valid_strengths [OF valid] \<open>cs \<noteq> []\<close>, of family n] ms(2) by (metis sum_mset_sum_list)
  moreover have "ms \<noteq> []"
    using ms(2) \<open>cs \<noteq> []\<close> award_seats_length [of family cs n] by (metis length_0_conv mset_zero_iff_right)
  ultimately show ?thesis using f64_sum_nats [of ms] assms(3) ms(1) by simp
qed

section \<open>Properties\<close>

text \<open>C34: on valid claims and an estate below \<open>2 ^ 53\<close> the Jefferson and Webster rules are accepted by
  the allocation checks and hand out exactly the whole part of the estate; each seat goes to a claim
  whose quotient no other quotient exceeds by more than \<open>EPSILON\<close>.\<close>

theorem apportionment_spends_house:
  assumes valid: "validate_all cs = Inr ()" and "cs \<noteq> []"
    and est: "total est = Num e" "0 < e" "e < 2 ^ 53" "representable e"
  shows "\<exists>alloc. rule_allocate (apportionment_rule family) cs est = Inr alloc
    \<and> sum_list (award_seats family cs (nat \<lfloor>e\<rfloor>)) = nat \<lfloor>e\<rfloor>
    \<and> (\<forall>i < length cs. bm_get alloc (clm_id (cs ! i)) = Some (f64_of_nat (award_seats family cs (nat \<lfloor>e\<rfloor>) ! i)))
    \<and> (\<forall>n. \<exists>b < length cs. award_seats family cs (Suc n) = (award_seats family cs n)[b := award_seats family cs n ! b + 1]
         \<and> (\<forall>j < length cs. f64_le (quotient_at family cs (award_seats family cs n) j)
              (f64_add (quotient_at family cs (award_seats family cs n) b) EPSILON)))"
proof -
  let ?n = "nat \<lfloor>e\<rfloor>" and ?alloc = "collect_allocation (seat_entries family cs (nat \<lfloor>e\<rfloor>))"
  note fit = seats_fit [OF est(1-3)]
  have "allocation_validate ?alloc cs = Inr ()"
  proof -
    have "fst ` set ?alloc = clm_id ` set cs"
      unfolding fst_collect by (metis seat_entries_nth(3) image_set)
    moreover have "is_finite v \<and> \<not> f64_lt v (Zero False)" if "v \<in> snd ` set ?alloc" for v
    proof -
      from that obtain k where "(k, v) \<in> set ?alloc" by auto
      then have "bm_get ?alloc k = Some v" by (simp add: bm_get_mem collect_wf)
      then have "(k, v) \<in> set (seat_entries family cs ?n)"
        using valid by (auto simp: get_collect seat_entries_nth(3) validate_all_def validate_all_from_Inr dest: map_of_SomeD)
      then obtain i where i: "i < length cs" "v = f64_of_nat (award_seats family cs ?n ! i)"
        by (auto simp: in_set_conv_nth seat_entries_nth)
      have "award_seats family cs ?n ! i < 2 ^ 53" using award_seats_bound [OF i(1), of family ?n] fit(3) by linarith
      then show ?thesis unfolding i(2)
        by (cases "award_seats family cs ?n ! i = 0") (auto simp: f64_of_nat_0 f64_of_nat_exact f64_lt_def f64_le_def)
    qed
    ultimately show ?thesis unfolding allocation_validate_Inr by blast
  qed
  moreover have "validate_feasible ?alloc est = Inr ()"
    by (rule seats_feasible [OF est(1,2,4) fit(2,3) seat_entries_sum [OF valid \<open>cs \<noteq> []\<close> fit(3)]])
  ultimately have "rule_allocate (apportionment_rule family) cs est = Inr ?alloc"
    using highest_averages_Inr(1) [OF valid, of est family]
    by (simp add: rule_allocate_def apportionment_allocate valid_allocation_new_def fit(1))
  then show ?thesis
    using highest_averages_Inr(2) [OF valid] award_seats_sum [OF valid_strengths [OF valid] \<open>cs \<noteq> []\<close>]
      award_seat_at [OF valid_strengths [OF valid] \<open>cs \<noteq> []\<close>]
    by (intro exI [of _ ?alloc] conjI allI) (simp, simp, simp, metis award_seats_Suc)
qed

definition house_claims :: "rat \<Rightarrow> rat \<Rightarrow> claim list" where
  "house_claims x y = [\<lparr>clm_id = ''a'', clm_strength = Num x, clm_metrics = []\<rparr>,
     \<lparr>clm_id = ''b'', clm_strength = Num y, clm_metrics = []\<rparr>]"

definition house :: "nat \<Rightarrow> estate" where
  "house n = \<lparr>total = Num (of_nat n), unit_name = ''seats''\<rparr>"

lemma house_claims_valid: "0 < x \<Longrightarrow> 0 < y \<Longrightarrow> validate_all (house_claims x y) = Inr ()"
  by (auto simp: house_claims_def validate_all_def validate_all_from_Inr claim_validate_def validate_claim_strength_def
      validate_claimant_id_def require_def ws1_def f64_le_def)

lemma dyadic_representable: "0 < m \<Longrightarrow> m < 2 ^ 53 \<Longrightarrow> k \<le> 1000 \<Longrightarrow> representable (of_int m / 2 ^ k)"
  unfolding representable_def by (rule round64_dyadic)

theorem apportionment_spends_house_witness:
  "\<exists>alloc. rule_allocate (apportionment_rule Webster) (house_claims 3 1) (house 4) = Inr alloc
     \<and> sum_list (award_seats Webster (house_claims 3 1) 4) = 4"
proof -
  have "representable 4" using dyadic_representable [of 4 0] by simp
  then show ?thesis
    using apportionment_spends_house [OF house_claims_valid [of 3 1], of "house 4" 4 Webster]
    by (auto simp: house_def house_claims_def)
qed

text \<open>C33: the highest-averages rules are house monotone: when the estate grows and the claims stay, no
  claimant's share shrinks.\<close>

theorem apportionment_house_monotone:
  assumes valid: "validate_all cs = Inr ()" and le: "f64_le (total est) (total est')" and i: "i < length cs"
    and alloc: "highest_averages_allocate cs est family = Inr alloc" "highest_averages_allocate cs est' family = Inr alloc'"
  shows "\<exists>share share'. bm_get alloc (clm_id (cs ! i)) = Some share \<and> bm_get alloc' (clm_id (cs ! i)) = Some share'
    \<and> f64_le share share'"
proof -
  have "alloc = collect_allocation (seat_entries family cs (floor_as_usize (total est)))"
    "alloc' = collect_allocation (seat_entries family cs (floor_as_usize (total est')))"
    using alloc highest_averages_Inr(1) [OF valid] by simp_all
  then show ?thesis
    using highest_averages_Inr(2) [OF valid i] f64_of_nat_mono [OF award_seats_mono [OF floor_as_usize_mono [OF le] i]] by auto
qed

theorem apportionment_house_monotone_witness:
  "\<exists>alloc alloc' share share'. highest_averages_allocate (house_claims 3 1) (house 2) Jefferson = Inr alloc
     \<and> highest_averages_allocate (house_claims 3 1) (house 4) Jefferson = Inr alloc'
     \<and> bm_get alloc ''b'' = Some share \<and> bm_get alloc' ''b'' = Some share' \<and> f64_le share share'"
proof -
  have valid: "validate_all (house_claims 3 1) = Inr ()" by (rule house_claims_valid) simp_all
  have le: "f64_le (total (house 2)) (total (house 4))" by (simp add: house_def f64_le_def)
  note runs = highest_averages_Inr(1) [OF valid, of "house 2" Jefferson] highest_averages_Inr(1) [OF valid, of "house 4" Jefferson]
  show ?thesis
    using apportionment_house_monotone [OF valid le _ runs, of 1] runs by (auto simp: house_claims_def)
qed

text \<open>C40: the tolerance of the comparison is absolute: when every claim is at most \<open>EPSILON\<close>, the
  first claim takes the whole house and all others get nothing, whatever their proportions.\<close>

theorem small_claims_lose:
  assumes valid: "validate_all cs = Inr ()" and "cs \<noteq> []"
    and small: "\<And>i. i < length cs \<Longrightarrow> small_strength (clm_strength (cs ! i))"
  shows "\<exists>alloc. highest_averages_allocate cs est family = Inr alloc
    \<and> bm_get alloc (clm_id (cs ! 0)) = Some (f64_of_nat (floor_as_usize (total est)))
    \<and> (\<forall>i < length cs. 0 < i \<longrightarrow> bm_get alloc (clm_id (cs ! i)) = Some (Zero False))"
  using highest_averages_Inr [OF valid, of _ family] small_claims_take_all [OF small \<open>cs \<noteq> []\<close>, of family] \<open>cs \<noteq> []\<close>
  by (simp add: f64_of_nat_0)

theorem small_claims_lose_witness:
  "\<exists>alloc. highest_averages_allocate (house_claims (1 / 2 ^ 40) (1 / 2 ^ 31)) (house 2) Jefferson = Inr alloc
     \<and> bm_get alloc ''a'' = Some (Num 2) \<and> bm_get alloc ''b'' = Some (Zero False)"
proof -
  let ?cs = "house_claims (1 / 2 ^ 40) (1 / 2 ^ 31)"
  have "validate_all ?cs = Inr ()" by (rule house_claims_valid) simp_all
  moreover have small: "small_strength (Num (1 / 2 ^ k))" if "30 \<le> k" "k \<le> 1000" for k
  proof -
    obtain e where e: "EPSILON = Num e" "1 / 2 ^ 30 \<le> e" using EPSILON_between by blast
    have "(1 :: rat) / 2 ^ k \<le> 1 / 2 ^ 30" using that(1) by (intro divide_left_mono power_increasing) simp_all
    then have "1 / 2 ^ k \<le> e" using e(2) by linarith
    then show ?thesis using dyadic_representable [of 1 k] that(2)
      unfolding small_strength_def sound_strength_def e(1) by (simp add: f64_le_def)
  qed
  moreover have "small_strength (clm_strength (?cs ! i))" if "i < length ?cs" for i
    using that small [of 40] small [of 31] by (cases i) (auto simp: house_claims_def)
  ultimately obtain alloc where alloc: "highest_averages_allocate ?cs (house 2) Jefferson = Inr alloc"
      "bm_get alloc (clm_id (?cs ! 0)) = Some (f64_of_nat (floor_as_usize (total (house 2))))"
      "\<forall>i < length ?cs. 0 < i \<longrightarrow> bm_get alloc (clm_id (?cs ! i)) = Some (Zero False)"
    using small_claims_lose [of ?cs "house 2" Jefferson] by (auto simp: house_claims_def)
  have "f64_of_nat (floor_as_usize (total (house 2))) = Num 2" by (simp add: house_def f64_of_nat_exact)
  moreover have "bm_get alloc (clm_id (?cs ! 1)) = Some (Zero False)" using alloc(3) [rule_format, of 1] by (simp add: house_claims_def)
  ultimately show ?thesis using alloc(1,2) by (intro exI [of _ alloc]) (simp add: house_claims_def)
qed

end
