(* ===== verification/Coalitions.thy ===== *)
theory Coalitions
  imports Legitimacy_Core
begin

unbundle bit_operations_syntax

text \<open>
  The enumeration of coalitions in \<open>src/src/axioms/diagnostics/consistency.rs\<close>: the iterators over
  the sets of claimant indices that the consistency check removes. Up to 63 claimants a set is
  a mask of 64 bits and the next mask with as many ones is computed by word arithmetic; above,
  it is a sorted vector advanced in place. Shifts, subtractions and divisions that would panic are
  the fault \<open>Panicked\<close>. The property says that a loop over the iterator visits every coalition
  once, in which order, and that nothing panics.
\<close>

section \<open>Masks\<close>

definition checked_add64 :: "u64 \<Rightarrow> u64 \<Rightarrow> u64 option" where
  "checked_add64 a b = (if uint a + uint b < 2 ^ 64 then Some (a + b) else None)"

definition shl64 :: "nat \<Rightarrow> 'e fault + u64" where
  "shl64 n = (if n < 64 then Inr (push_bit n 1) else Inl Panicked)"

definition next_same_popcount :: "u64 \<Rightarrow> 'e fault + u64 option" where
  "next_same_popcount bits =
     (let smallest = bits AND (- bits) in
      case checked_add64 bits smallest of
        None \<Rightarrow> Inr None
      | Some ripple \<Rightarrow>
          let ones = bits XOR ripple in
          if smallest = 0 then Inl Panicked
          else Inr (Some ((drop_bit 2 ones div smallest) OR ripple)))"

definition mask_to_indices :: "u64 \<Rightarrow> nat \<Rightarrow> nat list" where
  "mask_to_indices bits claim_count = filter (\<lambda>index. bits AND push_bit index 1 \<noteq> 0) [0..<claim_count]"

record bitset_coalitions =
  bc_claim_count :: nat
  bc_next_mask :: "u64 option"

definition bitset_new :: "nat \<Rightarrow> nat \<Rightarrow> 'e fault + bitset_coalitions" where
  "bitset_new claim_count coalition_size =
     (if coalition_size = 0 \<or> claim_count < coalition_size
      then Inr \<lparr>bc_claim_count = claim_count, bc_next_mask = None\<rparr>
      else rbind (shl64 coalition_size) (\<lambda>bit.
             Inr \<lparr>bc_claim_count = claim_count, bc_next_mask = Some (bit - 1)\<rparr>))"

definition bitset_next :: "bitset_coalitions \<Rightarrow> 'e fault + (nat list option \<times> bitset_coalitions)" where
  "bitset_next it =
     (case bc_next_mask it of
        None \<Rightarrow> Inr (None, it)
      | Some bits \<Rightarrow>
          rbind (shl64 (bc_claim_count it)) (\<lambda>limit.
          rbind (next_same_popcount bits) (\<lambda>next.
          let filtered = (case next of Some next_mask \<Rightarrow> if next_mask < limit then Some next_mask else None | None \<Rightarrow> None)
          in Inr (Some (mask_to_indices bits (bc_claim_count it)), it\<lparr>bc_next_mask := filtered\<rparr>))))"

section \<open>Vectors\<close>

record vec_coalitions =
  vc_claim_count :: nat
  vc_current :: "nat list option"

definition vec_new :: "nat \<Rightarrow> nat \<Rightarrow> vec_coalitions" where
  "vec_new claim_count coalition_size =
     \<lparr>vc_claim_count = claim_count,
      vc_current = (if coalition_size = 0 \<or> claim_count < coalition_size then None else Some [0..<coalition_size])\<rparr>"

definition advance_at :: "nat list \<Rightarrow> nat \<Rightarrow> nat list" where
  "advance_at xs position =
     foldl (\<lambda>ys suffix. ys[suffix := ys ! (suffix - 1) + 1]) (xs[position := xs ! position + 1]) [position + 1..<length xs]"

fun next_from_positions :: "nat list \<Rightarrow> nat \<Rightarrow> nat list \<Rightarrow> 'e fault + nat list option" where
  "next_from_positions current claim_count [] = Inr None"
| "next_from_positions current claim_count (position # positions) =
     (if claim_count < length current then Inl Panicked
      else if current ! position < claim_count - length current + position
           then Inr (Some (advance_at current position))
           else next_from_positions current claim_count positions)"

definition next_vec_combination :: "nat list \<Rightarrow> nat \<Rightarrow> 'e fault + nat list option" where
  "next_vec_combination current claim_count = next_from_positions current claim_count (rev [0..<length current])"

definition vec_next :: "vec_coalitions \<Rightarrow> 'e fault + (nat list option \<times> vec_coalitions)" where
  "vec_next it =
     (case vc_current it of
        None \<Rightarrow> Inr (None, it)
      | Some result \<Rightarrow> rbind (next_vec_combination result (vc_claim_count it)) (\<lambda>next.
          Inr (Some result, it\<lparr>vc_current := next\<rparr>)))"

section \<open>All sizes\<close>

datatype coalition_size_enumeration = Bitset bitset_coalitions | Vector vec_coalitions

definition size_enumeration_new :: "nat \<Rightarrow> nat \<Rightarrow> 'e fault + coalition_size_enumeration" where
  "size_enumeration_new claim_count coalition_size =
     (if claim_count \<le> 63 then rbind (bitset_new claim_count coalition_size) (\<lambda>it. Inr (Bitset it))
      else Inr (Vector (vec_new claim_count coalition_size)))"

fun size_enumeration_next ::
  "coalition_size_enumeration \<Rightarrow> 'e fault + (nat list option \<times> coalition_size_enumeration)" where
  "size_enumeration_next (Bitset it) = rbind (bitset_next it) (\<lambda>(indices, it'). Inr (indices, Bitset it'))"
| "size_enumeration_next (Vector it) = rbind (vec_next it) (\<lambda>(indices, it'). Inr (indices, Vector it'))"

datatype consistency_mode = Full | Bounded nat

record coalition_enumeration =
  ce_claim_count :: nat
  ce_next_size :: nat
  ce_max_removed :: nat
  ce_current :: "coalition_size_enumeration option"

definition max_removed_of :: "nat \<Rightarrow> consistency_mode \<Rightarrow> nat" where
  "max_removed_of claim_count mode =
     (case mode of Full \<Rightarrow> claim_count - 1 | Bounded max_removed \<Rightarrow> min max_removed (claim_count - 1))"

definition coalition_enumeration_new :: "nat \<Rightarrow> consistency_mode \<Rightarrow> coalition_enumeration" where
  "coalition_enumeration_new claim_count mode =
     \<lparr>ce_claim_count = claim_count, ce_next_size = 1, ce_max_removed = max_removed_of claim_count mode,
      ce_current = None\<rparr>"

definition advance_current ::
  "coalition_enumeration \<Rightarrow> 'e fault + (nat list option \<times> coalition_enumeration)" where
  "advance_current it =
     (case ce_current it of
        None \<Rightarrow> Inr (None, it)
      | Some current \<Rightarrow> rbind (size_enumeration_next current) (\<lambda>(indices, current').
          Inr (indices, it\<lparr>ce_current := Some current'\<rparr>)))"

lemma advance_current_keeps:
  "advance_current it = Inr (indices, it') \<Longrightarrow>
     ce_next_size it' = ce_next_size it \<and> ce_max_removed it' = ce_max_removed it \<and> ce_claim_count it' = ce_claim_count it"
  by (auto simp: advance_current_def result_simps split: option.splits)

function enumeration_next ::
  "coalition_enumeration \<Rightarrow> 'e fault + (nat list option \<times> coalition_enumeration)" where
  "enumeration_next it =
     rbind (advance_current it) (\<lambda>(advanced, it').
       case advanced of
         Some indices \<Rightarrow> Inr (Some indices, it')
       | None \<Rightarrow>
           if ce_max_removed it' < ce_next_size it' then Inr (None, it')
           else rbind (size_enumeration_new (ce_claim_count it') (ce_next_size it')) (\<lambda>current.
                  enumeration_next (it'\<lparr>ce_current := Some current, ce_next_size := ce_next_size it' + 1\<rparr>)))"
  by auto
termination
  by (relation "measure (\<lambda>it. Suc (ce_max_removed it) - ce_next_size it)")
    (auto simp: advance_current_keeps)

declare enumeration_next.simps [simp del]

text \<open>A \<open>for\<close> loop over the iterator whose body may leave, with a budget of iterations.\<close>

fun coalition_loop ::
  "nat \<Rightarrow> ('s \<Rightarrow> nat list \<Rightarrow> 'e fault + ('r + 's)) \<Rightarrow> 's \<Rightarrow> coalition_enumeration \<Rightarrow> 'e fault + ('r + 's)" where
  "coalition_loop 0 body s it = Inl OutOfFuel"
| "coalition_loop (Suc fuel) body s it =
     rbind (enumeration_next it) (\<lambda>(indices, it').
       case indices of
         None \<Rightarrow> Inr (Inr s)
       | Some removed \<Rightarrow> rbind (body s removed) (\<lambda>outcome.
           case outcome of Inl r \<Rightarrow> Inr (Inl r) | Inr s' \<Rightarrow> coalition_loop fuel body s' it'))"

definition for_coalitions ::
  "nat \<Rightarrow> consistency_mode \<Rightarrow> ('s \<Rightarrow> nat list \<Rightarrow> 'e fault + ('r + 's)) \<Rightarrow> 's \<Rightarrow> 'e fault + ('r + 's)" where
  "for_coalitions claim_count mode body s =
     coalition_loop (Suc (2 ^ claim_count)) body s (coalition_enumeration_new claim_count mode)"

section \<open>The next mask\<close>

lemma and_uminus: "(2 ^ j * (2 * b + 1)) AND (- (2 ^ j * (2 * b + 1))) = (2 ^ j :: int)"
proof (induction j)
  case 0
  have "(2 * b + 1) AND (- (2 * b + 1)) = 1 + 2 * (b AND NOT b)"
  proof -
    have "(- (2 * b + 1)) div 2 = NOT b" unfolding not_int_def by presburger
    then show ?thesis by (subst and_rec) simp
  qed
  then show ?case by simp
next
  case (Suc j)
  have "(2 ^ Suc j * (2 * b + 1)) AND (- (2 ^ Suc j * (2 * b + 1)))
      = 2 * ((2 ^ j * (2 * b + 1)) AND (- (2 ^ j * (2 * b + 1))))"
    by (subst and_rec) (simp add: mult.assoc zdiv_zminus1_eq_if)
  with Suc show ?case by simp
qed

lemma xor_double: "(2 * u + 1) XOR (2 * v) = (1 + 2 * (u XOR v) :: int)"
  by (subst xor_rec) simp

lemma xor_ripple: "(2 ^ (k + 1) * a + (2 ^ k - 1)) XOR (2 ^ (k + 1) * a + 2 ^ k) = (2 ^ (k + 1) - 1 :: int)"
proof (induction k)
  case 0
  show ?case by (subst xor_rec) simp
next
  case (Suc k)
  have "(2 ^ (Suc k + 1) * a + (2 ^ Suc k - 1)) XOR (2 ^ (Suc k + 1) * a + 2 ^ Suc k)
      = (2 * (2 ^ (k + 1) * a + (2 ^ k - 1)) + 1) XOR (2 * (2 ^ (k + 1) * a + 2 ^ k))"
    by (simp add: algebra_simps)
  also have "\<dots> = 1 + 2 * ((2 ^ (k + 1) * a + (2 ^ k - 1)) XOR (2 ^ (k + 1) * a + 2 ^ k))"
    by (rule xor_double)
  finally show ?case using Suc by simp
qed

lemma xor_shift: "(2 ^ j * x) XOR (2 ^ j * y) = (2 ^ j * (x XOR y) :: int)"
  by (metis push_bit_eq_mult push_bit_xor mult.commute)

lemma or_low: "0 \<le> x \<Longrightarrow> x < 2 ^ p \<Longrightarrow> x OR (2 ^ p * c) = (x + 2 ^ p * c :: int)"
proof (induction p arbitrary: x)
  case (Suc p)
  have "x div 2 OR 2 ^ p * c = x div 2 + 2 ^ p * c" using Suc.prems by (intro Suc.IH) auto
  moreover have "x OR 2 ^ Suc p * c = x mod 2 + 2 * (x div 2 OR 2 ^ p * c)"
    by (subst or_rec) (simp add: odd_iff_mod_2_eq_one mult.assoc of_bool_def)
  ultimately show ?case by (simp add: algebra_simps)
next
  case 0
  then have "x = 0" by simp
  then show ?case by simp
qed

definition block_mask :: "nat \<Rightarrow> nat \<Rightarrow> nat \<Rightarrow> nat" where
  "block_mask a k j = 2 ^ j * (2 ^ (k + 1) * a + (2 ^ k - 1))"

definition block_next :: "nat \<Rightarrow> nat \<Rightarrow> nat \<Rightarrow> nat" where
  "block_next a k j = 2 ^ (j + k) * (2 * a + 1) + (2 ^ (k - 1) - 1)"

lemma odd_part: "0 < (n :: nat) \<Longrightarrow> \<exists>j b. n = 2 ^ j * (2 * b + 1)"
proof (induction n rule: less_induct)
  case (less n)
  show ?case
  proof (cases "even n")
    case True
    then obtain m where m: "n = 2 * m" by blast
    with less obtain j b where "m = 2 ^ j * (2 * b + 1)" by fastforce
    with m have "n = 2 ^ Suc j * (2 * b + 1)" by simp
    then show ?thesis by blast
  next
    case False
    then obtain b where "n = 2 * b + 1" by (auto elim: oddE)
    then show ?thesis by (intro exI [of _ 0] exI [of _ b]) simp
  qed
qed

lemma block_exists:
  assumes "0 < n"
  obtains a k j where "n = block_mask a k j" and "1 \<le> k"
proof -
  obtain j b where n: "n = 2 ^ j * (2 * b + 1)" using odd_part [OF assms] by blast
  obtain k a where k: "2 * b + 2 = 2 ^ k * (2 * a + 1)" using odd_part [of "2 * b + 2"] by auto
  have "k \<noteq> 0"
  proof
    assume "k = 0"
    with k have "2 * b + 2 = 2 * a + 1" by simp
    then show False by presburger
  qed
  moreover have "2 * b + 1 = 2 ^ (k + 1) * a + (2 ^ k - 1)"
  proof -
    have "2 * b + 2 = 2 ^ (k + 1) * a + 2 ^ k" using k by (simp add: algebra_simps)
    moreover have "(1::nat) \<le> 2 ^ k" by simp
    ultimately show ?thesis by linarith
  qed
  ultimately show ?thesis using that [of a k j] n by (simp add: block_mask_def)
qed

lemma low_ones: "1 \<le> k \<Longrightarrow> (2 :: int) ^ (k + 1) - 1 = 4 * (2 ^ (k - 1) - 1) + 3"
  by (cases k) simp_all

lemma block_bound:
  assumes "1 \<le> k" and "block_mask a k j < 2 ^ 63"
  shows "j + k \<le> 63" and "block_next a k j < 2 ^ 64"
proof -
  obtain k' where k: "k = Suc k'" using assms(1) by (cases k) auto
  have "(2 :: nat) ^ (j + k') \<le> 2 ^ j * (2 ^ k - 1)" by (simp add: k power_add)
  also have "\<dots> \<le> block_mask a k j" by (simp add: block_mask_def)
  finally have "(2 :: nat) ^ (j + k') < 2 ^ 63" using assms(2) by linarith
  then have "j + k' < 63" by (rule power_less_imp_less_exp [rotated]) simp
  then show jk: "j + k \<le> 63" by (simp add: k)
  have k1: "(2 :: nat) ^ (k - 1) - 1 < 2 ^ (j + k)"
    by (rule less_le_trans [of _ "2 ^ (k - 1)"]) (simp_all add: power_increasing)
  have "block_next a k j < 2 ^ (j + k) * (2 * a + 2)"
    using k1 by (simp add: block_next_def algebra_simps)
  also have "\<dots> \<le> 2 ^ 64"
  proof (cases "a = 0")
    case True
    have "(2 :: nat) ^ (j + k) \<le> 2 ^ 63" using jk by (rule power_increasing) simp
    then show ?thesis by (simp add: True)
  next
    case False
    have "2 ^ (j + k) * (2 * a) \<le> block_mask a k j"
      unfolding block_mask_def add_mult_distrib2 by (simp add: power_add)
    then have le: "2 ^ (j + k) * (2 * a) < 2 ^ 63" using assms(2) by linarith
    moreover have "2 ^ (j + k) * 2 \<le> 2 ^ (j + k) * (2 * a)" using False by simp
    ultimately have "2 ^ (j + k) * (2 * a + 2) \<le> 2 ^ (j + k) * (2 * a) + 2 ^ (j + k) * (2 * a)"
      by (simp only: distrib_left add_left_mono)
    also have "\<dots> \<le> 2 ^ 63 + 2 ^ 63" using le by (intro add_mono less_imp_le)
    finally show ?thesis by simp
  qed
  finally show "block_next a k j < 2 ^ 64" .
qed

lemma uint_of_int64: "0 \<le> x \<Longrightarrow> x < 2 ^ 64 \<Longrightarrow> uint (word_of_int x :: u64) = x"
  by (simp add: word_of_int_inverse)

lemma next_same_popcount_block:
  assumes k: "1 \<le> k" and bound: "block_mask a k j < 2 ^ 63"
  shows "next_same_popcount (of_nat (block_mask a k j)) = Inr (Some (of_nat (block_next a k j)))"
proof -
  define M :: int where "M = 2 ^ j * (2 ^ (k + 1) * int a + (2 ^ k - 1))"
  define R :: int where "R = 2 ^ j * (2 ^ (k + 1) * int a + 2 ^ k)"
  define N :: int where "N = 2 ^ j * (2 ^ (k + 1) - 1)"
  have ones_of: "int (2 ^ n - 1) = 2 ^ n - 1" for n by (simp add: of_nat_diff)
  have M: "int (block_mask a k j) = M" unfolding block_mask_def M_def of_nat_mult of_nat_add ones_of by simp
  then have w: "of_nat (block_mask a k j) = (word_of_int M :: u64)" by (metis of_int_of_nat_eq)
  have "int (block_mask a k j) < 2 ^ 63" using bound by (simp only: of_nat_less_numeral_power_cancel_iff)
  then have M63: "M < 2 ^ 63" "0 \<le> M" using M by linarith+
  obtain k' where k': "k = Suc k'" using k by (cases k) auto
  have jk: "j + k \<le> 63" using block_bound(1) [OF k bound] .
  have "M = 2 ^ j * (2 * (2 ^ k * int a + (2 ^ k' - 1)) + 1)" by (simp add: M_def k' algebra_simps)
  then have "M AND (- M) = 2 ^ j" using and_uminus by metis
  then have small: "word_of_int M AND (- word_of_int M) = (word_of_int (2 ^ j) :: u64)"
    by (metis of_int_and_eq of_int_minus)
  have j64: "(2 :: int) ^ j \<le> 2 ^ 63" using jk by (intro power_increasing) auto
  then have us: "uint (word_of_int (2 ^ j) :: u64) = 2 ^ j" by (intro uint_of_int64) auto
  have uM: "uint (word_of_int M :: u64) = M" using M63 by (intro uint_of_int64) auto
  have "uint (word_of_int M :: u64) + uint (word_of_int (2 ^ j) :: u64) < 2 ^ 64"
    unfolding uM us using M63 j64 by simp
  moreover have MR: "M + 2 ^ j = R" by (simp add: M_def R_def algebra_simps)
  ultimately have add: "checked_add64 (word_of_int M) (word_of_int (2 ^ j)) = Some (word_of_int R)"
    unfolding checked_add64_def by (metis of_int_add)
  have "M XOR R = N" unfolding M_def R_def N_def xor_shift xor_ripple ..
  then have ones: "word_of_int M XOR word_of_int R = (word_of_int N :: u64)" by (metis of_int_xor_eq)
  have N64: "0 \<le> N" "N < 2 ^ 64"
  proof -
    have "N < 2 ^ (j + k + 1)" by (simp add: N_def power_add algebra_simps)
    also have "\<dots> \<le> 2 ^ 64" using jk by (intro power_increasing) auto
    finally show "N < 2 ^ 64" .
  qed (simp add: N_def)
  have N: "N = 4 * (2 ^ j * (2 ^ k' - 1)) + 3 * 2 ^ j" by (simp add: N_def low_ones [OF k] k' algebra_simps)
  have div: "N div 4 div 2 ^ j = 2 ^ k' - 1"
  proof -
    have "N div 4 div 2 ^ j = (N div 2 ^ j) div 4" by (metis div_mult2_eq' zdiv_zmult2_eq mult.commute zero_le_numeral zero_le_power)
    also have "N div 2 ^ j = 2 ^ (k + 1) - 1" by (simp add: N_def)
    also have "\<dots> div 4 = 2 ^ k' - 1" using low_ones [OF k] by (simp add: k')
    finally show ?thesis .
  qed
  have "uint (drop_bit 2 (word_of_int N :: u64) div word_of_int (2 ^ j)) = N div 4 div 2 ^ j"
    unfolding uint_div us unsigned_drop_bit_eq uint_of_int64 [OF N64] by (simp add: drop_bit_eq_div take_bit_int_eq_self [OF N64])
  then have dw: "drop_bit 2 (word_of_int N :: u64) div word_of_int (2 ^ j) = word_of_int (2 ^ k' - 1)"
    unfolding div by (metis word_of_int_uint)
  have "(2 ^ k' - 1) OR R = 2 ^ k' - 1 + R"
  proof -
    have "(2 :: int) ^ k' \<le> 2 ^ (j + k)" by (intro power_increasing) (simp_all add: k')
    then have "(2 ^ k' - 1) OR (2 ^ (j + k) * (2 * int a + 1)) = 2 ^ k' - 1 + 2 ^ (j + k) * (2 * int a + 1)"
      by (intro or_low) (simp, linarith)
    moreover have "R = 2 ^ (j + k) * (2 * int a + 1)" by (simp add: R_def power_add algebra_simps)
    ultimately show ?thesis by simp
  qed
  moreover have "2 ^ k' - 1 + R = int (block_next a k j)"
    unfolding block_next_def of_nat_mult of_nat_add ones_of by (simp add: R_def k' power_add algebra_simps)
  ultimately have "word_of_int (2 ^ k' - 1) OR word_of_int R = (of_nat (block_next a k j) :: u64)"
    by (metis of_int_or_eq of_int_of_nat_eq)
  moreover have "(word_of_int (2 ^ j) :: u64) \<noteq> 0" using us by (metis uint_0_eq power_not_zero zero_neq_numeral)
  ultimately show ?thesis
    unfolding next_same_popcount_def w small Let_def add option.case ones dw by simp
qed

section \<open>Numbers of ones\<close>

fun ones_in :: "nat \<Rightarrow> nat" where
  "ones_in n = (if n = 0 then 0 else n mod 2 + ones_in (n div 2))"

declare ones_in.simps [simp del]

lemma ones_in_0 [simp]: "ones_in 0 = 0"
  by (simp add: ones_in.simps)

lemma ones_in_double: "ones_in (2 * n) = ones_in n" "ones_in (Suc (2 * n)) = Suc (ones_in n)"
  by (cases "n = 0") (simp_all add: ones_in.simps [of "2 * n"] ones_in.simps [of "Suc (2 * n)"])

lemma ones_in_split: "l < 2 ^ p \<Longrightarrow> ones_in (2 ^ p * h + l) = ones_in h + ones_in l"
proof (induction p arbitrary: l)
  case (Suc p)
  have IH: "ones_in (2 ^ p * h + l div 2) = ones_in h + ones_in (l div 2)"
    using Suc.prems by (intro Suc.IH) auto
  show ?case
  proof (cases "even l")
    case True
    then obtain m where "l = 2 * m" by blast
    then have "2 ^ Suc p * h + l = 2 * (2 ^ p * h + m)" "l = 2 * m" "l div 2 = m" by simp_all
    with IH show ?thesis by (simp only: ones_in_double)
  next
    case False
    then obtain m where "l = 2 * m + 1" by (auto elim: oddE)
    then have "2 ^ Suc p * h + l = Suc (2 * (2 ^ p * h + m))" "l = Suc (2 * m)" "l div 2 = m" by simp_all
    with IH show ?thesis by (simp only: ones_in_double)
  qed
qed simp

lemma ones_in_low: "2 ^ ones_in x \<le> x + 1"
proof (induction x rule: ones_in.induct)
  case (1 n)
  show ?case
  proof (cases "n = 0")
    case False
    show ?thesis
    proof (cases "even n")
      case True
      then obtain m where "n = 2 * m" by blast
      with 1 False show ?thesis by (simp add: ones_in_double)
    next
      case odd: False
      then obtain m where "n = Suc (2 * m)" by (auto elim: oddE)
      with 1 False show ?thesis by (simp add: ones_in_double)
    qed
  qed simp
qed

lemma ones_in_high: "x < 2 ^ p \<Longrightarrow> ones_in x \<le> p \<and> x + 2 ^ (p - ones_in x) \<le> 2 ^ p"
proof (induction p arbitrary: x)
  case (Suc p)
  have IH: "ones_in (x div 2) \<le> p" "x div 2 + 2 ^ (p - ones_in (x div 2)) \<le> 2 ^ p" using Suc.IH [of "x div 2"] Suc.prems by auto
  show ?case
  proof (cases "even x")
    case True
    then obtain m where "x = 2 * m" by blast
    with IH show ?thesis by (simp add: ones_in_double Suc_diff_le)
  next
    case False
    then obtain m where m: "x = Suc (2 * m)" by (auto elim: oddE)
    then have "ones_in m \<le> p" "m + 2 ^ (p - ones_in m) \<le> 2 ^ p" using IH by simp_all
    moreover have "(1 :: nat) \<le> 2 ^ (p - ones_in m)" by (rule one_le_power) simp
    ultimately have "ones_in m \<le> p" "Suc (2 * m) + 2 ^ (p - ones_in m) \<le> 2 * 2 ^ p" by linarith+
    then show ?thesis unfolding m by (simp add: ones_in_double)
  qed
qed simp

lemma ones_in_ones: "ones_in (2 ^ k - 1) = k"
proof (induction k)
  case (Suc k)
  have "(2 :: nat) ^ Suc k - 1 = Suc (2 * (2 ^ k - 1))" unfolding power_Suc using one_le_power [of "2 :: nat" k] by arith
  with Suc show ?case by (simp add: ones_in_double)
qed simp

lemma block_ones: "ones_in (block_mask a k j) = ones_in a + k"
proof -
  have "ones_in (2 ^ j * x + 0) = ones_in x" for x using ones_in_split [of 0 j x] by simp
  moreover have "ones_in (2 ^ (k + 1) * a + (2 ^ k - 1)) = ones_in a + ones_in (2 ^ k - 1)"
    by (rule ones_in_split) (simp add: less_imp_diff_less)
  ultimately show ?thesis unfolding block_mask_def by (metis add_0_right ones_in_ones)
qed

lemma block_parts:
  assumes "1 \<le> k"
  shows "block_mask a k j = 2 ^ (j + k) * (2 * a) + 2 ^ j * (2 ^ k - 1)"
    and "2 ^ j * (2 ^ k - 1) + 2 ^ j = (2 :: nat) ^ (j + k)" and "(2 :: nat) ^ (k - 1) - 1 < 2 ^ (j + k)"
proof -
  show "block_mask a k j = 2 ^ (j + k) * (2 * a) + 2 ^ j * (2 ^ k - 1)"
    unfolding block_mask_def distrib_left by (simp add: power_add)
  show "2 ^ j * (2 ^ k - 1) + 2 ^ j = (2 :: nat) ^ (j + k)"
    using one_le_power [of "2 :: nat" k] by (simp add: power_add diff_mult_distrib2)
  show "(2 :: nat) ^ (k - 1) - 1 < 2 ^ (j + k)"
    by (rule less_le_trans [of _ "2 ^ (k - 1)"]) (simp_all add: power_increasing)
qed

lemma block_next_ones:
  assumes "1 \<le> k"
  shows "ones_in (block_next a k j) = ones_in (block_mask a k j)"
proof -
  have "ones_in (block_next a k j) = ones_in (Suc (2 * a)) + ones_in (2 ^ (k - 1) - 1)"
    unfolding block_next_def using ones_in_split [OF block_parts(3) [OF assms], of j "2 * a + 1"] by simp
  also have "\<dots> = Suc (ones_in a) + (k - 1)" by (simp only: ones_in_double ones_in_ones)
  finally show ?thesis using assms by (simp add: block_ones)
qed

lemma block_next_greater: "1 \<le> k \<Longrightarrow> block_mask a k j < block_next a k j"
proof -
  assume k: "1 \<le> k"
  have "(0 :: nat) < 2 ^ j" by simp
  then have "block_mask a k j < 2 ^ (j + k) * (2 * a) + 2 ^ (j + k)" using block_parts(1,2) [OF k, where j = j] by (simp only: nat_add_left_cancel_less)
  also have "\<dots> \<le> block_next a k j" unfolding block_next_def distrib_left mult_1_right by (rule le_add1)
  finally show ?thesis .
qed

lemma block_next_least:
  assumes k: "1 \<le> k" and x: "block_mask a k j < x" "ones_in x = ones_in (block_mask a k j)"
  shows "block_next a k j \<le> x"
proof -
  define P :: nat where "P = 2 ^ (j + k)"
  define h l where "h = x div P" and "l = x mod P"
  have P: "0 < P" by (simp add: P_def)
  have xhl: "x = P * h + l" "l < P" using P by (simp_all add: h_def l_def)
  have ones: "ones_in h + ones_in l = ones_in a + k"
    using x(2) ones_in_split [of l "j + k" h] xhl by (simp add: P_def block_ones)
  note parts = block_parts [OF k, where j = j, folded P_def]
  consider "h < 2 * a" | "h = 2 * a" | "h = Suc (2 * a)" | "Suc (Suc (2 * a)) \<le> h" by linarith
  then show ?thesis
  proof cases
    case 1
    then have "P * Suc h \<le> P * (2 * a)" by (intro mult_le_mono) auto
    with xhl parts(1) [of a] x(1) show ?thesis by simp
  next
    case 2
    then have "ones_in l = k" using ones by (simp add: ones_in_double)
    then have "l + 2 ^ j \<le> P" using ones_in_high [of l "j + k"] xhl(2) by (simp add: P_def)
    moreover have "2 ^ j * (2 ^ k - 1) < l" using x(1) xhl(1) parts(1) [of a] 2 by simp
    ultimately show ?thesis using parts(2) by linarith
  next
    case 3
    then have "ones_in l = k - 1" using ones by (simp add: ones_in_double)
    then have "2 ^ (k - 1) - 1 \<le> l" using ones_in_low [of l] by (simp add: le_diff_conv)
    then show ?thesis using 3 xhl(1) by (simp add: block_next_def P_def)
  next
    case 4
    then have "P * (2 * a + 1) + P \<le> P * h" using mult_le_mono [of P P "Suc (Suc (2 * a))" h] by (simp add: algebra_simps)
    then have "block_next a k j \<le> P * h" using parts(3) unfolding block_next_def P_def [symmetric] by linarith
    then show ?thesis using xhl(1) by simp
  qed
qed

lemma next_mask:
  assumes "0 < m" and "m < 2 ^ 63"
  obtains m' where "next_same_popcount (of_nat m) = Inr (Some (of_nat m'))" and "m' < 2 ^ 64" and "m < m'"
    and "ones_in m' = ones_in m" and "\<And>x. m < x \<Longrightarrow> ones_in x = ones_in m \<Longrightarrow> m' \<le> x"
proof -
  obtain a k j where m: "m = block_mask a k j" and k: "1 \<le> k" using block_exists [OF assms(1)] by blast
  show ?thesis
  proof (rule that)
    show "next_same_popcount (of_nat m) = Inr (Some (of_nat (block_next a k j)))"
      using next_same_popcount_block [OF k] assms(2) by (simp add: m)
    show "block_next a k j < 2 ^ 64" using block_bound(2) [OF k] assms(2) by (simp add: m)
    show "m < block_next a k j" unfolding m by (rule block_next_greater [OF k])
    show "ones_in (block_next a k j) = ones_in m" unfolding m by (rule block_next_ones [OF k])
    show "block_next a k j \<le> x" if "m < x" "ones_in x = ones_in m" for x
      using block_next_least [OF k] that by (simp add: m)
  qed
qed

section \<open>Masks as lists of indices\<close>

definition indices_of :: "nat \<Rightarrow> nat \<Rightarrow> nat list" where
  "indices_of n x = filter (bit x) [0..<n]"

definition mask_value :: "nat list \<Rightarrow> nat" where
  "mask_value xs = (\<Sum>i\<leftarrow>xs. 2 ^ i)"

lemma mask_to_indices_of_nat: "n \<le> 63 \<Longrightarrow> mask_to_indices (of_nat m) n = indices_of n m"
proof -
  assume n: "n \<le> 63"
  have "(of_nat m AND push_bit i (1 :: u64) \<noteq> 0) = bit m i" if "i < n" for i
    using that n by (simp add: push_bit_eq_mult and_exp_eq_0_iff_not_bit) (simp add: bit_simps)
  then show ?thesis unfolding mask_to_indices_def indices_of_def by (intro filter_cong) auto
qed

lemma mask_value_indices: "mask_value (indices_of n x) = take_bit n x"
  by (induction n) (simp_all add: mask_value_def indices_of_def take_bit_Suc_from_most of_bool_def)

lemma mask_value_inverse: "x < 2 ^ n \<Longrightarrow> mask_value (indices_of n x) = x"
  by (simp add: mask_value_indices take_bit_nat_eq_self)

lemma length_indices: "length (indices_of n x) = ones_in (take_bit n x)"
proof (induction n)
  case (Suc n)
  have "ones_in (take_bit (Suc n) x) = ones_in (2 ^ n * of_bool (bit x n) + take_bit n x)"
    by (simp add: take_bit_Suc_from_most mult.commute add.commute)
  also have "\<dots> = ones_in (of_bool (bit x n)) + ones_in (take_bit n x)"
    by (rule ones_in_split) simp
  also have "\<dots> = of_bool (bit x n) + length (indices_of n x)"
    using ones_in_double(2) [of 0] by (cases "bit x n") (simp_all add: Suc)
  finally show ?case by (simp add: indices_of_def)
qed (simp add: indices_of_def)

lemma indices_sorted: "sorted_wrt (<) (indices_of n x)"
  unfolding indices_of_def by (rule sorted_wrt_filter) simp

lemma indices_surj:
  assumes "sorted_wrt (<) xs" and "set xs \<subseteq> {..<n}"
  obtains x where "x < 2 ^ n" and "indices_of n x = xs"
proof -
  define x :: nat where "x = horner_sum of_bool 2 (map (\<lambda>i. i \<in> set xs) [0..<n])"
  have "x < 2 ^ n" unfolding x_def using horner_sum_of_bool_2_less [of "map (\<lambda>i. i \<in> set xs) [0..<n]"]
    by (simp add: nat_less_iff) 
  moreover have "set (indices_of n x) = set xs"
    using assms(2) by (auto simp: indices_of_def x_def bit_horner_sum_bit_iff)
  then have "indices_of n x = xs"
    using assms(1) indices_sorted [of n x] by (metis strict_sorted_equal)
  ultimately show ?thesis using that by blast
qed

section \<open>Iteration in increasing order\<close>

definition ascending :: "'a::linorder set \<Rightarrow> 'a list" where
  "ascending S = sorted_list_of_set S"

lemma ascending_step:
  assumes "finite S" and "m \<in> S" and "\<And>x. x \<in> S \<Longrightarrow> m < x \<longleftrightarrow> x \<in> T" and "T \<subseteq> S"
  shows "ascending {x \<in> S. m \<le> x} = m # ascending T"
proof -
  have "ascending {x \<in> S. m \<le> x} = Min {x \<in> S. m \<le> x} # ascending ({x \<in> S. m \<le> x} - {Min {x \<in> S. m \<le> x}})"
    unfolding ascending_def by (rule sorted_list_of_set_nonempty) (use assms in auto)
  moreover have "Min {x \<in> S. m \<le> x} = m" using assms by (intro Min_eqI) auto
  moreover have "{x \<in> S. m \<le> x} - {m} = T" using assms by (auto simp: le_less)
  ultimately show ?thesis by simp
qed

inductive size_yields :: "coalition_size_enumeration \<Rightarrow> nat list list \<Rightarrow> bool" where
  size_done: "size_enumeration_next it = (Inr (None, it') :: legitimacy_error fault + _) \<Longrightarrow> size_yields it []"
| size_more: "size_enumeration_next it = (Inr (Some xs, it') :: legitimacy_error fault + _) \<Longrightarrow> size_yields it' L
    \<Longrightarrow> size_yields it (xs # L)"

text \<open>An iterator that moves to the least greater element of a finite set yields the set in order.\<close>

lemma successor_yields:
  fixes S :: "'a::linorder set"
  assumes fin: "finite S" and m: "m \<in> S"
    and step: "\<And>m. m \<in> S \<Longrightarrow> \<exists>e. size_enumeration_next (st m) = (Inr (Some (h m), e) :: legitimacy_error fault + _)
      \<and> ((\<exists>m' \<in> S. m < m' \<and> (\<forall>x \<in> S. m < x \<longrightarrow> m' \<le> x) \<and> e = st m')
         \<or> (\<forall>x \<in> S. x \<le> m) \<and> size_yields e [])"
  shows "size_yields (st m) (map h (ascending {x \<in> S. m \<le> x}))"
  using m
proof (induction "card {x \<in> S. m < x}" arbitrary: m rule: less_induct)
  case less
  from step [OF less.prems] obtain e where
    e: "size_enumeration_next (st m) = (Inr (Some (h m), e) :: legitimacy_error fault + _)"
    and alt: "(\<exists>m' \<in> S. m < m' \<and> (\<forall>x \<in> S. m < x \<longrightarrow> m' \<le> x) \<and> e = st m') \<or> (\<forall>x \<in> S. x \<le> m) \<and> size_yields e []"
    by blast
  from alt show ?case
  proof
    assume "\<exists>m' \<in> S. m < m' \<and> (\<forall>x \<in> S. m < x \<longrightarrow> m' \<le> x) \<and> e = st m'"
    then obtain m' where m': "m' \<in> S" "m < m'" "\<And>x. x \<in> S \<Longrightarrow> m < x \<Longrightarrow> m' \<le> x" "e = st m'" by blast
    have "card {x \<in> S. m' < x} < card {x \<in> S. m < x}"
      by (rule psubset_card_mono) (use fin m' in auto)
    from less.hyps [OF this m'(1)] have "size_yields e (map h (ascending {x \<in> S. m' \<le> x}))" by (simp add: m'(4))
    moreover have "ascending {x \<in> S. m \<le> x} = m # ascending {x \<in> S. m' \<le> x}"
      by (rule ascending_step [OF fin less.prems]) (use m' in auto)
    ultimately show ?thesis using size_more [OF e] by simp
  next
    assume last: "(\<forall>x \<in> S. x \<le> m) \<and> size_yields e []"
    have "ascending {x \<in> S. m \<le> x} = m # ascending {}"
      by (rule ascending_step [OF fin less.prems]) (use last in auto)
    with last show ?thesis using size_more [OF e] by (simp add: ascending_def)
  qed
qed

section \<open>Bitset iterator\<close>

definition masks_of :: "nat \<Rightarrow> nat \<Rightarrow> nat set" where
  "masks_of n k = {x. x < 2 ^ n \<and> ones_in x = k}"

lemma finite_masks [simp]: "finite (masks_of n k)"
  unfolding masks_of_def by simp

lemma bitset_exhausted: "size_yields (Bitset \<lparr>bc_claim_count = n, bc_next_mask = None\<rparr>) []"
  by (rule size_done) (simp add: bitset_next_def)

lemma word_less_pow: "n \<le> 63 \<Longrightarrow> m < 2 ^ 64 \<Longrightarrow> (of_nat m :: u64) < 2 ^ n \<longleftrightarrow> m < 2 ^ n"
proof -
  assume n: "n \<le> 63" and m: "m < 2 ^ 64"
  have "(2 :: nat) ^ n \<le> 2 ^ 63" using n by (intro power_increasing) auto
  then have n64: "(2 :: nat) ^ n < 2 ^ 64" by simp
  have w: "unat (of_nat x :: u64) = x" if "x < 2 ^ 64" for x using that by (simp add: unat_of_nat take_bit_nat_eq_self)
  have "unat (2 ^ n :: u64) = 2 ^ n" using w [OF n64] by simp
  then show ?thesis unfolding word_less_nat_alt using w [OF m] by simp
qed

lemma bitset_step:
  assumes n: "n \<le> 63" and k: "1 \<le> k" and m: "m \<in> masks_of n k"
  shows "\<exists>e. size_enumeration_next (Bitset \<lparr>bc_claim_count = n, bc_next_mask = Some (of_nat m)\<rparr>)
      = (Inr (Some (indices_of n m), e) :: legitimacy_error fault + _)
    \<and> ((\<exists>m' \<in> masks_of n k. m < m' \<and> (\<forall>x \<in> masks_of n k. m < x \<longrightarrow> m' \<le> x)
          \<and> e = Bitset \<lparr>bc_claim_count = n, bc_next_mask = Some (of_nat m')\<rparr>)
       \<or> (\<forall>x \<in> masks_of n k. x \<le> m) \<and> size_yields e [])"
proof -
  have "(2 :: nat) ^ n \<le> 2 ^ 63" using n by (intro power_increasing) auto
  then have m63: "m < 2 ^ 63" and mk: "m < 2 ^ n" "ones_in m = k" using m by (auto simp: masks_of_def)
  have m0: "0 < m" using mk(2) k by (cases m) auto
  obtain m' where m': "next_same_popcount (of_nat m) = (Inr (Some (of_nat m')) :: legitimacy_error fault + _)" "m' < 2 ^ 64" "m < m'"
      "ones_in m' = ones_in m" "\<And>x. m < x \<Longrightarrow> ones_in x = ones_in m \<Longrightarrow> m' \<le> x"
    using next_mask [OF m0 m63] by blast
  show ?thesis
  proof (cases "m' < 2 ^ n")
    case True
    have "size_enumeration_next (Bitset \<lparr>bc_claim_count = n, bc_next_mask = Some (of_nat m)\<rparr>)
        = (Inr (Some (indices_of n m), Bitset \<lparr>bc_claim_count = n, bc_next_mask = Some (of_nat m')\<rparr>) :: legitimacy_error fault + _)"
      using n True m' by (simp add: bitset_next_def shl64_def m'(1) mask_to_indices_of_nat word_less_pow)
    moreover have "m' \<in> masks_of n k" using True m'(4) mk(2) by (simp add: masks_of_def)
    moreover have "m' \<le> x" if "x \<in> masks_of n k" "m < x" for x using that m'(5) mk(2) by (simp add: masks_of_def)
    ultimately show ?thesis using m'(3) by blast
  next
    case False
    have "size_enumeration_next (Bitset \<lparr>bc_claim_count = n, bc_next_mask = Some (of_nat m)\<rparr>)
        = (Inr (Some (indices_of n m), Bitset \<lparr>bc_claim_count = n, bc_next_mask = None\<rparr>) :: legitimacy_error fault + _)"
      using n False m' by (simp add: bitset_next_def shl64_def m'(1) mask_to_indices_of_nat word_less_pow)
    moreover have "x \<le> m" if "x \<in> masks_of n k" for x
      using that m'(5) [of x] mk(2) False by (force simp: masks_of_def)
    ultimately show ?thesis using bitset_exhausted by blast
  qed
qed

lemma first_mask: "k \<le> n \<Longrightarrow> 2 ^ k - 1 \<in> masks_of n k" "x \<in> masks_of n k \<Longrightarrow> 2 ^ k - 1 \<le> x"
proof -
  assume "k \<le> n"
  then have "(2 :: nat) ^ k \<le> 2 ^ n" by (intro power_increasing) auto
  then have "(2 :: nat) ^ k - 1 < 2 ^ n" using zero_less_power [of "2 :: nat" k] by linarith
  then show "2 ^ k - 1 \<in> masks_of n k" unfolding masks_of_def using ones_in_ones by blast
next
  assume "x \<in> masks_of n k"
  then show "2 ^ k - 1 \<le> x" using ones_in_low [of x] by (simp add: masks_of_def le_diff_conv)
qed

lemma bitset_yields:
  assumes n: "n \<le> 63" and k: "1 \<le> k" "k \<le> n"
  shows "size_yields (Bitset \<lparr>bc_claim_count = n, bc_next_mask = Some (of_nat (2 ^ k - 1))\<rparr>)
    (map (indices_of n) (ascending (masks_of n k)))"
proof -
  have "{x \<in> masks_of n k. 2 ^ k - 1 \<le> x} = masks_of n k" using first_mask(2) by auto
  with successor_yields [OF finite_masks first_mask(1) [OF k(2)] bitset_step [OF n k(1)]] show ?thesis by simp
qed

section \<open>Vector iterator\<close>

definition combinations_of :: "nat \<Rightarrow> nat \<Rightarrow> nat list set" where
  "combinations_of n k = {xs. sorted_wrt (<) xs \<and> length xs = k \<and> set xs \<subseteq> {..<n}}"

lemma finite_combinations [simp]: "finite (combinations_of n k)"
  by (rule finite_subset [OF _ finite_lists_length_eq [of "{..<n}" k]]) (auto simp: combinations_of_def)

lemma less_same_length:
  fixes xs ys :: "nat list"
  assumes "length xs = length ys"
  shows "xs < ys \<longleftrightarrow> (\<exists>i < length xs. take i xs = take i ys \<and> xs ! i < ys ! i)"
  using assms by (auto simp: list_less_def lexord_take_index_conv)

lemma combination_gap: "sorted_wrt (<) xs \<Longrightarrow> i + d < length xs \<Longrightarrow> xs ! i + d \<le> (xs ! (i + d) :: nat)"
proof (induction d)
  case (Suc d)
  then have "xs ! (i + d) < xs ! (i + Suc d)" by (intro sorted_wrt_nth_less) auto
  with Suc show ?case by simp
qed simp

lemma combination_bound:
  assumes "xs \<in> combinations_of n k" and "i < k"
  shows "xs ! i + k \<le> n + i"
proof -
  have "xs ! i + (k - 1 - i) \<le> xs ! (i + (k - 1 - i))"
    using assms by (intro combination_gap) (auto simp: combinations_of_def)
  moreover have "xs ! (k - 1) < n" using assms by (auto simp: combinations_of_def subset_iff)
  ultimately show ?thesis using assms(2) by simp
qed

lemma advance_at_eq:
  assumes "p < length xs"
  shows "advance_at xs p = take p xs @ [xs ! p + 1..<xs ! p + 1 + (length xs - p)]"
proof -
  define f where "f ys suffix = ys[suffix := ys ! (suffix - 1) + 1]" for ys :: "nat list" and suffix
  have inv: "length (foldl f (xs[p := xs ! p + 1]) [p + 1..<q]) = length xs
      \<and> (\<forall>i < length xs. foldl f (xs[p := xs ! p + 1]) [p + 1..<q] ! i
          = (if i < p then xs ! i else if i < q then xs ! p + 1 + (i - p) else xs ! i))"
    if "p + 1 \<le> q" "q \<le> length xs" for q
    using that
  proof (induction q rule: dec_induct)
    case base
    show ?case using assms by (auto simp: nth_list_update)
  next
    case (step q)
    let ?zs = "foldl f (xs[p := xs ! p + 1]) [p + 1..<q]"
    from step have IH: "length ?zs = length xs"
      "\<And>i. i < length xs \<Longrightarrow> ?zs ! i = (if i < p then xs ! i else if i < q then xs ! p + 1 + (i - p) else xs ! i)" by auto
    have "foldl f (xs[p := xs ! p + 1]) [p + 1..<Suc q] = ?zs[q := ?zs ! (q - 1) + 1]"
      using step.hyps by (simp add: f_def)
    moreover have "?zs ! (q - 1) + 1 = xs ! p + 1 + (q - p)" using IH(2) [of "q - 1"] step by auto
    ultimately show ?case using IH step by (auto simp: nth_list_update)
  qed
  have f: "advance_at xs p = foldl f (xs[p := xs ! p + 1]) [p + 1..<length xs]"
    unfolding advance_at_def f_def ..
  show ?thesis unfolding f
    by (rule nth_equalityI) (use inv [of "length xs"] assms in \<open>auto simp: nth_append\<close>)
qed

lemma next_from_positions_cases:
  assumes "length xs \<le> n"
  shows "(next_from_positions xs n (rev [0..<q]) = (Inr None :: legitimacy_error fault + _) \<and> (\<forall>p < q. \<not> xs ! p < n - length xs + p))
    \<or> (\<exists>p < q. xs ! p < n - length xs + p \<and> (\<forall>i. p < i \<and> i < q \<longrightarrow> \<not> xs ! i < n - length xs + i)
         \<and> next_from_positions xs n (rev [0..<q]) = (Inr (Some (advance_at xs p)) :: legitimacy_error fault + _))"
proof (induction q)
  case (Suc q)
  show ?case
  proof (cases "xs ! q < n - length xs + q")
    case True
    then show ?thesis using assms by (intro disjI2 exI [of _ q]) auto
  next
    case False
    then have eq: "(next_from_positions xs n (rev [0..<Suc q]) :: legitimacy_error fault + _) = next_from_positions xs n (rev [0..<q])"
      using assms by simp
    from Suc.IH show ?thesis unfolding eq using False by (force simp: less_Suc_eq)
  qed
qed simp

lemma next_combination:
  assumes xs: "xs \<in> combinations_of n k" and kn: "k \<le> n"
  shows "(next_vec_combination xs n = (Inr None :: legitimacy_error fault + _) \<and> (\<forall>ys \<in> combinations_of n k. ys \<le> xs))
    \<or> (\<exists>zs \<in> combinations_of n k. next_vec_combination xs n = (Inr (Some zs) :: legitimacy_error fault + _) \<and> xs < zs
         \<and> (\<forall>ys \<in> combinations_of n k. xs < ys \<longrightarrow> zs \<le> ys))"
proof -
  have len: "length xs = k" and srt: "sorted_wrt (<) xs" using xs by (auto simp: combinations_of_def)
  have frozen: "ys ! i \<le> xs ! i" if "ys \<in> combinations_of n k" "i < k" "\<not> xs ! i < n - k + i" for ys i
    using combination_bound [OF that(1,2)] that(3) kn by linarith
  have same: "length ys = k" if "ys \<in> combinations_of n k" for ys using that by (simp add: combinations_of_def)
  consider (last) "next_vec_combination xs n = (Inr None :: legitimacy_error fault + _)" "\<forall>p < k. \<not> xs ! p < n - k + p"
    | (step) p where "p < k" "xs ! p < n - k + p" "\<And>i. p < i \<Longrightarrow> i < k \<Longrightarrow> \<not> xs ! i < n - k + i"
        "next_vec_combination xs n = (Inr (Some (advance_at xs p)) :: legitimacy_error fault + _)"
    using next_from_positions_cases [of xs n k] kn len by (auto simp: next_vec_combination_def)
  then show ?thesis
  proof cases
    case last
    have "ys \<le> xs" if ys: "ys \<in> combinations_of n k" for ys
    proof (rule ccontr)
      assume "\<not> ys \<le> xs"
      then have "xs < ys" by simp
      then obtain i where "i < k" "xs ! i < ys ! i" using less_same_length [of xs ys] len same [OF ys] by auto
      with frozen [OF ys] last(2) show False by fastforce
    qed
    with last(1) show ?thesis by blast
  next
    case step
    define zs where "zs = advance_at xs p"
    have zs: "zs = take p xs @ [xs ! p + 1..<xs ! p + 1 + (k - p)]" using advance_at_eq [of p xs] step(1) len by (simp add: zs_def)
    have znth: "zs ! i = (if i < p then xs ! i else xs ! p + 1 + (i - p))" if "i < k" for i
      using that step(1) len unfolding zs by (auto simp: nth_append)
    have zlen: "length zs = k" using step(1) len by (simp add: zs)
    have low: "x < xs ! p" if "x \<in> set (take p xs)" for x
    proof -
      from that obtain i where "i < p" "x = xs ! i" using step(1) len by (auto simp: in_set_conv_nth)
      then show ?thesis using srt step(1) len by (auto intro: sorted_wrt_nth_less)
    qed
    have "zs \<in> combinations_of n k"
    proof -
      have "sorted_wrt (<) (take p xs)" using srt by (metis append_take_drop_id sorted_wrt_append)
      then have "sorted_wrt (<) zs" unfolding zs sorted_wrt_append set_upt using sorted_wrt_upt low by fastforce
      moreover have "set (take p xs) \<subseteq> {..<n}" using xs set_take_subset by (fastforce simp: combinations_of_def)
      then have "set zs \<subseteq> {..<n}" unfolding zs using step(1,2) kn by auto
      ultimately show ?thesis using zlen by (simp add: combinations_of_def)
    qed
    moreover have "xs < zs"
    proof -
      have "take p xs = take p zs" "xs ! p < zs ! p" using step(1) len znth [of p] by (simp_all add: zs)
      then show ?thesis using less_same_length [of xs zs] len zlen step(1) by auto
    qed
    moreover have "zs \<le> ys" if ys: "ys \<in> combinations_of n k" and "xs < ys" for ys
    proof -
      obtain d where d: "d < k" "take d xs = take d ys" "xs ! d < ys ! d"
        using less_same_length [of xs ys] len same [OF ys] \<open>xs < ys\<close> by auto
      have "d \<le> p" using frozen [OF ys d(1)] step(3) [of d] d(1,3) by fastforce
      have pre: "ys ! i = xs ! i" if "i < d" for i using d(2) that by (metis nth_take)
      show ?thesis
      proof (rule ccontr)
        assume "\<not> zs \<le> ys"
        then have "ys < zs" by simp
        then obtain i where i: "i < k" "take i ys = take i zs" "ys ! i < zs ! i"
          using less_same_length [of ys zs] zlen same [OF ys] by auto
        have agree: "ys ! l = zs ! l" if "l < i" for l using i(2) that by (metis nth_take)
        have "\<not> i < d" using pre [of i] i(1,3) znth [of i] \<open>d \<le> p\<close> by auto
        then have "d \<le> i" by simp
        show False
        proof (cases "d < p")
          case True
          then have "zs ! d = xs ! d" using znth [of d] d(1) by simp
          then show False using agree [of d] \<open>d \<le> i\<close> d(3) i(3) by (cases "d = i") auto
        next
          case False
          with \<open>d \<le> p\<close> have dp: "d = p" by simp
          have "ys ! d + (i - d) \<le> ys ! (d + (i - d))"
            using ys i(1) \<open>d \<le> i\<close> by (intro combination_gap) (auto simp: combinations_of_def)
          then show False using i(3) znth [OF i(1)] d(3) \<open>d \<le> i\<close> dp by simp
        qed
      qed
    qed
    ultimately show ?thesis using step(4) unfolding zs_def by blast
  qed
qed

lemma vector_step:
  assumes kn: "k \<le> n" and xs: "xs \<in> combinations_of n k"
  shows "\<exists>e. size_enumeration_next (Vector \<lparr>vc_claim_count = n, vc_current = Some xs\<rparr>)
      = (Inr (Some xs, e) :: legitimacy_error fault + _)
    \<and> ((\<exists>zs \<in> combinations_of n k. xs < zs \<and> (\<forall>ys \<in> combinations_of n k. xs < ys \<longrightarrow> zs \<le> ys)
          \<and> e = Vector \<lparr>vc_claim_count = n, vc_current = Some zs\<rparr>)
       \<or> (\<forall>ys \<in> combinations_of n k. ys \<le> xs) \<and> size_yields e [])"
proof -
  have ended: "size_yields (Vector \<lparr>vc_claim_count = n, vc_current = None\<rparr>) []"
    by (rule size_done) (simp add: vec_next_def)
  consider (last) "next_vec_combination xs n = (Inr None :: legitimacy_error fault + _)" "\<forall>ys \<in> combinations_of n k. ys \<le> xs"
    | (more) zs where "next_vec_combination xs n = (Inr (Some zs) :: legitimacy_error fault + _)" "zs \<in> combinations_of n k" "xs < zs"
        "\<forall>ys \<in> combinations_of n k. xs < ys \<longrightarrow> zs \<le> ys"
    using next_combination [OF xs kn] by blast
  then show ?thesis
  proof cases
    case last
    then have "size_enumeration_next (Vector \<lparr>vc_claim_count = n, vc_current = Some xs\<rparr>)
        = (Inr (Some xs, Vector \<lparr>vc_claim_count = n, vc_current = None\<rparr>) :: legitimacy_error fault + _)"
      by (simp add: vec_next_def)
    with last(2) ended show ?thesis by blast
  next
    case more
    then have "size_enumeration_next (Vector \<lparr>vc_claim_count = n, vc_current = Some xs\<rparr>)
        = (Inr (Some xs, Vector \<lparr>vc_claim_count = n, vc_current = Some zs\<rparr>) :: legitimacy_error fault + _)"
      by (simp add: vec_next_def)
    with more(2-4) show ?thesis by blast
  qed
qed

lemma first_combination:
  assumes "k \<le> n"
  shows "[0..<k] \<in> combinations_of n k" and "xs \<in> combinations_of n k \<Longrightarrow> [0..<k] \<le> xs"
proof -
  show "[0..<k] \<in> combinations_of n k" using assms by (auto simp: combinations_of_def)
  assume xs: "xs \<in> combinations_of n k"
  show "[0..<k] \<le> xs"
  proof (rule ccontr)
    assume "\<not> [0..<k] \<le> xs"
    then have "xs < [0..<k]" by simp
    then obtain i where i: "i < k" "xs ! i < i"
      using less_same_length [of xs "[0..<k]"] xs by (auto simp: combinations_of_def)
    with combination_gap [of xs 0 i] xs show False by (simp add: combinations_of_def)
  qed
qed

lemma vector_yields:
  assumes "k \<le> n"
  shows "size_yields (Vector \<lparr>vc_claim_count = n, vc_current = Some [0..<k]\<rparr>) (ascending (combinations_of n k))"
proof -
  have "{xs \<in> combinations_of n k. [0..<k] \<le> xs} = combinations_of n k" using first_combination [OF assms] by auto
  with successor_yields [of "combinations_of n k" "[0..<k]" "\<lambda>xs. Vector \<lparr>vc_claim_count = n, vc_current = Some xs\<rparr>" "\<lambda>xs. xs",
      OF finite_combinations first_combination(1) [OF assms] vector_step [OF assms]] show ?thesis by simp
qed

section \<open>The whole enumeration\<close>

definition coalitions_of_size :: "nat \<Rightarrow> nat \<Rightarrow> nat list list" where
  "coalitions_of_size n k =
     (if n \<le> 63 then map (indices_of n) (ascending (masks_of n k)) else ascending (combinations_of n k))"

definition coalition_list :: "nat \<Rightarrow> consistency_mode \<Rightarrow> nat list list" where
  "coalition_list n mode = concat (map (coalitions_of_size n) [1..<Suc (max_removed_of n mode)])"

lemma size_enumeration_yields:
  assumes "1 \<le> k" and "k \<le> n"
  obtains current where "size_enumeration_new n k = (Inr current :: legitimacy_error fault + _)"
    and "size_yields current (coalitions_of_size n k)"
proof (cases "n \<le> 63")
  case True
  have "(push_bit k 1 - 1 :: u64) = of_nat (2 ^ k - 1)" by (simp add: push_bit_eq_mult of_nat_diff)
  then have "size_enumeration_new n k
      = (Inr (Bitset \<lparr>bc_claim_count = n, bc_next_mask = Some (of_nat (2 ^ k - 1))\<rparr>) :: legitimacy_error fault + _)"
    using assms True by (simp add: size_enumeration_new_def bitset_new_def shl64_def)
  then show ?thesis using that bitset_yields [OF True assms] True by (simp add: coalitions_of_size_def)
next
  case False
  then have "size_enumeration_new n k
      = (Inr (Vector \<lparr>vc_claim_count = n, vc_current = Some [0..<k]\<rparr>) :: legitimacy_error fault + _)"
    using assms by (simp add: size_enumeration_new_def vec_new_def)
  then show ?thesis using that vector_yields [OF assms(2)] False by (simp add: coalitions_of_size_def)
qed

inductive yields :: "coalition_enumeration \<Rightarrow> nat list list \<Rightarrow> bool" where
  yields_done: "enumeration_next it = (Inr (None, it') :: legitimacy_error fault + _) \<Longrightarrow> yields it []"
| yields_more: "enumeration_next it = (Inr (Some xs, it') :: legitimacy_error fault + _) \<Longrightarrow> yields it' L
    \<Longrightarrow> yields it (xs # L)"

lemma yields_same_next:
  assumes "yields it L" and "enumeration_next it' = (enumeration_next it :: legitimacy_error fault + _)"
  shows "yields it' L"
  using assms(1)
proof cases
  case (yields_done it1)
  with assms(2) show ?thesis by (simp add: yields.yields_done)
next
  case (yields_more xs it1 L1)
  with assms(2) show ?thesis by (simp add: yields.yields_more)
qed

inductive_cases size_yields_NilE: "size_yields it []"

lemma yields_size:
  assumes "size_yields current L"
    and "\<And>current'. size_yields current' [] \<Longrightarrow> yields (it\<lparr>ce_current := Some current'\<rparr>) L'"
  shows "yields (it\<lparr>ce_current := Some current\<rparr>) (L @ L')"
  using assms(1)
proof (induction rule: size_yields.induct)
  case (size_done current current')
  have "size_yields current []" by (rule size_yields.size_done [OF size_done])
  then show ?case using assms(2) by simp
next
  case (size_more current xs current' L)
  have "enumeration_next (it\<lparr>ce_current := Some current\<rparr>)
      = (Inr (Some xs, it\<lparr>ce_current := Some current'\<rparr>) :: legitimacy_error fault + _)"
    using size_more(1) by (subst enumeration_next.simps) (simp add: advance_current_def)
  then show ?case using yields_more [OF _ size_more.IH] by simp
qed

definition spent :: "coalition_size_enumeration option \<Rightarrow> bool" where
  "spent current \<longleftrightarrow> (case current of None \<Rightarrow> True | Some it \<Rightarrow> size_yields it [])"

lemma advance_spent:
  assumes "spent current"
  obtains current' where "advance_current \<lparr>ce_claim_count = n, ce_next_size = k, ce_max_removed = m, ce_current = current\<rparr>
    = (Inr (None, \<lparr>ce_claim_count = n, ce_next_size = k, ce_max_removed = m, ce_current = current'\<rparr>) :: legitimacy_error fault + _)"
proof (cases current)
  case None
  then show ?thesis using that by (simp add: advance_current_def)
next
  case (Some it)
  then have "size_yields it []" using assms by (simp add: spent_def)
  then obtain it' where "size_enumeration_next it = (Inr (None, it') :: legitimacy_error fault + _)"
    by (rule size_yields_NilE)
  then show ?thesis using that Some by (simp add: advance_current_def)
qed

lemma enumeration_yields:
  assumes "m < n \<or> m = 0" and "1 \<le> k" and "spent current"
  shows "yields \<lparr>ce_claim_count = n, ce_next_size = k, ce_max_removed = m, ce_current = current\<rparr>
    (concat (map (coalitions_of_size n) [k..<Suc m]))"
  using assms(2,3)
proof (induction "Suc m - k" arbitrary: k current)
  case 0
  let ?it = "\<lparr>ce_claim_count = n, ce_next_size = k, ce_max_removed = m, ce_current = current\<rparr>"
  obtain current' where "advance_current ?it
      = (Inr (None, \<lparr>ce_claim_count = n, ce_next_size = k, ce_max_removed = m, ce_current = current'\<rparr>) :: legitimacy_error fault + _)"
    using advance_spent [OF 0(3)] by blast
  with 0(1) have "enumeration_next ?it
      = (Inr (None, \<lparr>ce_claim_count = n, ce_next_size = k, ce_max_removed = m, ce_current = current'\<rparr>) :: legitimacy_error fault + _)"
    by (subst enumeration_next.simps) simp
  then have "yields ?it []" by (rule yields_done)
  then show ?case using 0(1) by simp
next
  case (Suc d)
  let ?it = "\<lambda>k current. \<lparr>ce_claim_count = n, ce_next_size = k, ce_max_removed = m, ce_current = current\<rparr>"
  have km: "k \<le> m" "k \<le> n" using Suc.hyps(2) assms(1) Suc.prems(1) by auto
  obtain current' where adv: "advance_current (?it k current) = (Inr (None, ?it k current') :: legitimacy_error fault + _)"
    using advance_spent [OF Suc.prems(2)] by blast
  obtain fresh where fresh: "size_enumeration_new n k = (Inr fresh :: legitimacy_error fault + _)"
      "size_yields fresh (coalitions_of_size n k)"
    using size_enumeration_yields [OF Suc.prems(1) km(2)] by blast
  have "enumeration_next (?it k current) = (enumeration_next (?it (Suc k) (Some fresh)) :: legitimacy_error fault + _)"
    using km(1) by (subst enumeration_next.simps) (simp add: adv fresh(1))
  moreover have "yields (?it (Suc k) (Some fresh)) (coalitions_of_size n k @ concat (map (coalitions_of_size n) [Suc k..<Suc m]))"
  proof -
    have "yields (?it (Suc k) (Some done1)) (concat (map (coalitions_of_size n) [Suc k..<Suc m]))" if "size_yields done1 []" for done1
      using Suc.hyps(1) [of "Suc k" "Some done1"] Suc.hyps(2) that by (simp add: spent_def)
    then show ?thesis using yields_size [OF fresh(2), of "?it (Suc k) None"] by simp
  qed
  moreover have "[k..<Suc m] = k # [Suc k..<Suc m]" using km(1) by (intro upt_conv_Cons) simp
  ultimately show ?case by (simp add: yields_same_next)
qed

lemma loop_yields:
  assumes "yields it L" and "length L < fuel"
  shows "coalition_loop fuel body s it = (rloop body s L :: legitimacy_error fault + _)"
  using assms
proof (induction arbitrary: fuel s rule: yields.induct)
  case (yields_done it it')
  then show ?case by (cases fuel) auto
next
  case (yields_more it xs it' L)
  from yields_more.prems obtain fuel' where fuel: "fuel = Suc fuel'" "length L < fuel'" by (cases fuel) auto
  show ?case unfolding fuel(1) using yields_more.hyps(1) yields_more.IH [OF fuel(2)]
    by (auto intro!: rbind_cong split: sum.split)
qed

section \<open>Properties\<close>

definition coalition_before :: "nat \<Rightarrow> nat list \<Rightarrow> nat list \<Rightarrow> bool" where
  "coalition_before n xs ys \<longleftrightarrow> length xs < length ys
     \<or> length xs = length ys \<and> (if n \<le> 63 then mask_value xs < mask_value ys else xs < ys)"

lemma set_coalitions_of_size:
  "set (coalitions_of_size n k) = combinations_of n k"
proof (cases "n \<le> 63")
  case True
  have "indices_of n ` masks_of n k = combinations_of n k"
  proof
    have "set (indices_of n x) \<subseteq> {..<n}" for x by (auto simp: indices_of_def)
    then show "indices_of n ` masks_of n k \<subseteq> combinations_of n k"
      using indices_sorted by (auto simp: masks_of_def combinations_of_def length_indices take_bit_nat_eq_self)
    show "combinations_of n k \<subseteq> indices_of n ` masks_of n k"
    proof
      fix xs assume xs: "xs \<in> combinations_of n k"
      then obtain x where x: "x < 2 ^ n" "indices_of n x = xs" using indices_surj [of xs n] by (auto simp: combinations_of_def)
      then have "ones_in x = k" using length_indices [of n x] xs by (simp add: combinations_of_def take_bit_nat_eq_self)
      with x show "xs \<in> indices_of n ` masks_of n k" by (auto simp: masks_of_def)
    qed
  qed
  with True show ?thesis by (simp add: coalitions_of_size_def ascending_def)
qed (simp add: coalitions_of_size_def ascending_def)

lemma coalitions_of_size_sorted: "sorted_wrt (coalition_before n) (coalitions_of_size n k)"
proof (cases "n \<le> 63")
  case True
  have "coalition_before n (indices_of n x) (indices_of n y)" if "x \<in> masks_of n k" "y \<in> masks_of n k" "x < y" for x y
    using that True by (simp add: coalition_before_def masks_of_def length_indices take_bit_nat_eq_self mask_value_inverse)
  moreover have "sorted_wrt (<) (ascending (masks_of n k))" "set (ascending (masks_of n k)) = masks_of n k"
    by (simp_all add: ascending_def)
  ultimately have "sorted_wrt (\<lambda>x y. coalition_before n (indices_of n x) (indices_of n y)) (ascending (masks_of n k))"
    by (auto intro: sorted_wrt_mono_rel [of _ "(<)"])
  then show ?thesis using True by (simp add: coalitions_of_size_def sorted_wrt_map)
next
  case False
  have "coalition_before n xs ys" if "xs \<in> combinations_of n k" "ys \<in> combinations_of n k" "xs < ys" for xs ys
    using that False by (simp add: coalition_before_def combinations_of_def)
  moreover have "sorted_wrt (<) (ascending (combinations_of n k))" "set (ascending (combinations_of n k)) = combinations_of n k"
    by (simp_all add: ascending_def)
  ultimately have "sorted_wrt (coalition_before n) (ascending (combinations_of n k))"
    by (auto intro: sorted_wrt_mono_rel [of _ "(<)"])
  then show ?thesis using False by (simp add: coalitions_of_size_def)
qed

lemma concat_sizes_sorted: "sorted_wrt (coalition_before n) (concat (map (coalitions_of_size n) [a..<b]))"
proof (induction b)
  case (Suc b)
  show ?case
  proof (cases "a \<le> b")
    case True
    have "coalition_before n xs ys" if "xs \<in> combinations_of n i" "i < b" "ys \<in> combinations_of n b" for xs ys i
      using that by (simp add: coalition_before_def combinations_of_def)
    with Suc True show ?thesis
      by (auto simp: sorted_wrt_append coalitions_of_size_sorted set_coalitions_of_size)
  qed simp
qed simp

lemma set_coalition_list:
  "set (coalition_list n mode)
     = {xs. sorted_wrt (<) xs \<and> set xs \<subseteq> {..<n} \<and> xs \<noteq> [] \<and> length xs \<le> max_removed_of n mode}"
proof -
  have "set (coalition_list n mode) = (\<Union>k \<in> {1..max_removed_of n mode}. combinations_of n k)"
    unfolding coalition_list_def by (simp only: set_concat set_map set_upt image_image set_coalitions_of_size atLeastLessThanSuc_atLeastAtMost)
  then show ?thesis by (auto simp: combinations_of_def Suc_le_eq)
qed

lemma coalition_list_sorted: "sorted_wrt (coalition_before n) (coalition_list n mode)"
  unfolding coalition_list_def by (rule concat_sizes_sorted)

lemma coalition_list_distinct: "distinct (coalition_list n mode)"
proof -
  have "distinct xs" if "sorted_wrt (coalition_before n) xs" for xs
    using that by (induction xs) (auto simp: coalition_before_def split: if_splits)
  then show ?thesis using coalition_list_sorted by blast
qed

lemma coalition_list_length: "length (coalition_list n mode) \<le> 2 ^ n"
proof -
  have inj: "inj_on set (set (coalition_list n mode))"
    by (rule inj_onI) (auto simp: set_coalition_list intro: strict_sorted_equal)
  have "length (coalition_list n mode) = card (set (coalition_list n mode))"
    by (simp add: distinct_card coalition_list_distinct)
  also have "\<dots> = card (set ` set (coalition_list n mode))" by (simp add: card_image inj)
  also have "\<dots> \<le> card (Pow {..<n})" by (rule card_mono) (auto simp: set_coalition_list)
  finally show ?thesis by (simp add: card_Pow)
qed

lemma for_coalitions_eq:
  "for_coalitions n mode body s = (rloop body s (coalition_list n mode) :: legitimacy_error fault + _)"
proof -
  have "max_removed_of n mode < n \<or> max_removed_of n mode = 0"
    by (cases mode) (auto simp: max_removed_of_def)
  from enumeration_yields [OF this, of 1 None]
  have "yields (coalition_enumeration_new n mode) (coalition_list n mode)"
    by (simp add: spent_def coalition_enumeration_new_def coalition_list_def)
  moreover have "length (coalition_list n mode) < Suc (2 ^ n)" using coalition_list_length [of n mode] by simp
  ultimately show ?thesis unfolding for_coalitions_def by (rule loop_yields)
qed

text \<open>C37: a loop over the coalition iterator runs its body on every non-empty set of at most
  \<open>max_removed\<close> claimant indices, each set once, smaller sets first; sets of one size come in the
  order of their masks up to 63 claimants and in lexicographic order above. No shift, division or
  subtraction of the iterator panics and the budget is never exhausted.\<close>

theorem for_coalitions_exact:
  "for_coalitions n mode body s = (rloop body s (coalition_list n mode) :: legitimacy_error fault + _)
   \<and> set (coalition_list n mode)
       = {xs. sorted_wrt (<) xs \<and> set xs \<subseteq> {..<n} \<and> xs \<noteq> [] \<and> length xs \<le> max_removed_of n mode}
   \<and> sorted_wrt (coalition_before n) (coalition_list n mode) \<and> distinct (coalition_list n mode)"
  by (intro conjI for_coalitions_eq set_coalition_list coalition_list_sorted coalition_list_distinct)

end
