(* ===== verification/Rule_Consistency.thy ===== *)
theory Rule_Consistency
  imports Allocation_Rules Coalitions
begin

text \<open>
  Young's consistency of an allocation rule, \<open>src/src/axioms/diagnostics/consistency.rs\<close>: the check
  over doubles, which tolerates rounding, and the check over exact ratios. The ratio type of the exact
  check is a third-party type whose operations are an argument; its sums and differences may overflow
  and fail. The properties say when the exact check admits a rule, as long as nothing overflows, what the verdict over doubles means, and that rules which treat each claim by
  itself are always admitted.
\<close>

section \<open>Consistency\<close>

definition FULL_CONSISTENCY_WARN_CLAIMANTS :: nat where
  "FULL_CONSISTENCY_WARN_CLAIMANTS = 20"

record full_consistency_options =
  fo_mode :: consistency_mode
  fo_allow_exponential_consistency :: bool

definition default_consistency_options :: full_consistency_options where
  "default_consistency_options = \<lparr>fo_mode = Full, fo_allow_exponential_consistency = False\<rparr>"

record consistency_complexity =
  coalitions_tested :: nat
  survivor_checks :: nat

record full_consistency_audit =
  fa_verdict :: verdict
  fa_complexity :: consistency_complexity

definition validate_full_complexity_gate :: "nat \<Rightarrow> bool \<Rightarrow> legitimacy_error + unit" where
  "validate_full_complexity_gate claimant_count allow =
     require (\<not> (FULL_CONSISTENCY_WARN_CLAIMANTS < claimant_count \<and> \<not> allow))
       (invalid_input ''full Young consistency for {} claimants requires --allow-exponential-consistency'' [ANat claimant_count])"

definition consistency_gate :: "full_consistency_options \<Rightarrow> nat \<Rightarrow> legitimacy_error + unit" where
  "consistency_gate options claimant_count =
     (case fo_mode options of
        Full \<Rightarrow> validate_full_complexity_gate claimant_count (fo_allow_exponential_consistency options)
      | Bounded max_removed \<Rightarrow> Inr ())"

definition axiom_label :: "consistency_mode \<Rightarrow> string" where
  "axiom_label mode =
     (case mode of
        Full \<Rightarrow> ''consistency (Young full sub-coalition)''
      | Bounded max_removed \<Rightarrow>
          if max_removed = 2 then ''consistency (single-claimant and pair reductions)''
          else ''consistency (bounded sub-coalitions, max_removed='' @ show_nat max_removed @ '')'')"

text \<open>Indexing a vector out of range panics.\<close>

definition index_panic :: "'a list \<Rightarrow> nat \<Rightarrow> 'e fault + 'a" where
  "index_panic xs i = (if i < length xs then Inr (xs ! i) else Inl Panicked)"

definition removed_lookup :: "nat \<Rightarrow> nat list \<Rightarrow> 'e fault + bool list" where
  "removed_lookup claim_count removed_indices =
     rfold (\<lambda>lookup index. rbind (index_panic lookup index) (\<lambda>_. Inr (lookup[index := True])))
       (replicate claim_count False) removed_indices"

definition surviving :: "bool list \<Rightarrow> 'c list \<Rightarrow> 'e fault + 'c list" where
  "surviving lookup cs =
     rbind (rmap (\<lambda>(index, c). rbind (index_panic lookup index) (\<lambda>removed. Inr (removed, c))) (enumerate 0 cs)) (\<lambda>marked.
       Inr (map snd (filter (\<lambda>(removed, c). \<not> removed) marked)))"

definition shares_differ :: "f64 \<Rightarrow> f64 \<Rightarrow> bool" where
  "shares_differ a b \<longleftrightarrow>
     f64_lt (f64_add EPSILON (f64_mul EPSILON (f64_add (f64_abs a) (f64_abs b)))) (f64_abs (f64_sub a b))"

definition reduction_rejection ::
  "claim list \<Rightarrow> estate \<Rightarrow> allocation \<Rightarrow> string list \<Rightarrow> consistency_complexity \<Rightarrow> string \<Rightarrow> claim list \<Rightarrow> estate
     \<Rightarrow> allocation \<Rightarrow> claim \<Rightarrow> f64 \<Rightarrow> f64 \<Rightarrow> verdict" where
  "reduction_rejection cs est original removed_ids complexity axm reduced reduced_estate reduced_alloc c original_share reduced_share =
     (let removed_label = join '', '' removed_ids in
      Rejected axm
        \<lparr>description = Message ''Coalition witness [{}] changed '{}' allocation from {:.4} to {:.4}''
           [AStr removed_label, AStr (clm_id c), AF64 original_share, AF64 reduced_share],
         original_claims = cs, original_estate = est, original_allocation = original,
         perturbed_claims = reduced, perturbed_estate = reduced_estate, perturbed_allocation = reduced_alloc,
         violation = Message ''Removing coalition [{}] changed the allocation of '{}'. The rule's verdict depends on who is in the room, not just on the surviving claimants' claims against the reduced estate. coalitions_tested={}, survivor_checks={}''
           [AStr removed_label, AStr (clm_id c), ANat (coalitions_tested complexity), ANat (survivor_checks complexity)]\<rparr>)"

definition survivor_check ::
  "(consistency_complexity \<Rightarrow> claim \<Rightarrow> f64 \<Rightarrow> f64 \<Rightarrow> verdict) \<Rightarrow> allocation \<Rightarrow> allocation \<Rightarrow> consistency_complexity \<Rightarrow> claim
     \<Rightarrow> legitimacy_error + ((verdict \<times> consistency_complexity) + consistency_complexity)" where
  "survivor_check reject original reduced_alloc complexity c =
     (let counted = complexity\<lparr>survivor_checks := survivor_checks complexity + 1\<rparr> in
      rbind (share_for original (clm_id c) ''consistency original share'') (\<lambda>original_share.
      rbind (share_for reduced_alloc (clm_id c) ''consistency reduced share'') (\<lambda>reduced_share.
        if shares_differ original_share reduced_share
        then Inr (Inl (reject counted c original_share reduced_share, counted))
        else Inr (Inr counted))))"

definition evaluate_reduction ::
  "rule \<Rightarrow> claim list \<Rightarrow> estate \<Rightarrow> allocation \<Rightarrow> string \<Rightarrow> consistency_complexity \<Rightarrow> nat list
     \<Rightarrow> legitimacy_error fault + ((verdict \<times> consistency_complexity) + consistency_complexity)" where
  "evaluate_reduction r cs est original axm complexity removed_indices =
     rbind (rmap (index_panic cs) removed_indices) (\<lambda>removed.
     rbind (removed_lookup (length cs) removed_indices) (\<lambda>lookup.
     rbind (surviving lookup cs) (\<lambda>reduced.
     rbind (raise (rmap (\<lambda>c. share_for original (clm_id c) ''consistency reduction surviving share'') reduced)) (\<lambda>shares.
       let reduced_total = f64_sum shares;
           counted = complexity\<lparr>coalitions_tested := coalitions_tested complexity + 1\<rparr>
       in if reduced = [] \<or> f64_le reduced_total EPSILON then Inr (Inr counted)
          else
            rbind (raise (estate_new reduced_total (unit_name est))) (\<lambda>reduced_estate.
            rbind (raise (evaluate_rule r reduced reduced_estate)) (\<lambda>reduced_alloc.
              raise (rloop (survivor_check
                  (\<lambda>cx. reduction_rejection cs est original (map clm_id removed) cx axm reduced reduced_estate reduced_alloc)
                  original reduced_alloc) counted reduced)))))))"

definition check_consistency_with_mode ::
  "rule \<Rightarrow> claim list \<Rightarrow> estate \<Rightarrow> consistency_mode \<Rightarrow> legitimacy_error fault + full_consistency_audit" where
  "check_consistency_with_mode r cs est mode =
     rbind (raise (evaluate_rule r cs est)) (\<lambda>original.
     rbind (for_coalitions (length cs) mode (evaluate_reduction r cs est original (axiom_label mode))
              \<lparr>coalitions_tested = 0, survivor_checks = 0\<rparr>) (\<lambda>outcome.
       Inr (case outcome of
              Inl (v, complexity) \<Rightarrow> \<lparr>fa_verdict = v, fa_complexity = complexity\<rparr>
            | Inr complexity \<Rightarrow> \<lparr>fa_verdict = Admissible (axiom_label mode) (coalitions_tested complexity),
                                fa_complexity = complexity\<rparr>)))"

definition check_full_consistency_audit ::
  "rule \<Rightarrow> claim list \<Rightarrow> estate \<Rightarrow> full_consistency_options \<Rightarrow> legitimacy_error fault + full_consistency_audit" where
  "check_full_consistency_audit r cs est options =
     rbind (raise (consistency_gate options (length cs))) (\<lambda>_. check_consistency_with_mode r cs est (fo_mode options))"

definition check_full_consistency ::
  "rule \<Rightarrow> claim list \<Rightarrow> estate \<Rightarrow> full_consistency_options \<Rightarrow> legitimacy_error fault + verdict" where
  "check_full_consistency r cs est options =
     rbind (check_full_consistency_audit r cs est options) (\<lambda>audit. Inr (fa_verdict audit))"

definition check_consistency :: "rule \<Rightarrow> claim list \<Rightarrow> estate \<Rightarrow> legitimacy_error fault + verdict" where
  "check_consistency r cs est = check_full_consistency r cs est default_consistency_options"

definition check_bounded_consistency :: "rule \<Rightarrow> claim list \<Rightarrow> estate \<Rightarrow> nat \<Rightarrow> legitimacy_error fault + verdict" where
  "check_bounded_consistency r cs est max_removed =
     rbind (check_consistency_with_mode r cs est (Bounded max_removed)) (\<lambda>audit. Inr (fa_verdict audit))"

definition check_singles_pairs_consistency :: "rule \<Rightarrow> claim list \<Rightarrow> estate \<Rightarrow> legitimacy_error fault + verdict" where
  "check_singles_pairs_consistency r cs est = check_bounded_consistency r cs est 2"

section \<open>Consistency over exact ratios\<close>

text \<open>The ratio type is that of another package, over 64-bit integers: a sum or a difference whose
  intermediate integers leave their width panics or returns a wrapped value, so that both may fail.\<close>

record 'q ratio =
  ratio_zero :: 'q
  ratio_add :: "'q \<Rightarrow> 'q \<Rightarrow> legitimacy_error fault + 'q"
  ratio_sub :: "'q \<Rightarrow> 'q \<Rightarrow> legitimacy_error fault + 'q"
  ratio_le :: "'q \<Rightarrow> 'q \<Rightarrow> bool"

record 'q rational_claim =
  rc_id :: string
  rc_strength :: 'q

record 'q rational_estate =
  re_total :: 'q
  re_unit :: string

definition rational_claim_new :: "'q ratio \<Rightarrow> string \<Rightarrow> 'q \<Rightarrow> legitimacy_error + 'q rational_claim" where
  "rational_claim_new q cid st =
     (if ratio_le q st (ratio_zero q) then Inl (invalid_input ''rational claim strength must be positive'' [])
      else Inr \<lparr>rc_id = cid, rc_strength = st\<rparr>)"

definition rational_estate_new :: "'q ratio \<Rightarrow> 'q \<Rightarrow> string \<Rightarrow> legitimacy_error + 'q rational_estate" where
  "rational_estate_new q t u =
     (if ratio_le q t (ratio_zero q) then Inl (invalid_input ''rational estate total must be positive'' [])
      else Inr \<lparr>re_total = t, re_unit = u\<rparr>)"

type_synonym 'q rational_allocation = "(string, 'q) bmap"
type_synonym 'q rational_rule = "'q rational_claim list \<Rightarrow> 'q rational_estate \<Rightarrow> legitimacy_error + 'q rational_allocation"

record 'q rational_counterexample =
  rx_removed :: "string list"
  rx_survivor :: string
  rx_original_share :: 'q
  rx_reduced_share :: 'q

datatype 'q rational_verdict = RationalAdmissible | RationalRejected "'q rational_counterexample"

record 'q rational_audit =
  ra_verdict :: "'q rational_verdict"
  ra_complexity :: consistency_complexity

definition rational_share :: "'q rational_allocation \<Rightarrow> string \<Rightarrow> string \<Rightarrow> legitimacy_error + 'q" where
  "rational_share alloc cid context = option_ok (MissingAllocationShare cid context) (bm_get alloc cid)"

definition rational_survivor ::
  "string list \<Rightarrow> 'q rational_allocation \<Rightarrow> 'q rational_allocation \<Rightarrow> consistency_complexity \<Rightarrow> 'q rational_claim
     \<Rightarrow> legitimacy_error + (('q rational_verdict \<times> consistency_complexity) + consistency_complexity)" where
  "rational_survivor removed_ids original reduced_alloc complexity c =
     (let counted = complexity\<lparr>survivor_checks := survivor_checks complexity + 1\<rparr> in
      rbind (rational_share original (rc_id c) ''rational original share'') (\<lambda>original_share.
      rbind (rational_share reduced_alloc (rc_id c) ''rational reduced share'') (\<lambda>reduced_share.
        if original_share \<noteq> reduced_share
        then Inr (Inl (RationalRejected \<lparr>rx_removed = removed_ids, rx_survivor = rc_id c,
               rx_original_share = original_share, rx_reduced_share = reduced_share\<rparr>, counted))
        else Inr (Inr counted))))"

definition rational_reduction ::
  "'q ratio \<Rightarrow> 'q rational_rule \<Rightarrow> 'q rational_claim list \<Rightarrow> 'q rational_estate \<Rightarrow> 'q rational_allocation
     \<Rightarrow> consistency_complexity \<Rightarrow> nat list
     \<Rightarrow> legitimacy_error fault + (('q rational_verdict \<times> consistency_complexity) + consistency_complexity)" where
  "rational_reduction q allocate cs est original complexity removed_indices =
     rbind (rmap (index_panic cs) removed_indices) (\<lambda>removed.
     rbind (removed_lookup (length cs) removed_indices) (\<lambda>lookup.
     rbind (surviving lookup cs) (\<lambda>reduced.
     rbind (rfold (\<lambda>acc c. rbind (raise (rational_share original (rc_id c) ''rational removed share'')) (ratio_add q acc))
              (ratio_zero q) removed) (\<lambda>removed_total.
     rbind (ratio_sub q (re_total est) removed_total) (\<lambda>reduced_total.
       let counted = complexity\<lparr>coalitions_tested := coalitions_tested complexity + 1\<rparr>
       in if reduced = [] \<or> ratio_le q reduced_total (ratio_zero q) then Inr (Inr counted)
          else
            rbind (raise (rational_estate_new q reduced_total (re_unit est))) (\<lambda>reduced_estate.
            rbind (raise (allocate reduced reduced_estate)) (\<lambda>reduced_alloc.
              raise (rloop (rational_survivor (map rc_id removed) original reduced_alloc) counted reduced))))))))"

definition check_full_consistency_rational ::
  "'q ratio \<Rightarrow> 'q rational_rule \<Rightarrow> 'q rational_claim list \<Rightarrow> 'q rational_estate \<Rightarrow> full_consistency_options
     \<Rightarrow> legitimacy_error fault + 'q rational_audit" where
  "check_full_consistency_rational q allocate cs est options =
     rbind (raise (consistency_gate options (length cs))) (\<lambda>_.
     rbind (raise (allocate cs est)) (\<lambda>original.
     rbind (for_coalitions (length cs) (fo_mode options) (rational_reduction q allocate cs est original)
              \<lparr>coalitions_tested = 0, survivor_checks = 0\<rparr>) (\<lambda>outcome.
       Inr (case outcome of
              Inl (v, complexity) \<Rightarrow> \<lparr>ra_verdict = v, ra_complexity = complexity\<rparr>
            | Inr complexity \<Rightarrow> \<lparr>ra_verdict = RationalAdmissible, ra_complexity = complexity\<rparr>))))"

section \<open>Reductions as sublists\<close>

definition survivors :: "'c list \<Rightarrow> nat list \<Rightarrow> 'c list" where
  "survivors cs removed = nths cs (- set removed)"

lemma rmap_index: "set is \<subseteq> {..<length cs} \<Longrightarrow> rmap (index_panic cs) is = Inr (map ((!) cs) is)"
  by (induction "is") (auto simp: index_panic_def)

lemma removed_lookup_eq:
  assumes "set is \<subseteq> {..<n}"
  shows "removed_lookup n is = Inr (map (\<lambda>i. i \<in> set is) [0..<n])"
proof -
  have "rfold (\<lambda>lookup index. rbind (index_panic lookup index) (\<lambda>_. Inr (lookup[index := True]))) (map P [0..<n]) is
      = Inr (map (\<lambda>i. P i \<or> i \<in> set is) [0..<n])" for P
    using assms
  proof (induction "is" arbitrary: P)
    case (Cons i "is")
    have "(map P [0..<n])[i := True] = map (\<lambda>j. P j \<or> j = i) [0..<n]"
      using Cons.prems by (intro nth_equalityI) (auto simp: nth_list_update)
    with Cons show ?case by (simp add: index_panic_def disj_assoc)
  qed simp
  from this [of "\<lambda>_. False"] show ?thesis by (simp add: removed_lookup_def map_replicate_const)
qed

lemma surviving_eq:
  "surviving (map (\<lambda>i. i \<in> set removed) [0..<length cs]) cs = Inr (survivors cs removed)"
proof -
  let ?lookup = "map (\<lambda>i. i \<in> set removed) [0..<length cs]"
  have run: "rmap (\<lambda>(index, c). rbind (index_panic ?lookup index) (\<lambda>removed. Inr (removed, c))) ps
      = Inr (map (\<lambda>(i, c). (i \<in> set removed, c)) ps)" if "fst ` set ps \<subseteq> {..<length cs}" for ps
    using that by (induction ps) (auto simp: index_panic_def)
  have ps: "fst ` set (enumerate 0 cs) \<subseteq> {..<length cs}" by (auto simp: in_set_enumerate_eq)
  have kept: "map snd (filter (\<lambda>(removed, c). \<not> removed) (map (\<lambda>(i, c). (i \<in> set removed, c)) (enumerate k cs)))
      = nths cs {i. i + k \<notin> set removed}" for k
    by (induction cs arbitrary: k) (auto simp: nths_Cons)
  show ?thesis unfolding surviving_def run [OF ps] using kept [of 0] by (simp add: survivors_def Compl_eq)
qed

lemma rloop_measure:
  assumes "rloop f s xs = Inr (Inr t)" and "\<And>u x u'. x \<in> set xs \<Longrightarrow> f u x = Inr (Inr u') \<Longrightarrow> g u' = Suc (g u)"
  shows "g t = g s + length xs"
  using assms
proof (induction xs arbitrary: s)
  case (Cons x xs)
  from Cons.prems(1) obtain u where u: "f s x = Inr (Inr u)" "rloop f u xs = Inr (Inr t)"
    unfolding rloop_Cons_continue by blast
  have "g t = g u + length xs" by (rule Cons.IH [OF u(2)]) (rule Cons.prems(2), simp_all)
  moreover have "g u = Suc (g s)" using Cons.prems(2) [OF _ u(1)] by simp
  ultimately show ?case by simp
qed simp

lemma rloop_keeps:
  assumes "rloop f s xs = Inr (Inr t)" and "\<And>u x u'. x \<in> set xs \<Longrightarrow> f u x = Inr (Inr u') \<Longrightarrow> g u' = g u"
  shows "g t = g s"
  using assms
proof (induction xs arbitrary: s)
  case (Cons x xs)
  from Cons.prems(1) obtain u where u: "f s x = Inr (Inr u)" "rloop f u xs = Inr (Inr t)"
    unfolding rloop_Cons_continue by blast
  have "g t = g u" by (rule Cons.IH [OF u(2)]) (rule Cons.prems(2), simp_all)
  moreover have "g u = g s" using Cons.prems(2) [OF _ u(1)] by simp
  ultimately show ?case by simp
qed simp

lemma rloop_total_state:
  assumes "\<And>s x. x \<in> set xs \<Longrightarrow> \<exists>y. f s x = Inr y"
  shows "\<exists>y. rloop f s xs = Inr y"
  using assms
proof (induction xs arbitrary: s)
  case (Cons x xs)
  from Cons.prems obtain y where y: "f s x = Inr y" by (meson list.set_intros(1))
  show ?case
  proof (cases y)
    case (Inr t)
    with y Cons.IH [of t] Cons.prems show ?thesis by auto
  qed (use y in simp)
qed simp

lemma coalition_indices: "S \<in> set (coalition_list n mode) \<Longrightarrow> set S \<subseteq> {..<n}"
  by (simp add: set_coalition_list)

section \<open>The exact check\<close>

text \<open>What the check relies on: the comparison is exact, and so are the sums and differences whose
  operands, brought to their common denominator, stay within the width. The least 64-bit integer
  counts as outside, since it has no absolute value.\<close>

definition within_width :: "int \<Rightarrow> bool" where
  "within_width n \<longleftrightarrow> \<bar>n\<bar> < 2 ^ 63"

definition ratio_safe :: "rat \<Rightarrow> rat \<Rightarrow> bool" where
  "ratio_safe a b \<longleftrightarrow>
     (let (p, d) = quotient_of a; (p', d') = quotient_of b; l = lcm d d'; x = p * (l div d); y = p' * (l div d')
      in within_width l \<and> within_width x \<and> within_width y \<and> within_width (x + y) \<and> within_width (x - y))"

definition ratio_exact :: "rat ratio \<Rightarrow> bool" where
  "ratio_exact q \<longleftrightarrow> ratio_zero q = 0 \<and> (\<forall>a b. ratio_le q a b \<longleftrightarrow> a \<le> b)
     \<and> (\<forall>a b. ratio_safe a b \<longrightarrow> ratio_add q a b = Inr (a + b) \<and> ratio_sub q a b = Inr (a - b))"

text \<open>An instance that panics outside the width, as a build with overflow checks does.\<close>

definition checked_ratio :: "rat ratio" where
  "checked_ratio = \<lparr>ratio_zero = 0,
     ratio_add = (\<lambda>a b. if ratio_safe a b then Inr (a + b) else Inl Panicked),
     ratio_sub = (\<lambda>a b. if ratio_safe a b then Inr (a - b) else Inl Panicked), ratio_le = (\<le>)\<rparr>"

lemma checked_ratio_exact: "ratio_exact checked_ratio"
  by (simp add: ratio_exact_def checked_ratio_def)

lemma ratio_safe_int: "\<bar>a\<bar> + \<bar>b\<bar> < 2 ^ 63 \<Longrightarrow> ratio_safe (of_int a) (of_int b)"
  by (auto simp: ratio_safe_def within_width_def)

definition share_of :: "'q rational_allocation \<Rightarrow> 'q rational_claim \<Rightarrow> 'q" where
  "share_of alloc c = the (bm_get alloc (rc_id c))"

definition covers :: "'q rational_allocation \<Rightarrow> 'q rational_claim list \<Rightarrow> bool" where
  "covers alloc cs \<longleftrightarrow> (\<forall>c \<in> set cs. bm_get alloc (rc_id c) \<noteq> None)"

text \<open>No step of the arithmetic of a removal leaves the width: neither the running sum of the shares that
  leave, nor the estate that remains.\<close>

primrec sums_in_range :: "rat \<Rightarrow> rat list \<Rightarrow> bool" where
  "sums_in_range acc [] \<longleftrightarrow> True"
| "sums_in_range acc (x # xs) \<longleftrightarrow> ratio_safe acc x \<and> sums_in_range (acc + x) xs"

definition removal_in_range ::
  "rat rational_claim list \<Rightarrow> rat rational_estate \<Rightarrow> rat rational_allocation \<Rightarrow> nat list \<Rightarrow> bool" where
  "removal_in_range cs est original removed \<longleftrightarrow>
     (let shares = map (\<lambda>i. share_of original (cs ! i)) removed
      in sums_in_range 0 shares \<and> ratio_safe (re_total est) (sum_list shares))"

text \<open>Young's consistency: whatever coalition leaves with its shares, the rule gives the survivors of
  the reduced problem what they had.\<close>

definition young_consistent ::
  "rat rational_rule \<Rightarrow> rat rational_claim list \<Rightarrow> rat rational_estate \<Rightarrow> rat rational_allocation \<Rightarrow> nat list \<Rightarrow> bool" where
  "young_consistent allocate cs est original removed \<longleftrightarrow>
     (let reduced = survivors cs removed;
          rest = re_total est - (\<Sum>i\<leftarrow>removed. share_of original (cs ! i))
      in reduced \<noteq> [] \<longrightarrow> 0 < rest \<longrightarrow>
           (\<forall>alloc. allocate reduced \<lparr>re_total = rest, re_unit = re_unit est\<rparr> = Inr alloc \<longrightarrow>
              (\<forall>c \<in> set reduced. share_of alloc c = share_of original c)))"

lemma rational_survivors_loop:
  assumes "covers original cs" and "covers alloc cs"
  shows "\<exists>outcome. rloop (rational_survivor ids original alloc) complexity cs = Inr outcome
    \<and> (case outcome of
         Inl (v, _) \<Rightarrow> v \<noteq> RationalAdmissible \<and> \<not> (\<forall>c \<in> set cs. share_of alloc c = share_of original c)
       | Inr complexity' \<Rightarrow> (\<forall>c \<in> set cs. share_of alloc c = share_of original c)
           \<and> coalitions_tested complexity' = coalitions_tested complexity)"
  using assms
proof (induction cs arbitrary: complexity)
  case (Cons c cs)
  let ?counted = "complexity\<lparr>survivor_checks := survivor_checks complexity + 1\<rparr>"
  from Cons.prems obtain a b where ab: "bm_get original (rc_id c) = Some a" "bm_get alloc (rc_id c) = Some b"
    by (auto simp: covers_def)
  have step: "rational_survivor ids original alloc complexity c
      = (if a \<noteq> b then Inr (Inl (RationalRejected \<lparr>rx_removed = ids, rx_survivor = rc_id c,
           rx_original_share = a, rx_reduced_share = b\<rparr>, ?counted)) else Inr (Inr ?counted))"
    by (simp add: rational_survivor_def rational_share_def ab Let_def)
  have shares: "share_of original c = a" "share_of alloc c = b" by (simp_all add: share_of_def ab)
  show ?case
  proof (cases "a = b")
    case True
    have "covers original cs" "covers alloc cs" using Cons.prems by (auto simp: covers_def)
    from Cons.IH [OF this, of ?counted] obtain outcome where
      "rloop (rational_survivor ids original alloc) ?counted cs = Inr outcome"
      "case outcome of
         Inl (v, _) \<Rightarrow> v \<noteq> RationalAdmissible \<and> \<not> (\<forall>c \<in> set cs. share_of alloc c = share_of original c)
       | Inr complexity' \<Rightarrow> (\<forall>c \<in> set cs. share_of alloc c = share_of original c)
           \<and> coalitions_tested complexity' = coalitions_tested ?counted" by blast
    then show ?thesis using True by (intro exI [of _ outcome]) (cases outcome; auto simp: step shares)
  qed (simp add: step shares)
qed simp

lemma rational_reduction_cases:
  assumes S: "set S \<subseteq> {..<length cs}" and original: "covers original cs"
    and exact: "ratio_exact q" and range: "removal_in_range cs est original S"
    and total: "\<And>cs' est'. set cs' \<subseteq> set cs \<Longrightarrow> \<exists>alloc. allocate cs' est' = Inr alloc \<and> covers alloc cs'"
  shows "\<exists>outcome. rational_reduction q allocate cs est original complexity S = Inr outcome
    \<and> (case outcome of
         Inl (v, _) \<Rightarrow> v \<noteq> RationalAdmissible \<and> \<not> young_consistent allocate cs est original S
       | Inr complexity' \<Rightarrow> young_consistent allocate cs est original S
           \<and> coalitions_tested complexity' = Suc (coalitions_tested complexity))"
proof -
  let ?removed = "map ((!) cs) S" and ?reduced = "survivors cs S"
  let ?rest = "re_total est - (\<Sum>i\<leftarrow>S. share_of original (cs ! i))"
  let ?counted = "complexity\<lparr>coalitions_tested := coalitions_tested complexity + 1\<rparr>"
  have sub: "set ?reduced \<subseteq> set cs" by (auto simp: survivors_def dest: in_set_nthsD)
  have sum: "rfold (\<lambda>acc c. rbind (raise (rational_share original (rc_id c) ctx)) (ratio_add q acc)) z xs
      = Inr (z + (\<Sum>c\<leftarrow>xs. share_of original c))"
    if "set xs \<subseteq> set cs" "sums_in_range z (map (share_of original) xs)" for xs z ctx
    using that
  proof (induction xs arbitrary: z)
    case (Cons x xs)
    then obtain a where a: "bm_get original (rc_id x) = Some a" using original by (auto simp: covers_def)
    then have "share_of original x = a" by (simp add: share_of_def)
    with Cons a exact show ?case by (simp add: rational_share_def ratio_exact_def raise_Inr add.assoc)
  qed simp
  have removed: "set ?removed \<subseteq> set cs" using S by (auto intro!: nth_mem)
  have safe: "sums_in_range 0 (map (share_of original) ?removed)" "ratio_safe (re_total est) (\<Sum>c\<leftarrow>?removed. share_of original c)"
    using range by (simp_all add: removal_in_range_def Let_def comp_def)
  have q: "ratio_zero q = 0" "\<And>a b. ratio_le q a b \<longleftrightarrow> a \<le> b" "ratio_sub q (re_total est) (\<Sum>c\<leftarrow>?removed. share_of original c) = Inr ?rest"
    using exact safe(2) by (simp_all add: ratio_exact_def comp_def)
  have run: "rational_reduction q allocate cs est original complexity S
      = (if ?reduced = [] \<or> ?rest \<le> 0 then Inr (Inr ?counted)
         else rbind (raise (allocate ?reduced \<lparr>re_total = ?rest, re_unit = re_unit est\<rparr>)) (\<lambda>alloc.
                raise (rloop (rational_survivor (map rc_id ?removed) original alloc) ?counted ?reduced)))"
    unfolding rational_reduction_def rmap_index [OF S] removed_lookup_eq [OF S] surviving_eq rbind.simps q(1)
      sum [OF removed safe(1)] add_0 q(3)
    by (simp add: rational_estate_new_def Let_def q(1,2) comp_def)
  show ?thesis
  proof (cases "?reduced = [] \<or> ?rest \<le> 0")
    case True
    then show ?thesis unfolding run by (auto simp: young_consistent_def Let_def)
  next
    case False
    obtain alloc where alloc: "allocate ?reduced \<lparr>re_total = ?rest, re_unit = re_unit est\<rparr> = Inr alloc" "covers alloc ?reduced"
      using total [OF sub] by blast
    have "covers original ?reduced" using original sub by (auto simp: covers_def)
    from rational_survivors_loop [OF this alloc(2), of "map rc_id ?removed" ?counted] obtain outcome where
      o1: "rloop (rational_survivor (map rc_id ?removed) original alloc) ?counted ?reduced = Inr outcome"
      "case outcome of
         Inl (v, _) \<Rightarrow> v \<noteq> RationalAdmissible \<and> \<not> (\<forall>c \<in> set ?reduced. share_of alloc c = share_of original c)
       | Inr complexity' \<Rightarrow> (\<forall>c \<in> set ?reduced. share_of alloc c = share_of original c)
           \<and> coalitions_tested complexity' = coalitions_tested ?counted" by blast
    have young: "young_consistent allocate cs est original S \<longleftrightarrow> (\<forall>c \<in> set ?reduced. share_of alloc c = share_of original c)"
      using False alloc(1) by (auto simp: young_consistent_def Let_def)
    show ?thesis unfolding run using False o1 by (auto simp: alloc(1) young split: sum.splits)
  qed
qed

lemma rloop_decides:
  assumes "\<And>x s. x \<in> set xs \<Longrightarrow> \<exists>outcome. f s x = Inr outcome
    \<and> (case outcome of Inl r \<Rightarrow> Q r \<and> \<not> P x | Inr t \<Rightarrow> P x \<and> g t = Suc (g s))"
  shows "\<exists>outcome. rloop f s xs = Inr outcome
    \<and> (case outcome of Inl r \<Rightarrow> Q r \<and> \<not> (\<forall>x \<in> set xs. P x) | Inr t \<Rightarrow> (\<forall>x \<in> set xs. P x) \<and> g t = g s + length xs)"
  using assms
proof (induction xs arbitrary: s)
  case (Cons x xs)
  from Cons.prems [of x s] obtain o1 where o1: "f s x = Inr o1"
    "case o1 of Inl r \<Rightarrow> Q r \<and> \<not> P x | Inr t \<Rightarrow> P x \<and> g t = Suc (g s)" by auto
  show ?case
  proof (cases o1)
    case (Inr t)
    have "\<exists>outcome. rloop f t xs = Inr outcome
      \<and> (case outcome of Inl r \<Rightarrow> Q r \<and> \<not> (\<forall>x \<in> set xs. P x) | Inr u \<Rightarrow> (\<forall>x \<in> set xs. P x) \<and> g u = g t + length xs)"
      by (rule Cons.IH) (rule Cons.prems, simp)
    then obtain outcome where "rloop f t xs = Inr outcome"
      "case outcome of Inl r \<Rightarrow> Q r \<and> \<not> (\<forall>x \<in> set xs. P x) | Inr u \<Rightarrow> (\<forall>x \<in> set xs. P x) \<and> g u = g t + length xs" by blast
    with o1 Inr show ?thesis by (intro exI [of _ outcome]) (cases outcome; auto)
  qed (use o1 in auto)
qed simp

section \<open>The check over doubles\<close>

definition survivor_shares :: "allocation \<Rightarrow> claim list \<Rightarrow> f64 list" where
  "survivor_shares original reduced = map (\<lambda>c. the (bm_get original (clm_id c))) reduced"

definition reduced_problem :: "estate \<Rightarrow> allocation \<Rightarrow> claim list \<Rightarrow> estate" where
  "reduced_problem est original reduced
     = \<lparr>total = f64_sum (survivor_shares original reduced), unit_name = unit_name est\<rparr>"

text \<open>The test of one coalition: nothing to test, or the survivors keep their shares up to rounding.\<close>

definition reduction_agrees :: "rule \<Rightarrow> claim list \<Rightarrow> estate \<Rightarrow> allocation \<Rightarrow> nat list \<Rightarrow> bool" where
  "reduction_agrees r cs est original S \<longleftrightarrow>
     (let reduced = survivors cs S; problem = reduced_problem est original reduced in
      reduced = [] \<or> f64_le (total problem) EPSILON
      \<or> (\<exists>alloc. evaluate_rule r reduced problem = Inr alloc
           \<and> (\<forall>c \<in> set reduced. \<exists>a b. bm_get original (clm_id c) = Some a \<and> bm_get alloc (clm_id c) = Some b
                \<and> \<not> shares_differ a b)))"

definition genuine_witness :: "rule \<Rightarrow> claim list \<Rightarrow> estate \<Rightarrow> allocation \<Rightarrow> nat list \<Rightarrow> counterexample \<Rightarrow> bool" where
  "genuine_witness r cs est original S cx \<longleftrightarrow>
     original_claims cx = cs \<and> original_estate cx = est \<and> original_allocation cx = original
     \<and> perturbed_claims cx = survivors cs S \<and> perturbed_estate cx = reduced_problem est original (survivors cs S)
     \<and> evaluate_rule r (survivors cs S) (perturbed_estate cx) = Inr (perturbed_allocation cx)
     \<and> (\<exists>c \<in> set (survivors cs S). \<exists>a b. bm_get original (clm_id c) = Some a
          \<and> bm_get (perturbed_allocation cx) (clm_id c) = Some b \<and> shares_differ a b)"

lemma survivor_check_Inr:
  assumes "survivor_check reject original alloc cx c = Inr outcome"
  shows "\<exists>a b. bm_get original (clm_id c) = Some a \<and> bm_get alloc (clm_id c) = Some b
    \<and> outcome = (if shares_differ a b
         then Inl (reject (cx\<lparr>survivor_checks := survivor_checks cx + 1\<rparr>) c a b, cx\<lparr>survivor_checks := survivor_checks cx + 1\<rparr>)
         else Inr (cx\<lparr>survivor_checks := survivor_checks cx + 1\<rparr>))"
  using assms by (auto simp: survivor_check_def share_for_def Let_def result_simps split: if_splits)

lemma share_list: "rmap (\<lambda>c. share_for original (clm_id c) ctx) cs = Inr shares \<Longrightarrow> shares = survivor_shares original cs"
proof (induction cs arbitrary: shares)
  case (Cons c cs)
  then obtain a rest where "bm_get original (clm_id c) = Some a" "rmap (\<lambda>c. share_for original (clm_id c) ctx) cs = Inr rest"
      "shares = a # rest"
    by (auto simp: share_for_def result_simps)
  with Cons.IH [of rest] show ?case by (simp add: survivor_shares_def)
qed (simp add: survivor_shares_def)

lemma evaluate_reduction_Inr:
  assumes S: "set S \<subseteq> {..<length cs}" and run: "evaluate_reduction r cs est original axm cx S = Inr outcome"
  shows "case outcome of
      Inl (v, _) \<Rightarrow> (\<exists>w. v = Rejected axm w \<and> genuine_witness r cs est original S w)
    | Inr cx' \<Rightarrow> reduction_agrees r cs est original S \<and> coalitions_tested cx' = Suc (coalitions_tested cx)"
proof -
  let ?reduced = "survivors cs S"
  let ?problem = "reduced_problem est original ?reduced"
  let ?counted = "cx\<lparr>coalitions_tested := coalitions_tested cx + 1\<rparr>"
  from run obtain shares where shares: "rmap (\<lambda>c. share_for original (clm_id c) ''consistency reduction surviving share'') ?reduced = Inr shares"
    and rest: "(if ?reduced = [] \<or> f64_le (f64_sum shares) EPSILON then Inr (Inr ?counted)
      else rbind (raise (estate_new (f64_sum shares) (unit_name est))) (\<lambda>reduced_estate.
           rbind (raise (evaluate_rule r ?reduced reduced_estate)) (\<lambda>reduced_alloc.
             raise (rloop (survivor_check
               (\<lambda>cx. reduction_rejection cs est original (map clm_id (map ((!) cs) S)) cx axm ?reduced reduced_estate reduced_alloc)
               original reduced_alloc) ?counted ?reduced)))) = Inr outcome"
    unfolding evaluate_reduction_def rmap_index [OF S] removed_lookup_eq [OF S] rbind.simps surviving_eq Let_def
    by (auto simp: rbind_Inr_iff raise_Inr)
  have sum: "f64_sum shares = total ?problem" by (simp add: share_list [OF shares] reduced_problem_def)
  show ?thesis
  proof (cases "?reduced = [] \<or> f64_le (f64_sum shares) EPSILON")
    case True
    with rest have "outcome = Inr ?counted" by simp
    with True show ?thesis by (auto simp: reduction_agrees_def Let_def sum)
  next
    case False
    with rest obtain alloc where alloc: "evaluate_rule r ?reduced ?problem = Inr alloc"
      and loop: "rloop (survivor_check
          (\<lambda>cx. reduction_rejection cs est original (map clm_id (map ((!) cs) S)) cx axm ?reduced ?problem alloc)
          original alloc) ?counted ?reduced = Inr outcome"
      by (auto simp: rbind_Inr_iff raise_Inr estate_new_def estate_total_new_def sum reduced_problem_def [symmetric] split: if_splits)
        (simp add: reduced_problem_def)
    show ?thesis
    proof (cases outcome)
      case (Inr cx')
      have "coalitions_tested cx' = coalitions_tested ?counted"
        by (rule rloop_keeps [OF loop [unfolded Inr]]) (auto dest!: survivor_check_Inr split: if_splits)
      moreover have "\<exists>a b. bm_get original (clm_id c) = Some a \<and> bm_get alloc (clm_id c) = Some b \<and> \<not> shares_differ a b"
        if "c \<in> set ?reduced" for c
        using rloop_continue [OF loop [unfolded Inr] that] by (auto dest!: survivor_check_Inr split: if_splits)
      ultimately show ?thesis using alloc by (auto simp: Inr reduction_agrees_def Let_def)
    next
      case (Inl vc)
      from rloop_return [OF loop [unfolded Inl]] obtain u c where c: "c \<in> set ?reduced"
        "survivor_check (\<lambda>cx. reduction_rejection cs est original (map clm_id (map ((!) cs) S)) cx axm ?reduced ?problem alloc)
          original alloc u c = Inr (Inl vc)" by blast
      from survivor_check_Inr [OF c(2)] obtain a b where ab: "bm_get original (clm_id c) = Some a" "bm_get alloc (clm_id c) = Some b"
          "shares_differ a b" "fst vc = reduction_rejection cs est original (map clm_id (map ((!) cs) S))
            (u\<lparr>survivor_checks := survivor_checks u + 1\<rparr>) axm ?reduced ?problem alloc c a b"
        by (auto split: if_splits)
      obtain w where w: "fst vc = Rejected axm w" "genuine_witness r cs est original S w"
        using ab c(1) alloc unfolding ab(4) by (auto simp: reduction_rejection_def Let_def genuine_witness_def)
      then show ?thesis by (auto simp: Inl case_prod_unfold)
    qed
  qed
qed

section \<open>Rules that treat each claim by itself\<close>

definition unit_share :: "f64 \<Rightarrow> bool" where
  "unit_share x \<longleftrightarrow> is_finite x \<and> 0 \<le> f64_val x \<and> f64_val x \<le> 1"

lemma f64_add_bounded:
  assumes "is_finite s" "0 \<le> f64_val s" "f64_val s \<le> of_nat k" and "unit_share x" and "Suc k < 2 ^ 53"
  shows "is_finite (f64_add s x) \<and> 0 \<le> f64_val (f64_add s x) \<and> f64_val (f64_add s x) \<le> of_nat (Suc k)"
proof -
  have rep: "representable (of_nat (Suc k))"
    using f64_of_nat_exact [of "Suc k"] assms(5) by (simp only: representable_def f64_of_nat_def)
  have bound: "is_finite (round64 q) \<and> 0 \<le> f64_val (round64 q) \<and> f64_val (round64 q) \<le> of_nat (Suc k)"
    if q: "0 \<le> q" "q \<le> of_nat (Suc k)" for q
  proof (cases "q = 0")
    case False
    then have "f64_le (round64 q) (Num (of_nat (Suc k)))" using round_f64_le [OF _ q(2) rep] q(1) by simp
    moreover have "nonneg64 (round64 q)" by (rule nonneg64_round [OF q(1)])
    ultimately show ?thesis by (cases "round64 q") (auto simp: f64_le_def)
  qed (simp add: round64_def)
  show ?thesis using assms bound by (cases s; cases x) (auto simp: unit_share_def)
qed

lemma f64_sum_bounded:
  assumes "\<And>x. x \<in> set xs \<Longrightarrow> unit_share x" and "length xs < 2 ^ 53"
  shows "is_finite (f64_sum xs)"
proof -
  have "is_finite (foldl f64_add s ys)" if "is_finite s" "0 \<le> f64_val s" "f64_val s \<le> of_nat k"
      "\<And>x. x \<in> set ys \<Longrightarrow> unit_share x" "k + length ys < 2 ^ 53" for s ys k
    using that
  proof (induction ys arbitrary: s k)
    case (Cons y ys)
    have "is_finite (f64_add s y) \<and> 0 \<le> f64_val (f64_add s y) \<and> f64_val (f64_add s y) \<le> of_nat (Suc k)"
      by (rule f64_add_bounded) (use Cons.prems in auto)
    with Cons.IH [of "f64_add s y" "Suc k"] Cons.prems show ?case by auto
  qed simp
  from this [of "Zero True" 0 xs] assms show ?thesis by (simp add: f64_sum_def)
qed

lemma same_shares_agree: "is_finite a \<Longrightarrow> \<not> shares_differ a a"
proof -
  let ?m = "f64_mul EPSILON (f64_add (f64_abs a) (f64_abs a))"
  assume "is_finite a"
  then have "f64_abs (f64_sub a a) = Zero False" by (cases a) (simp_all add: f64_sub_def round64_def)
  moreover have "nonneg64 ?m \<or> is_nan ?m"
  proof -
    have sum: "nonneg64 (f64_add (f64_abs a) (f64_abs a))"
      using \<open>is_finite a\<close> by (cases a) (auto intro: nonneg64_round)
    obtain e where e: "EPSILON = Num e" using EPSILON_between by blast
    have "0 < e" using EPSILON_nonneg unfolding e by simp
    then show ?thesis unfolding e using sum
      by (cases "f64_add (f64_abs a) (f64_abs a)") (auto intro: nonneg64_round)
  qed
  moreover have "\<not> f64_lt (f64_add EPSILON ?m) (Zero False)" if "nonneg64 ?m"
    using nonneg64_zero_le [OF nonneg64_add [OF EPSILON_nonneg that]] by (simp add: f64_lt_def)
  moreover have "\<not> f64_lt (f64_add EPSILON ?m) (Zero False)" if "is_nan ?m"
  proof -
    have "?m = NaN" using that by (cases ?m) simp_all
    moreover have "f64_add x NaN = NaN" for x by (cases x) simp_all
    ultimately have "f64_add EPSILON ?m = NaN" by simp
    then show ?thesis by (simp add: f64_lt_def f64_le_def)
  qed
  ultimately show ?thesis unfolding shares_differ_def by (elim disjE) simp_all
qed

definition share_rule :: "(claim \<Rightarrow> f64) \<Rightarrow> rule \<Rightarrow> bool" where
  "share_rule h r \<longleftrightarrow> \<not> requires_feasible_allocation (rule_payload r)
     \<and> (\<forall>cs est. spec_allocate (rule_payload r) cs est
           = rbind (validate_all cs) (\<lambda>_. Inr (collect_allocation (map (\<lambda>c. (clm_id c, h c)) cs))))"

lemma agent_rules_share:
  "share_rule permission_share claude_agent_sdk_permissions_rule"
  "share_rule hook_share claude_agent_sdk_hooks_rule"
  by (simp_all add: share_rule_def claude_agent_sdk_permissions_rule_def claude_agent_sdk_hooks_rule_def spec_allocate_def
      custom_allocate_def claude_agent_sdk_permissions_allocate_def claude_agent_sdk_hooks_allocate_def)

lemma share_rule_evaluates:
  assumes r: "share_rule h r" and valid: "validate_all cs = Inr ()"
  shows "evaluate_rule r cs est = Inr alloc \<longleftrightarrow>
    (\<forall>c \<in> set cs. is_finite (h c) \<and> \<not> f64_lt (h c) (Zero False)) \<and> alloc = collect_allocation (map (\<lambda>c. (clm_id c, h c)) cs)"
proof -
  let ?alloc = "collect_allocation (map (\<lambda>c. (clm_id c, h c)) cs)"
  have dist: "distinct (map fst (map (\<lambda>c. (clm_id c, h c)) cs))"
    using valid by (simp add: comp_def validate_all_def validate_all_from_Inr)
  have "snd ` set ?alloc = h ` set cs"
  proof -
    have "mset (bm_values ?alloc) = mset (map snd (map (\<lambda>c. (clm_id c, h c)) cs))" using sum_values_collect [OF dist] by metis
    then have "set (bm_values ?alloc) = set (map snd (map (\<lambda>c. (clm_id c, h c)) cs))" by (rule mset_eq_setD)
    then show ?thesis by (simp add: image_image)
  qed
  moreover have "fst ` set ?alloc = clm_id ` set cs" by (simp add: fst_collect image_image)
  ultimately have "allocation_validate ?alloc cs = Inr () \<longleftrightarrow> (\<forall>c \<in> set cs. is_finite (h c) \<and> \<not> f64_lt (h c) (Zero False))"
    unfolding allocation_validate_Inr by auto
  then show ?thesis
    using r valid by (auto simp: evaluate_rule_def rule_allocate_def share_rule_def valid_allocation_new_def result_simps)
qed

lemma valid_sublist: "validate_all cs = Inr () \<Longrightarrow> validate_all (nths cs A) = Inr ()"
  by (auto simp: validate_all_def validate_all_from_Inr nths_map [symmetric] distinct_nthsI dest: in_set_nthsD)

lemma collect_share:
  assumes "validate_all cs = Inr ()" and "c \<in> set cs"
  shows "bm_get (collect_allocation (map (\<lambda>c. (clm_id c, h c)) cs)) (clm_id c) = Some (h c)"
proof -
  have "distinct (map fst (map (\<lambda>c. (clm_id c, h c)) cs))"
    using assms(1) by (simp add: comp_def validate_all_def validate_all_from_Inr)
  then show ?thesis using assms(2) by (simp add: get_collect map_of_eq_Some_iff)
qed

lemma share_rule_reduction:
  assumes r: "share_rule h r" and valid: "validate_all cs = Inr ()" and original: "evaluate_rule r cs est = Inr original"
    and units: "\<And>c. c \<in> set cs \<Longrightarrow> is_finite (h c) \<Longrightarrow> unit_share (h c)" and size: "length cs < 2 ^ 53"
    and S: "set S \<subseteq> {..<length cs}"
  shows "\<exists>cx'. evaluate_reduction r cs est original axm cx S = Inr (Inr cx')"
proof -
  let ?reduced = "survivors cs S"
  have sub: "set ?reduced \<subseteq> set cs" by (auto simp: survivors_def dest: in_set_nthsD)
  have fin: "is_finite (h c)" "\<not> f64_lt (h c) (Zero False)" if "c \<in> set cs" for c
    using original that unfolding share_rule_evaluates [OF r valid] by auto
  have get: "bm_get original (clm_id c) = Some (h c)" if "c \<in> set cs" for c
    using original collect_share [OF valid that] unfolding share_rule_evaluates [OF r valid] by simp
  have shares: "rmap (\<lambda>c. share_for original (clm_id c) ctx) xs = Inr (map h xs)" if "set xs \<subseteq> set cs" for xs ctx
    using that by (induction xs) (auto simp: share_for_def get)
  have "length ?reduced \<le> length cs" unfolding survivors_def by (simp add: length_nths) (metis (no_types, lifting) card_lessThan card_mono finite_lessThan lessThan_def mem_Collect_eq subsetI)
  then have sum: "is_finite (f64_sum (map h ?reduced))" using units fin sub size by (intro f64_sum_bounded) auto
  show ?thesis
  proof (cases "?reduced = [] \<or> f64_le (f64_sum (map h ?reduced)) EPSILON")
    case True
    then show ?thesis unfolding evaluate_reduction_def
      by (simp add: rmap_index [OF S] removed_lookup_eq [OF S] surviving_eq shares [OF sub] Let_def)
  next
    case False
    have "\<not> f64_le (f64_sum (map h ?reduced)) (Zero False)"
      using False nonneg64_zero_le [OF EPSILON_nonneg] f64_le_trans by blast
    then have problem: "estate_new (f64_sum (map h ?reduced)) (unit_name est)
        = Inr \<lparr>total = f64_sum (map h ?reduced), unit_name = unit_name est\<rparr>"
      using sum by (simp add: estate_new_def estate_total_new_def)
    have vr: "validate_all ?reduced = Inr ()" unfolding survivors_def by (rule valid_sublist [OF valid])
    define alloc where "alloc = collect_allocation (map (\<lambda>c. (clm_id c, h c)) ?reduced)"
    have alloc: "evaluate_rule r ?reduced est' = Inr alloc" for est'
      unfolding share_rule_evaluates [OF r vr] using fin sub by (auto simp: alloc_def)
    have got: "bm_get alloc (clm_id c) = Some (h c)" if "c \<in> set ?reduced" for c
      unfolding alloc_def by (rule collect_share [OF vr that])
    have "\<exists>t. rloop (survivor_check reject original alloc) s xs = Inr (Inr t)" if "set xs \<subseteq> set ?reduced" for reject s xs
      using that
    proof (induction xs arbitrary: s)
      case (Cons c xs)
      then have c: "c \<in> set ?reduced" "c \<in> set cs" using sub by auto
      have "survivor_check reject original alloc s c = Inr (Inr (s\<lparr>survivor_checks := survivor_checks s + 1\<rparr>))"
        using same_shares_agree [OF fin(1) [OF c(2)]] by (simp add: survivor_check_def share_for_def get [OF c(2)] got [OF c(1)] Let_def)
      with Cons show ?case by simp
    qed simp
    from this [OF subset_refl] show ?thesis unfolding evaluate_reduction_def using False
      by (simp add: rmap_index [OF S] removed_lookup_eq [OF S] surviving_eq shares [OF sub] Let_def problem alloc result_simps raise_Inr)
  qed
qed

section \<open>Properties\<close>

text \<open>C35: for every rule that gives each claimant of every sub-batch a share, and as long as no sum or
  difference of a removal overflows the 64-bit integers of a ratio, the exact check returns a
  verdict. The verdict is admissible exactly when on every coalition of the tested sizes that leaves a
  claimant and a positive estate the rule gives the survivors what they had; the other coalitions
  are skipped, as in the code. An admissible run counts each coalition once.\<close>

theorem rational_consistency_decides:
  assumes gate: "consistency_gate options (length cs) = Inr ()"
    and total: "\<And>cs' est'. set cs' \<subseteq> set cs \<Longrightarrow> \<exists>alloc. allocate cs' est' = Inr alloc \<and> covers alloc cs'"
    and exact: "ratio_exact q" and original: "allocate cs est = Inr original"
    and range: "\<forall>S \<in> set (coalition_list (length cs) (fo_mode options)). removal_in_range cs est original S"
  shows "\<exists>audit. check_full_consistency_rational q allocate cs est options = Inr audit
    \<and> (ra_verdict audit = RationalAdmissible
        \<longleftrightarrow> (\<forall>S. sorted_wrt (<) S \<and> set S \<subseteq> {..<length cs} \<and> S \<noteq> []
              \<and> length S \<le> max_removed_of (length cs) (fo_mode options) \<longrightarrow> young_consistent allocate cs est original S))
    \<and> (ra_verdict audit = RationalAdmissible
        \<longrightarrow> coalitions_tested (ra_complexity audit) = length (coalition_list (length cs) (fo_mode options)))"
proof -
  let ?L = "coalition_list (length cs) (fo_mode options)"
  have covered: "covers original cs" using total [OF subset_refl, of est] original by auto
  let ?body = "rational_reduction q allocate cs est original"
  let ?start = "\<lparr>coalitions_tested = 0, survivor_checks = 0\<rparr>"
  have "\<exists>outcome. rloop ?body ?start ?L = Inr outcome
      \<and> (case outcome of
           Inl r \<Rightarrow> fst r \<noteq> RationalAdmissible \<and> \<not> (\<forall>S \<in> set ?L. young_consistent allocate cs est original S)
         | Inr complexity \<Rightarrow> (\<forall>S \<in> set ?L. young_consistent allocate cs est original S)
             \<and> coalitions_tested complexity = coalitions_tested ?start + length ?L)"
  proof (rule rloop_decides)
    fix S complexity
    assume S: "S \<in> set ?L"
    from rational_reduction_cases [where allocate = allocate and complexity = complexity,
      OF coalition_indices [OF S] covered exact range [rule_format, OF S] total]
    show "\<exists>outcome. ?body complexity S = Inr outcome
      \<and> (case outcome of Inl r \<Rightarrow> fst r \<noteq> RationalAdmissible \<and> \<not> young_consistent allocate cs est original S
         | Inr t \<Rightarrow> young_consistent allocate cs est original S \<and> coalitions_tested t = Suc (coalitions_tested complexity))"
      unfolding case_prod_unfold .
  qed
  then obtain outcome where out: "rloop ?body ?start ?L = Inr outcome"
    "case outcome of
       Inl r \<Rightarrow> fst r \<noteq> RationalAdmissible \<and> \<not> (\<forall>S \<in> set ?L. young_consistent allocate cs est original S)
     | Inr complexity \<Rightarrow> (\<forall>S \<in> set ?L. young_consistent allocate cs est original S)
         \<and> coalitions_tested complexity = coalitions_tested ?start + length ?L" by blast
  have run: "check_full_consistency_rational q allocate cs est options
      = Inr (case outcome of
            Inl (v, complexity) \<Rightarrow> \<lparr>ra_verdict = v, ra_complexity = complexity\<rparr>
          | Inr complexity \<Rightarrow> \<lparr>ra_verdict = RationalAdmissible, ra_complexity = complexity\<rparr>)"
    by (simp add: check_full_consistency_rational_def gate original for_coalitions_eq out(1))
  have "(\<forall>S. sorted_wrt (<) S \<and> set S \<subseteq> {..<length cs} \<and> S \<noteq> []
        \<and> length S \<le> max_removed_of (length cs) (fo_mode options) \<longrightarrow> young_consistent allocate cs est original S)
      \<longleftrightarrow> (\<forall>S \<in> set ?L. young_consistent allocate cs est original S)"
    by (simp add: set_coalition_list)
  then show ?thesis using out(2) unfolding run by (cases outcome) auto
qed

definition strength_rule :: "rat rational_rule" where
  "strength_rule cs est = Inr (fold (\<lambda>c. bm_insert (rc_id c) (rc_strength c)) cs [])"

theorem rational_consistency_decides_witness:
  "\<exists>audit. check_full_consistency_rational checked_ratio strength_rule
      [\<lparr>rc_id = ''a'', rc_strength = 1\<rparr>, \<lparr>rc_id = ''b'', rc_strength = 2\<rparr>] \<lparr>re_total = 3, re_unit = []\<rparr> default_consistency_options
    = Inr audit \<and> ra_verdict audit = RationalAdmissible"
proof -
  let ?cs = "[\<lparr>rc_id = ''a'', rc_strength = 1\<rparr>, \<lparr>rc_id = ''b'', rc_strength = 2 :: rat\<rparr>]"
  have get: "bm_get (fold (\<lambda>c. bm_insert (rc_id c) (rc_strength c)) cs m) k
      = (if k \<in> rc_id ` set cs then Some (if k = ''a'' then 1 else 2) else bm_get m k)" if "set cs \<subseteq> set ?cs" for cs m k
    using that by (induction cs arbitrary: m) auto
  have total: "\<exists>alloc. strength_rule cs est = Inr alloc \<and> covers alloc cs" if "set cs \<subseteq> set ?cs" for cs est
    using get [OF that] by (auto simp: strength_rule_def covers_def)
  have gate: "consistency_gate default_consistency_options (length ?cs) = Inr ()"
    by (simp add: consistency_gate_def default_consistency_options_def validate_full_complexity_gate_def
        FULL_CONSISTENCY_WARN_CLAIMANTS_def)
  have shares: "share_of alloc c = (if rc_id c = ''a'' then 1 else 2)"
    if "strength_rule cs est = Inr alloc" "set cs \<subseteq> set ?cs" "c \<in> set cs" for cs est alloc c
  proof -
    have "rc_id c \<in> rc_id ` set cs" using that(3) by simp
    with get [OF that(2), of "[]" "rc_id c"] that(1) show ?thesis by (simp add: strength_rule_def share_of_def)
  qed
  have young: "young_consistent strength_rule ?cs \<lparr>re_total = 3, re_unit = []\<rparr> original S"
    if out: "strength_rule ?cs \<lparr>re_total = 3, re_unit = []\<rparr> = Inr original" for original S
  proof -
    have sub: "set (survivors ?cs S) \<subseteq> set ?cs" unfolding survivors_def by (rule set_nths_subset)
    show ?thesis unfolding young_consistent_def Let_def
    proof (intro impI allI ballI)
      fix alloc c
      assume "strength_rule (survivors ?cs S) \<lparr>re_total = re_total \<lparr>re_total = 3, re_unit = []\<rparr> - (\<Sum>i\<leftarrow>S. share_of original (?cs ! i)),
          re_unit = re_unit \<lparr>re_total = 3, re_unit = []\<rparr>\<rparr> = Inr alloc" and c: "c \<in> set (survivors ?cs S)"
      from shares [OF this(1) sub c] shares [OF out subset_refl subsetD [OF sub c]]
      show "share_of alloc c = share_of original c" by simp
    qed
  qed
  let ?est = "\<lparr>re_total = 3 :: rat, re_unit = []\<rparr>"
  obtain original where original: "strength_rule ?cs ?est = Inr original" by (simp add: strength_rule_def)
  have "share_of original \<lparr>rc_id = ''a'', rc_strength = 1\<rparr> = 1" "share_of original \<lparr>rc_id = ''b'', rc_strength = 2\<rparr> = 2"
    using shares [OF original subset_refl] by simp_all
  moreover have "ratio_safe 0 1" "ratio_safe 0 2" "ratio_safe 3 1" "ratio_safe 3 2"
    using ratio_safe_int [of 0 1] ratio_safe_int [of 0 2] ratio_safe_int [of 3 1] ratio_safe_int [of 3 2] by simp_all
  moreover have "set (coalition_list (length ?cs) (fo_mode default_consistency_options)) \<subseteq> {[0], [1]}"
    by (auto simp: set_coalition_list default_consistency_options_def max_removed_of_def le_Suc_eq length_Suc_conv less_Suc_eq)
  ultimately have range: "\<forall>S \<in> set (coalition_list (length ?cs) (fo_mode default_consistency_options)). removal_in_range ?cs ?est original S"
    by (auto simp: removal_in_range_def)
  from rational_consistency_decides [where allocate = strength_rule, OF gate total checked_ratio_exact original range] show ?thesis
    using young [OF original] by blast
qed


text \<open>C36: what the verdict of the check over doubles means. Admissible counts all coalitions of the tested
  sizes, and on each the reduced problem hands every survivor its share up to the tolerance; the
  reduced estate is the sum of the survivors' shares. A rejection carries a coalition, its reduced
  problem, the rule's answer to it and a survivor whose share moved.\<close>

theorem consistency_audit_meaning:
  assumes run: "check_full_consistency_audit r cs est options = Inr audit"
  shows "\<exists>original. evaluate_rule r cs est = Inr original
    \<and> (case fa_verdict audit of
         Admissible axm n \<Rightarrow> axm = axiom_label (fo_mode options) \<and> n = coalitions_tested (fa_complexity audit)
           \<and> n = length (coalition_list (length cs) (fo_mode options))
           \<and> (\<forall>S \<in> set (coalition_list (length cs) (fo_mode options)). reduction_agrees r cs est original S)
       | Rejected axm cx \<Rightarrow> axm = axiom_label (fo_mode options)
           \<and> (\<exists>S \<in> set (coalition_list (length cs) (fo_mode options)). genuine_witness r cs est original S cx))"
proof -
  let ?L = "coalition_list (length cs) (fo_mode options)" and ?axm = "axiom_label (fo_mode options)"
  let ?start = "\<lparr>coalitions_tested = 0, survivor_checks = 0\<rparr>"
  from run obtain original outcome where original: "evaluate_rule r cs est = Inr original"
    and loop: "rloop (evaluate_reduction r cs est original ?axm) ?start ?L = Inr outcome"
    and audit: "audit = (case outcome of
        Inl (v, complexity) \<Rightarrow> \<lparr>fa_verdict = v, fa_complexity = complexity\<rparr>
      | Inr complexity \<Rightarrow> \<lparr>fa_verdict = Admissible ?axm (coalitions_tested complexity), fa_complexity = complexity\<rparr>)"
    unfolding check_full_consistency_audit_def check_consistency_with_mode_def for_coalitions_eq
    by (auto simp: result_simps)
  show ?thesis
  proof (cases outcome)
    case (Inr cx')
    have "coalitions_tested cx' = coalitions_tested ?start + length ?L"
      by (rule rloop_measure [OF loop [unfolded Inr]]) (auto dest!: evaluate_reduction_Inr [OF coalition_indices])
    moreover have "reduction_agrees r cs est original S" if "S \<in> set ?L" for S
      using rloop_continue [OF loop [unfolded Inr] that] evaluate_reduction_Inr [OF coalition_indices [OF that]] by fastforce
    ultimately show ?thesis using original by (simp add: audit Inr)
  next
    case (Inl vc)
    from rloop_return [OF loop [unfolded Inl]] obtain u S where S: "S \<in> set ?L"
      "evaluate_reduction r cs est original ?axm u S = Inr (Inl vc)" by blast
    from evaluate_reduction_Inr [OF coalition_indices [OF S(1)] S(2)] obtain w where
      "fst vc = Rejected ?axm w" "genuine_witness r cs est original S w" by (auto simp: case_prod_unfold)
    with S(1) original show ?thesis by (auto simp: audit Inl case_prod_unfold)
  qed
qed

text \<open>The agent permission and hook rules, and every declarative rule whose share depends on the claim
  alone and lies between zero and one, are admitted by the consistency check on every batch they can
  be evaluated on.\<close>

lemma share_rules_consistent:
  assumes r: "share_rule h r" and valid: "validate_all cs = Inr ()" and original: "evaluate_rule r cs est = Inr original"
    and units: "\<And>c. c \<in> set cs \<Longrightarrow> is_finite (h c) \<Longrightarrow> unit_share (h c)" and size: "length cs < 2 ^ 53"
    and gate: "consistency_gate options (length cs) = Inr ()"
  shows "\<exists>audit. check_full_consistency_audit r cs est options = Inr audit
    \<and> fa_verdict audit = Admissible (axiom_label (fo_mode options)) (length (coalition_list (length cs) (fo_mode options)))"
proof -
  let ?L = "coalition_list (length cs) (fo_mode options)" and ?axm = "axiom_label (fo_mode options)"
  have "\<exists>outcome. rloop (evaluate_reduction r cs est original ?axm) s ?L = Inr outcome
      \<and> (case outcome of Inl v \<Rightarrow> False \<and> \<not> (\<forall>S \<in> set ?L. True) | Inr t \<Rightarrow> (\<forall>S \<in> set ?L. True)
           \<and> coalitions_tested t = coalitions_tested s + length ?L)" for s
  proof (rule rloop_decides)
    fix S cx
    assume S: "S \<in> set ?L"
    obtain cx' where cx': "evaluate_reduction r cs est original ?axm cx S = Inr (Inr cx')"
      using share_rule_reduction [OF r valid original units size coalition_indices [OF S]] by blast
    with evaluate_reduction_Inr [OF coalition_indices [OF S] cx']
    show "\<exists>outcome. evaluate_reduction r cs est original ?axm cx S = Inr outcome
      \<and> (case outcome of Inl v \<Rightarrow> False \<and> \<not> True | Inr t \<Rightarrow> True \<and> coalitions_tested t = Suc (coalitions_tested cx))"
      by simp
  qed
  from this [of "\<lparr>coalitions_tested = 0, survivor_checks = 0\<rparr>"] obtain outcome where
    out: "rloop (evaluate_reduction r cs est original ?axm) \<lparr>coalitions_tested = 0, survivor_checks = 0\<rparr> ?L = Inr outcome"
    "case outcome of Inl v \<Rightarrow> False \<and> \<not> (\<forall>S \<in> set ?L. True) | Inr t \<Rightarrow> (\<forall>S \<in> set ?L. True)
       \<and> coalitions_tested t = coalitions_tested \<lparr>coalitions_tested = 0, survivor_checks = 0\<rparr> + length ?L" by blast
  then obtain cx' where "outcome = Inr cx'" "coalitions_tested cx' = length ?L" by (cases outcome) auto
  with out(1) show ?thesis
    by (simp add: check_full_consistency_audit_def check_consistency_with_mode_def gate original for_coalitions_eq)
qed

lemma clamp_unit: "is_finite (clamp01 x) \<Longrightarrow> unit_share (clamp01 x)"
  by (cases x) (auto simp: clamp01_def f64_clamp_def f64_lt_def f64_le_def unit_share_def split: if_splits)

lemma agent_shares_unit: "is_finite (hook_share c) \<Longrightarrow> unit_share (hook_share c)"
  "is_finite (permission_share c) \<Longrightarrow> unit_share (permission_share c)"
  using clamp_unit by (auto simp: hook_share_def permission_share_def Let_def unit_share_def)

definition hook_batch :: "claim list" where
  "hook_batch = [\<lparr>clm_id = ''r'', clm_strength = Num 1, clm_metrics = [(''baseline_allow'', Num 1)]\<rparr>,
     \<lparr>clm_id = ''w'', clm_strength = Num 2, clm_metrics = []\<rparr>]"

lemma hook_batch_valid: "validate_all hook_batch = Inr ()"
  by (auto simp: hook_batch_def validate_all_def validate_all_from_Inr claim_validate_def validate_claim_strength_def
      validate_claimant_id_def require_def ws1_def f64_le_def)

lemma hook_batch_shares: "map hook_share hook_batch = [Num 1, Zero False]"
proof -
  have half: "round64 (1 / 2) = Num (1 / 2)" using round64_dyadic [of 1 1] by simp
  have "\<not> f64_le (Num (1 / 2)) (Zero False)" by (simp add: f64_le_def)
  moreover have "clamp01 (Num 1) = Num 1" "clamp01 (Zero False) = Zero False"
    by (simp_all add: clamp01_def f64_clamp_def f64_lt_def f64_le_def)
  ultimately show ?thesis
    by (simp add: hook_batch_def hook_share_def at_least_half_def metric_def bm_get_def half)
qed

lemma hook_batch_original:
  "evaluate_rule claude_agent_sdk_hooks_rule hook_batch est
     = Inr (collect_allocation (map (\<lambda>c. (clm_id c, hook_share c)) hook_batch))"
proof -
  have "\<forall>x \<in> set (map hook_share hook_batch). is_finite x \<and> \<not> f64_lt x (Zero False)"
    unfolding hook_batch_shares by (simp add: f64_lt_def f64_le_def)
  then show ?thesis unfolding share_rule_evaluates [OF agent_rules_share(2) hook_batch_valid] by simp
qed

lemma default_gate: "n \<le> 20 \<Longrightarrow> consistency_gate default_consistency_options n = Inr ()"
  by (simp add: consistency_gate_def default_consistency_options_def validate_full_complexity_gate_def
      FULL_CONSISTENCY_WARN_CLAIMANTS_def)

lemma share_rules_consistent_witness:
  "\<exists>audit. check_full_consistency_audit claude_agent_sdk_hooks_rule hook_batch (house 1) default_consistency_options = Inr audit
     \<and> fa_verdict audit = Admissible ''consistency (Young full sub-coalition)'' (length (coalition_list 2 Full))"
proof -
  have n: "length hook_batch = 2" by (simp add: hook_batch_def)
  have o: "fo_mode default_consistency_options = Full" by (simp add: default_consistency_options_def)
  have "\<exists>audit. check_full_consistency_audit claude_agent_sdk_hooks_rule hook_batch (house 1) default_consistency_options = Inr audit
     \<and> fa_verdict audit = Admissible (axiom_label (fo_mode default_consistency_options))
         (length (coalition_list (length hook_batch) (fo_mode default_consistency_options)))"
    by (rule share_rules_consistent [OF agent_rules_share(2) hook_batch_valid hook_batch_original agent_shares_unit(1)])
      (simp_all add: n default_gate)
  then show ?thesis by (simp add: n o axiom_label_def)
qed

theorem consistency_audit_meaning_witness:
  "\<exists>audit. check_full_consistency_audit claude_agent_sdk_hooks_rule hook_batch (house 1) (default_consistency_options\<lparr>fo_mode := Bounded 1\<rparr>)
       = Inr audit
     \<and> (case fa_verdict audit of
          Admissible axm n \<Rightarrow> n = length (coalition_list 2 (Bounded 1))
        | Rejected axm cx \<Rightarrow> original_claims cx = hook_batch)"
proof -
  let ?options = "default_consistency_options\<lparr>fo_mode := Bounded 1\<rparr>" and ?r = claude_agent_sdk_hooks_rule
  let ?original = "collect_allocation (map (\<lambda>c. (clm_id c, hook_share c)) hook_batch)"
  let ?L = "coalition_list (length hook_batch) (fo_mode ?options)"
  have size: "length hook_batch < 2 ^ 53" by (simp add: hook_batch_def)
  have "\<exists>y. evaluate_reduction ?r hook_batch (house 1) ?original (axiom_label (fo_mode ?options)) cx S = Inr y"
    if "S \<in> set ?L" for S cx
    using share_rule_reduction [OF agent_rules_share(2) hook_batch_valid hook_batch_original agent_shares_unit(1) size
        coalition_indices [OF that]] by blast
  then have "\<exists>y. rloop (evaluate_reduction ?r hook_batch (house 1) ?original (axiom_label (fo_mode ?options)))
      \<lparr>coalitions_tested = 0, survivor_checks = 0\<rparr> ?L = Inr y"
    by (rule rloop_total_state)
  then obtain v where
    "rloop (evaluate_reduction ?r hook_batch (house 1) ?original (axiom_label (fo_mode ?options)))
      \<lparr>coalitions_tested = 0, survivor_checks = 0\<rparr> ?L = Inr v" by blast
  then obtain audit where audit: "check_full_consistency_audit ?r hook_batch (house 1) ?options = Inr audit"
    by (auto simp: check_full_consistency_audit_def check_consistency_with_mode_def consistency_gate_def hook_batch_original
        for_coalitions_eq)
  have n: "length hook_batch = 2" by (simp add: hook_batch_def)
  from consistency_audit_meaning [OF audit] audit show ?thesis
    by (intro exI [of _ audit]) (auto simp: n genuine_witness_def split: verdict.splits)
qed

end
