(* ===== verification/Rule_Diagnostics.thy ===== *)
theory Rule_Diagnostics
  imports Rule_Consistency
begin

text \<open>
  Solidarity (\<open>src/src/axioms/diagnostics/solidarity.rs\<close>), monotonicity (\<open>monotonicity.rs\<close>) and
  strategyproofness (\<open>src/src/mechanism.rs\<close>) of an allocation rule. The properties say what the
  verdicts mean and that a rejection carries a genuine witness.
\<close>

section \<open>Solidarity\<close>

record claimant =
  cl_id :: string
  cl_priority_class :: string
  cl_attributes :: "(string, f64) bmap"

definition share_tolerance :: "f64 \<Rightarrow> f64 \<Rightarrow> f64" where
  "share_tolerance a b = f64_add EPSILON (f64_mul EPSILON (f64_add (f64_abs a) (f64_abs b)))"

text \<open>The members of a class whose share rose and those whose share fell.\<close>

definition classify_member ::
  "allocation \<Rightarrow> allocation \<Rightarrow> string list \<times> string list \<Rightarrow> claimant \<Rightarrow> legitimacy_error + (string list \<times> string list)" where
  "classify_member original shocked moved m =
     rbind (share_for original (cl_id m) ''solidarity baseline share'') (\<lambda>before.
     rbind (share_for shocked (cl_id m) ''solidarity shocked share'') (\<lambda>after.
       let (gained, lost) = moved; tol = share_tolerance after before in
       if f64_lt (f64_add before tol) after then Inr (gained @ [cl_id m], lost)
       else if f64_lt after (f64_sub before tol) then Inr (gained, lost @ [cl_id m])
       else Inr (gained, lost)))"

record shock_baseline =
  sb_claims :: "claim list"
  sb_estate :: estate
  sb_allocation :: allocation

definition shock_counterexample ::
  "shock_baseline \<Rightarrow> estate \<Rightarrow> allocation \<Rightarrow> message \<Rightarrow> message \<Rightarrow> counterexample" where
  "shock_counterexample base shocked_estate shocked desc viol =
     \<lparr>description = desc, original_claims = sb_claims base, original_estate = sb_estate base,
      original_allocation = sb_allocation base, perturbed_claims = sb_claims base, perturbed_estate = shocked_estate,
      perturbed_allocation = shocked, violation = viol\<rparr>"

definition changed_member ::
  "allocation \<Rightarrow> allocation \<Rightarrow> (string \<times> f64) list \<Rightarrow> claimant \<Rightarrow> legitimacy_error + (string \<times> f64) list" where
  "changed_member original shocked changed m =
     rbind (share_for original (cl_id m) ''solidarity class baseline share'') (\<lambda>before.
     rbind (share_for shocked (cl_id m) ''solidarity class shocked share'') (\<lambda>after.
       Inr (if f64_lt EPSILON before \<and> f64_lt (share_tolerance before after) (f64_abs (f64_sub before after))
            then changed @ [(cl_id m, f64_div after before)] else changed)))"

definition same_ratio :: "f64 \<Rightarrow> f64 \<Rightarrow> bool" where
  "same_ratio ratio reference \<longleftrightarrow> f64_le (f64_abs (f64_sub ratio reference)) EPSILON"

definition uneven_message :: "string \<Rightarrow> bool \<Rightarrow> (string \<times> f64) list \<Rightarrow> message" where
  "uneven_message cls is_loss changed =
     Message ''Priority class '{}' absorbed a common {} unevenly: {}''
       (AStr cls # AStr (if is_loss then ''loss'' else ''gain'') # concat (map (\<lambda>(k, ratio). [AStr k, AF64 ratio]) changed))"

definition uneven_violation :: "string \<Rightarrow> message" where
  "uneven_violation cls =
     Message ''Priority class '{}' moved in the same direction, but not by the same proportion. Solidarity requires common shocks to be shared evenly within a class.''
       [AStr cls]"

definition class_evenness_violation ::
  "shock_baseline \<Rightarrow> estate \<Rightarrow> allocation \<Rightarrow> string \<Rightarrow> claimant list \<Rightarrow> bool \<Rightarrow> legitimacy_error + counterexample option" where
  "class_evenness_violation base shocked_estate shocked cls members is_loss =
     rbind (rfold (changed_member (sb_allocation base) shocked) [] members) (\<lambda>changed.
       if length changed < 2 \<or> list_all (\<lambda>(_, ratio). same_ratio ratio (snd (hd changed))) (tl changed) then Inr None
       else Inr (Some (shock_counterexample base shocked_estate shocked (uneven_message cls is_loss changed) (uneven_violation cls))))"

definition loss_message :: "f64 \<Rightarrow> string \<Rightarrow> string list \<Rightarrow> string list \<Rightarrow> message" where
  "loss_message scale cls gained lost =
     (let percent = f64_mul (f64_sub (Num 1) scale) (Num 100) in
      if lost \<noteq> [] then
        Message ''Estate shrank by {:.0}% but in priority class '{}': {:?} gained while {:?} lost''
          [AF64 percent, AStr cls, AList gained, AList lost]
      else Message ''Estate shrank by {:.0}% but all members of priority class '{}' gained: {:?}''
             [AF64 percent, AStr cls, AList gained])"

definition gain_message :: "f64 \<Rightarrow> string \<Rightarrow> string list \<Rightarrow> string list \<Rightarrow> message" where
  "gain_message scale cls gained lost =
     (let percent = f64_mul (f64_sub scale (Num 1)) (Num 100) in
      if gained \<noteq> [] then
        Message ''Estate grew by {:.0}% but in priority class '{}': {:?} lost while {:?} gained''
          [AF64 percent, AStr cls, AList lost, AList gained]
      else Message ''Estate grew by {:.0}% but all members of priority class '{}' lost: {:?}''
             [AF64 percent, AStr cls, AList lost])"

definition accidental_winner :: "string \<Rightarrow> message" where
  "accidental_winner cls =
     Message ''Common loss produced an accidental winner in class '{}'. The rule distributes common losses through accidents of implementation.''
       [AStr cls]"

definition accidental_loser :: "string \<Rightarrow> message" where
  "accidental_loser cls =
     Message ''Common gain produced an accidental loser in class '{}'. The rule distributes common gains through accidents of implementation.''
       [AStr cls]"

definition solidarity_class ::
  "shock_baseline \<Rightarrow> claimant list \<Rightarrow> f64 \<Rightarrow> estate \<Rightarrow> allocation \<Rightarrow> unit \<Rightarrow> string \<Rightarrow> legitimacy_error + (verdict + unit)" where
  "solidarity_class base claimants scale shocked_estate shocked u cls =
     (let members = filter (\<lambda>m. cl_priority_class m = cls) claimants;
          is_loss = f64_lt scale (Num 1);
          reject = (\<lambda>cx. Inr (Inl (Rejected ''solidarity'' cx)))
      in if length members < 2 then Inr (Inr ())
         else
           rbind (rfold (classify_member (sb_allocation base) shocked) ([], []) members) (\<lambda>(gained, lost).
             if is_loss \<and> gained \<noteq> [] then
               reject (shock_counterexample base shocked_estate shocked (loss_message scale cls gained lost) (accidental_winner cls))
             else if \<not> is_loss \<and> lost \<noteq> [] then
               reject (shock_counterexample base shocked_estate shocked (gain_message scale cls gained lost) (accidental_loser cls))
             else
               rbind (class_evenness_violation base shocked_estate shocked cls members is_loss) (\<lambda>uneven.
                 case uneven of None \<Rightarrow> Inr (Inr ()) | Some cx \<Rightarrow> reject cx)))"

definition solidarity_shock ::
  "rule \<Rightarrow> shock_baseline \<Rightarrow> claimant list \<Rightarrow> nat \<Rightarrow> f64 \<Rightarrow> legitimacy_error + (verdict + nat)" where
  "solidarity_shock r base claimants tested scale =
     (if f64_lt (f64_abs (f64_sub scale (Num 1))) EPSILON then Inr (Inr tested)
      else
        rbind (estate_total_scale (total (sb_estate base)) scale) (\<lambda>t.
        let shocked_estate = \<lparr>total = t, unit_name = unit_name (sb_estate base)\<rparr> in
        rbind (evaluate_rule r (sb_claims base) shocked_estate) (\<lambda>shocked.
        rbind (rloop (solidarity_class base claimants scale shocked_estate shocked) () (priority_classes r)) (\<lambda>outcome.
          case outcome of Inl v \<Rightarrow> Inr (Inl v) | Inr _ \<Rightarrow> Inr (Inr (tested + 1))))))"

definition check_solidarity ::
  "rule \<Rightarrow> claim list \<Rightarrow> estate \<Rightarrow> claimant list \<Rightarrow> f64 list \<Rightarrow> legitimacy_error + verdict" where
  "check_solidarity r cs est claimants scale_factors =
     rbind (evaluate_rule r cs est) (\<lambda>original.
     rbind (rloop (solidarity_shock r \<lparr>sb_claims = cs, sb_estate = est, sb_allocation = original\<rparr> claimants) 0 scale_factors)
       (\<lambda>outcome. Inr (case outcome of Inl v \<Rightarrow> v | Inr tested \<Rightarrow> Admissible ''solidarity'' tested)))"

section \<open>Monotonicity\<close>

definition strengthened :: "claim list \<Rightarrow> nat \<Rightarrow> f64 \<Rightarrow> legitimacy_error + claim list" where
  "strengthened cs i delta =
     rbind (positive_strength_new (f64_add (clm_strength (cs ! i)) delta)) (\<lambda>st.
       Inr (cs[i := (cs ! i)\<lparr>clm_strength := st\<rparr>]))"

definition moves_wrong :: "bool \<Rightarrow> f64 \<Rightarrow> f64 \<Rightarrow> bool" where
  "moves_wrong inversion before after \<longleftrightarrow>
     (let tol = share_tolerance after before in
      if inversion then f64_lt (f64_add before tol) after else f64_lt after (f64_sub before tol))"

definition monotonicity_label :: "bool \<Rightarrow> string" where
  "monotonicity_label inversion = (if inversion then ''monotonicity (inverted)'' else ''monotonicity'')"

definition monotonicity_delta ::
  "rule \<Rightarrow> claim list \<Rightarrow> estate \<Rightarrow> bool \<Rightarrow> allocation \<Rightarrow> nat \<Rightarrow> nat \<Rightarrow> f64 \<Rightarrow> legitimacy_error + (verdict + nat)" where
  "monotonicity_delta r cs est inversion original i tested delta =
     rbind (strengthened cs i delta) (\<lambda>strengthened_claims.
     rbind (evaluate_rule r strengthened_claims est) (\<lambda>strengthened_allocation.
     let cid = clm_id (cs ! i) in
     rbind (share_for original cid ''monotonicity baseline share'') (\<lambda>before.
     rbind (share_for strengthened_allocation cid ''monotonicity strengthened share'') (\<lambda>after.
       if moves_wrong inversion before after then
         Inr (Inl (Rejected (monotonicity_label inversion)
           \<lparr>description = Message
              (if inversion then ''Strengthening '{}' claim by {:.2} increased allocation from {:.4} to {:.4}''
               else ''Strengthening '{}' claim by {:.2} decreased allocation from {:.4} to {:.4}'')
              [AStr cid, AF64 delta, AF64 before, AF64 after],
            original_claims = cs, original_estate = est, original_allocation = original,
            perturbed_claims = strengthened_claims, perturbed_estate = est, perturbed_allocation = strengthened_allocation,
            violation = Message
              (if inversion then ''More evidence of '{}' danger increased its allocation. The safety-clearance rule rewards the very risk it is meant to suppress.''
               else ''More evidence of '{}' strength lowered its allocation. The rule punishes the very thing it claims to reward.'')
              [AStr cid]\<rparr>))
       else Inr (Inr (tested + 1))))))"

definition check_monotonicity ::
  "rule \<Rightarrow> claim list \<Rightarrow> estate \<Rightarrow> f64 list \<Rightarrow> bool \<Rightarrow> legitimacy_error + verdict" where
  "check_monotonicity r cs est strength_deltas inversion =
     rbind (evaluate_rule r cs est) (\<lambda>original.
     rbind (rloop (\<lambda>tested i. rloop (monotonicity_delta r cs est inversion original i) tested strength_deltas) 0 [0..<length cs])
       (\<lambda>outcome. Inr (case outcome of Inl v \<Rightarrow> v | Inr tested \<Rightarrow> Admissible (monotonicity_label inversion) tested)))"

section \<open>Strategyproofness\<close>

definition claim_strategic :: "claim strategic_claim" where
  "claim_strategic =
     \<lparr>st_id = clm_id, st_strength = clm_strength,
      st_report = (\<lambda>c reported. rbind (positive_strength_new reported) (\<lambda>st.
         Inr \<lparr>clm_id = clm_id c, clm_strength = st, clm_metrics = clm_metrics c\<rparr>))\<rparr>"

definition rule_scores :: "rule \<Rightarrow> estate \<Rightarrow> claim list \<Rightarrow> legitimacy_error fault + (string, f64) bmap" where
  "rule_scores r est cs = raise (evaluate_rule r cs est)"

definition check_strategyproofness :: "rule \<Rightarrow> claim list \<Rightarrow> estate \<Rightarrow> legitimacy_error fault + strategyproofness_verdict" where
  "check_strategyproofness r cs est =
     rbind (rule_scores r est cs) (\<lambda>baseline_scores.
       check_reported_strength_manipulations claim_strategic cs baseline_scores (rule_scores r est))"

section \<open>What the verdicts mean\<close>

definition gains :: "f64 \<Rightarrow> f64 \<Rightarrow> bool" where
  "gains before after \<longleftrightarrow> f64_lt (f64_add before (share_tolerance after before)) after"

definition loses :: "f64 \<Rightarrow> f64 \<Rightarrow> bool" where
  "loses before after \<longleftrightarrow> \<not> gains before after \<and> f64_lt after (f64_sub before (share_tolerance after before))"

definition shifted :: "f64 \<Rightarrow> f64 \<Rightarrow> bool" where
  "shifted before after \<longleftrightarrow> f64_lt EPSILON before \<and> f64_lt (share_tolerance before after) (f64_abs (f64_sub before after))"

text \<open>The shares of a member before and after a shock.\<close>

definition shares_of :: "allocation \<Rightarrow> allocation \<Rightarrow> claimant \<Rightarrow> f64 \<Rightarrow> f64 \<Rightarrow> bool" where
  "shares_of original shocked m a b \<longleftrightarrow> bm_get original (cl_id m) = Some a \<and> bm_get shocked (cl_id m) = Some b"

definition against :: "bool \<Rightarrow> f64 \<Rightarrow> f64 \<Rightarrow> bool" where
  "against is_loss a b \<longleftrightarrow> (if is_loss then gains a b else loses a b)"

definition shift_ratio :: "f64 \<Rightarrow> f64 \<Rightarrow> f64 option" where
  "shift_ratio a b = (if shifted a b then Some (f64_div b a) else None)"

definition class_members :: "claimant list \<Rightarrow> string \<Rightarrow> claimant list" where
  "class_members claimants cls = filter (\<lambda>m. cl_priority_class m = cls) claimants"

text \<open>A class shares a shock: nobody moves against it and all who move do so by one ratio.\<close>

definition class_solidary :: "allocation \<Rightarrow> allocation \<Rightarrow> bool \<Rightarrow> claimant list \<Rightarrow> bool" where
  "class_solidary original shocked is_loss members \<longleftrightarrow> length members < 2
     \<or> (\<exists>ref. \<forall>m \<in> set members. \<exists>a b. shares_of original shocked m a b \<and> \<not> against is_loss a b
          \<and> (\<forall>q. shift_ratio a b = Some q \<longrightarrow> q = ref \<or> same_ratio q ref))"

definition class_breach :: "allocation \<Rightarrow> allocation \<Rightarrow> bool \<Rightarrow> claimant list \<Rightarrow> bool" where
  "class_breach original shocked is_loss members \<longleftrightarrow> 2 \<le> length members
     \<and> ((\<exists>m \<in> set members. \<exists>a b. shares_of original shocked m a b \<and> against is_loss a b)
       \<or> (\<exists>m \<in> set members. \<exists>m' \<in> set members. \<exists>a b a' b' q ref. shares_of original shocked m a b \<and> shares_of original shocked m' a' b'
            \<and> shift_ratio a b = Some q \<and> shift_ratio a' b' = Some ref \<and> \<not> same_ratio q ref))"

lemma share_for_Inr: "share_for a k ctx = Inr x \<longleftrightarrow> bm_get a k = Some x"
  by (cases "bm_get a k") (simp_all add: share_for_def)

lemma classify_member_Inr:
  assumes "classify_member original shocked (g, l) m = Inr gl"
  shows "\<exists>a b. shares_of original shocked m a b
    \<and> gl = (g @ (if gains a b then [cl_id m] else []), l @ (if loses a b then [cl_id m] else []))"
  using assms by (fastforce simp: classify_member_def share_for_Inr shares_of_def gains_def loses_def Let_def result_simps
      split: if_splits)

lemma classify_members_Inr:
  assumes "rfold (classify_member original shocked) (g, l) ms = Inr (g', l')"
  shows "(\<forall>m \<in> set ms. \<exists>a b. shares_of original shocked m a b \<and> (g' = [] \<longrightarrow> \<not> gains a b)
      \<and> (l' = [] \<longrightarrow> \<not> loses a b))
    \<and> (g' = g \<or> (\<exists>m \<in> set ms. \<exists>a b. shares_of original shocked m a b \<and> gains a b))
    \<and> (l' = l \<or> (\<exists>m \<in> set ms. \<exists>a b. shares_of original shocked m a b \<and> loses a b))
    \<and> (g \<noteq> [] \<longrightarrow> g' \<noteq> []) \<and> (l \<noteq> [] \<longrightarrow> l' \<noteq> [])"
  using assms
proof (induction ms arbitrary: g l)
  case (Cons m ms)
  from Cons.prems obtain gl where gl: "classify_member original shocked (g, l) m = Inr gl"
    "rfold (classify_member original shocked) gl ms = Inr (g', l')" by (auto simp: result_simps)
  from classify_member_Inr [OF gl(1)] obtain a b where ab: "shares_of original shocked m a b"
    "gl = (g @ (if gains a b then [cl_id m] else []), l @ (if loses a b then [cl_id m] else []))"
    by blast
  note IH = Cons.IH [OF gl(2) [unfolded ab(2)]]
  have keep: "(gains a b \<longrightarrow> g' \<noteq> []) \<and> (loses a b \<longrightarrow> l' \<noteq> [])" using IH by auto
  have more: "(gains a b \<or> g' = g \<or> (\<exists>m \<in> set ms. \<exists>a b. shares_of original shocked m a b \<and> gains a b))
    \<and> (loses a b \<or> l' = l \<or> (\<exists>m \<in> set ms. \<exists>a b. shares_of original shocked m a b \<and> loses a b))"
    using IH by auto
  have first: "\<exists>a b. shares_of original shocked m a b \<and> (g' = [] \<longrightarrow> \<not> gains a b) \<and> (l' = [] \<longrightarrow> \<not> loses a b)"
    using ab(1) keep by blast
  have "(g \<noteq> [] \<longrightarrow> g' \<noteq> []) \<and> (l \<noteq> [] \<longrightarrow> l' \<noteq> [])" using IH by simp
  with IH first more ab(1) show ?case by (simp only: list.set ball_simps bex_simps) blast
qed simp

lemma changed_members_Inr:
  assumes "rfold (changed_member original shocked) changed ms = Inr changed'"
  shows "\<exists>new. changed' = changed @ new
    \<and> (\<forall>m \<in> set ms. \<exists>a b. shares_of original shocked m a b \<and> (\<forall>q. shift_ratio a b = Some q \<longrightarrow> q \<in> snd ` set new))
    \<and> (\<forall>q \<in> snd ` set new. \<exists>m \<in> set ms. \<exists>a b. shares_of original shocked m a b \<and> shift_ratio a b = Some q)"
  using assms
proof (induction ms arbitrary: changed)
  case (Cons m ms)
  from Cons.prems obtain c where c: "changed_member original shocked changed m = Inr c"
    "rfold (changed_member original shocked) c ms = Inr changed'" by (auto simp: result_simps)
  from c(1) obtain a b where ab: "shares_of original shocked m a b"
    "c = changed @ (case shift_ratio a b of None \<Rightarrow> [] | Some q \<Rightarrow> [(cl_id m, q)])"
    by (auto simp: changed_member_def share_for_Inr shares_of_def shift_ratio_def shifted_def result_simps split: if_splits)
  from Cons.IH [OF c(2)] obtain new where new: "changed' = c @ new"
    "\<forall>m \<in> set ms. \<exists>a b. shares_of original shocked m a b \<and> (\<forall>q. shift_ratio a b = Some q \<longrightarrow> q \<in> snd ` set new)"
    "\<forall>q \<in> snd ` set new. \<exists>m \<in> set ms. \<exists>a b. shares_of original shocked m a b \<and> shift_ratio a b = Some q" by blast
  show ?case
  proof (cases "shift_ratio a b")
    case None
    then have "\<exists>a b. shares_of original shocked m a b \<and> (\<forall>q. shift_ratio a b = Some q \<longrightarrow> q \<in> snd ` set new)"
      using ab(1) by (intro exI [of _ a] exI [of _ b]) auto
    with new ab None show ?thesis by (intro exI [of _ new]) auto
  next
    case (Some q)
    with new ab show ?thesis by (intro exI [of _ "(cl_id m, q) # new"]) fastforce
  qed
qed simp

lemma same_ratios:
  assumes "length changed < 2 \<or> list_all (\<lambda>(_, ratio). same_ratio ratio (snd (hd changed))) (tl changed)" and "q \<in> snd ` set changed"
  shows "q = snd (hd changed) \<or> same_ratio q (snd (hd changed))"
  using assms by (cases changed) (auto simp: list_all_iff)

lemma class_evenness_Inr:
  assumes "class_evenness_violation base est shocked cls ms is_loss = Inr outcome"
  shows "case outcome of
      None \<Rightarrow> \<exists>ref. \<forall>m \<in> set ms. \<exists>a b. shares_of (sb_allocation base) shocked m a b
         \<and> (\<forall>q. shift_ratio a b = Some q \<longrightarrow> q = ref \<or> same_ratio q ref)
    | Some cx \<Rightarrow> (\<exists>desc viol. cx = shock_counterexample base est shocked desc viol)
         \<and> (\<exists>m \<in> set ms. \<exists>m' \<in> set ms. \<exists>a b a' b' q ref. shares_of (sb_allocation base) shocked m a b
              \<and> shares_of (sb_allocation base) shocked m' a' b' \<and> shift_ratio a b = Some q \<and> shift_ratio a' b' = Some ref
              \<and> \<not> same_ratio q ref)"
proof -
  from assms obtain changed where changed: "rfold (changed_member (sb_allocation base) shocked) [] ms = Inr changed"
    and outcome: "outcome = (if length changed < 2 \<or> list_all (\<lambda>(_, ratio). same_ratio ratio (snd (hd changed))) (tl changed)
      then None else Some (shock_counterexample base est shocked (uneven_message cls is_loss changed) (uneven_violation cls)))"
    unfolding class_evenness_violation_def rbind_Inr_iff by (auto split: if_splits)
  from changed_members_Inr [OF changed]
  have new: "\<forall>m \<in> set ms. \<exists>a b. shares_of (sb_allocation base) shocked m a b \<and> (\<forall>q. shift_ratio a b = Some q \<longrightarrow> q \<in> snd ` set changed)"
    "\<forall>q \<in> snd ` set changed. \<exists>m \<in> set ms. \<exists>a b. shares_of (sb_allocation base) shocked m a b \<and> shift_ratio a b = Some q" by simp_all
  show ?thesis
  proof (cases "length changed < 2 \<or> list_all (\<lambda>(_, ratio). same_ratio ratio (snd (hd changed))) (tl changed)")
    case True
    with outcome have "outcome = None" by simp
    moreover have "\<exists>a b. shares_of (sb_allocation base) shocked m a b
        \<and> (\<forall>q. shift_ratio a b = Some q \<longrightarrow> q = snd (hd changed) \<or> same_ratio q (snd (hd changed)))" if "m \<in> set ms" for m
      using bspec [OF new(1) that] same_ratios [OF True] by blast
    ultimately show ?thesis by (simp, intro exI [of _ "snd (hd changed)"]) blast
  next
    case False
    then have c: "changed \<noteq> []" by auto
    from False obtain e where "e \<in> set (tl changed)" "\<not> same_ratio (snd e) (snd (hd changed))"
      by (auto simp: list_all_iff)
    then obtain q where q: "q \<in> snd ` set (tl changed)" "\<not> same_ratio q (snd (hd changed))" by blast
    from c have "snd (hd changed) \<in> snd ` set changed" by simp
    from bspec [OF new(2) this] obtain m' a' b' where m': "m' \<in> set ms" "shares_of (sb_allocation base) shocked m' a' b'"
      "shift_ratio a' b' = Some (snd (hd changed))" by blast
    from q(1) c have "q \<in> snd ` set changed" by (auto dest: list.set_sel(2))
    from bspec [OF new(2) this] obtain m a b where m: "m \<in> set ms" "shares_of (sb_allocation base) shocked m a b"
      "shift_ratio a b = Some q" by blast
    have "\<exists>m \<in> set ms. \<exists>m' \<in> set ms. \<exists>a b a' b' q ref. shares_of (sb_allocation base) shocked m a b
              \<and> shares_of (sb_allocation base) shocked m' a' b' \<and> shift_ratio a b = Some q \<and> shift_ratio a' b' = Some ref
              \<and> \<not> same_ratio q ref" using m m' q(2) by blast
    then show ?thesis unfolding outcome if_not_P [OF False] option.case by blast
  qed
qed

lemma solidarity_class_Inr:
  assumes "solidarity_class base claimants scale est shocked u cls = Inr outcome"
  shows "case outcome of
      Inr _ \<Rightarrow> class_solidary (sb_allocation base) shocked (f64_lt scale (Num 1)) (class_members claimants cls)
    | Inl v \<Rightarrow> (\<exists>desc viol. v = Rejected ''solidarity'' (shock_counterexample base est shocked desc viol))
        \<and> class_breach (sb_allocation base) shocked (f64_lt scale (Num 1)) (class_members claimants cls)"
proof (cases "length (class_members claimants cls) < 2")
  case True
  with assms show ?thesis by (auto simp: solidarity_class_def class_members_def class_solidary_def)
next
  case False
  let ?ms = "class_members claimants cls" and ?loss = "f64_lt scale (Num 1)"
  let ?reject = "\<lambda>desc viol. Rejected ''solidarity'' (shock_counterexample base est shocked desc viol)"
  have "length (filter (\<lambda>m. cl_priority_class m = cls) claimants) < 2 \<longleftrightarrow> False" using False by (simp add: class_members_def)
  note split = assms [unfolded solidarity_class_def Let_def this if_False case_prod_unfold, folded class_members_def]
  from split obtain gl' where gl': "rfold (classify_member (sb_allocation base) shocked) ([], []) ?ms = Inr gl'"
    and rest': "(if ?loss \<and> fst gl' \<noteq> [] then Inr (Inl (?reject (loss_message scale cls (fst gl') (snd gl')) (accidental_winner cls)))
      else if \<not> ?loss \<and> snd gl' \<noteq> [] then Inr (Inl (?reject (gain_message scale cls (fst gl') (snd gl')) (accidental_loser cls)))
      else rbind (class_evenness_violation base est shocked cls ?ms ?loss) (\<lambda>uneven.
        case uneven of None \<Rightarrow> Inr (Inr ()) | Some cx \<Rightarrow> Inr (Inl (Rejected ''solidarity'' cx)))) = Inr outcome"
    unfolding rbind_Inr_iff [of "rfold _ _ _"] by (elim exE conjE) (rule that)
  obtain g l where pair: "gl' = (g, l)" by (cases gl')
  note gl = gl' [unfolded pair] and rest = rest' [unfolded pair fst_conv snd_conv]
  have cases: "(?loss \<and> g \<noteq> [] \<or> \<not> ?loss \<and> l \<noteq> []) \<and> (\<exists>desc viol. outcome = Inl (?reject desc viol))
      \<or> (if ?loss then g = [] else l = []) \<and> (\<exists>uneven. class_evenness_violation base est shocked cls ?ms ?loss = Inr uneven
            \<and> outcome = (case uneven of None \<Rightarrow> Inr () | Some cx \<Rightarrow> Inl (Rejected ''solidarity'' cx)))"
  proof (cases "?loss \<and> g \<noteq> [] \<or> \<not> ?loss \<and> l \<noteq> []")
    case True
    with rest have "\<exists>desc viol. outcome = Inl (?reject desc viol)" by (auto split: if_splits)
    with True show ?thesis by blast
  next
    case False
    then have none: "\<not> (?loss \<and> g \<noteq> [])" "\<not> (\<not> ?loss \<and> l \<noteq> [])" by blast+
    then have "rbind (class_evenness_violation base est shocked cls ?ms ?loss) (\<lambda>uneven.
        case uneven of None \<Rightarrow> Inr (Inr ()) | Some cx \<Rightarrow> Inr (Inl (Rejected ''solidarity'' cx))) = Inr outcome"
      using rest by (simp only: if_False)
    then obtain uneven where uneven: "class_evenness_violation base est shocked cls ?ms ?loss = Inr uneven"
      "(case uneven of None \<Rightarrow> Inr (Inr ()) | Some cx \<Rightarrow> Inr (Inl (Rejected ''solidarity'' cx))) = (Inr outcome :: legitimacy_error + _)"
      unfolding rbind_Inr_iff by (elim exE conjE) (rule that)
    have "outcome = (case uneven of None \<Rightarrow> Inr () | Some cx \<Rightarrow> Inl (Rejected ''solidarity'' cx))"
      using uneven(2) by (cases uneven) simp_all
    moreover have "if ?loss then g = [] else l = []" using none by auto
    ultimately show ?thesis using uneven(1) by blast
  qed
  note moved = classify_members_Inr [OF gl]
  show ?thesis using cases
  proof (elim disjE conjE exE)
    fix desc viol assume l: "\<not> ?loss" "l \<noteq> []" and out: "outcome = Inl (?reject desc viol)"
    from moved l(2) obtain m a b where "m \<in> set ?ms" "shares_of (sb_allocation base) shocked m a b" "loses a b" by auto
    with l(1) False out show ?thesis by (auto simp: class_breach_def against_def)
  next
    fix desc viol assume l: "?loss" "g \<noteq> []" and out: "outcome = Inl (?reject desc viol)"
    from moved l(2) obtain m a b where "m \<in> set ?ms" "shares_of (sb_allocation base) shocked m a b" "gains a b" by auto
    with l(1) False out show ?thesis by (auto simp: class_breach_def against_def)
  next
    fix uneven assume none: "if ?loss then g = [] else l = []"
      and even: "class_evenness_violation base est shocked cls ?ms ?loss = Inr uneven"
      and out: "outcome = (case uneven of None \<Rightarrow> Inr () | Some cx \<Rightarrow> Inl (Rejected ''solidarity'' cx))"
    note even' = class_evenness_Inr [OF even]
    show ?thesis
    proof (cases uneven)
      case None
      with even' obtain ref where ref: "\<forall>m \<in> set ?ms. \<exists>a b. shares_of (sb_allocation base) shocked m a b
         \<and> (\<forall>q. shift_ratio a b = Some q \<longrightarrow> q = ref \<or> same_ratio q ref)" by auto
      have "\<exists>a b. shares_of (sb_allocation base) shocked m a b \<and> \<not> against ?loss a b
         \<and> (\<forall>q. shift_ratio a b = Some q \<longrightarrow> q = ref \<or> same_ratio q ref)" if m: "m \<in> set ?ms" for m
      proof -
        from bspec [OF ref m] obtain a b where ab: "shares_of (sb_allocation base) shocked m a b"
          "\<forall>q. shift_ratio a b = Some q \<longrightarrow> q = ref \<or> same_ratio q ref" by blast
        from moved m obtain a' b' where ab': "shares_of (sb_allocation base) shocked m a' b'"
          "g = [] \<longrightarrow> \<not> gains a' b'" "l = [] \<longrightarrow> \<not> loses a' b'" by blast
        from ab(1) ab'(1) have "a' = a" "b' = b" by (simp_all add: shares_of_def)
        with ab ab' none have "\<not> against ?loss a b" by (simp add: against_def split: if_splits)
        with ab show ?thesis by blast
      qed
      with None out show ?thesis by (simp add: class_solidary_def) blast
    next
      case (Some cx)
      with even' out False show ?thesis by (auto simp: class_breach_def)
    qed
  qed
qed

definition shock_answer :: "rule \<Rightarrow> claim list \<Rightarrow> estate \<Rightarrow> f64 \<Rightarrow> estate \<Rightarrow> allocation \<Rightarrow> bool" where
  "shock_answer r cs est scale shocked_estate shocked \<longleftrightarrow>
     estate_total_scale (total est) scale = Inr (total shocked_estate) \<and> unit_name shocked_estate = unit_name est
     \<and> evaluate_rule r cs shocked_estate = Inr shocked"

definition near_identity :: "f64 \<Rightarrow> bool" where
  "near_identity scale \<longleftrightarrow> f64_lt (f64_abs (f64_sub scale (Num 1))) EPSILON"

text \<open>The outcome of one shock: all classes are solidary, or one of them is broken and the verdict names the shock.\<close>

lemma solidarity_shock_Inr:
  assumes "solidarity_shock r \<lparr>sb_claims = cs, sb_estate = est, sb_allocation = original\<rparr> claimants tested scale = Inr outcome"
    and "\<not> near_identity scale"
  shows "\<exists>shocked_estate shocked. shock_answer r cs est scale shocked_estate shocked
    \<and> (case outcome of
         Inr tested' \<Rightarrow> tested' = Suc tested \<and> (\<forall>cls \<in> set (priority_classes r).
            class_solidary original shocked (f64_lt scale (Num 1)) (class_members claimants cls))
       | Inl v \<Rightarrow> (\<exists>cx. v = Rejected ''solidarity'' cx \<and> original_claims cx = cs \<and> original_estate cx = est
            \<and> original_allocation cx = original \<and> perturbed_claims cx = cs \<and> perturbed_estate cx = shocked_estate
            \<and> perturbed_allocation cx = shocked)
          \<and> (\<exists>cls \<in> set (priority_classes r).
               class_breach original shocked (f64_lt scale (Num 1)) (class_members claimants cls)))"
proof -
  let ?base = "\<lparr>sb_claims = cs, sb_estate = est, sb_allocation = original\<rparr>"
  from assms obtain t shocked out where t: "estate_total_scale (total est) scale = Inr t"
    and shocked: "evaluate_rule r cs \<lparr>total = t, unit_name = unit_name est\<rparr> = Inr shocked"
    and out: "rloop (solidarity_class ?base claimants scale \<lparr>total = t, unit_name = unit_name est\<rparr> shocked) () (priority_classes r) = Inr out"
    and outcome: "outcome = (case out of Inl v \<Rightarrow> Inl v | Inr _ \<Rightarrow> Inr (tested + 1))"
    unfolding solidarity_shock_def near_identity_def Let_def by (simp add: rbind_Inr_iff) (elim exE conjE, case_tac xb, force+)
  have answer: "shock_answer r cs est scale \<lparr>total = t, unit_name = unit_name est\<rparr> shocked"
    using t shocked by (simp add: shock_answer_def)
  show ?thesis
  proof (cases out)
    case (Inr u)
    have "class_solidary original shocked (f64_lt scale (Num 1)) (class_members claimants cls)" if "cls \<in> set (priority_classes r)" for cls
      using rloop_continue [OF out [unfolded Inr] that] solidarity_class_Inr by fastforce
    with answer show ?thesis by (auto simp: outcome Inr)
  next
    case (Inl v)
    from rloop_return [OF out [unfolded Inl]] obtain u cls where cls: "cls \<in> set (priority_classes r)"
      "solidarity_class ?base claimants scale \<lparr>total = t, unit_name = unit_name est\<rparr> shocked u cls = Inr (Inl v)" by blast
    with solidarity_class_Inr [OF cls(2)] answer show ?thesis
      by (intro exI [of _ "\<lparr>total = t, unit_name = unit_name est\<rparr>"] exI [of _ shocked])
        (auto simp: outcome Inl shock_counterexample_def)
  qed
qed

lemma solidarity_shock_skip:
  "near_identity scale \<Longrightarrow> solidarity_shock r base claimants tested scale = Inr outcome \<longleftrightarrow> outcome = Inr tested"
  by (auto simp: solidarity_shock_def near_identity_def)

lemma rloop_counts_of:
  assumes "rloop f s xs = Inr (Inr t)" and "\<And>u x u'. x \<in> set xs \<Longrightarrow> f u x = Inr (Inr u') \<Longrightarrow> u' = (if P x then u + 1 else u)"
  shows "(t :: nat) = s + length (filter P xs)"
  using assms
proof (induction xs arbitrary: s)
  case (Cons x xs)
  from Cons.prems(1) obtain u where u: "f s x = Inr (Inr u)" "rloop f u xs = Inr (Inr t)"
    unfolding rloop_Cons_continue by blast
  from Cons.IH [OF u(2)] Cons.prems(2) [OF _ u(1)] Cons.prems(2) show ?case by auto
qed simp

text \<open>C38: what a solidarity verdict means. Admissible counts the shocks that are not the identity, and under each
  of them no member of a class of two or more moves against the shock, beyond the tolerance, and all
  whose share changes change it by one ratio. A rejection carries one of the shocks, the rule's answer
  to it, and a class that breaks one of the two.\<close>

theorem solidarity_meaning:
  assumes run: "check_solidarity r cs est claimants scales = Inr v"
  shows "\<exists>original. evaluate_rule r cs est = Inr original
    \<and> (case v of
         Admissible axm n \<Rightarrow> axm = ''solidarity'' \<and> n = length (filter (\<lambda>scale. \<not> near_identity scale) scales)
           \<and> (\<forall>scale \<in> set scales. near_identity scale \<or> (\<exists>shocked_estate shocked. shock_answer r cs est scale shocked_estate shocked
                \<and> (\<forall>cls \<in> set (priority_classes r).
                     class_solidary original shocked (f64_lt scale (Num 1)) (class_members claimants cls))))
       | Rejected axm cx \<Rightarrow> axm = ''solidarity'' \<and> original_claims cx = cs \<and> original_estate cx = est
           \<and> original_allocation cx = original \<and> perturbed_claims cx = cs
           \<and> (\<exists>scale \<in> set scales. \<not> near_identity scale
                \<and> shock_answer r cs est scale (perturbed_estate cx) (perturbed_allocation cx)
                \<and> (\<exists>cls \<in> set (priority_classes r). class_breach original (perturbed_allocation cx) (f64_lt scale (Num 1))
                     (class_members claimants cls))))"
proof -
  let ?step = "\<lambda>original. solidarity_shock r \<lparr>sb_claims = cs, sb_estate = est, sb_allocation = original\<rparr> claimants"
  from run obtain original out where original: "evaluate_rule r cs est = Inr original"
    and out: "rloop (?step original) 0 scales = Inr out"
    and v: "v = (case out of Inl v \<Rightarrow> v | Inr tested \<Rightarrow> Admissible ''solidarity'' tested)"
    by (auto simp: check_solidarity_def result_simps)
  show ?thesis
  proof (cases out)
    case (Inr n)
    have "n = 0 + length (filter (\<lambda>scale. \<not> near_identity scale) scales)"
      by (rule rloop_counts_of [OF out [unfolded Inr]])
        (auto simp: solidarity_shock_skip dest: solidarity_shock_Inr)
    moreover have "near_identity scale \<or> (\<exists>shocked_estate shocked. shock_answer r cs est scale shocked_estate shocked
        \<and> (\<forall>cls \<in> set (priority_classes r). class_solidary original shocked (f64_lt scale (Num 1)) (class_members claimants cls)))"
      if "scale \<in> set scales" for scale
      using rloop_continue [OF out [unfolded Inr] that] solidarity_shock_Inr by fastforce
    ultimately show ?thesis using original by (auto simp: v Inr)
  next
    case (Inl w)
    from rloop_return [OF out [unfolded Inl]] obtain u scale where s: "scale \<in> set scales" "?step original u scale = Inr (Inl w)" by blast
    then have other: "\<not> near_identity scale" using solidarity_shock_skip by blast
    from solidarity_shock_Inr [OF s(2) other] obtain cx where cx: "w = Rejected ''solidarity'' cx" "original_claims cx = cs"
      "original_estate cx = est" "original_allocation cx = original" "perturbed_claims cx = cs"
      and breach: "shock_answer r cs est scale (perturbed_estate cx) (perturbed_allocation cx)"
        "\<exists>cls \<in> set (priority_classes r). class_breach original (perturbed_allocation cx) (f64_lt scale (Num 1)) (class_members claimants cls)"
      by auto
    have "v = Rejected ''solidarity'' cx" by (simp add: v Inl cx(1))
    with original cx(2-) breach s(1) other show ?thesis by (simp only: verdict.case) blast
  qed
qed

lemma monotonicity_delta_Inr:
  assumes "monotonicity_delta r cs est inversion original i tested delta = Inr outcome"
  shows "\<exists>stronger alloc a b. strengthened cs i delta = Inr stronger \<and> evaluate_rule r stronger est = Inr alloc
    \<and> bm_get original (clm_id (cs ! i)) = Some a \<and> bm_get alloc (clm_id (cs ! i)) = Some b
    \<and> (case outcome of
         Inr tested' \<Rightarrow> tested' = tested + 1 \<and> \<not> moves_wrong inversion a b
       | Inl v \<Rightarrow> moves_wrong inversion a b \<and> (\<exists>cx. v = Rejected (monotonicity_label inversion) cx
            \<and> original_claims cx = cs \<and> original_estate cx = est \<and> original_allocation cx = original
            \<and> perturbed_claims cx = stronger \<and> perturbed_estate cx = est \<and> perturbed_allocation cx = alloc))"
proof -
  from assms obtain stronger alloc a b where s: "strengthened cs i delta = Inr stronger" "evaluate_rule r stronger est = Inr alloc"
    "bm_get original (clm_id (cs ! i)) = Some a" "bm_get alloc (clm_id (cs ! i)) = Some b"
    unfolding monotonicity_delta_def Let_def rbind_Inr_iff share_for_Inr by blast
  show ?thesis
    using assms by (cases "moves_wrong inversion a b") (auto simp: monotonicity_delta_def Let_def share_for_def s)
qed

definition monotone_at :: "rule \<Rightarrow> claim list \<Rightarrow> estate \<Rightarrow> bool \<Rightarrow> allocation \<Rightarrow> nat \<Rightarrow> f64 \<Rightarrow> bool" where
  "monotone_at r cs est inversion original i delta \<longleftrightarrow>
     (\<exists>stronger alloc a b. strengthened cs i delta = Inr stronger \<and> evaluate_rule r stronger est = Inr alloc
        \<and> bm_get original (clm_id (cs ! i)) = Some a \<and> bm_get alloc (clm_id (cs ! i)) = Some b \<and> \<not> moves_wrong inversion a b)"

definition monotonicity_witness ::
  "rule \<Rightarrow> claim list \<Rightarrow> estate \<Rightarrow> bool \<Rightarrow> allocation \<Rightarrow> nat \<Rightarrow> f64 \<Rightarrow> counterexample \<Rightarrow> bool" where
  "monotonicity_witness r cs est inversion original i delta cx \<longleftrightarrow>
     original_claims cx = cs \<and> original_estate cx = est \<and> original_allocation cx = original \<and> perturbed_estate cx = est
     \<and> strengthened cs i delta = Inr (perturbed_claims cx)
     \<and> evaluate_rule r (perturbed_claims cx) est = Inr (perturbed_allocation cx)
     \<and> (\<exists>a b. bm_get original (clm_id (cs ! i)) = Some a \<and> bm_get (perturbed_allocation cx) (clm_id (cs ! i)) = Some b
          \<and> moves_wrong inversion a b)"

lemma rloop_add:
  assumes "rloop f s xs = Inr (Inr t)" and "\<And>u x u'. x \<in> set xs \<Longrightarrow> f u x = Inr (Inr u') \<Longrightarrow> u' = u + k"
  shows "(t :: nat) = s + length xs * k"
  using assms
proof (induction xs arbitrary: s)
  case (Cons x xs)
  from Cons.prems(1) obtain u where u: "f s x = Inr (Inr u)" "rloop f u xs = Inr (Inr t)"
    unfolding rloop_Cons_continue by blast
  have "t = u + length xs * k" by (rule Cons.IH [OF u(2) Cons.prems(2)]) auto
  moreover have "u = s + k" using Cons.prems(2) [OF _ u(1)] by simp
  ultimately show ?case by simp
qed simp

text \<open>What a monotonicity verdict means. Admissible counts every claim with every increment, and each of them
  leaves the strengthened claimant a share that does not fall beyond the tolerance (does not rise, when
  the check is inverted). A rejection carries one strengthened claim, the rule's answer to it and the share that
  moved the wrong way.\<close>

lemma monotonicity_meaning:
  assumes run: "check_monotonicity r cs est deltas inversion = Inr v"
  shows "\<exists>original. evaluate_rule r cs est = Inr original
    \<and> (case v of
         Admissible axm n \<Rightarrow> axm = monotonicity_label inversion \<and> n = length cs * length deltas
           \<and> (\<forall>i < length cs. \<forall>delta \<in> set deltas. monotone_at r cs est inversion original i delta)
       | Rejected axm cx \<Rightarrow> axm = monotonicity_label inversion
           \<and> (\<exists>i < length cs. \<exists>delta \<in> set deltas. monotonicity_witness r cs est inversion original i delta cx))"
proof -
  let ?step = "monotonicity_delta r cs est inversion"
  from run obtain original out where original: "evaluate_rule r cs est = Inr original"
    and out: "rloop (\<lambda>tested i. rloop (?step original i) tested deltas) 0 [0..<length cs] = Inr out"
    and v: "v = (case out of Inl v \<Rightarrow> v | Inr tested \<Rightarrow> Admissible (monotonicity_label inversion) tested)"
    by (auto simp: check_monotonicity_def result_simps)
  have inner: "u' = u + length deltas * 1" if "rloop (?step original i) u deltas = Inr (Inr u')" for u i u'
    by (rule rloop_add [OF that]) (auto dest: monotonicity_delta_Inr)
  show ?thesis
  proof (cases out)
    case (Inr n)
    have "n = 0 + length [0..<length cs] * length deltas"
      by (rule rloop_add [OF out [unfolded Inr]]) (use inner in auto)
    moreover have "monotone_at r cs est inversion original i delta" if i: "i < length cs" and d: "delta \<in> set deltas" for i delta
    proof -
      from i have "i \<in> set [0..<length cs]" by simp
      from rloop_continue [OF out [unfolded Inr] this] obtain u u' where "rloop (?step original i) u deltas = Inr (Inr u')" by blast
      from rloop_continue [OF this d] monotonicity_delta_Inr show ?thesis unfolding monotone_at_def by fastforce
    qed
    ultimately show ?thesis using original by (simp add: v Inr)
  next
    case (Inl w)
    from rloop_return [OF out [unfolded Inl]] obtain u i where i: "i < length cs" "rloop (?step original i) u deltas = Inr (Inl w)"
      by auto
    from rloop_return [OF i(2)] obtain t delta where d: "delta \<in> set deltas" "?step original i t delta = Inr (Inl w)" by blast
    from monotonicity_delta_Inr [OF d(2)] obtain cx where "w = Rejected (monotonicity_label inversion) cx"
      "monotonicity_witness r cs est inversion original i delta cx" by (auto simp: monotonicity_witness_def)
    with i(1) d(1) original show ?thesis by (auto simp: v Inl)
  qed
qed

section \<open>Rules that treat each claim by itself\<close>

lemma nonneg64_mul_EPSILON: "nonneg64 a \<Longrightarrow> nonneg64 (f64_mul EPSILON a)"
proof -
  obtain e where e: "EPSILON = Num e" "0 < e" using EPSILON_between by force
  assume "nonneg64 a"
  then show ?thesis unfolding e(1) using e(2) by (cases a) (auto intro: nonneg64_round)
qed

lemma share_tolerance_nonneg: "nonneg64 a \<Longrightarrow> nonneg64 b \<Longrightarrow> nonneg64 (share_tolerance a b)"
  unfolding share_tolerance_def
  by (intro nonneg64_add EPSILON_nonneg nonneg64_mul_EPSILON) (simp_all add: nonneg64_abs)

lemma not_gains:
  assumes a: "nonneg64 a" and b: "nonneg64 b" and le: "f64_le b a"
  shows "\<not> gains a b"
  unfolding gains_def using f64_le_add_right [OF a share_tolerance_nonneg [OF b a]] le
  by (auto simp: f64_lt_def dest: f64_le_trans)

lemma not_below_difference:
  assumes "nonneg64 a" and "nonneg64 c"
  shows "\<not> f64_lt a (f64_sub a c)"
proof (cases "\<exists>r t. a = Num r \<and> c = Num t")
  case True
  then obtain r t where n: "a = Num r" "c = Num t" "0 < r" "0 < t" "representable r" using assms by auto
  show ?thesis
  proof (cases "0 < r - t")
    case True
    from round_f64_le [OF True _ n(5)] n(4) have "f64_le (round64 (r - t)) (Num r)" by simp
    then show ?thesis using n(1,2) by (auto simp: f64_sub_def f64_lt_def)
  next
    case False
    have "nonneg64 (round64 (t - r))" by (rule nonneg64_round) (use False in simp)
    then have "f64_le (round64 (r - t)) (Num r)"
      using n(3) round_mag_nonneg [of "\<bar>r - t\<bar>"] by (auto simp: round64_def f64_le_def Let_def split: if_splits)
    then show ?thesis using n(1,2) by (auto simp: f64_sub_def f64_lt_def)
  qed
next
  case False
  with assms show ?thesis by (cases a; cases c) (auto simp: f64_sub_def f64_lt_def f64_le_def split: if_splits)
qed

lemma unmoved:
  assumes a: "nonneg64 a" and fin: "is_finite a"
  shows "\<not> gains a a" "\<not> f64_lt a (f64_sub a (share_tolerance a a))" "\<not> shifted a a"
proof -
  note tol = share_tolerance_nonneg [OF a a]
  have "f64_le a a" using fin by (cases a) (auto simp: f64_le_def)
  then show "\<not> gains a a" by (rule not_gains [OF a a])
  show "\<not> f64_lt a (f64_sub a (share_tolerance a a))" by (rule not_below_difference [OF a tol])
  have "f64_abs (f64_sub a a) = Zero False" using fin by (cases a) (auto simp: f64_sub_def round64_def)
  then show "\<not> shifted a a" using nonneg64_zero_le [OF tol, of False] by (simp add: shifted_def f64_lt_def)
qed

lemma rloop_steps:
  assumes "\<And>s x. x \<in> set xs \<Longrightarrow> f s x = Inr (Inr (s + (if P x then k else 0)))"
  shows "rloop f s xs = Inr (Inr (s + length (filter P xs) * (k :: nat)))"
  using assms by (induction xs arbitrary: s) (simp_all add: algebra_simps)

lemma rloop_passes: "(\<And>x. x \<in> set xs \<Longrightarrow> f () x = Inr (Inr ())) \<Longrightarrow> rloop f () xs = Inr (Inr ())"
  by (induction xs) simp_all

lemma rfold_still: "(\<And>x. x \<in> set xs \<Longrightarrow> f s x = Inr s) \<Longrightarrow> rfold f s xs = Inr s"
  by (induction xs) simp_all

lemma solidarity_class_still:
  assumes members: "\<And>m. m \<in> set claimants \<Longrightarrow> \<exists>a. bm_get original (cl_id m) = Some a \<and> nonneg64 a \<and> is_finite a"
  shows "solidarity_class \<lparr>sb_claims = cs, sb_estate = est, sb_allocation = original\<rparr> claimants scale est' original () cls
    = Inr (Inr ())"
proof -
  let ?ms = "filter (\<lambda>m. cl_priority_class m = cls) claimants"
  have m: "\<exists>a. bm_get original (cl_id m) = Some a \<and> \<not> gains a a \<and> \<not> f64_lt a (f64_sub a (share_tolerance a a)) \<and> \<not> shifted a a"
    if "m \<in> set ?ms" for m using members [of m] unmoved that by auto
  have "rfold (classify_member original original) ([], []) ?ms = Inr ([], [])"
  proof (rule rfold_still)
    fix x assume "x \<in> set ?ms"
    from m [OF this] show "classify_member original original ([], []) x = Inr ([], [])"
      by (auto simp: classify_member_def share_for_def gains_def Let_def)
  qed
  moreover have "rfold (changed_member original original) [] ?ms = Inr []"
  proof (rule rfold_still)
    fix x assume "x \<in> set ?ms"
    from m [OF this] show "changed_member original original [] x = Inr []"
      by (auto simp: changed_member_def share_for_def shifted_def)
  qed
  ultimately show ?thesis by (simp add: solidarity_class_def class_evenness_violation_def Let_def)
qed

lemma share_rule_shocks:
  assumes r: "share_rule h r" and original: "evaluate_rule r cs est = Inr original"
    and shares: "\<And>c. c \<in> set cs \<Longrightarrow> nonneg64 (h c)" and members: "cl_id ` set claimants \<subseteq> clm_id ` set cs"
    and estates: "\<And>scale. scale \<in> set scales \<Longrightarrow> is_finite (f64_mul (total est) scale) \<and> \<not> f64_le (f64_mul (total est) scale) (Zero False)"
  shows "rloop (solidarity_shock r \<lparr>sb_claims = cs, sb_estate = est, sb_allocation = original\<rparr> claimants) 0 scales
    = Inr (Inr (length (filter (\<lambda>scale. \<not> near_identity scale) scales)))"
proof -
  have valid: "validate_all cs = Inr ()" using original by (auto simp: evaluate_rule_def result_simps)
  have again: "evaluate_rule r cs est' = Inr original" for est'
    using original unfolding share_rule_evaluates [OF r valid] .
  have "\<exists>a. bm_get original (cl_id m) = Some a \<and> nonneg64 a \<and> is_finite a" if "m \<in> set claimants" for m
  proof -
    from subsetD [OF members imageI [OF that]] obtain c where c: "c \<in> set cs" "cl_id m = clm_id c" by (rule imageE)
    have "bm_get original (cl_id m) = Some (h c)" "is_finite (h c)"
      using original collect_share [OF valid c(1), of h] c unfolding share_rule_evaluates [OF r valid] by simp_all
    with shares [OF c(1)] show ?thesis by blast
  qed
  then have still: "solidarity_class \<lparr>sb_claims = cs, sb_estate = est, sb_allocation = original\<rparr> claimants scale est' original () cls
      = Inr (Inr ())" for scale est' cls by (rule solidarity_class_still)
  have "solidarity_shock r \<lparr>sb_claims = cs, sb_estate = est, sb_allocation = original\<rparr> claimants tested scale
      = Inr (Inr (tested + (if \<not> near_identity scale then 1 else 0)))" if "scale \<in> set scales" for tested scale
  proof -
    have t: "estate_total_scale (total est) scale = Inr (f64_mul (total est) scale)"
      using estates [OF that] by (simp add: estate_total_scale_def estate_total_new_def)
    have "rloop (solidarity_class \<lparr>sb_claims = cs, sb_estate = est, sb_allocation = original\<rparr> claimants scale est' original) ()
        (priority_classes r) = Inr (Inr ())" for est' by (rule rloop_passes) (rule still)
    then show ?thesis by (simp add: solidarity_shock_def near_identity_def t again Let_def)
  qed
  then have "rloop (solidarity_shock r \<lparr>sb_claims = cs, sb_estate = est, sb_allocation = original\<rparr> claimants) 0 scales
      = Inr (Inr (0 + length (filter (\<lambda>scale. \<not> near_identity scale) scales) * 1))" by (rule rloop_steps)
  then show ?thesis by simp
qed

text \<open>A rule whose share depends on the claim alone is admitted by the solidarity check: whatever the
  classes and the shocks are, every shock leaves every share as it is. The count is the number of shocks
  that are not the identity.\<close>

lemma share_rules_solidary:
  assumes r: "share_rule h r" and original: "evaluate_rule r cs est = Inr original"
    and shares: "\<And>c. c \<in> set cs \<Longrightarrow> nonneg64 (h c)" and members: "cl_id ` set claimants \<subseteq> clm_id ` set cs"
    and estates: "\<And>scale. scale \<in> set scales \<Longrightarrow> is_finite (f64_mul (total est) scale) \<and> \<not> f64_le (f64_mul (total est) scale) (Zero False)"
  shows "check_solidarity r cs est claimants scales
    = Inr (Admissible ''solidarity'' (length (filter (\<lambda>scale. \<not> near_identity scale) scales)))"
  by (simp add: check_solidarity_def original share_rule_shocks [OF assms])

text \<open>The hook rule hands a strengthened claim either what it had or nothing, so the inverted check admits it.\<close>

lemma hook_share_strengthened:
  assumes "nonneg64 (clm_strength c)" and "nonneg64 delta" and "is_finite (hook_share c)" and "nonneg64 (hook_share c)"
  shows "nonneg64 (hook_share (c\<lparr>clm_strength := f64_add (clm_strength c) delta\<rparr>))
    \<and> f64_le (hook_share (c\<lparr>clm_strength := f64_add (clm_strength c) delta\<rparr>)) (hook_share c)"
proof -
  let ?c = "c\<lparr>clm_strength := f64_add (clm_strength c) delta\<rparr>"
  have up: "f64_le threshold (clm_strength ?c)" if "f64_le threshold (clm_strength c)" for threshold
    using f64_le_trans [OF that f64_le_add_right [OF assms(1,2)]] by simp
  have same: "metric ?c = metric c" by (rule ext) (simp add: metric_def)
  then have "at_least_half ?c = at_least_half c" by (intro ext) (simp add: at_least_half_def)
  with same up have "hook_share ?c = hook_share c \<or> hook_share ?c = Zero False" by (simp add: hook_share_def Let_def)
  moreover have "f64_le (hook_share c) (hook_share c)" using assms(3) by (cases "hook_share c") (auto simp: f64_le_def)
  ultimately show ?thesis using assms(4) nonneg64_zero_le [OF assms(4), of False] by auto
qed

lemma set_strength_valid:
  assumes valid: "validate_all cs = Inr ()" and i: "i < length cs" and x: "is_finite x" "\<not> f64_le x (Zero False)"
  shows "validate_all (cs[i := (cs ! i)\<lparr>clm_strength := x\<rparr>]) = Inr ()"
proof -
  let ?cs = "cs[i := (cs ! i)\<lparr>clm_strength := x\<rparr>]"
  have "map clm_id ?cs = map clm_id cs" by (simp add: map_update i) (metis i list_update_id map_update nth_map)
  moreover have "claim_validate c = Inr ()" if "c \<in> set ?cs" for c
  proof (cases "c \<in> set cs")
    case True
    with valid show ?thesis by (simp add: validate_all_def validate_all_from_Inr)
  next
    case False
    with that have c: "c = (cs ! i)\<lparr>clm_strength := x\<rparr>" using set_update_subset_insert by fast
    have "claim_validate (cs ! i) = Inr ()" using valid i by (simp add: validate_all_def validate_all_from_Inr)
    then show ?thesis using x by (simp add: c claim_validate_def validate_claim_strength_def require_def result_simps)
  qed
  ultimately show ?thesis using valid by (simp add: validate_all_def validate_all_from_Inr flip: set_map)
qed

lemma strengthened_valid:
  assumes valid: "validate_all cs = Inr ()" and i: "i < length cs" and ok: "strengthened cs i delta = Inr cs'"
  shows "validate_all cs' = Inr ()"
proof -
  from ok have cs': "cs' = cs[i := (cs ! i)\<lparr>clm_strength := f64_add (clm_strength (cs ! i)) delta\<rparr>]"
    and st: "is_finite (f64_add (clm_strength (cs ! i)) delta)" "\<not> f64_le (f64_add (clm_strength (cs ! i)) delta) (Zero False)"
    by (auto simp: strengthened_def positive_strength_new_def result_simps split: if_splits)
  show ?thesis unfolding cs' by (rule set_strength_valid [OF valid i st])
qed

lemma hooks_increment:
  assumes original: "evaluate_rule claude_agent_sdk_hooks_rule cs est = Inr original"
    and strengths: "\<And>c. c \<in> set cs \<Longrightarrow> nonneg64 (clm_strength c) \<and> nonneg64 (hook_share c)"
    and deltas: "\<And>c delta. c \<in> set cs \<Longrightarrow> delta \<in> set deltas \<Longrightarrow> nonneg64 delta
      \<and> is_finite (f64_add (clm_strength c) delta)"
    and i: "i < length cs" and delta: "delta \<in> set deltas"
  shows "monotonicity_delta claude_agent_sdk_hooks_rule cs est True original i tested delta = Inr (Inr (tested + 1))"
proof -
  let ?r = claude_agent_sdk_hooks_rule
  note r = agent_rules_share(2)
  have valid: "validate_all cs = Inr ()" using original by (auto simp: evaluate_rule_def result_simps)
  note eval = share_rule_evaluates [OF r valid, of est]
  let ?c = "(cs ! i)\<lparr>clm_strength := f64_add (clm_strength (cs ! i)) delta\<rparr>" and ?cs = "cs[i := (cs ! i)\<lparr>clm_strength := f64_add (clm_strength (cs ! i)) delta\<rparr>]"
  have c: "cs ! i \<in> set cs" using i by simp
  note st = strengths [OF c] and d = deltas [OF c delta]
  have before: "bm_get original (clm_id (cs ! i)) = Some (hook_share (cs ! i))" "is_finite (hook_share (cs ! i))"
    using original collect_share [OF valid c, of hook_share] c unfolding eval by simp_all
  have "f64_le (clm_strength (cs ! i)) (f64_add (clm_strength (cs ! i)) delta)" using f64_le_add_right st d by blast
  moreover have "\<not> f64_le (clm_strength (cs ! i)) (Zero False)"
    using valid_strengths [OF valid i] by (auto simp: sound_strength_def f64_le_def)
  ultimately have "\<not> f64_le (f64_add (clm_strength (cs ! i)) delta) (Zero False)" using f64_le_trans by blast
  with d have ok: "strengthened cs i delta = Inr ?cs" by (simp add: strengthened_def positive_strength_new_def)
  note valid' = strengthened_valid [OF valid i ok]
  note less = hook_share_strengthened [OF conjunct1 [OF st] conjunct1 [OF d] before(2) conjunct2 [OF st]]
  have fin: "is_finite (hook_share ?c)" using less before(2)
    by (cases "hook_share ?c"; cases "hook_share (cs ! i)") (auto simp: f64_le_def)
  have "\<forall>c \<in> set ?cs. is_finite (hook_share c) \<and> \<not> f64_lt (hook_share c) (Zero False)"
  proof
    fix c' assume "c' \<in> set ?cs"
    then have "c' = ?c \<or> c' \<in> set cs" using set_update_subset_insert by fast
    then show "is_finite (hook_share c') \<and> \<not> f64_lt (hook_share c') (Zero False)"
    proof
      assume "c' = ?c"
      then show ?thesis using fin conjunct1 [OF less] nonneg64_zero_le [of "hook_share ?c" False] by (simp add: f64_lt_def)
    next
      assume "c' \<in> set cs"
      then show ?thesis using original unfolding eval by blast
    qed
  qed
  then have after: "evaluate_rule ?r ?cs est = Inr (collect_allocation (map (\<lambda>c. (clm_id c, hook_share c)) ?cs))"
    unfolding share_rule_evaluates [OF r valid'] by blast
  have "?c \<in> set ?cs" using i by (simp add: set_update_memI)
  from collect_share [OF valid' this, of hook_share]
  have share: "bm_get (collect_allocation (map (\<lambda>c. (clm_id c, hook_share c)) ?cs)) (clm_id (cs ! i)) = Some (hook_share ?c)" by simp
  have "\<not> moves_wrong True (hook_share (cs ! i)) (hook_share ?c)"
    using not_gains [OF conjunct2 [OF st] conjunct1 [OF less] conjunct2 [OF less]] by (simp add: moves_wrong_def gains_def)
  then show ?thesis unfolding monotonicity_delta_def Let_def ok rbind.simps after share_for_def before(1) share option_ok.simps if_False by (simp only: if_False)
qed

lemma hooks_increments:
  assumes original: "evaluate_rule claude_agent_sdk_hooks_rule cs est = Inr original"
    and strengths: "\<And>c. c \<in> set cs \<Longrightarrow> nonneg64 (clm_strength c) \<and> nonneg64 (hook_share c)"
    and deltas: "\<And>c delta. c \<in> set cs \<Longrightarrow> delta \<in> set deltas \<Longrightarrow> nonneg64 delta
      \<and> is_finite (f64_add (clm_strength c) delta)"
  shows "rloop (\<lambda>tested i. rloop (monotonicity_delta claude_agent_sdk_hooks_rule cs est True original i) tested deltas) 0 [0..<length cs]
    = Inr (Inr (length cs * length deltas))"
proof -
  let ?step = "monotonicity_delta claude_agent_sdk_hooks_rule cs est True original"
  have inner: "rloop (?step i) tested deltas = Inr (Inr (tested + length deltas))" if "i < length cs" for i tested
    using rloop_steps [where P = "\<lambda>_. True" and k = 1 and f = "?step i"] hooks_increment [OF assms that] by simp
  have "rloop (\<lambda>tested i. rloop (?step i) tested deltas) 0 [0..<length cs]
      = Inr (Inr (0 + length (filter (\<lambda>_. True) [0..<length cs]) * length deltas))"
    by (rule rloop_steps) (simp add: inner)
  then show ?thesis by simp
qed

text \<open>C39: the hook rule passes the inverted monotonicity check on every batch it can be evaluated on: a
  stronger claim never gets a larger share. Every claim is tested with every increment. The assumptions on
  strengths, increments and shares hold of all doubles the program builds: positive strengths
  whose sums stay finite.\<close>

theorem hooks_never_reward_strength:
  assumes original: "evaluate_rule claude_agent_sdk_hooks_rule cs est = Inr original"
    and strengths: "\<And>c. c \<in> set cs \<Longrightarrow> nonneg64 (clm_strength c) \<and> nonneg64 (hook_share c)"
    and deltas: "\<And>c delta. c \<in> set cs \<Longrightarrow> delta \<in> set deltas \<Longrightarrow> nonneg64 delta
      \<and> is_finite (f64_add (clm_strength c) delta)"
  shows "check_monotonicity claude_agent_sdk_hooks_rule cs est deltas True
    = Inr (Admissible ''monotonicity (inverted)'' (length cs * length deltas))"
  by (simp add: check_monotonicity_def original monotonicity_label_def hooks_increments [OF assms])

section \<open>A batch of two hook claims\<close>

definition hook_members :: "claimant list" where
  "hook_members = [\<lparr>cl_id = ''r'', cl_priority_class = ''tool_invocation'', cl_attributes = []\<rparr>,
     \<lparr>cl_id = ''w'', cl_priority_class = ''tool_invocation'', cl_attributes = []\<rparr>]"

lemma one_two_doubles: "nonneg64 (Num 1)" "nonneg64 (Num 2)" "round64 2 = Num 2" "round64 3 = Num 3"
  using round64_dyadic [of 1 0] round64_dyadic [of 2 0] round64_dyadic [of 3 0] by (simp_all add: representable_def)

lemma hook_batch_doubles: "c \<in> set hook_batch \<Longrightarrow> nonneg64 (clm_strength c) \<and> nonneg64 (hook_share c)"
  using hook_batch_shares one_two_doubles by (auto simp: hook_batch_def)

lemma two_not_identity: "\<not> near_identity (Num 2)"
proof -
  obtain e where e: "EPSILON = Num e" "e \<le> 1 / 2 ^ 29" using EPSILON_between by blast
  have "round64 1 = Num 1" using round64_dyadic [of 1 0] by simp
  then show ?thesis unfolding near_identity_def e(1) using e(2) by (simp add: f64_sub_def f64_lt_def f64_le_def)
qed

lemma hook_batch_shares_nonneg: "c \<in> set hook_batch \<Longrightarrow> nonneg64 (hook_share c)"
  by (rule conjunct2 [OF hook_batch_doubles])

lemma hook_batch_scales:
  "cl_id ` set hook_members \<subseteq> clm_id ` set hook_batch"
  "scale \<in> set [Num 2] \<Longrightarrow> is_finite (f64_mul (total (house 1)) scale) \<and> \<not> f64_le (f64_mul (total (house 1)) scale) (Zero False)"
  by (simp_all add: hook_members_def hook_batch_def house_def one_two_doubles f64_le_def)

lemma hook_batch_shocks:
  "rloop (solidarity_shock claude_agent_sdk_hooks_rule \<lparr>sb_claims = hook_batch, sb_estate = house 1,
      sb_allocation = collect_allocation (map (\<lambda>c. (clm_id c, hook_share c)) hook_batch)\<rparr> hook_members) 0 [Num 2] = Inr (Inr 1)"
proof -
  note shocks = share_rule_shocks [OF agent_rules_share(2) hook_batch_original hook_batch_shares_nonneg, where scales = "[Num 2]"
      and est = "house 1" and claimants = hook_members]
  show ?thesis by (subst shocks) (use hook_batch_scales in \<open>auto simp: two_not_identity\<close>)
qed

lemma share_rules_solidary_witness:
  "check_solidarity claude_agent_sdk_hooks_rule hook_batch (house 1) hook_members [Num 2] = Inr (Admissible ''solidarity'' 1)"
proof -
  note solidary = share_rules_solidary [OF agent_rules_share(2) hook_batch_original hook_batch_shares_nonneg,
      where scales = "[Num 2]" and est = "house 1" and claimants = hook_members]
  show ?thesis by (subst solidary) (use hook_batch_scales in \<open>auto simp: two_not_identity\<close>)
qed

theorem solidarity_meaning_witness:
  "\<exists>original shocked_estate shocked. evaluate_rule claude_agent_sdk_hooks_rule hook_batch (house 1) = Inr original
     \<and> shock_answer claude_agent_sdk_hooks_rule hook_batch (house 1) (Num 2) shocked_estate shocked
     \<and> class_solidary original shocked False hook_members"
proof -
  have run: "check_solidarity claude_agent_sdk_hooks_rule hook_batch (house 1) hook_members [Num 2] = Inr (Admissible ''solidarity'' 1)"
    using hook_batch_shocks by (simp add: check_solidarity_def hook_batch_original)
  have cls: "class_members hook_members ''tool_invocation'' = hook_members" "priority_classes claude_agent_sdk_hooks_rule = [''tool_invocation'']"
    by (simp_all add: class_members_def hook_members_def claude_agent_sdk_hooks_rule_def)
  have "\<not> f64_lt (Num 2) (Num 1)" by (simp add: f64_lt_def f64_le_def)
  with solidarity_meaning [OF run] two_not_identity show ?thesis by (auto simp: cls)
qed

lemma hook_batch_increments:
  assumes "c \<in> set hook_batch" and "delta \<in> set [Num 1]"
  shows "nonneg64 delta \<and> is_finite (f64_add (clm_strength c) delta)"
  using assms one_two_doubles by (auto simp: hook_batch_def)

theorem hooks_never_reward_strength_witness:
  "check_monotonicity claude_agent_sdk_hooks_rule hook_batch (house 1) [Num 1] True = Inr (Admissible ''monotonicity (inverted)'' 2)"
  by (subst hooks_never_reward_strength [OF hook_batch_original hook_batch_doubles hook_batch_increments])
    (simp_all add: hook_batch_def)

lemma monotonicity_meaning_witness:
  "\<exists>original. evaluate_rule claude_agent_sdk_hooks_rule hook_batch (house 1) = Inr original
     \<and> monotone_at claude_agent_sdk_hooks_rule hook_batch (house 1) True original 1 (Num 1)"
proof -
  have "check_monotonicity claude_agent_sdk_hooks_rule hook_batch (house 1) [Num 1] True
      = Inr (Admissible ''monotonicity (inverted)'' (length hook_batch * length [Num 1]))"
  proof -
    note increments = hooks_increments [where deltas = "[Num 1]" and est = "house 1", OF hook_batch_original hook_batch_doubles
        hook_batch_increments]
    show ?thesis by (simp only: check_monotonicity_def hook_batch_original rbind.simps increments) (simp add: monotonicity_label_def)
  qed
  from monotonicity_meaning [OF this] show ?thesis by (auto simp: hook_batch_def)
qed

end
