(* ===== verification/Rule_Compiler.thy ===== *)
theory Rule_Compiler
  imports Rule_Diagnostics Protocol_Transitions
begin

text \<open>
  The compilation of an allocation rule (\<open>src/src/compiler.rs\<close>), the certificates of governed acts
  (\<open>certificate.rs\<close>), the sacrifices declared for a rule or a graph that violates an axiom
  (\<open>sacrifice.rs\<close>) and the factor exposure of a rule (\<open>factor.rs\<close>). The ledger of the code is an
  external database; writing to it and hashing a compiled rule are arguments that can fail. The
  properties say what a certificate guarantees and that no violation goes undeclared.
\<close>

section \<open>Compilation\<close>

record family =
  fam_reductions :: bool
  fam_shocks :: "f64 list"
  fam_strengthening_deltas :: "f64 list"
  fam_monotonicity_inversion :: bool

definition show_bool :: "bool \<Rightarrow> string" where
  "show_bool b = (if b then ''true'' else ''false'')"

definition family_describe :: "family \<Rightarrow> message" where
  "family_describe fam =
     Message ''reductions={}, shocks={:?}, strengthening_deltas={:?}, monotonicity_inversion={}''
       (AStr (show_bool (fam_reductions fam)) # map AF64 (fam_shocks fam) @ map AF64 (fam_strengthening_deltas fam)
          @ [AStr (show_bool (fam_monotonicity_inversion fam))])"

record compiled_rule =
  cr_name :: string
  cr_version :: string
  cr_axiom_verdicts :: "verdict list"
  cr_strategyproofness :: strategyproofness_verdict
  cr_family_description :: message
  cr_compiled_at :: string

fun verdict_admissible :: "verdict \<Rightarrow> bool" where
  "verdict_admissible (Admissible axm n) = True"
| "verdict_admissible (Rejected axm cx) = False"

definition all_admissible :: "verdict list \<Rightarrow> strategyproofness_verdict \<Rightarrow> bool" where
  "all_admissible verdicts sp \<longleftrightarrow> list_all verdict_admissible verdicts \<and> sp = Strategyproof"

definition rule_is_admissible :: "compiled_rule \<Rightarrow> bool" where
  "rule_is_admissible c = all_admissible (cr_axiom_verdicts c) (cr_strategyproofness c)"

definition rule_violations :: "compiled_rule \<Rightarrow> counterexample list" where
  "rule_violations c = concat (map (\<lambda>v. case v of Admissible axm n \<Rightarrow> [] | Rejected axm cx \<Rightarrow> [cx]) (cr_axiom_verdicts c))"

definition unix_timestamp :: "clock \<Rightarrow> legitimacy_error + string" where
  "unix_timestamp now = (case now of None \<Rightarrow> Inl SystemClock | Some seconds \<Rightarrow> Inr (show_nat (unat seconds)))"

definition compile_rule_with_options ::
  "(compiled_rule \<Rightarrow> legitimacy_error + unit) \<Rightarrow> clock \<Rightarrow> rule \<Rightarrow> claim list \<Rightarrow> estate \<Rightarrow> claimant list \<Rightarrow> family
     \<Rightarrow> full_consistency_options \<Rightarrow> legitimacy_error fault + compiled_rule" where
  "compile_rule_with_options record_compiled now r cs est claimants fam options =
     rbind (raise (evaluate_rule r cs est)) (\<lambda>_.
     rbind (if fam_reductions fam then rbind (check_full_consistency r cs est options) (\<lambda>v. Inr [v]) else Inr []) (\<lambda>reductions.
     rbind (raise (check_solidarity r cs est claimants (fam_shocks fam))) (\<lambda>solidarity.
     rbind (raise (check_monotonicity r cs est (fam_strengthening_deltas fam) (fam_monotonicity_inversion fam))) (\<lambda>monotonicity.
     rbind (check_strategyproofness r cs est) (\<lambda>strategyproofness.
     rbind (raise (unix_timestamp now)) (\<lambda>compiled_at.
     let compiled = \<lparr>cr_name = rule_name r, cr_version = rule_version r,
           cr_axiom_verdicts = reductions @ [solidarity, monotonicity], cr_strategyproofness = strategyproofness,
           cr_family_description = family_describe fam, cr_compiled_at = compiled_at\<rparr>
     in rbind (raise (record_compiled compiled)) (\<lambda>_. Inr compiled)))))))"

definition compile_rule ::
  "(compiled_rule \<Rightarrow> legitimacy_error + unit) \<Rightarrow> clock \<Rightarrow> rule \<Rightarrow> claim list \<Rightarrow> estate \<Rightarrow> claimant list \<Rightarrow> family
     \<Rightarrow> legitimacy_error fault + compiled_rule" where
  "compile_rule record_compiled now r cs est claimants fam =
     compile_rule_with_options record_compiled now r cs est claimants fam default_consistency_options"

section \<open>Certificates\<close>

record certification_context =
  cc_compiled_rule :: compiled_rule
  cc_rule :: rule
  cc_claims :: "claim list"
  cc_estate :: estate

record rule_certificate =
  ct_rule_name :: string
  ct_rule_version :: string
  ct_compiled_rule_hash :: string
  ct_act_description :: string
  ct_claimant_id :: string
  ct_outcome :: f64
  ct_evidence :: "(string, string) bmap"
  ct_issued_at :: string
  ct_admissible :: bool

definition expected_certified_outcome :: "certification_context \<Rightarrow> string \<Rightarrow> legitimacy_error + f64" where
  "expected_certified_outcome ctx cid =
     rbind (evaluate_rule (cc_rule ctx) (cc_claims ctx) (cc_estate ctx)) (\<lambda>alloc.
       share_for alloc cid ''certificate verification'')"

definition ensure_matching_rule :: "compiled_rule \<Rightarrow> rule \<Rightarrow> legitimacy_error + unit" where
  "ensure_matching_rule c r =
     require (cr_name c = rule_name r \<and> cr_version c = rule_version r)
       (CertificationRuleMismatch (cr_name c) (cr_version c) (rule_name r) (rule_version r))"

definition outcome_matches :: "f64 \<Rightarrow> f64 \<Rightarrow> bool" where
  "outcome_matches expected actual \<longleftrightarrow>
     (let tolerance = f64_add (f64_add EPSILON (f64_mul EPSILON (f64_abs expected))) (f64_mul EPSILON (f64_abs actual))
      in is_finite expected \<and> is_finite actual \<and> f64_le (f64_abs (f64_sub expected actual)) tolerance)"

definition ensure_matching_outcome :: "compiled_rule \<Rightarrow> string \<Rightarrow> f64 \<Rightarrow> f64 \<Rightarrow> legitimacy_error + unit" where
  "ensure_matching_outcome c cid expected actual =
     require (outcome_matches expected actual) (CertifiedOutcomeMismatch (cr_name c) (cr_version c) cid expected actual)"

definition certify ::
  "(compiled_rule \<Rightarrow> legitimacy_error + string) \<Rightarrow> (rule_certificate \<Rightarrow> legitimacy_error + unit) \<Rightarrow> clock
     \<Rightarrow> certification_context \<Rightarrow> string \<Rightarrow> string \<Rightarrow> f64 \<Rightarrow> (string, string) bmap \<Rightarrow> legitimacy_error + rule_certificate" where
  "certify content_hash record_certificate now ctx act cid outcome evidence =
     (let c = cc_compiled_rule ctx in
      rbind (ensure_matching_rule c (cc_rule ctx)) (\<lambda>_.
      rbind (require (rule_is_admissible c) (RuleNotAdmissible (cr_name c) (cr_version c))) (\<lambda>_.
      rbind (expected_certified_outcome ctx cid) (\<lambda>expected.
      rbind (ensure_matching_outcome c cid expected outcome) (\<lambda>_.
      rbind (content_hash c) (\<lambda>hash.
      rbind (iso8601_timestamp now) (\<lambda>issued_at.
      let certificate = \<lparr>ct_rule_name = cr_name c, ct_rule_version = cr_version c, ct_compiled_rule_hash = hash,
            ct_act_description = act, ct_claimant_id = cid, ct_outcome = outcome, ct_evidence = evidence,
            ct_issued_at = issued_at, ct_admissible = True\<rparr>
      in rbind (record_certificate certificate) (\<lambda>_. Inr certificate))))))))"

section \<open>Factor exposure\<close>

definition default_claimants :: "rule \<Rightarrow> claim list \<Rightarrow> claimant list" where
  "default_claimants r cs =
     (let default_priority_class = (case priority_classes r of [] \<Rightarrow> ''standard'' | cls # _ \<Rightarrow> cls)
      in map (\<lambda>c. \<lparr>cl_id = clm_id c, cl_priority_class = default_priority_class, cl_attributes = []\<rparr>) cs)"

definition DEFAULT_SHOCKS :: "f64 list" where
  "DEFAULT_SHOCKS = [round64 (1 / 2), round64 (3 / 4), round64 (5 / 4), round64 (3 / 2)]"

definition DEFAULT_STRENGTHENING :: "f64 list" where
  "DEFAULT_STRENGTHENING = [round64 (1 / 10), round64 (1 / 2), round64 1]"

definition default_family :: "legitimacy_error + family" where
  "default_family =
     rbind (rmap positive_strength_new DEFAULT_STRENGTHENING) (\<lambda>deltas.
       Inr \<lparr>fam_reductions = True, fam_shocks = DEFAULT_SHOCKS, fam_strengthening_deltas = deltas,
            fam_monotonicity_inversion = False\<rparr>)"

definition exposure_of :: "verdict \<Rightarrow> f64" where
  "exposure_of v = (if verdict_admissible v then Zero False else Num 1)"

definition compute_factor_exposure_with_options ::
  "rule \<Rightarrow> claim list \<Rightarrow> claimant list \<Rightarrow> estate \<Rightarrow> family \<Rightarrow> full_consistency_options
     \<Rightarrow> legitimacy_error fault + factor_exposure" where
  "compute_factor_exposure_with_options r cs claimants est fam options =
     rbind (check_full_consistency r cs est options) (\<lambda>consistency.
     rbind (raise (check_solidarity r cs est claimants (fam_shocks fam))) (\<lambda>solidarity.
     rbind (raise (check_monotonicity r cs est (fam_strengthening_deltas fam) (fam_monotonicity_inversion fam))) (\<lambda>monotonicity.
     rbind (check_strategyproofness r cs est) (\<lambda>strategyproofness.
     rbind (raise (rule_allocate r cs est)) (\<lambda>alloc.
       Inr \<lparr>fe_consistency = exposure_of consistency, fe_solidarity = exposure_of solidarity,
            fe_monotonicity = exposure_of monotonicity, fe_strategyproofness = strategyproofness_exposure strategyproofness,
            fe_nonvacuity = (if cs = [] \<or> \<not> list_ex (\<lambda>share. f64_lt EPSILON share) (bm_values alloc) then Num 1
                             else Zero False)\<rparr>)))))"

definition compute_factor_exposure_with_family ::
  "rule \<Rightarrow> claim list \<Rightarrow> claimant list \<Rightarrow> estate \<Rightarrow> family \<Rightarrow> legitimacy_error fault + factor_exposure" where
  "compute_factor_exposure_with_family r cs claimants est fam =
     compute_factor_exposure_with_options r cs claimants est fam default_consistency_options"

definition compute_factor_exposure :: "rule \<Rightarrow> claim list \<Rightarrow> estate \<Rightarrow> legitimacy_error fault + factor_exposure" where
  "compute_factor_exposure r cs est =
     rbind (raise default_family) (\<lambda>fam. compute_factor_exposure_with_family r cs (default_claimants r cs) est fam)"

section \<open>Sacrifices\<close>

datatype compiled_governance_kind = RuleKind | GraphKind

record sacrifice_provenance =
  pv_compiled_kind :: compiled_governance_kind
  pv_compiled_name :: string
  pv_compiled_version :: string
  pv_compiled_at :: string
  pv_family_description :: message
  pv_source_axiom :: string
  pv_witness :: message

record compiled_sacrifice =
  cs_sacrificed_property :: governance_property
  cs_justification :: message
  cs_impact_bound :: f64
  cs_monitoring_plan :: "monitoring_spec list"
  cs_provenance :: sacrifice_provenance

record compiled_metadata =
  md_kind :: compiled_governance_kind
  md_name :: string
  md_version :: string
  md_family_description :: message
  md_compiled_at :: string

text \<open>Text written after text: the templates and the arguments follow one another.\<close>

fun message_join :: "message \<Rightarrow> string \<Rightarrow> message \<Rightarrow> message" where
  "message_join (Message t args) sep (Message t' args') = Message (t @ sep @ t') (args @ args')"

definition ascii_lower :: "char \<Rightarrow> char" where
  "ascii_lower c = (if 65 \<le> code_of c \<and> code_of c \<le> 90 then char_of (code_of c + 32) else c)"

definition text_contains :: "string \<Rightarrow> string \<Rightarrow> bool" where
  "text_contains s needle \<longleftrightarrow> list_ex (\<lambda>i. take (length needle) (drop i s) = needle) [0..<Suc (length s)]"

definition sacrifice_property_for_axiom :: "string \<Rightarrow> governance_property option" where
  "sacrifice_property_for_axiom axm =
     (let lower = map ascii_lower axm; has = text_contains lower in
      if has ''compositional safety'' then Some CompositionalSafetyProperty
      else if has ''certifiability'' \<or> has ''certifiable'' then Some Certifiability
      else if has ''corrigibility'' \<or> has ''corrigible'' then Some Corrigibility
      else if has ''observable determinacy'' \<or> has ''observable_determinacy'' then Some ObservableDeterminacy
      else if has ''nonvacu'' \<or> has ''non-vacu'' \<or> has ''non_vacu'' then Some NonVacuousProperty
      else if has ''consistency'' then Some Consistency
      else if has ''solidarity'' then Some Solidarity
      else if has ''monotonicity'' then Some Monotonicity
      else None)"

definition find_claim :: "claim list \<Rightarrow> string \<Rightarrow> claim option" where
  "find_claim cs k = find (\<lambda>c. clm_id c = k) cs"

definition claim_ids :: "counterexample \<Rightarrow> string list" where
  "claim_ids cx = sorted_list_of_set (clm_id ` (set (original_claims cx) \<union> set (perturbed_claims cx)))"

definition estate_relative_change :: "counterexample \<Rightarrow> f64" where
  "estate_relative_change cx =
     (let original = total (original_estate cx); perturbed = total (perturbed_estate cx) in
      if f64_le original EPSILON then Zero False else f64_abs (f64_sub (f64_div perturbed original) (Num 1)))"

definition strength_in :: "claim list \<Rightarrow> string \<Rightarrow> f64" where
  "strength_in cs k = (case find_claim cs k of None \<Rightarrow> Zero False | Some c \<Rightarrow> clm_strength c)"

definition max_strength_delta :: "counterexample \<Rightarrow> f64" where
  "max_strength_delta cx =
     foldl f64_max (Zero False)
       (map (\<lambda>k. f64_abs (f64_sub (strength_in (perturbed_claims cx) k) (strength_in (original_claims cx) k))) (claim_ids cx))"

definition metrics_in :: "claim list \<Rightarrow> string \<Rightarrow> (string, f64) bmap" where
  "metrics_in cs k = (case find_claim cs k of None \<Rightarrow> [] | Some c \<Rightarrow> clm_metrics c)"

definition metric_delta :: "counterexample \<Rightarrow> string \<Rightarrow> string \<Rightarrow> (string, f64) bmap \<Rightarrow> (string, f64) bmap" where
  "metric_delta cx k name deltas =
     (let before = or_default (Zero False) (metrics_in (original_claims cx) k) name;
          after = or_default (Zero False) (metrics_in (perturbed_claims cx) k) name;
          delta = f64_abs (f64_sub after before)
      in bm_insert name (case bm_get deltas name of None \<Rightarrow> delta | Some current \<Rightarrow> f64_max current delta) deltas)"

definition max_claim_metric_deltas :: "counterexample \<Rightarrow> (string, f64) bmap" where
  "max_claim_metric_deltas cx =
     fold (\<lambda>k deltas.
         let names = sorted_list_of_set (set (bm_keys (metrics_in (original_claims cx) k)) \<union> set (bm_keys (metrics_in (perturbed_claims cx) k)))
         in fold (metric_delta cx k) names deltas) (claim_ids cx) []"

fun monitoring_frequency_seconds :: "governance_property \<Rightarrow> u64" where
  "monitoring_frequency_seconds Consistency = 900"
| "monitoring_frequency_seconds Solidarity = 300"
| "monitoring_frequency_seconds Monotonicity = 300"
| "monitoring_frequency_seconds _ = 60"

definition monitoring_alert_channel :: "governance_property \<Rightarrow> string" where
  "monitoring_alert_channel p = ''governance-risk.'' @ as_str p"

definition add_metric :: "string \<times> f64 \<Rightarrow> (string, f64) bmap \<Rightarrow> (string, f64) bmap" where
  "add_metric e m = (if f64_lt EPSILON (snd e) then bm_insert (''claim_metric_delta.'' @ fst e) (snd e) m else m)"

definition monitoring_metrics :: "counterexample \<Rightarrow> (string, f64) bmap" where
  "monitoring_metrics cx =
     (let estate_delta = estate_relative_change cx;
          strength_delta = max_strength_delta cx;
          m1 = (if f64_lt EPSILON estate_delta then bm_insert ''estate_relative_change'' estate_delta [] else []);
          m2 = (if f64_lt EPSILON strength_delta then bm_insert ''claim_strength_delta'' strength_delta m1 else m1)
      in fold add_metric (max_claim_metric_deltas cx) m2)"

definition monitoring_plan :: "governance_property \<Rightarrow> counterexample \<Rightarrow> monitoring_spec list" where
  "monitoring_plan p cx =
     map (\<lambda>(name, threshold). \<lparr>ms_metric = as_str p @ ''.'' @ name, ms_threshold = threshold,
            ms_frequency_seconds = monitoring_frequency_seconds p, ms_alert_channel = monitoring_alert_channel p\<rparr>)
       (monitoring_metrics cx)"

definition provenance_of :: "compiled_metadata \<Rightarrow> string \<Rightarrow> message \<Rightarrow> sacrifice_provenance" where
  "provenance_of md axm witness =
     \<lparr>pv_compiled_kind = md_kind md, pv_compiled_name = md_name md, pv_compiled_version = md_version md,
      pv_compiled_at = md_compiled_at md, pv_family_description = md_family_description md, pv_source_axiom = axm,
      pv_witness = witness\<rparr>"

definition counterexample_sacrifice ::
  "compiled_metadata \<Rightarrow> governance_property \<Rightarrow> string \<Rightarrow> counterexample \<Rightarrow> compiled_sacrifice" where
  "counterexample_sacrifice md p axm cx =
     (let plan = monitoring_plan p cx in
      \<lparr>cs_sacrificed_property = p, cs_justification = message_join (violation cx) '' Witness: '' (description cx),
       cs_impact_bound = foldl f64_max (Zero False) (map ms_threshold plan), cs_monitoring_plan = plan,
       cs_provenance = provenance_of md axm (description cx)\<rparr>)"

definition manipulation_sacrifice :: "compiled_metadata \<Rightarrow> strategyproofness_witness \<Rightarrow> compiled_sacrifice" where
  "manipulation_sacrifice md w =
     (let threshold = f64_abs (f64_sub (sw_reported w) (sw_true_strength w)) in
      \<lparr>cs_sacrificed_property = Strategyproofness,
       cs_justification = Message ''Claimant '{}' can improve its outcome by misreporting strength from {} to {}, moving from {} to {}.''
         [AStr (sw_claimant w), AF64 (sw_true_strength w), AF64 (sw_reported w), AF64 (sw_true_alloc w), AF64 (sw_manipulated_alloc w)],
       cs_impact_bound = threshold,
       cs_monitoring_plan = [\<lparr>ms_metric = as_str Strategyproofness @ ''.claim_strength_delta'', ms_threshold = threshold,
         ms_frequency_seconds = monitoring_frequency_seconds Strategyproofness,
         ms_alert_channel = monitoring_alert_channel Strategyproofness\<rparr>],
       cs_provenance = provenance_of md ''strategyproofness''
         (Message ''manipulable claimant={}, true_strength={}, reported={}''
            [AStr (sw_claimant w), AF64 (sw_true_strength w), AF64 (sw_reported w)])\<rparr>)"

fun verdict_sacrifices :: "compiled_metadata \<Rightarrow> verdict \<Rightarrow> compiled_sacrifice list" where
  "verdict_sacrifices md (Admissible axm n) = []"
| "verdict_sacrifices md (Rejected axm cx) =
     (case sacrifice_property_for_axiom axm of None \<Rightarrow> [] | Some p \<Rightarrow> [counterexample_sacrifice md p axm cx])"

definition sacrifices_from_axioms ::
  "compiled_metadata \<Rightarrow> verdict list \<Rightarrow> strategyproofness_verdict \<Rightarrow> compiled_sacrifice list" where
  "sacrifices_from_axioms md verdicts sp =
     concat (map (verdict_sacrifices md) verdicts)
       @ (case strategyproofness_witness_of sp of None \<Rightarrow> [] | Some w \<Rightarrow> [manipulation_sacrifice md w])"

definition sacrifices_from_rule :: "compiled_rule \<Rightarrow> compiled_sacrifice list" where
  "sacrifices_from_rule c =
     sacrifices_from_axioms \<lparr>md_kind = RuleKind, md_name = cr_name c, md_version = cr_version c,
       md_family_description = cr_family_description c, md_compiled_at = cr_compiled_at c\<rparr>
       (cr_axiom_verdicts c) (cr_strategyproofness c)"

section \<open>Compilation with sacrifices\<close>

record graph_payload =
  gp_name :: string
  gp_version :: string
  gp_axiom_verdicts :: "verdict list"
  gp_strategyproofness :: strategyproofness_verdict
  gp_family_description :: message
  gp_compiled_at :: string

definition graph_is_admissible :: "graph_payload \<Rightarrow> bool" where
  "graph_is_admissible c = all_admissible (gp_axiom_verdicts c) (gp_strategyproofness c)"

datatype compiled_governance = CompiledRule compiled_rule | CompiledGraph graph_payload

record sacrifices_certificate =
  dc_compiled :: compiled_governance
  dc_sacrifices :: "compiled_sacrifice list"

definition sacrifices_from_graph :: "graph_payload \<Rightarrow> compiled_sacrifice list" where
  "sacrifices_from_graph c =
     sacrifices_from_axioms \<lparr>md_kind = GraphKind, md_name = gp_name c, md_version = gp_version c,
       md_family_description = gp_family_description c, md_compiled_at = gp_compiled_at c\<rparr>
       (gp_axiom_verdicts c) (gp_strategyproofness c)"

definition require_graph_kernel_verdict :: "axiom_verdict \<Rightarrow> legitimacy_error + verdict" where
  "require_graph_kernel_verdict v =
     (case verdict_try_from v of
        Inl skipped \<Rightarrow> Inl (invalid_input ''skipped {} during graph sacrifice compilation: {}''
          [AStr (graph_axiom_name (sk_axiom skipped)), AStr (sk_reason skipped)])
      | Inr verdict \<Rightarrow> Inr verdict)"

definition kernel_verdict :: "legitimacy_error fault + axiom_verdict \<Rightarrow> legitimacy_error fault + verdict" where
  "kernel_verdict check = rbind check (\<lambda>v. raise (require_graph_kernel_verdict v))"

definition field_args :: "field_delta list \<Rightarrow> fmt_arg list" where
  "field_args ds = concat (map (\<lambda>d. [AStr (fd_field d), AF64 (fd_delta d)]) ds)"

definition compile_graph_payload ::
  "regex_engine \<Rightarrow> clock \<Rightarrow> governance_graph \<Rightarrow> governance_claim list \<Rightarrow> legitimacy_error fault + graph_payload" where
  "compile_graph_payload rx now g cs =
     (let fields = graph_fields cs; shocks = graph_shocks cs; deltas = graph_deltas cs in
      rbind (check_graph_consistency rx g cs) (\<lambda>consistency.
      rbind (check_graph_solidarity rx g cs shocks) (\<lambda>solidarity.
      rbind (check_graph_monotonicity rx g cs deltas) (\<lambda>monotonicity.
      rbind (kernel_verdict (check_graph_certifiability rx g cs)) (\<lambda>certifiability.
      rbind (kernel_verdict (check_graph_observable_determinacy rx g cs)) (\<lambda>observable.
      rbind (kernel_verdict (check_graph_corrigibility rx g cs)) (\<lambda>corrigibility.
      rbind (kernel_verdict (check_graph_compositional_safety rx g cs)) (\<lambda>compositional_safety.
      rbind (kernel_verdict (check_graph_nonvacuity rx g cs [])) (\<lambda>nonvacuity.
      rbind (check_graph_strategyproofness_verdict rx g cs) (\<lambda>strategyproofness.
      rbind (raise (unix_timestamp now)) (\<lambda>compiled_at.
        Inr \<lparr>gp_name = ''governance-graph'', gp_version = ''derived'',
             gp_axiom_verdicts = [consistency, solidarity, monotonicity, certifiability, observable, corrigibility,
               compositional_safety, nonvacuity],
             gp_strategyproofness = strategyproofness,
             gp_family_description = Message ''derived_fields={:?}, shocks={:?}, deltas={:?}''
               (AList fields # field_args shocks @ field_args deltas),
             gp_compiled_at = compiled_at\<rparr>)))))))))))"

text \<open>The ledger is written only when there is a sacrifice to declare.\<close>

definition issue_certificate ::
  "(sacrifices_certificate \<Rightarrow> legitimacy_error + unit) \<Rightarrow> compiled_governance \<Rightarrow> compiled_sacrifice list
     \<Rightarrow> legitimacy_error + sacrifices_certificate" where
  "issue_certificate record_sacrifices compiled sacrifices =
     (let certificate = \<lparr>dc_compiled = compiled, dc_sacrifices = sacrifices\<rparr> in
      rbind (if sacrifices \<noteq> [] then record_sacrifices certificate else Inr ()) (\<lambda>_. Inr certificate))"

text \<open>What the compilation takes from outside: two writes to the ledger and the reading of the clock.\<close>

record compile_env =
  en_record_compiled :: "compiled_rule \<Rightarrow> legitimacy_error + unit"
  en_record_sacrifices :: "sacrifices_certificate \<Rightarrow> legitimacy_error + unit"
  en_clock :: clock

definition compile_with_sacrifices_with_options ::
  "compile_env \<Rightarrow> rule \<Rightarrow> claim list \<Rightarrow> claimant list \<Rightarrow> estate \<Rightarrow> family \<Rightarrow> full_consistency_options
     \<Rightarrow> legitimacy_error fault + sacrifices_certificate" where
  "compile_with_sacrifices_with_options env r cs claimants est fam options =
     rbind (compile_rule_with_options (en_record_compiled env) (en_clock env) r cs est claimants fam options) (\<lambda>compiled.
       raise (issue_certificate (en_record_sacrifices env) (CompiledRule compiled) (sacrifices_from_rule compiled)))"

definition compile_with_sacrifices_with_family ::
  "compile_env \<Rightarrow> rule \<Rightarrow> claim list \<Rightarrow> claimant list \<Rightarrow> estate \<Rightarrow> family \<Rightarrow> legitimacy_error fault + sacrifices_certificate" where
  "compile_with_sacrifices_with_family env r cs claimants est fam =
     compile_with_sacrifices_with_options env r cs claimants est fam default_consistency_options"

definition compile_with_revised_sacrifices_with_family ::
  "compile_env \<Rightarrow> rule \<Rightarrow> claim list \<Rightarrow> claimant list \<Rightarrow> estate \<Rightarrow> family \<Rightarrow> compiled_sacrifice list
     \<Rightarrow> legitimacy_error fault + sacrifices_certificate" where
  "compile_with_revised_sacrifices_with_family env r cs claimants est fam revised =
     rbind (compile_rule (en_record_compiled env) (en_clock env) r cs est claimants fam) (\<lambda>compiled.
       raise (issue_certificate (en_record_sacrifices env) (CompiledRule compiled) revised))"

definition compile_rule_sacrifices ::
  "compile_env \<Rightarrow> rule \<Rightarrow> claim list \<Rightarrow> estate \<Rightarrow> legitimacy_error fault + sacrifices_certificate" where
  "compile_rule_sacrifices env r cs est =
     rbind (raise default_family) (\<lambda>fam. compile_with_sacrifices_with_family env r cs (default_claimants r cs) est fam)"

definition recompile_rule_sacrifices ::
  "compile_env \<Rightarrow> rule \<Rightarrow> claim list \<Rightarrow> estate \<Rightarrow> compiled_sacrifice list \<Rightarrow> legitimacy_error fault + sacrifices_certificate" where
  "recompile_rule_sacrifices env r cs est revised =
     rbind (raise default_family) (\<lambda>fam.
       compile_with_revised_sacrifices_with_family env r cs (default_claimants r cs) est fam revised)"

definition compile_graph_with_sacrifices ::
  "compile_env \<Rightarrow> regex_engine \<Rightarrow> governance_graph \<Rightarrow> governance_claim list \<Rightarrow> legitimacy_error fault + sacrifices_certificate" where
  "compile_graph_with_sacrifices env rx g cs =
     rbind (compile_graph_payload rx (en_clock env) g cs) (\<lambda>compiled.
       raise (issue_certificate (en_record_sacrifices env) (CompiledGraph compiled) (sacrifices_from_graph compiled)))"

definition compile_graph_with_revised_sacrifices ::
  "compile_env \<Rightarrow> regex_engine \<Rightarrow> governance_graph \<Rightarrow> governance_claim list \<Rightarrow> compiled_sacrifice list
     \<Rightarrow> legitimacy_error fault + sacrifices_certificate" where
  "compile_graph_with_revised_sacrifices env rx g cs revised =
     rbind (compile_graph_payload rx (en_clock env) g cs) (\<lambda>compiled.
       raise (issue_certificate (en_record_sacrifices env) (CompiledGraph compiled) revised))"

section \<open>Sacrifices name every violation\<close>

lemma text_contains_prefix: "text_contains (needle @ rest) needle"
  by (auto simp: text_contains_def list_ex_iff intro!: bexI [of _ 0])

lemma known_property: "text_contains (map ascii_lower axm) ''consistency'' \<Longrightarrow> sacrifice_property_for_axiom axm \<noteq> None"
  by (simp add: sacrifice_property_for_axiom_def Let_def)

lemma rule_axiom_properties:
  "sacrifice_property_for_axiom (axiom_label mode) \<noteq> None" "sacrifice_property_for_axiom ''solidarity'' \<noteq> None"
  "sacrifice_property_for_axiom (monotonicity_label inversion) \<noteq> None"
proof -
  have lower: "map ascii_lower ''consistency'' = ''consistency''" by code_simp
  have "\<exists>rest. axiom_label mode = ''consistency'' @ rest" by (cases mode) (simp_all add: axiom_label_def)
  then show "sacrifice_property_for_axiom (axiom_label mode) \<noteq> None"
    using text_contains_prefix [of "''consistency''"] by (intro known_property) (metis lower map_append)
  show "sacrifice_property_for_axiom ''solidarity'' \<noteq> None" by code_simp
  have "sacrifice_property_for_axiom ''monotonicity (inverted)'' \<noteq> None" "sacrifice_property_for_axiom ''monotonicity'' \<noteq> None"
    by code_simp+
  then show "sacrifice_property_for_axiom (monotonicity_label inversion) \<noteq> None" by (simp add: monotonicity_label_def)
qed

fun verdict_axiom :: "verdict \<Rightarrow> string" where
  "verdict_axiom (Admissible axm n) = axm"
| "verdict_axiom (Rejected axm cx) = axm"

lemma check_full_consistency_axiom:
  assumes "check_full_consistency r cs est options = Inr v"
  shows "verdict_axiom v = axiom_label (fo_mode options)"
proof -
  from assms obtain original outcome where loop: "rloop (evaluate_reduction r cs est original (axiom_label (fo_mode options)))
      \<lparr>coalitions_tested = 0, survivor_checks = 0\<rparr> (coalition_list (length cs) (fo_mode options)) = Inr outcome"
    and v: "v = fa_verdict (case outcome of
        Inl (w, complexity) \<Rightarrow> \<lparr>fa_verdict = w, fa_complexity = complexity\<rparr>
      | Inr complexity \<Rightarrow> \<lparr>fa_verdict = Admissible (axiom_label (fo_mode options)) (coalitions_tested complexity),
                          fa_complexity = complexity\<rparr>)"
    by (auto simp: check_full_consistency_def check_full_consistency_audit_def check_consistency_with_mode_def for_coalitions_eq
        result_simps)
  show ?thesis
  proof (cases outcome)
    case (Inl w)
    from rloop_return [OF loop [unfolded Inl]] obtain u S where S: "S \<in> set (coalition_list (length cs) (fo_mode options))"
      "evaluate_reduction r cs est original (axiom_label (fo_mode options)) u S = Inr (Inl w)" by blast
    from evaluate_reduction_Inr [OF coalition_indices [OF S(1)] S(2)] show ?thesis by (auto simp: v Inl case_prod_unfold)
  qed (simp add: v)
qed

lemma check_solidarity_axiom:
  assumes "check_solidarity r cs est claimants scales = Inr v"
  shows "verdict_axiom v = ''solidarity''"
proof -
  from assms obtain original outcome where
    loop: "rloop (Rule_Diagnostics.solidarity_shock r \<lparr>sb_claims = cs, sb_estate = est, sb_allocation = original\<rparr> claimants) 0 scales
      = Inr outcome" and v: "v = (case outcome of Inl v \<Rightarrow> v | Inr tested \<Rightarrow> Admissible ''solidarity'' tested)"
    by (auto simp: check_solidarity_def result_simps)
  show ?thesis
  proof (cases outcome)
    case (Inl w)
    from rloop_return [OF loop [unfolded Inl]] obtain u scale where s:
      "Rule_Diagnostics.solidarity_shock r \<lparr>sb_claims = cs, sb_estate = est, sb_allocation = original\<rparr> claimants u scale = Inr (Inl w)" by blast
    then have "\<not> near_identity scale" using solidarity_shock_skip by blast
    from solidarity_shock_Inr [OF s this] show ?thesis by (auto simp: v Inl)
  qed (simp add: v)
qed

lemma check_monotonicity_axiom:
  assumes "check_monotonicity r cs est deltas inversion = Inr v"
  shows "verdict_axiom v = monotonicity_label inversion"
proof -
  from assms obtain original outcome where
    loop: "rloop (\<lambda>tested i. rloop (Rule_Diagnostics.monotonicity_delta r cs est inversion original i) tested deltas) 0 [0..<length cs]
      = Inr outcome" and v: "v = (case outcome of Inl v \<Rightarrow> v | Inr tested \<Rightarrow> Admissible (monotonicity_label inversion) tested)"
    by (auto simp: check_monotonicity_def result_simps)
  show ?thesis
  proof (cases outcome)
    case (Inl w)
    from rloop_return [OF loop [unfolded Inl]] obtain u i where
      "rloop (Rule_Diagnostics.monotonicity_delta r cs est inversion original i) u deltas = Inr (Inl w)" by blast
    from rloop_return [OF this] obtain t delta where
      "Rule_Diagnostics.monotonicity_delta r cs est inversion original i t delta = Inr (Inl w)" by blast
    from monotonicity_delta_Inr [OF this] show ?thesis by (auto simp: v Inl)
  qed (simp add: v)
qed

text \<open>What a compiled rule holds.\<close>

lemma compile_rule_Inr:
  assumes "compile_rule_with_options record_compiled now r cs est claimants fam options = Inr c"
  shows "\<exists>solidarity monotonicity reductions.
      check_solidarity r cs est claimants (fam_shocks fam) = Inr solidarity
    \<and> check_monotonicity r cs est (fam_strengthening_deltas fam) (fam_monotonicity_inversion fam) = Inr monotonicity
    \<and> (if fam_reductions fam then \<exists>v. check_full_consistency r cs est options = Inr v \<and> reductions = [v] else reductions = [])
    \<and> cr_axiom_verdicts c = reductions @ [solidarity, monotonicity]
    \<and> check_strategyproofness r cs est = Inr (cr_strategyproofness c)
    \<and> cr_name c = rule_name r \<and> cr_version c = rule_version r \<and> record_compiled c = Inr ()"
  using assms unfolding compile_rule_with_options_def Let_def
  by (auto simp: rbind_Inr_iff raise_Inr split: if_splits)

lemma compiled_axioms_known:
  assumes "compile_rule_with_options record_compiled now r cs est claimants fam options = Inr c"
    and "Rejected axm cx \<in> set (cr_axiom_verdicts c)"
  shows "sacrifice_property_for_axiom axm \<noteq> None"
proof -
  from compile_rule_Inr [OF assms(1)] assms(2) consider
      v where "check_full_consistency r cs est options = Inr v" "v = Rejected axm cx"
    | v where "check_solidarity r cs est claimants (fam_shocks fam) = Inr v" "v = Rejected axm cx"
    | v where "check_monotonicity r cs est (fam_strengthening_deltas fam) (fam_monotonicity_inversion fam) = Inr v" "v = Rejected axm cx"
    by (auto split: if_splits)
  then show ?thesis
  proof cases
    case 1
    then show ?thesis using check_full_consistency_axiom rule_axiom_properties(1) by fastforce
  next
    case 2
    then show ?thesis using check_solidarity_axiom rule_axiom_properties(2) by fastforce
  next
    case 3
    then show ?thesis using check_monotonicity_axiom rule_axiom_properties(3) by fastforce
  qed
qed

lemma foldl_max_covers:
  assumes "\<not> is_nan a" and "\<forall>x \<in> set xs. \<not> is_nan x"
  shows "\<not> is_nan (foldl f64_max a xs) \<and> f64_le a (foldl f64_max a xs) \<and> (\<forall>x \<in> set xs. f64_le x (foldl f64_max a xs))"
  using assms
proof (induction xs arbitrary: a)
  case Nil
  then show ?case using f64_le_total [of a a] by simp
next
  case (Cons x xs)
  have m: "\<not> is_nan (f64_max a x)" "f64_le a (f64_max a x)" "f64_le x (f64_max a x)"
    using Cons.prems f64_le_total [of a x] f64_le_total [of a a] f64_le_total [of x x] by (auto simp: f64_max_def f64_lt_def)
  from Cons.IH [OF m(1)] Cons.prems(2) m(2,3) show ?case by (auto intro: f64_le_trans)
qed

lemma bm_insert_entries: "set (bm_insert k v m) \<subseteq> insert (k, v) (set m)"
  by (induction m) auto

lemma monitoring_metrics_above: "(name, t) \<in> set (monitoring_metrics cx) \<Longrightarrow> f64_lt EPSILON t"
proof -
  define P where "P = (\<lambda>m :: (string, f64) bmap. \<forall>e \<in> set m. f64_lt EPSILON (snd e))"
  have ins: "P (bm_insert k v m)" if "P m" "f64_lt EPSILON v" for k v and m :: "(string, f64) bmap"
    using that bm_insert_entries [of k v m] by (auto simp: P_def)
  have add: "P (add_metric e m)" if "P m" for e m using ins [OF that] that by (simp add: add_metric_def)
  have folds: "P (fold add_metric xs m)" if "P m" for xs m using that by (induction xs arbitrary: m) (simp_all add: add)
  have "P (monitoring_metrics cx)" unfolding monitoring_metrics_def Let_def by (rule folds) (simp add: P_def)
  then show "(name, t) \<in> set (monitoring_metrics cx) \<Longrightarrow> f64_lt EPSILON t" by (auto simp: P_def)
qed

definition sacrifice_covers :: "compiled_sacrifice \<Rightarrow> string \<Rightarrow> counterexample \<Rightarrow> bool" where
  "sacrifice_covers s axm cx \<longleftrightarrow>
     sacrifice_property_for_axiom axm = Some (cs_sacrificed_property s) \<and> pv_source_axiom (cs_provenance s) = axm
     \<and> pv_witness (cs_provenance s) = description cx
     \<and> (\<forall>spec \<in> set (cs_monitoring_plan s). f64_lt EPSILON (ms_threshold spec) \<and> f64_le (ms_threshold spec) (cs_impact_bound s))"

lemma counterexample_sacrifice_covers:
  assumes "sacrifice_property_for_axiom axm = Some p"
  shows "sacrifice_covers (counterexample_sacrifice md p axm cx) axm cx"
proof -
  have above: "f64_lt EPSILON (ms_threshold spec)" if "spec \<in> set (monitoring_plan p cx)" for spec
    using that monitoring_metrics_above [of _ "ms_threshold spec" cx] by (auto simp: monitoring_plan_def)
  then have "\<forall>t \<in> set (map ms_threshold (monitoring_plan p cx)). \<not> is_nan t" by (auto simp: f64_lt_def f64_le_def)
  from foldl_max_covers [OF _ this, of "Zero False"] above assms show ?thesis
    by (simp add: sacrifice_covers_def counterexample_sacrifice_def provenance_of_def Let_def)
qed

lemma verdict_sacrifices_complete:
  assumes "\<And>axm cx. Rejected axm cx \<in> set verdicts \<Longrightarrow> sacrifice_property_for_axiom axm \<noteq> None"
  shows "list_all2 (\<lambda>s (axm, cx). sacrifice_covers s axm cx) (concat (map (verdict_sacrifices md) verdicts))
      (concat (map (\<lambda>v. case v of Admissible axm n \<Rightarrow> [] | Rejected axm cx \<Rightarrow> [(axm, cx)]) verdicts))"
  using assms
proof (induction verdicts)
  case (Cons v verdicts)
  have rest: "list_all2 (\<lambda>s (axm, cx). sacrifice_covers s axm cx) (concat (map (verdict_sacrifices md) verdicts))
      (concat (map (\<lambda>v. case v of Admissible axm n \<Rightarrow> [] | Rejected axm cx \<Rightarrow> [(axm, cx)]) verdicts))"
    by (rule Cons.IH) (use Cons.prems in auto)
  show ?case
  proof (cases v)
    case (Rejected axm cx)
    with Cons.prems obtain p where "sacrifice_property_for_axiom axm = Some p" by fastforce
    with rest counterexample_sacrifice_covers [OF this] show ?thesis by (simp add: Rejected)
  qed (use rest in simp)
qed simp

definition rejections :: "verdict list \<Rightarrow> (string \<times> counterexample) list" where
  "rejections verdicts = concat (map (\<lambda>v. case v of Admissible axm n \<Rightarrow> [] | Rejected axm cx \<Rightarrow> [(axm, cx)]) verdicts)"

lemma rejections_empty: "rejections verdicts = [] \<longleftrightarrow> list_all verdict_admissible verdicts"
  by (induction verdicts) (auto simp: rejections_def split: verdict.splits)

text \<open>C31: compiling a rule with sacrifices drops no violation. The certificate declares, in the order of the
  verdicts, one sacrifice for each rejected axiom, with the witness of the rejection and a bound that covers
  every monitored threshold, and a last one exactly when the rule can be manipulated; so it
  declares nothing exactly when the rule is admissible. Both ledger writes have succeeded.\<close>

theorem sacrifices_complete:
  assumes run: "compile_with_sacrifices_with_options env r cs claimants est fam options = Inr cert"
  shows "\<exists>c declared. dc_compiled cert = CompiledRule c
    \<and> compile_rule_with_options (en_record_compiled env) (en_clock env) r cs est claimants fam options = Inr c
    \<and> dc_sacrifices cert = declared @ (case strategyproofness_witness_of (cr_strategyproofness c) of None \<Rightarrow> []
        | Some w \<Rightarrow> [last (dc_sacrifices cert)])
    \<and> list_all2 (\<lambda>s (axm, cx). sacrifice_covers s axm cx) declared (rejections (cr_axiom_verdicts c))
    \<and> (dc_sacrifices cert = [] \<longleftrightarrow> rule_is_admissible c)
    \<and> en_record_compiled env c = Inr () \<and> (dc_sacrifices cert \<noteq> [] \<longrightarrow> en_record_sacrifices env cert = Inr ())"
proof -
  from run obtain c where c: "compile_rule_with_options (en_record_compiled env) (en_clock env) r cs est claimants fam options = Inr c"
    and cert: "cert = \<lparr>dc_compiled = CompiledRule c, dc_sacrifices = sacrifices_from_rule c\<rparr>"
    and written: "sacrifices_from_rule c \<noteq> [] \<longrightarrow> en_record_sacrifices env cert = Inr ()"
    by (auto simp: compile_with_sacrifices_with_options_def issue_certificate_def Let_def result_simps split: if_splits)
  let ?md = "\<lparr>md_kind = RuleKind, md_name = cr_name c, md_version = cr_version c,
       md_family_description = cr_family_description c, md_compiled_at = cr_compiled_at c\<rparr>"
  let ?declared = "concat (map (verdict_sacrifices ?md) (cr_axiom_verdicts c))"
  have covers: "list_all2 (\<lambda>s (axm, cx). sacrifice_covers s axm cx) ?declared (rejections (cr_axiom_verdicts c))"
    unfolding rejections_def by (rule verdict_sacrifices_complete) (rule compiled_axioms_known [OF c])
  then have "?declared = [] \<longleftrightarrow> list_all verdict_admissible (cr_axiom_verdicts c)"
    unfolding rejections_empty [symmetric] by (metis list_all2_Nil list_all2_Nil2)
  moreover have "strategyproofness_witness_of sp = None \<longleftrightarrow> sp = Strategyproof" for sp by (cases sp) simp_all
  ultimately have "sacrifices_from_rule c = [] \<longleftrightarrow> rule_is_admissible c"
    by (auto simp: sacrifices_from_rule_def sacrifices_from_axioms_def rule_is_admissible_def all_admissible_def split: option.splits)
  moreover have "dc_sacrifices cert = ?declared @ (case strategyproofness_witness_of (cr_strategyproofness c) of None \<Rightarrow> []
        | Some w \<Rightarrow> [last (dc_sacrifices cert)])"
    by (simp add: cert sacrifices_from_rule_def sacrifices_from_axioms_def split: option.splits)
  ultimately show ?thesis using c covers written compile_rule_Inr [OF c] by (simp add: cert) blast
qed

text \<open>C30: what a certificate guarantees of a rule that was compiled on the same batch: every axiom of the family and
  strategyproofness were found to hold, the claimant has a share, and the certified outcome is finite and
  within the tolerance of that share.\<close>

theorem certificate_sound:
  assumes compiled: "compile_rule_with_options record_compiled now r cs est claimants fam options = Inr c"
    and cert: "certify content_hash record_certificate now'
      \<lparr>cc_compiled_rule = c, cc_rule = r, cc_claims = cs, cc_estate = est\<rparr> act cid outcome evidence = Inr certificate"
  shows "\<exists>alloc share n m. evaluate_rule r cs est = Inr alloc \<and> bm_get alloc cid = Some share \<and> outcome_matches share outcome
    \<and> (fam_reductions fam \<longrightarrow> (\<exists>k. check_full_consistency r cs est options = Inr (Admissible (axiom_label (fo_mode options)) k)))
    \<and> check_solidarity r cs est claimants (fam_shocks fam) = Inr (Admissible ''solidarity'' n)
    \<and> check_monotonicity r cs est (fam_strengthening_deltas fam) (fam_monotonicity_inversion fam)
        = Inr (Admissible (monotonicity_label (fam_monotonicity_inversion fam)) m)
    \<and> check_strategyproofness r cs est = Inr Strategyproof
    \<and> ct_claimant_id certificate = cid \<and> ct_outcome certificate = outcome \<and> ct_rule_name certificate = rule_name r
    \<and> content_hash c = Inr (ct_compiled_rule_hash certificate) \<and> record_certificate certificate = Inr ()"
proof -
  from cert obtain alloc share where good: "rule_is_admissible c" and alloc: "evaluate_rule r cs est = Inr alloc"
    "bm_get alloc cid = Some share" "outcome_matches share outcome"
    and fields: "ct_claimant_id certificate = cid" "ct_outcome certificate = outcome" "ct_rule_name certificate = rule_name r"
    "content_hash c = Inr (ct_compiled_rule_hash certificate)" "record_certificate certificate = Inr ()"
    by (auto simp: certify_def Let_def expected_certified_outcome_def ensure_matching_rule_def ensure_matching_outcome_def
        share_for_Inr rbind_Inr_iff require_Inr)
  from compile_rule_Inr [OF compiled] obtain solidarity monotonicity reductions where c:
    "check_solidarity r cs est claimants (fam_shocks fam) = Inr solidarity"
    "check_monotonicity r cs est (fam_strengthening_deltas fam) (fam_monotonicity_inversion fam) = Inr monotonicity"
    "if fam_reductions fam then \<exists>v. check_full_consistency r cs est options = Inr v \<and> reductions = [v] else reductions = []"
    "cr_axiom_verdicts c = reductions @ [solidarity, monotonicity]"
    "check_strategyproofness r cs est = Inr (cr_strategyproofness c)" by blast
  have adm: "\<exists>n. v = Admissible (verdict_axiom v) n" if "verdict_admissible v" for v using that by (cases v) auto
  from good c(4) have ok: "verdict_admissible solidarity" "verdict_admissible monotonicity" "list_all verdict_admissible reductions"
    "cr_strategyproofness c = Strategyproof" by (auto simp: rule_is_admissible_def all_admissible_def)
  obtain n m where "solidarity = Admissible ''solidarity'' n"
    "monotonicity = Admissible (monotonicity_label (fam_monotonicity_inversion fam)) m"
    using adm [OF ok(1)] adm [OF ok(2)] check_solidarity_axiom [OF c(1)] check_monotonicity_axiom [OF c(2)] by metis
  moreover have "\<exists>k. check_full_consistency r cs est options = Inr (Admissible (axiom_label (fo_mode options)) k)" if "fam_reductions fam"
  proof -
    from c(3) that obtain v where v: "check_full_consistency r cs est options = Inr v" "reductions = [v]" by auto
    with ok(3) adm [of v] check_full_consistency_axiom [OF v(1)] show ?thesis by auto
  qed
  ultimately show ?thesis using alloc fields c ok(4) by auto
qed

section \<open>The permission rule\<close>

lemma permission_share_blind: "permission_share (c\<lparr>clm_strength := x\<rparr>) = permission_share c"
proof -
  have same: "metric (c\<lparr>clm_strength := x\<rparr>) = metric c" by (rule ext) (simp add: metric_def)
  then have "at_least_half (c\<lparr>clm_strength := x\<rparr>) = at_least_half c" by (intro ext) (simp add: at_least_half_def)
  with same show ?thesis by (simp add: permission_share_def)
qed

lemma permission_set_strength:
  assumes original: "evaluate_rule claude_agent_sdk_permissions_rule cs est = Inr original" and i: "i < length cs"
    and x: "is_finite x" "\<not> f64_le x (Zero False)"
  shows "evaluate_rule claude_agent_sdk_permissions_rule (cs[i := (cs ! i)\<lparr>clm_strength := x\<rparr>]) est = Inr original"
proof -
  let ?cs = "cs[i := (cs ! i)\<lparr>clm_strength := x\<rparr>]" and ?e = "\<lambda>c. (clm_id c, permission_share c)"
  have valid: "validate_all cs = Inr ()" using original by (auto simp: evaluate_rule_def result_simps)
  have entries: "map ?e ?cs = map ?e cs" using i by (intro nth_equalityI) (auto simp: nth_list_update permission_share_blind)
  have "map permission_share xs = map snd (map ?e xs)" for xs by (simp add: comp_def)
  from this [of ?cs] this [of cs] have "map permission_share ?cs = map permission_share cs" unfolding entries by (rule trans [OF _ sym])
  then have "permission_share ` set ?cs = permission_share ` set cs" by (metis set_map)
  moreover define Q where "Q = (\<lambda>a. is_finite a \<and> \<not> f64_lt a (Zero False))"
  ultimately have all: "(\<forall>c \<in> set ?cs. Q (permission_share c)) \<longleftrightarrow> (\<forall>c \<in> set cs. Q (permission_share c))"
    using ball_simps(9) [of permission_share "set ?cs" Q] ball_simps(9) [of permission_share "set cs" Q] by simp
  note eval = share_rule_evaluates [OF agent_rules_share(1) valid]
    and eval' = share_rule_evaluates [OF agent_rules_share(1) set_strength_valid [OF valid i x]]
  from original show ?thesis unfolding eval eval' entries using all unfolding Q_def by simp
qed

lemma permission_original_share:
  assumes original: "evaluate_rule claude_agent_sdk_permissions_rule cs est = Inr original" and c: "c \<in> set cs"
    and shares: "nonneg64 (permission_share c)"
  shows "\<exists>a. bm_get original (clm_id c) = Some a \<and> \<not> gains a a \<and> \<not> f64_lt a (f64_sub a (share_tolerance a a))"
proof -
  have valid: "validate_all cs = Inr ()" using original by (auto simp: evaluate_rule_def result_simps)
  have "bm_get original (clm_id c) = Some (permission_share c)" "is_finite (permission_share c)"
    using original collect_share [OF valid c, of permission_share] c unfolding share_rule_evaluates [OF agent_rules_share(1) valid] by simp_all
  with unmoved [OF shares] show ?thesis by blast
qed

lemma permission_monotone:
  assumes original: "evaluate_rule claude_agent_sdk_permissions_rule cs est = Inr original"
    and shares: "\<And>c. c \<in> set cs \<Longrightarrow> nonneg64 (permission_share c)"
    and deltas: "\<And>c delta. c \<in> set cs \<Longrightarrow> delta \<in> set deltas \<Longrightarrow> is_finite (f64_add (clm_strength c) delta)
      \<and> \<not> f64_le (f64_add (clm_strength c) delta) (Zero False)"
  shows "check_monotonicity claude_agent_sdk_permissions_rule cs est deltas inversion
    = Inr (Admissible (monotonicity_label inversion) (length cs * length deltas))"
proof -
  let ?step = "Rule_Diagnostics.monotonicity_delta claude_agent_sdk_permissions_rule cs est inversion original"
  have step: "?step i tested delta = Inr (Inr (tested + 1))" if i: "i < length cs" and d: "delta \<in> set deltas" for i tested delta
  proof -
    note ok = deltas [OF nth_mem [OF i] d]
    have s: "strengthened cs i delta = Inr (cs[i := (cs ! i)\<lparr>clm_strength := f64_add (clm_strength (cs ! i)) delta\<rparr>])"
      using ok by (simp add: strengthened_def positive_strength_new_def)
    from permission_original_share [OF original nth_mem [OF i] shares [OF nth_mem [OF i]]] obtain a where
      a: "bm_get original (clm_id (cs ! i)) = Some a" "\<not> moves_wrong inversion a a"
      by (auto simp: moves_wrong_def gains_def Let_def)
    show ?thesis using permission_set_strength [OF original i conjunct1 [OF ok] conjunct2 [OF ok]]
      by (simp add: Rule_Diagnostics.monotonicity_delta_def s a share_for_def Let_def)
  qed
  have inner: "rloop (?step i) tested deltas = Inr (Inr (tested + length deltas))" if "i < length cs" for i tested
    using rloop_steps [where P = "\<lambda>_. True" and k = 1 and f = "?step i"] step [OF that] by simp
  have "rloop (\<lambda>tested i. rloop (?step i) tested deltas) 0 [0..<length cs]
      = Inr (Inr (0 + length (filter (\<lambda>_. True) [0..<length cs]) * length deltas))"
    by (rule rloop_steps) (simp add: inner)
  then show ?thesis by (simp add: check_monotonicity_def original)
qed

lemma misreported_claims:
  assumes "positive_strength_new x = Inr x"
  shows "rmap (\<lambda>(j, c). if j = index then st_report claim_strategic c x else Inr c) (enumerate k cs)
    = Inr (if k \<le> index \<and> index < k + length cs then cs[index - k := (cs ! (index - k))\<lparr>clm_strength := x\<rparr>] else cs)"
proof (induction cs arbitrary: k)
  case (Cons c cs)
  show ?case
  proof (cases "k = index")
    case True
    with Cons [of "Suc k"] assms show ?thesis by (simp add: claim_strategic_def)
  next
    case False
    have "index - k = Suc (index - Suc k)" if "k \<le> index" using that False by simp
    with False Cons [of "Suc k"] show ?thesis by (cases "k \<le> index") simp_all
  qed
qed simp

lemma permission_strategyproof:
  assumes original: "evaluate_rule claude_agent_sdk_permissions_rule cs est = Inr original"
    and shares: "\<And>c. c \<in> set cs \<Longrightarrow> nonneg64 (permission_share c)"
    and reports: "\<And>c factor. c \<in> set cs \<Longrightarrow> factor \<in> set MISREPORT_FACTORS \<Longrightarrow> is_finite (f64_mul (clm_strength c) factor)
      \<and> \<not> f64_le (f64_mul (clm_strength c) factor) (Zero False)"
  shows "check_strategyproofness claude_agent_sdk_permissions_rule cs est = Inr Strategyproof"
proof -
  let ?scores = "rule_scores claude_agent_sdk_permissions_rule est"
  have factor: "misreport_factor claim_strategic ?scores cs i (cs ! i) a () factor = Inr (Inr ())"
    if i: "i < length cs" and f: "factor \<in> set MISREPORT_FACTORS" and a: "bm_get original (clm_id (cs ! i)) = Some a" "\<not> gains a a"
    for i factor a
  proof -
    note ok = reports [OF nth_mem [OF i] f]
    have "misreported claim_strategic i (f64_mul (clm_strength (cs ! i)) factor) cs
        = Inr (cs[i := (cs ! i)\<lparr>clm_strength := f64_mul (clm_strength (cs ! i)) factor\<rparr>])"
      using misreported_claims [of "f64_mul (clm_strength (cs ! i)) factor" i 0 cs] ok i
      by (simp add: misreported_def positive_strength_new_def)
    moreover have "\<not> strictly_improves a a" using a(2) by (simp add: strictly_improves_def gains_def share_tolerance_def Let_def)
    ultimately show ?thesis using permission_set_strength [OF original i conjunct1 [OF ok] conjunct2 [OF ok]] a(1)
      by (simp add: misreport_factor_def rule_scores_def score_for_def claim_strategic_def Let_def)
  qed
  have "rloop (misreport_claim claim_strategic ?scores cs original) () (enumerate 0 cs) = Inr (Inr ())"
  proof (rule rloop_passes)
    fix ic assume "ic \<in> set (enumerate 0 cs)"
    then have "ic = (fst ic, cs ! fst ic)" "fst ic < length cs" by (auto simp: in_set_enumerate_eq)
    then obtain i where ic: "ic = (i, cs ! i)" "i < length cs" by (rule that)
    from permission_original_share [OF original nth_mem [OF ic(2)] shares [OF nth_mem [OF ic(2)]]] obtain a where
      a: "bm_get original (clm_id (cs ! i)) = Some a" "\<not> gains a a" by blast
    have "rloop (misreport_factor claim_strategic ?scores cs i (cs ! i) a) () MISREPORT_FACTORS = Inr (Inr ())"
      by (rule rloop_passes) (rule factor [OF ic(2) _ a])
    then show "misreport_claim claim_strategic ?scores cs original () ic = Inr (Inr ())"
      using a(1) by (simp add: misreport_claim_def ic(1) score_for_def claim_strategic_def)
  qed
  then show ?thesis
    by (simp add: check_strategyproofness_def check_reported_strength_manipulations_def rule_scores_def original)
qed

lemma permission_rule_compiles:
  assumes original: "evaluate_rule claude_agent_sdk_permissions_rule cs est = Inr original"
    and shares: "\<And>c. c \<in> set cs \<Longrightarrow> nonneg64 (permission_share c)" and size: "length cs < 2 ^ 53"
    and members: "cl_id ` set claimants \<subseteq> clm_id ` set cs"
    and estates: "\<And>scale. scale \<in> set (fam_shocks fam) \<Longrightarrow> is_finite (f64_mul (total est) scale) \<and> \<not> f64_le (f64_mul (total est) scale) (Zero False)"
    and deltas: "\<And>c delta. c \<in> set cs \<Longrightarrow> delta \<in> set (fam_strengthening_deltas fam) \<Longrightarrow> is_finite (f64_add (clm_strength c) delta)
      \<and> \<not> f64_le (f64_add (clm_strength c) delta) (Zero False)"
    and reports: "\<And>c factor. c \<in> set cs \<Longrightarrow> factor \<in> set MISREPORT_FACTORS \<Longrightarrow> is_finite (f64_mul (clm_strength c) factor)
      \<and> \<not> f64_le (f64_mul (clm_strength c) factor) (Zero False)"
    and gate: "consistency_gate options (length cs) = Inr ()"
    and outside: "\<And>c. record_compiled c = Inr ()" "now = Some seconds"
  shows "\<exists>c. compile_rule_with_options record_compiled now claude_agent_sdk_permissions_rule cs est claimants fam options = Inr c
    \<and> rule_is_admissible c \<and> cr_name c = rule_name claude_agent_sdk_permissions_rule
    \<and> cr_version c = rule_version claude_agent_sdk_permissions_rule"
proof -
  let ?r = claude_agent_sdk_permissions_rule
  have valid: "validate_all cs = Inr ()" using original by (auto simp: evaluate_rule_def result_simps)
  obtain n where consistency: "check_full_consistency ?r cs est options = Inr (Admissible (axiom_label (fo_mode options)) n)"
    using share_rules_consistent [OF agent_rules_share(1) valid original agent_shares_unit(2) size gate]
    by (auto simp: check_full_consistency_def)
  note solidarity = share_rules_solidary [OF agent_rules_share(1) original shares members estates]
  note monotonicity = permission_monotone [OF original shares deltas]
  note strategyproof = permission_strategyproof [OF original shares reports]
  show ?thesis
    by (cases "fam_reductions fam")
      (simp_all add: compile_rule_with_options_def original consistency solidarity monotonicity strategyproof outside
        unix_timestamp_def rule_is_admissible_def all_admissible_def Let_def)
qed

lemma outcome_matches_itself: "nonneg64 a \<Longrightarrow> is_finite a \<Longrightarrow> outcome_matches a a"
proof -
  assume a: "nonneg64 a" "is_finite a"
  have "f64_abs (f64_sub a a) = Zero False" using a(2) by (cases a) (auto simp: f64_sub_def round64_def)
  moreover have "nonneg64 (f64_add (f64_add EPSILON (f64_mul EPSILON (f64_abs a))) (f64_mul EPSILON (f64_abs a)))"
    by (intro nonneg64_add nonneg64_mul_EPSILON EPSILON_nonneg nonneg64_abs a)
  ultimately show ?thesis using a(2) nonneg64_zero_le by (simp add: outcome_matches_def Let_def)
qed

text \<open>C32: the permission rule goes through the whole pipeline. On every batch it can be evaluated on, whatever the
  declared family is, it compiles as admissible, declares no sacrifice, and each claimant's share is certified. The
  assumptions bound the arithmetic (sums, scaled estates and scaled reports stay finite and positive)
  and let the ledger and the clock answer.\<close>

theorem permission_rule_certified:
  assumes original: "evaluate_rule claude_agent_sdk_permissions_rule cs est = Inr original"
    and shares: "\<And>c. c \<in> set cs \<Longrightarrow> nonneg64 (permission_share c)" and size: "length cs < 2 ^ 53"
    and members: "cl_id ` set claimants \<subseteq> clm_id ` set cs"
    and estates: "\<And>scale. scale \<in> set (fam_shocks fam) \<Longrightarrow> is_finite (f64_mul (total est) scale) \<and> \<not> f64_le (f64_mul (total est) scale) (Zero False)"
    and deltas: "\<And>c delta. c \<in> set cs \<Longrightarrow> delta \<in> set (fam_strengthening_deltas fam) \<Longrightarrow> is_finite (f64_add (clm_strength c) delta)
      \<and> \<not> f64_le (f64_add (clm_strength c) delta) (Zero False)"
    and reports: "\<And>c factor. c \<in> set cs \<Longrightarrow> factor \<in> set MISREPORT_FACTORS \<Longrightarrow> is_finite (f64_mul (clm_strength c) factor)
      \<and> \<not> f64_le (f64_mul (clm_strength c) factor) (Zero False)"
    and gate: "consistency_gate options (length cs) = Inr ()"
    and outside: "\<And>c. record_compiled c = Inr ()" "now = Some seconds" "\<And>c. \<exists>hash. content_hash c = Inr hash"
      "\<And>t. record_certificate t = Inr ()"
  shows "\<exists>c. compile_rule_with_options record_compiled now claude_agent_sdk_permissions_rule cs est claimants fam options = Inr c
    \<and> sacrifices_from_rule c = []
    \<and> (\<forall>k \<in> set cs. \<exists>certificate. certify content_hash record_certificate now
         \<lparr>cc_compiled_rule = c, cc_rule = claude_agent_sdk_permissions_rule, cc_claims = cs, cc_estate = est\<rparr>
         act (clm_id k) (permission_share k) evidence = Inr certificate)"
proof -
  let ?r = claude_agent_sdk_permissions_rule
  have valid: "validate_all cs = Inr ()" using original by (auto simp: evaluate_rule_def result_simps)
  obtain c where c: "compile_rule_with_options record_compiled now ?r cs est claimants fam options = Inr c"
    "rule_is_admissible c" "cr_name c = rule_name ?r" "cr_version c = rule_version ?r"
    using permission_rule_compiles [where claimants = claimants and fam = fam and options = options and record_compiled = record_compiled,
        OF original shares size members estates deltas reports gate outside(1,2)] by blast
  have "verdict_sacrifices md v = []" if "verdict_admissible v" for md v using that by (cases v) simp_all
  then have "sacrifices_from_rule c = []"
    using c(2) by (simp add: sacrifices_from_rule_def sacrifices_from_axioms_def rule_is_admissible_def all_admissible_def list_all_iff)
  moreover have "\<exists>certificate. certify content_hash record_certificate now
      \<lparr>cc_compiled_rule = c, cc_rule = ?r, cc_claims = cs, cc_estate = est\<rparr> act (clm_id k) (permission_share k) evidence = Inr certificate"
    if k: "k \<in> set cs" for k
  proof -
    have share: "bm_get original (clm_id k) = Some (permission_share k)" "is_finite (permission_share k)"
      using original collect_share [OF valid k, of permission_share] k unfolding share_rule_evaluates [OF agent_rules_share(1) valid] by simp_all
    obtain hash where "content_hash c = Inr hash" using outside(3) by blast
    then show ?thesis using c(2-4) outside(2,4) share outcome_matches_itself [OF shares [OF k] share(2)]
      by (simp add: certify_def ensure_matching_rule_def ensure_matching_outcome_def expected_certified_outcome_def original
          share_for_def iso8601_timestamp_def Let_def require_def)
  qed
  ultimately show ?thesis using c(1) by blast
qed

section \<open>Exposure\<close>

text \<open>The factor exposure of a rule agrees with its compilation: the four diagnostic factors are zero exactly when
  the rule compiles as admissible.\<close>

lemma exposure_agrees:
  assumes compiled: "compile_rule_with_options record_compiled now r cs est claimants fam options = Inr c" and "fam_reductions fam"
    and exposure: "compute_factor_exposure_with_options r cs claimants est fam options = Inr e"
  shows "rule_is_admissible c \<longleftrightarrow> fe_consistency e = Zero False \<and> fe_solidarity e = Zero False \<and> fe_monotonicity e = Zero False
    \<and> fe_strategyproofness e = Zero False"
proof -
  have zero: "exposure_of v = Zero False \<longleftrightarrow> verdict_admissible v" for v by (simp add: exposure_of_def)
  have sp: "strategyproofness_exposure v = Zero False \<longleftrightarrow> v = Strategyproof" for v
    by (cases v) (simp_all add: strategyproofness_exposure_def)
  from compile_rule_Inr [OF compiled] \<open>fam_reductions fam\<close> exposure show ?thesis
    by (auto simp: compute_factor_exposure_with_options_def rbind_Inr_iff raise_Inr zero sp rule_is_admissible_def all_admissible_def)
qed

section \<open>A batch of two permissions\<close>

definition permission_batch :: "claim list" where
  "permission_batch =
     [\<lparr>clm_id = ''r'', clm_strength = Num 1,
       clm_metrics = [(''available'', Num 1), (''base_authorization'', Num 1), (''listed'', Num 1)]\<rparr>,
      \<lparr>clm_id = ''w'', clm_strength = Num 1, clm_metrics = []\<rparr>]"

definition sample_family :: family where
  "sample_family = \<lparr>fam_reductions = True, fam_shocks = [Num 2], fam_strengthening_deltas = [Num 1],
     fam_monotonicity_inversion = False\<rparr>"

lemma permission_batch_shares: "map permission_share permission_batch = [Num 1, Zero False]"
proof -
  have half: "round64 (1 / 2) = Num (1 / 2)" using round64_dyadic [of 1 1] by simp
  have "f64_le (Num (1 / 2)) (Num 1)" "\<not> f64_le (Num (1 / 2)) (Zero False)" by (simp_all add: f64_le_def)
  moreover have "clamp01 (Num 1) = Num 1" by (simp add: clamp01_def f64_clamp_def f64_lt_def f64_le_def)
  ultimately show ?thesis
    by (simp add: permission_batch_def permission_share_def at_least_half_def metric_def bm_get_def half)
qed

lemma permission_batch_original:
  "evaluate_rule claude_agent_sdk_permissions_rule permission_batch est
     = Inr (collect_allocation (map (\<lambda>c. (clm_id c, permission_share c)) permission_batch))"
proof -
  have valid: "validate_all permission_batch = Inr ()"
    by (auto simp: permission_batch_def validate_all_def validate_all_from_Inr claim_validate_def validate_claim_strength_def
        validate_claimant_id_def require_def ws1_def f64_le_def)
  have "\<forall>x \<in> set (map permission_share permission_batch). is_finite x \<and> \<not> f64_lt x (Zero False)"
    unfolding permission_batch_shares by (simp add: f64_lt_def f64_le_def)
  then show ?thesis unfolding share_rule_evaluates [OF agent_rules_share(1) valid] by simp
qed

lemma permission_batch_facts:
  "c \<in> set permission_batch \<Longrightarrow> nonneg64 (permission_share c)" "length permission_batch < 2 ^ 53"
  "cl_id ` set hook_members \<subseteq> clm_id ` set permission_batch"
  "scale \<in> set (fam_shocks sample_family) \<Longrightarrow> is_finite (f64_mul (total (house 1)) scale) \<and> \<not> f64_le (f64_mul (total (house 1)) scale) (Zero False)"
  "c \<in> set permission_batch \<Longrightarrow> delta \<in> set (fam_strengthening_deltas sample_family) \<Longrightarrow> is_finite (f64_add (clm_strength c) delta)
      \<and> \<not> f64_le (f64_add (clm_strength c) delta) (Zero False)"
  "c \<in> set permission_batch \<Longrightarrow> factor \<in> set MISREPORT_FACTORS \<Longrightarrow> is_finite (f64_mul (clm_strength c) factor)
      \<and> \<not> f64_le (f64_mul (clm_strength c) factor) (Zero False)"
  "consistency_gate default_consistency_options (length permission_batch) = Inr ()"
proof -
  show "c \<in> set permission_batch \<Longrightarrow> nonneg64 (permission_share c)"
    using permission_batch_shares one_two_doubles(1) by (auto simp: permission_batch_def)
  show "length permission_batch < 2 ^ 53" "consistency_gate default_consistency_options (length permission_batch) = Inr ()"
    by (simp_all add: permission_batch_def default_gate)
  show "cl_id ` set hook_members \<subseteq> clm_id ` set permission_batch" by (simp add: hook_members_def permission_batch_def)
  have one: "clm_strength c = Num 1" if "c \<in> set permission_batch" using that by (auto simp: permission_batch_def)
  show "c \<in> set permission_batch \<Longrightarrow> factor \<in> set MISREPORT_FACTORS \<Longrightarrow> is_finite (f64_mul (clm_strength c) factor)
      \<and> \<not> f64_le (f64_mul (clm_strength c) factor) (Zero False)"
    using one sample_factor by (force simp: f64_le_def)
  show "c \<in> set permission_batch \<Longrightarrow> delta \<in> set (fam_strengthening_deltas sample_family) \<Longrightarrow> is_finite (f64_add (clm_strength c) delta)
      \<and> \<not> f64_le (f64_add (clm_strength c) delta) (Zero False)"
    using one one_two_doubles(3) by (auto simp: sample_family_def f64_le_def)
  show "scale \<in> set (fam_shocks sample_family) \<Longrightarrow> is_finite (f64_mul (total (house 1)) scale) \<and> \<not> f64_le (f64_mul (total (house 1)) scale) (Zero False)"
    by (simp add: sample_family_def house_def one_two_doubles f64_le_def)
qed

theorem permission_rule_certified_witness:
  "\<exists>c. compile_rule_with_options (\<lambda>_. Inr ()) (Some 0) claude_agent_sdk_permissions_rule permission_batch (house 1) hook_members
         sample_family default_consistency_options = Inr c
     \<and> sacrifices_from_rule c = []
     \<and> (\<forall>k \<in> set permission_batch. \<exists>certificate. certify (\<lambda>c. Inr ''hash'') (\<lambda>_. Inr ()) (Some 0)
          \<lparr>cc_compiled_rule = c, cc_rule = claude_agent_sdk_permissions_rule, cc_claims = permission_batch, cc_estate = house 1\<rparr>
          ''act'' (clm_id k) (permission_share k) [] = Inr certificate)"
  by (rule permission_rule_certified [OF permission_batch_original permission_batch_facts]) simp_all

lemma permission_batch_compiles:
  "\<exists>c. compile_rule_with_options (\<lambda>_. Inr ()) (Some 0) claude_agent_sdk_permissions_rule permission_batch (house 1) hook_members
         sample_family default_consistency_options = Inr c
     \<and> rule_is_admissible c \<and> cr_name c = rule_name claude_agent_sdk_permissions_rule
     \<and> cr_version c = rule_version claude_agent_sdk_permissions_rule"
  by (rule permission_rule_compiles [OF permission_batch_original permission_batch_facts]) simp_all

theorem certificate_sound_witness:
  "\<exists>c certificate. certify (\<lambda>c. Inr ''hash'') (\<lambda>_. Inr ()) (Some 0)
       \<lparr>cc_compiled_rule = c, cc_rule = claude_agent_sdk_permissions_rule, cc_claims = permission_batch, cc_estate = house 1\<rparr>
       ''act'' ''r'' (Num 1) [] = Inr certificate \<and> ct_outcome certificate = Num 1
     \<and> check_strategyproofness claude_agent_sdk_permissions_rule permission_batch (house 1) = Inr Strategyproof"
proof -
  from permission_batch_compiles obtain c where c: "compile_rule_with_options (\<lambda>_. Inr ()) (Some 0) claude_agent_sdk_permissions_rule
      permission_batch (house 1) hook_members sample_family default_consistency_options = Inr c" "rule_is_admissible c"
    "cr_name c = rule_name claude_agent_sdk_permissions_rule" "cr_version c = rule_version claude_agent_sdk_permissions_rule" by blast
  have share: "bm_get (collect_allocation (map (\<lambda>c. (clm_id c, permission_share c)) permission_batch)) ''r'' = Some (Num 1)"
    using permission_batch_shares by (simp add: permission_batch_def collect_allocation_def bm_get_def)
  have "outcome_matches (Num 1) (Num 1)" using outcome_matches_itself one_two_doubles(1) by simp
  with share c(2-4) obtain certificate where cert: "certify (\<lambda>c. Inr ''hash'') (\<lambda>_. Inr ()) (Some 0)
       \<lparr>cc_compiled_rule = c, cc_rule = claude_agent_sdk_permissions_rule, cc_claims = permission_batch, cc_estate = house 1\<rparr>
       ''act'' ''r'' (Num 1) [] = Inr certificate"
    by (simp add: certify_def ensure_matching_rule_def ensure_matching_outcome_def expected_certified_outcome_def permission_batch_original
        share_for_def iso8601_timestamp_def Let_def require_def)
  from certificate_sound [OF c(1) cert] cert show ?thesis by blast
qed

theorem sacrifices_complete_witness:
  "\<exists>cert c. compile_with_sacrifices_with_options
       \<lparr>en_record_compiled = (\<lambda>_. Inr ()), en_record_sacrifices = (\<lambda>_. Inr ()), en_clock = Some 0\<rparr>
       claude_agent_sdk_permissions_rule permission_batch hook_members (house 1) sample_family default_consistency_options = Inr cert
     \<and> dc_compiled cert = CompiledRule c \<and> (dc_sacrifices cert = [] \<longleftrightarrow> rule_is_admissible c)"
proof -
  from permission_batch_compiles obtain cert where cert: "compile_with_sacrifices_with_options
       \<lparr>en_record_compiled = (\<lambda>_. Inr ()), en_record_sacrifices = (\<lambda>_. Inr ()), en_clock = Some 0\<rparr>
       claude_agent_sdk_permissions_rule permission_batch hook_members (house 1) sample_family default_consistency_options = Inr cert"
    by (auto simp: compile_with_sacrifices_with_options_def issue_certificate_def Let_def)
  from sacrifices_complete [OF cert] cert show ?thesis by blast
qed

end
