(* ===== verification/Spec2Isabelle.thy ===== *)
theory Spec2Isabelle
  imports Executed_Composition Governance_Iterate Codex_Stream Protocol_Runs Rule_Compiler
begin

text \<open>
  A verification library for the Rust crate under \<open>src/src/\<close>, which audits automated governance:
  a policy is a graph of decision nodes through which claims are routed, checked against
  fairness and safety axioms, compiled into a session of a monitored protocol and supervised
  while it runs.

  \<^bold>\<open>Theories and code.\<close>
  \<^item> \<open>Prelude\<close>, \<open>F64\<close>, \<open>F64_Functions\<close>: results, loops with early return, ordered maps, byte
    strings; IEEE 754 doubles as exact rationals rounded once per operation, with infinities,
    signed zeros, NaN, \<open>sqrt\<close>, \<open>floor\<close>, \<open>max\<close> and \<open>clamp\<close> of the Rust library; \<open>F64_Order\<close>: rounding
    and the order of the doubles.
  \<^item> \<open>Legitimacy_Core\<close>: errors, claims, estates, allocations, verdicts (\<open>lib.rs\<close>, \<open>error.rs\<close>).
  \<^item> \<open>Governance_Graph\<close>: nodes, gates, edges and the builder (\<open>graph/node.rs\<close>, \<open>edge.rs\<close>,
    \<open>builder.rs\<close>); \<open>Governance_Cycle\<close>: Tarjan's search (\<open>graph/cycle.rs\<close>); \<open>Governance_Order\<close>,
    \<open>Governance_Traverse\<close>, \<open>Governance_Flow\<close>: the traversal (\<open>graph/traverse.rs\<close>);
    \<open>Governance_Iterate\<close>: the iteration of a cycle (\<open>graph/cycle.rs\<close>).
  \<^item> \<open>Graph_Diagnostics\<close>: the diagnostic axioms (\<open>axioms/diagnostics/graph/\<close>);
    \<open>Synthetic_Claims\<close>: the probe claims of an audit (\<open>extract/audit.rs\<close>);
    \<open>Kernel_Axioms\<close>, \<open>Kernel_Observable\<close>: the kernel axioms (\<open>axioms/kernel/\<close>);
    \<open>Mechanism\<close>: the search for profitable misreports (\<open>mechanism.rs\<close>).
  \<^item> \<open>Allocation_Rules\<close>: the built-in allocation rules and the evaluation of a rule (\<open>rules.rs\<close>,
    \<open>rules/divisor.rs\<close>, \<open>RuleSpec\<close> and \<open>Rule\<close> of \<open>lib.rs\<close>); \<open>Coalitions\<close>, \<open>Rule_Consistency\<close>,
    \<open>Rule_Diagnostics\<close>: the consistency, solidarity and monotonicity checks of a rule
    (\<open>axioms/diagnostics/consistency.rs\<close>, \<open>solidarity.rs\<close>, \<open>monotonicity.rs\<close>) and its
    strategyproofness (\<open>mechanism.rs\<close>); \<open>Rule_Compiler\<close>: compilation over a declared family
    (\<open>compiler.rs\<close>), certificates (\<open>certificate.rs\<close>), sacrifices and their monitoring plans
    (\<open>sacrifice.rs\<close>), factor exposure (\<open>factor.rs\<close>).
  \<^item> \<open>Protocol_Spectral\<close>: influence matrices, Laplacian, Jacobi eigenvalues, monitoring cadence
    (\<open>protocol/state.rs\<close>, \<open>transitions.rs\<close>); \<open>Protocol_Clock\<close>: the timestamps;
    \<open>Protocol_State\<close>: sessions, ledgers, certificates and their validation; \<open>Protocol_Transitions\<close>,
    \<open>Protocol_Properties\<close>: declare, compile, measure, activate, decide, report drift, revise;
    \<open>Protocol_Supervision\<close>: pause, deny, stop, sandbox, reroute, roll back
    (\<open>protocol/supervision.rs\<close>); \<open>Protocol_Runs\<close>: the reachable states of the protocol.
  \<^item> \<open>Codex_Event\<close>, \<open>Codex_Stream\<close>: the records and the automaton of a command stream
    (\<open>trajectory/codex_exec_v0/event.rs\<close>, \<open>fsm.rs\<close>).
  \<^item> \<open>Executed_Composition\<close>: the guarded host and its independent checker
    (\<open>executed_composition/mod.rs\<close>).

  \<^bold>\<open>How the parts interact.\<close> A graph is built and validated by the builder; the traversal orders it
  with the cycle search's verdict as its guard, evaluates node after node and merges what edges
  forward. The diagnostics, the kernel axioms and the strategyproofness search call the traversal on
  perturbed batches; the checks of an allocation rule call its evaluation on perturbed claims and
  estates, the compiler runs them over a family and a certificate needs its verdict. The protocol calls all of them to evaluate a declared graph, and calls the
  traversal for each decision of an active session. The stream automaton and the executed
  composition stand by themselves.

  \<^bold>\<open>What the lemmas show.\<close> Of the graph: validation characterises the builder, the cycle search finds
  exactly the cyclic strongly connected classes, the order is topological, the traversal decides
  every claimant with its strictest final decision and fails only for the listed reasons. Of the
  axioms: what an admissible verdict means over all the perturbations tried, and that each
  rejection carries a genuine witness. Of the allocation rules: the seats an apportionment hands
  out and its house monotonicity, the coalitions the consistency check visits, what the verdicts
  on a rule mean, over doubles and over exact ratios, and that the rules which treat each claim by
  itself are consistent and solidary; that a certificate implies every axiom of the family, that no
  violation is left without a declared sacrifice, and that the permission rule is certified on every
  batch. Of the protocol: the violations an evaluation can name, the
  sacrifices a compilation demands, the alerts a decision raises, the invariant of every reachable
  session, the append-only ledger, and what each overlay decides. Of the stream automaton: the
  order, pairing and completion of the items of an accepted stream. Of the executed composition:
  the host never lets both fragments reach the public sink, and the checker is sound and total.

  \<^bold>\<open>Outside code as parameters.\<close> The regular expression engine (\<open>regex_engine\<close>), SHA-256 over the
  \<open>serde_json\<close> text of a value (\<open>hash_function\<close>), the JSON value of a reroute directive, the
  JSON lexer of a stream record, the ratio type of the exact consistency check, whose sums
  and differences over 64-bit integers may overflow and are exact as long as they do not, the iteration order
  of a hash map, and each reading of the clock.
  Facts about them are hypotheses of the theorems that need them, each met by a concrete instance
  in the theorem's witness.

  \<^bold>\<open>Conventions, bounds and fuel.\<close> An error is \<open>Inl\<close>, a panic is the fault \<open>Panicked\<close>, and a message
  is its format string with its arguments. \<open>usize\<close> is \<open>nat\<close> (a length in memory), \<open>u64\<close> is a
  64-bit word. Tarjan's search, the topological order and the enumeration of orders run on
  fuel computed from the graph, and each is proved never to run out; the Jacobi iteration has the
  bound of the code, \<open>16 n\<^sup>2\<close> sweeps; a loop over the coalitions of \<open>n\<close> claimants has fuel
  \<open>2 ^ n + 1\<close>, above the number of coalitions; the choice of a fresh node name terminates because a graph has
  finitely many names.

  \<^bold>\<open>What modelling showed.\<close> No cycle the search detects can be admissible, since the iteration never
  reports convergence; a claim modification on an edge has no effect; the probe claims lack the
  metric of a threshold node; a graph that denies every claim violates non-vacuity and never raises
  an alert; a reroute to named targets can leave other nodes as unguarded entries; a stop that is
  recorded as permanent can be rolled back; the apportionment rules give a house of tiny claims to
  the first claimant, because their tolerance is absolute; the consistency check over doubles sets
  the reduced estate to the survivors' shares, the exact one subtracts the removed shares.

  \<^bold>\<open>Not modelled.\<close> Code whose work is done by the operating system or a third-party parser: the
  transport of run files, process capture, the command line tools, the policy parsers, the source
  extraction; the ledger, a table in an SQL database, whose writes are arguments of the compiler. The
  sanitizer, the receipts and the trajectory interchange are byte-level filters over
  \<open>serde_json\<close> values and files. The spectral studies compute experiments in floating point and
  have no contract beyond the numbers they print.
\<close>

end
